(* ===== verification/Prelude.thy ===== *)
theory Prelude
  imports Main "HOL-Library.Word"
begin

text \<open>
  Shared by every theory of the development: the names of the machine integer types, the
  theorem collections that the component theories fill, and the generic lemmas on updated
  functions, sums of cells and lists that the component proofs rest on.
\<close>

type_synonym u8 = "8 word"
type_synonym u32 = "32 word"
type_synonym u64 = "64 word"

text \<open>
  \<open>inv_intros\<close> collects the preservation lemmas of the components, \<open>op_simps\<close> the equations
  that describe one operation of a component on the observable parts of its state.
\<close>

named_theorems inv_intros
named_theorems op_simps

section \<open>Cells: functions updated at one point\<close>

lemma sum_fun_upd [simp]:
  fixes f :: "nat \<Rightarrow> int"
  assumes "k < n"
  shows "(\<Sum>i<n. (f(k := v)) i) = (\<Sum>i<n. f i) + v - f k"
proof -
  have "(\<Sum>i<n. (f(k := v)) i) = (f(k := v)) k + (\<Sum>i\<in>{..<n} - {k}. (f(k := v)) i)"
    using assms by (intro sum.remove) auto
  also have "(\<Sum>i\<in>{..<n} - {k}. (f(k := v)) i) = (\<Sum>i\<in>{..<n} - {k}. f i)"
    by (intro sum.cong) auto
  also have "(\<Sum>i\<in>{..<n} - {k}. f i) = (\<Sum>i<n. f i) - f k"
    using assms by (simp add: sum_diff1)
  finally show ?thesis by simp
qed

lemma sum_fun_upd_outside [simp]:
  fixes f :: "nat \<Rightarrow> int"
  assumes "\<not> k < n"
  shows "(\<Sum>i<n. (f(k := v)) i) = (\<Sum>i<n. f i)"
  using assms by (intro sum.cong) auto

section \<open>Lists\<close>

lemma nth_Some_less [dest]:
  "i < length xs \<Longrightarrow> xs[i := v] ! i = v"
  by simp

lemma list_update_nth_cases:
  "i < length xs \<Longrightarrow> (xs[j := v]) ! i = (if i = j then v else xs ! i)"
  by (auto simp: nth_list_update)

section \<open>Strings as the C library reads them\<close>

fun digits_val :: "int \<Rightarrow> string \<Rightarrow> int" where
  "digits_val acc [] = acc"
| "digits_val acc (c # cs) =
     (if 48 \<le> (of_char c :: int) \<and> (of_char c :: int) \<le> 57
      then digits_val (acc * 10 + (of_char c - 48)) cs else acc)"

definition isspace :: "char \<Rightarrow> bool" where
  "isspace c \<longleftrightarrow> c = CHR '' '' \<or> (9 \<le> (of_char c :: int) \<and> (of_char c :: int) \<le> 13)"

definition atoi :: "string \<Rightarrow> int" where
  "atoi s =
     (case dropWhile isspace s of
        [] \<Rightarrow> 0
      | c # cs \<Rightarrow> if c = CHR ''-'' then - digits_val 0 cs
                  else if c = CHR ''+'' then digits_val 0 cs else digits_val 0 (c # cs))"

lemma atoi_examples: "atoi ''  42us'' = 42" "atoi ''-7'' = -7" "atoi [] = 0"
  by (simp_all add: atoi_def isspace_def)

text \<open>\<open>strtoull\<close> in base 10, which clamps at the largest value and takes a sign.\<close>

definition strtoull :: "string \<Rightarrow> u64" where
  "strtoull s =
     (let (neg, ds) = (case dropWhile isspace s of
            [] \<Rightarrow> (False, [])
          | c # cs \<Rightarrow> if c = CHR ''-'' then (True, cs) else if c = CHR ''+'' then (False, cs) else (False, c # cs));
          v = digits_val 0 ds
      in if 2 ^ 64 \<le> v then -1 else if neg then - of_int v else of_int v)"

lemma strtoull_examples: "strtoull '' 20000ns'' = 20000" "strtoull ''-1'' = -1" "strtoull [] = 0"
  by (simp_all add: strtoull_def isspace_def)

section \<open>Buffers in memory\<close>

type_synonym memory = "nat \<Rightarrow> u8"
type_synonym environ = "string \<Rightarrow> string option"

definition rd :: "memory \<Rightarrow> nat \<Rightarrow> nat \<Rightarrow> u8 list" where
  "rd m a n = map m [a..<a + n]"

definition wr :: "nat \<Rightarrow> u8 list \<Rightarrow> memory \<Rightarrow> memory" where
  "wr a bs m = (\<lambda>p. if a \<le> p \<and> p < a + length bs then bs ! (p - a) else m p)"

definition apart :: "nat \<Rightarrow> nat \<Rightarrow> nat \<Rightarrow> nat \<Rightarrow> bool" where
  "apart a n b k \<longleftrightarrow> a + n \<le> b \<or> b + k \<le> a"

lemma length_rd [simp]: "length (rd m a n) = n"
  by (simp add: rd_def)

lemma rd_wr_same [simp]: "length bs = n \<Longrightarrow> rd (wr a bs m) a n = bs"
  by (auto simp: rd_def wr_def intro: nth_equalityI)

lemma rd_wr_apart [simp]: "apart a (length bs) b n \<Longrightarrow> rd (wr a bs m) b n = rd m b n"
  by (auto simp: rd_def wr_def apart_def)

lemma wr_rd [simp]: "wr a (rd m a n) m = m"
  by (auto simp: wr_def rd_def fun_eq_iff)

end
