(* ===== verification/Ring.thy ===== *)
theory Ring
  imports Prelude
begin

text \<open>
  The bounded job ring that the server integrations share: a static array indexed modulo its
  length by two counters that only grow. The array has no full check: a producer that is a
  whole array ahead of the consumers overwrites an entry that is still pending. The locale
  \<open>fifo\<close> is the contract a client of such a queue relies on; it is interpreted on every ring
  of the sources in the theory of its component.
\<close>

record 'a ring =
  rbuf :: "nat \<Rightarrow> 'a"
  rhead :: nat
  rtail :: nat

definition ring_put :: "nat \<Rightarrow> 'a \<Rightarrow> 'a ring \<Rightarrow> 'a ring" where
  "ring_put N x r = r\<lparr>rbuf := (rbuf r)(rhead r mod N := x), rhead := Suc (rhead r)\<rparr>"

definition ring_get :: "nat \<Rightarrow> 'a ring \<Rightarrow> ('a \<times> 'a ring) option" where
  "ring_get N r =
     (if rhead r = rtail r then None
      else Some (rbuf r (rtail r mod N), r\<lparr>rtail := Suc (rtail r)\<rparr>))"

definition ring_empty :: "'a \<Rightarrow> 'a ring" where
  "ring_empty z = \<lparr>rbuf = (\<lambda>_. z), rhead = 0, rtail = 0\<rparr>"

text \<open>The pending entries, oldest first, and the two conditions on the counters.\<close>

definition ring_items :: "nat \<Rightarrow> 'a ring \<Rightarrow> 'a list" where
  "ring_items N r = map (\<lambda>i. rbuf r (i mod N)) [rtail r..<rhead r]"

definition ring_wf :: "nat \<Rightarrow> 'a ring \<Rightarrow> bool" where
  "ring_wf N r \<longleftrightarrow> rtail r \<le> rhead r \<and> rhead r - rtail r \<le> N"

definition ring_room :: "nat \<Rightarrow> 'a ring \<Rightarrow> bool" where
  "ring_room N r \<longleftrightarrow> rhead r - rtail r < N"

lemma mod_window_neq:
  fixes i h N :: nat
  assumes "i < h" "h - i < N"
  shows "i mod N \<noteq> h mod N"
proof
  assume eq: "i mod N = h mod N"
  with assms(1) have "N dvd h - i"
    by (metis less_imp_le_nat mod_eq_dvd_iff_nat)
  with assms show False by (auto dest: dvd_imp_le)
qed

lemma ring_items_put:
  assumes "ring_wf N r" "ring_room N r"
  shows "ring_items N (ring_put N x r) = ring_items N r @ [x]"
  using assms
  by (auto simp: ring_items_def ring_put_def ring_wf_def ring_room_def mod_window_neq)

lemma ring_wf_put: "ring_wf N r \<Longrightarrow> ring_room N r \<Longrightarrow> ring_wf N (ring_put N x r)"
  by (auto simp: ring_wf_def ring_room_def ring_put_def)

lemma ring_get_None: "ring_wf N r \<Longrightarrow> ring_get N r = None \<longleftrightarrow> ring_items N r = []"
  by (auto simp: ring_get_def ring_items_def ring_wf_def)

lemma ring_get_Some:
  assumes "ring_wf N r" "ring_get N r = Some (x, r')"
  shows "ring_items N r = x # ring_items N r'"
  using assms
  by (auto simp: ring_get_def ring_items_def ring_wf_def upt_conv_Cons split: if_splits)

lemma ring_wf_get: "ring_wf N r \<Longrightarrow> ring_get N r = Some (x, r') \<Longrightarrow> ring_wf N r'"
  by (auto simp: ring_get_def ring_wf_def split: if_splits)

lemma ring_items_empty [simp]: "ring_items N (ring_empty z) = []"
  by (simp add: ring_items_def ring_empty_def)

lemma ring_wf_empty [simp]: "ring_wf N (ring_empty z)"
  by (simp add: ring_wf_def ring_empty_def)

section \<open>The contract of a queue\<close>

datatype 'a qop = Put 'a | Get

text \<open>
  A run of producers and consumers: the submitted entries, the delivered entries and the last
  queue. A \<open>Get\<close> on an empty queue is a consumer that stays blocked. The run is \<open>None\<close> when a
  producer found no room.
\<close>

fun q_run :: "('a \<Rightarrow> 'q \<Rightarrow> 'q) \<Rightarrow> ('q \<Rightarrow> ('a \<times> 'q) option) \<Rightarrow> ('q \<Rightarrow> bool) \<Rightarrow>
    'a qop list \<Rightarrow> 'q \<Rightarrow> ('a list \<times> 'a list \<times> 'q) option" where
  "q_run put get room [] q = Some ([], [], q)"
| "q_run put get room (Put x # ops) q =
     (if room q
      then (case q_run put get room ops (put x q) of
              None \<Rightarrow> None | Some (sub, del, q') \<Rightarrow> Some (x # sub, del, q'))
      else None)"
| "q_run put get room (Get # ops) q =
     (case get q of
        None \<Rightarrow> q_run put get room ops q
      | Some (x, q1) \<Rightarrow>
          (case q_run put get room ops q1 of
             None \<Rightarrow> None | Some (sub, del, q') \<Rightarrow> Some (sub, x # del, q')))"

locale fifo =
  fixes put :: "'a \<Rightarrow> 'q \<Rightarrow> 'q"
    and get :: "'q \<Rightarrow> ('a \<times> 'q) option"
    and items :: "'q \<Rightarrow> 'a list"
    and room :: "'q \<Rightarrow> bool"
    and wf :: "'q \<Rightarrow> bool"
  assumes items_put: "wf q \<Longrightarrow> room q \<Longrightarrow> items (put x q) = items q @ [x]"
    and wf_put: "wf q \<Longrightarrow> room q \<Longrightarrow> wf (put x q)"
    and get_None: "wf q \<Longrightarrow> get q = None \<longleftrightarrow> items q = []"
    and get_Some: "wf q \<Longrightarrow> get q = Some (x, q') \<Longrightarrow> items q = x # items q'"
    and wf_get: "wf q \<Longrightarrow> get q = Some (x, q') \<Longrightarrow> wf q'"
begin

lemmas laws = items_put wf_put get_None get_Some wf_get

text \<open>Nothing is lost, duplicated or reordered between the producers and the consumers.\<close>

lemma run_conserves:
  assumes "wf q" "q_run put get room ops q = Some (sub, del, q')"
  shows "items q @ sub = del @ items q' \<and> wf q'"
  using assms
proof (induction ops arbitrary: q sub del)
  case Nil
  then show ?case by simp
next
  case (Cons op ops)
  show ?case
  proof (cases op)
    case (Put x)
    with Cons.prems obtain sub1 where
      "room q" "q_run put get room ops (put x q) = Some (sub1, del, q')" "sub = x # sub1"
      by (auto split: if_splits option.splits)
    with Cons.IH [OF wf_put [of q x]] Cons.prems(1) show ?thesis
      by (simp add: items_put)
  next
    case Get
    show ?thesis
    proof (cases "get q")
      case None
      with Get Cons show ?thesis by simp
    next
      case (Some p)
      obtain x q1 where p: "p = (x, q1)" by (cases p)
      with Some Get Cons.prems(2) obtain del1 where
        "q_run put get room ops q1 = Some (sub, del1, q')" "del = x # del1"
        by (auto split: option.splits)
      with Cons.IH [OF wf_get [OF Cons.prems(1)]] Some p get_Some [OF Cons.prems(1)]
      show ?thesis by simp
    qed
  qed
qed

text \<open>An entry that was submitted once is delivered at most once.\<close>

lemma run_delivers_once:
  assumes "wf q" "items q = []" "q_run put get room ops q = Some (sub, del, q')"
  shows "del = take (length del) sub"
  using run_conserves [OF assms(1,3)] assms(2) by (metis append_Nil append_eq_conv_conj)

end

interpretation ring: fifo "ring_put N" "ring_get N" "ring_items N" "ring_room N" "ring_wf N" for N
  by unfold_locales
    (auto simp: ring_items_put ring_wf_put ring_get_None ring_get_Some intro: ring_wf_get)

text \<open>
  What the missing full check costs: with a whole array pending, one more \<open>put\<close> replaces the
  oldest pending entry, so it is never delivered, and the new one is delivered twice.
\<close>

lemma ring_put_full:
  assumes "0 < N" "rhead r = rtail r + N"
  shows "ring_items N (ring_put N x r) = x # tl (ring_items N r) @ [x]"
proof -
  have "(rtail r + N) mod N = rtail r mod N" by simp
  moreover have "i mod N \<noteq> rtail r mod N" if "rtail r < i" "i < rtail r + N" for i
  proof -
    have "i - rtail r < N" using that by arith
    with that mod_window_neq [of "rtail r" i N] show ?thesis by auto
  qed
  ultimately show ?thesis
    using assms by (auto simp: ring_items_def ring_put_def upt_conv_Cons)
qed

end
