(* ===== verification/Fiber.thy ===== *)
theory Fiber
  imports Prelude
begin

text \<open>
  The fibers: the x86_64 context switch of \<open>fw_switch.S\<close> as a list of instructions with an
  interpreter, and \<open>fw_fiber.c\<close> over the same machine state. Memory is a map from addresses to
  quadwords: every access of this code is 8 bytes wide at an 8-aligned address, so distinct
  addresses are disjoint cells. A \<open>fw_fiber\<close> is its address; its six fields are the
  quadwords at offsets 0, 8, ..., 40, as the struct lays them out.
\<close>

unbundle bit_operations_syntax

section \<open>The machine\<close>

datatype reg = RBP | RBX | R12 | R13 | R14 | R15 | RSP | RDI | RSI

record mach =
  regs :: "reg \<Rightarrow> u64"
  mem :: "u64 \<Rightarrow> u64"
  rip :: u64

datatype instr =
    Pushq reg
  | Popq reg
  | Store reg reg
  | Movq reg reg
  | Andq u64 reg
  | Call u64 u64
  | Ret

text \<open>
  \<open>Store s d\<close> is \<open>movq %s, (%d)\<close>, \<open>Movq s d\<close> is \<open>movq %s, %d\<close>, \<open>Andq c d\<close> is
  \<open>andq $c, %d\<close> and \<open>Call t r\<close> is \<open>call t\<close> whose next instruction is at \<open>r\<close>.
\<close>

fun exec_instr :: "instr \<Rightarrow> mach \<Rightarrow> mach" where
  "exec_instr (Pushq r) m =
     (let sp = regs m RSP - 8
      in m\<lparr>regs := (regs m)(RSP := sp), mem := (mem m)(sp := regs m r)\<rparr>)"
| "exec_instr (Popq r) m =
     m\<lparr>regs := (regs m)(RSP := regs m RSP + 8, r := mem m (regs m RSP))\<rparr>"
| "exec_instr (Store s d) m = m\<lparr>mem := (mem m)(regs m d := regs m s)\<rparr>"
| "exec_instr (Movq s d) m = m\<lparr>regs := (regs m)(d := regs m s)\<rparr>"
| "exec_instr (Andq c d) m = m\<lparr>regs := (regs m)(d := regs m d AND c)\<rparr>"
| "exec_instr (Call t r) m =
     (let sp = regs m RSP - 8
      in m\<lparr>regs := (regs m)(RSP := sp), mem := (mem m)(sp := r), rip := t\<rparr>)"
| "exec_instr Ret m =
     m\<lparr>regs := (regs m)(RSP := regs m RSP + 8), rip := mem m (regs m RSP)\<rparr>"

fun exec :: "instr list \<Rightarrow> mach \<Rightarrow> mach" where
  "exec [] m = m"
| "exec (i # is) m = exec is (exec_instr i m)"

lemma exec_append: "exec (is @ js) m = exec js (exec is m)"
  by (induction "is" arbitrary: m) auto

section \<open>The context switch\<close>

definition fw_ctx_swap :: "instr list" where
  "fw_ctx_swap =
     [Pushq RBP, Pushq RBX, Pushq R12, Pushq R13, Pushq R14, Pushq R15,
      Store RSP RDI, Movq RSI RSP,
      Popq R15, Popq R14, Popq R13, Popq R12, Popq RBX, Popq RBP, Ret]"

definition fw_fiber_trampoline :: "u64 \<Rightarrow> u64 \<Rightarrow> instr list" where
  "fw_fiber_trampoline start ud2 = [Movq R15 RDI, Andq (-16) RSP, Call start ud2]"

text \<open>
  \<open>fw_fiber_switch from to\<close> is the C call \<open>fw_ctx_swap(&from->sp, to->sp)\<close>: \<open>sp\<close> is the
  first field, so the two arguments are the address \<open>from\<close> and the quadword at \<open>to\<close>. The call
  pushes the return address \<open>ret\<close>.
\<close>

definition fw_fiber_switch :: "u64 \<Rightarrow> u64 \<Rightarrow> u64 \<Rightarrow> mach \<Rightarrow> mach" where
  "fw_fiber_switch from to ret m =
     exec fw_ctx_swap
       (exec_instr (Call 0 ret)
          (m\<lparr>regs := (regs m)(RDI := from, RSI := mem m to)\<rparr>))"

text \<open>
  The frame that a switch leaves below the stack pointer of the caller: six registers and the
  return address. \<open>frame_cells\<close> are its seven cells, from the saved stack pointer up.
\<close>

definition frame_cells :: "u64 \<Rightarrow> u64 set" where
  "frame_cells s = {s, s + 8, s + 16, s + 24, s + 32, s + 40, s + 48}"

definition frame_holds :: "(u64 \<Rightarrow> u64) \<Rightarrow> u64 \<Rightarrow> (reg \<Rightarrow> u64) \<Rightarrow> u64 \<Rightarrow> bool" where
  "frame_holds h s r ret \<longleftrightarrow>
     h s = r R15 \<and> h (s + 8) = r R14 \<and> h (s + 16) = r R13 \<and> h (s + 24) = r R12 \<and>
     h (s + 32) = r RBX \<and> h (s + 40) = r RBP \<and> h (s + 48) = ret"

lemma frame_holds_cong:
  assumes "frame_holds h s r ret" "\<And>a. a \<in> frame_cells s \<Longrightarrow> h' a = h a"
  shows "frame_holds h' s r ret"
  using assms by (simp add: frame_holds_def frame_cells_def)

definition same_callee_saved :: "(reg \<Rightarrow> u64) \<Rightarrow> (reg \<Rightarrow> u64) \<Rightarrow> bool" where
  "same_callee_saved r r' \<longleftrightarrow>
     r RBP = r' RBP \<and> r RBX = r' RBX \<and> r R12 = r' R12 \<and> r R13 = r' R13 \<and>
     r R14 = r' R14 \<and> r R15 = r' R15"

text \<open>
  The switch in three phases: push the frame, exchange the stack pointers, pop the other frame.
\<close>

lemma sub8: "s + 56 - 8 = s + (48::u64)" "s + 48 - 8 = s + (40::u64)" "s + 40 - 8 = s + (32::u64)"
  "s + 32 - 8 = s + (24::u64)" "s + 24 - 8 = s + (16::u64)" "s + 16 - 8 = s + (8::u64)" "s + 8 - 8 = (s::u64)"
  by (simp_all add: algebra_simps)
lemma add8: "s + 8 + 8 = s + (16::u64)" "s + 16 + 8 = s + (24::u64)" "s + 24 + 8 = s + (32::u64)"
  "s + 32 + 8 = s + (40::u64)" "s + 40 + 8 = s + (48::u64)" "s + 48 + 8 = s + (56::u64)"
  by (simp_all add: algebra_simps)

definition frame_store :: "(u64 \<Rightarrow> u64) \<Rightarrow> u64 \<Rightarrow> (reg \<Rightarrow> u64) \<Rightarrow> (u64 \<Rightarrow> u64)" where
 "frame_store h s r = h(s + 40 := r RBP, s + 32 := r RBX, s + 24 := r R12, s + 16 := r R13,
    s + 8 := r R14, s := r R15)"

lemma exec_pushes:
  assumes "regs m RSP = s + 48" 
  shows "exec [Pushq RBP, Pushq RBX, Pushq R12, Pushq R13, Pushq R14, Pushq R15] m =
    m\<lparr>regs := (regs m)(RSP := s), mem := frame_store (mem m) s (regs m)\<rparr>"
  using assms by (simp add: sub8 frame_store_def Let_def)


definition pop_frame :: "mach \<Rightarrow> mach" where
  "pop_frame m = exec [Popq R15, Popq R14, Popq R13, Popq R12, Popq RBX, Popq RBP, Ret] m"

lemma pop_frame:
  assumes "regs m RSP = t"
  shows "mem (pop_frame m) = mem m"
    and "rip (pop_frame m) = mem m (t + 48)"
    and "regs (pop_frame m) RSP = t + 56"
    and "frame_holds (mem m) t r ret \<Longrightarrow> same_callee_saved (regs (pop_frame m)) r"
  using assms by (simp_all add: pop_frame_def add8 frame_holds_def same_callee_saved_def)

lemma switch_eq:
  assumes "regs m RSP = s + 56" 
  shows "\<exists>m1. fw_fiber_switch from to ret m = pop_frame m1 \<and> regs m1 RSP = mem m to \<and>
    mem m1 = (frame_store ((mem m)(s + 48 := ret)) s (regs m))(from := s)"
proof -
  have split: "fw_ctx_swap = [Pushq RBP, Pushq RBX, Pushq R12, Pushq R13, Pushq R14, Pushq R15] @
     [Store RSP RDI, Movq RSI RSP] @ [Popq R15, Popq R14, Popq R13, Popq R12, Popq RBX, Popq RBP, Ret]"
    by (simp add: fw_ctx_swap_def)
  let ?h = "(frame_store ((mem m)(s + 48 := ret)) s (regs m))(from := s)"
  let ?m1 = "m\<lparr>regs := (regs m)(RDI := from, RSI := mem m to, RSP := mem m to), mem := ?h, rip := 0\<rparr>"
  have fs: "frame_store h s (r(RDI := a, RSI := b, RSP := c)) = frame_store h s r" for h r a b c
    by (simp add: frame_store_def)
  have "fw_fiber_switch from to ret m = pop_frame ?m1"
    unfolding fw_fiber_switch_def split exec_append pop_frame_def
    using assms by (simp add: Let_def sub8 exec_pushes [where s = s] fs del: exec.simps(2)) simp
  then show ?thesis by (intro exI [of _ ?m1]) simp
qed

lemma frame_store_cells:
  "frame_holds (frame_store (h(s + 48 := ret)) s r) s r ret"
  "a \<notin> frame_cells s \<Longrightarrow> frame_store (h(s + 48 := ret)) s r a = h a"
  by (simp_all add: frame_holds_def frame_store_def frame_cells_def)

text \<open>Going out: the frame is complete, its address is in the fiber, nothing else changed.\<close>

lemma switch_out:
  fixes m :: mach
  defines "s \<equiv> regs m RSP - 56"
  assumes "from \<notin> frame_cells s"
  shows "mem (fw_fiber_switch from to ret m) from = s"
    and "frame_holds (mem (fw_fiber_switch from to ret m)) s (regs m) ret"
    and "\<And>a. a \<notin> frame_cells s \<Longrightarrow> a \<noteq> from \<Longrightarrow>
           mem (fw_fiber_switch from to ret m) a = mem m a"
proof -
  have "regs m RSP = s + 56" by (simp add: s_def)
  from switch_eq [OF this, of "from" "to" ret]
  have h: "mem (fw_fiber_switch from to ret m) =
      (frame_store ((mem m)(s + 48 := ret)) s (regs m))(from := s)"
    by (auto simp: pop_frame(1))
  then show "mem (fw_fiber_switch from to ret m) from = s" by simp
  show "frame_holds (mem (fw_fiber_switch from to ret m)) s (regs m) ret"
    using assms(2) h by (auto intro: frame_holds_cong [OF frame_store_cells(1)])
  fix a assume "a \<notin> frame_cells s" "a \<noteq> from"
  then show "mem (fw_fiber_switch from to ret m) a = mem m a"
    by (simp add: h frame_store_cells(2))
qed

text \<open>Coming in: the registers, the stack pointer and the return address are the frame's.\<close>

lemma switch_in:
  fixes m :: mach and "to" :: u64
  defines "s \<equiv> regs m RSP - 56" and "t \<equiv> mem m to"
  assumes frame: "frame_holds (mem m) t r retaddr"
    and disj: "frame_cells s \<inter> frame_cells t = {}" "from \<notin> frame_cells t"
  shows "same_callee_saved (regs (fw_fiber_switch from to ret m)) r"
    and "regs (fw_fiber_switch from to ret m) RSP = t + 56"
    and "rip (fw_fiber_switch from to ret m) = retaddr"
proof -
  have "regs m RSP = s + 56" by (simp add: s_def)
  from switch_eq [OF this, of "from" "to" ret] obtain m1 where
    m1: "fw_fiber_switch from to ret m = pop_frame m1" "regs m1 RSP = t"
      "mem m1 = (frame_store ((mem m)(s + 48 := ret)) s (regs m))(from := s)"
    by (auto simp: t_def)
  have f1: "frame_holds (mem m1) t r retaddr"
    using disj by (intro frame_holds_cong [OF frame]) (auto simp: m1(3) intro!: frame_store_cells(2))
  from pop_frame [OF m1(2)] f1 
  show "same_callee_saved (regs (fw_fiber_switch from to ret m)) r"
    and "regs (fw_fiber_switch from to ret m) RSP = t + 56"
    and "rip (fw_fiber_switch from to ret m) = retaddr"
    by (auto simp: m1(1) frame_holds_def)
qed

text \<open>C10: A fiber that switches away is resumed, by any later switch to it, with the callee-saved
  registers, the stack pointer and the return address it had at the call, whatever the other
  fibers did in between to the rest of memory and to the registers.\<close>

theorem switch_round_trip:
  assumes "f \<notin> frame_cells (regs m RSP - 56)"
    and "\<forall>a \<in> insert f (frame_cells (regs m RSP - 56)). mem m2 a = mem (fw_fiber_switch f g ret m) a"
    and "frame_cells (regs m2 RSP - 56) \<inter> frame_cells (regs m RSP - 56) = {}"
    and "g2 \<notin> frame_cells (regs m RSP - 56)"
  shows "same_callee_saved (regs (fw_fiber_switch g2 f ret2 m2)) (regs m) \<and>
    regs (fw_fiber_switch g2 f ret2 m2) RSP = regs m RSP \<and>
    rip (fw_fiber_switch g2 f ret2 m2) = ret"
proof -
  let ?s = "regs m RSP - 56"
  note out = switch_out [of f m g ret, OF assms(1)]
  from out(1) assms(2) have at: "mem m2 f = ?s" by simp
  have "frame_holds (mem m2) (mem m2 f) (regs m) ret"
    unfolding at using assms(2) by (intro frame_holds_cong [OF out(2)]) simp
  from switch_in [OF this, of g2 ret2] assms(3,4) show ?thesis by (simp add: at)
qed

definition example_mach :: mach where
  "example_mach = \<lparr>regs = (\<lambda>r. if r = RSP then 4096 else 5), mem = (\<lambda>_. 0), rip = 0\<rparr>"

theorem switch_round_trip_witness:
  "rip (fw_fiber_switch 32768 16384 78
     ((fw_fiber_switch 16384 32768 77 example_mach)\<lparr>regs := (\<lambda>_. 65536)\<rparr>)) = 77"
  using switch_round_trip [of 16384 example_mach
      "(fw_fiber_switch 16384 32768 77 example_mach)\<lparr>regs := (\<lambda>_. 65536)\<rparr>" 32768 77 32768 78]
  by (simp add: example_mach_def frame_cells_def)

section \<open>Making, starting and freeing a fiber\<close>

text \<open>
  \<open>posix_memalign\<close> is the parameter \<open>memalign\<close>: the block it returns for a size, or \<open>None\<close> for a
  failure, on which the code aborts. The size is a \<open>size_t\<close>, so the rounding wraps.
\<close>

definition round_stack :: "u64 \<Rightarrow> u64" where
  "round_stack stack_size =
     (let s = (if stack_size < 16384 then 16384 else stack_size)
      in (s + 4095) AND NOT 4095)"

lemma and_not_mask_eq: "x AND NOT (mask n) = x - take_bit n (x :: 'a::len word)"
proof -
  have "x AND NOT (take_bit n x) = x AND NOT (mask n)"
    by (rule bit_word_eqI) (auto simp: bit_simps)
  moreover have "NOT x AND take_bit n x = 0"
    by (rule bit_word_eqI) (auto simp: bit_simps)
  ultimately show ?thesis by (metis disjunctive_diff_eq_and_not)
qed

lemma unat_and_not_4095: "unat (x AND NOT 4095 :: u64) = unat x - unat x mod 4096"
proof -
  have m: "(4095 :: u64) = mask 12" by (simp add: mask_eq_exp_minus_1)
  have "unat (take_bit 12 x) = unat x mod 4096"
    by (simp add: unsigned_take_bit_eq take_bit_eq_mod unat_mod)
  moreover have "take_bit 12 x \<le> x"
    by (simp add: word_le_nat_alt unsigned_take_bit_eq take_bit_eq_mod unat_mod)
  ultimately show ?thesis
    by (simp only: m and_not_mask_eq) (simp add: unat_sub)
qed

text \<open>The stack a fiber gets holds what was asked for: at least the requested size and 16 KiB,
  a multiple of the page size, and less than a page more than the larger of the two.\<close>

theorem round_stack_bounds:
  assumes "unat n \<le> 2 ^ 64 - 4096"
  shows "unat n \<le> unat (round_stack n) \<and> 16384 \<le> unat (round_stack n) \<and>
    unat (round_stack n) mod 4096 = 0 \<and> unat (round_stack n) < max 16384 (unat n) + 4096"
proof -
  define s where "s = (if n < 16384 then 16384 else n)"
  have s: "unat s = max 16384 (unat n)" by (simp add: s_def word_less_nat_alt max_def)
  with assms have "unat (s + 4095) = unat s + 4095"
    by (simp add: unat_plus_if' max_def split: if_splits)
  then have r: "unat (round_stack n) = unat s + 4095 - (unat s + 4095) mod 4096"
    by (simp only: round_stack_def Let_def s_def [symmetric] unat_and_not_4095)
  have "(unat s + 4095) mod 4096 < 4096" by simp
  moreover have "unat (round_stack n) mod 4096 = 0"
    unfolding r by (metis minus_mod_eq_mult_div mod_mult_self1_is_0)
  moreover have "unat n \<le> unat s" "16384 \<le> unat s" by (simp_all add: s)
  ultimately show ?thesis unfolding s [symmetric] using r by (intro conjI) linarith+
qed

theorem round_stack_bounds_witness: "unat (round_stack 20000) < 24096"
  using round_stack_bounds [of 20000] by simp
definition initial_frame :: "(u64 \<Rightarrow> u64) \<Rightarrow> u64 \<Rightarrow> u64 \<Rightarrow> u64 \<Rightarrow> (u64 \<Rightarrow> u64)" where
  "initial_frame h sp f trampoline =
     h(sp := f, sp + 8 := 0, sp + 16 := 0, sp + 24 := 0, sp + 32 := 0, sp + 40 := 0,
       sp + 48 := trampoline)"

definition fw_fiber_make ::
    "(u64 \<Rightarrow> u64 option) \<Rightarrow> u64 \<Rightarrow> u64 \<Rightarrow> u64 \<Rightarrow> u64 \<Rightarrow> u64 \<Rightarrow> u64 \<Rightarrow> mach \<Rightarrow> mach option" where
  "fw_fiber_make memalign trampoline f stack_size entry arg link m =
     (let sz = round_stack stack_size
      in case memalign sz of
           None \<Rightarrow> None
         | Some base \<Rightarrow>
             (let h0 = (\<lambda>a. if a - base < sz then 0 else mem m a);
                  h1 = h0(f + 8 := base, f + 16 := sz, f + 24 := entry,
                          f + 32 := arg, f + 40 := link);
                  top = (base + sz) AND NOT 0xF;
                  sp = top - 64;
                  h2 = initial_frame h1 sp f trampoline
              in Some (m\<lparr>mem := h2(f := sp)\<rparr>)))"

definition fw_fiber_init_self :: "u64 \<Rightarrow> mach \<Rightarrow> mach" where
  "fw_fiber_init_self self m =
     m\<lparr>mem := (mem m)(self := 0, self + 8 := 0, self + 16 := 0,
                       self + 24 := 0, self + 32 := 0, self + 40 := 0)\<rparr>"

definition fw_fiber_free :: "u64 \<Rightarrow> mach \<Rightarrow> u64 option \<times> mach" where
  "fw_fiber_free f m =
     (if f \<noteq> 0 \<and> mem m (f + 8) \<noteq> 0
      then (Some (mem m (f + 8)), m\<lparr>mem := (mem m)(f + 8 := 0)\<rparr>)
      else (None, m))"

datatype start_end = SwitchTo u64 u64 | Abort

definition fw_fiber_start :: "u64 \<Rightarrow> mach \<Rightarrow> (u64 \<times> u64) \<times> (mach \<Rightarrow> start_end)" where
  "fw_fiber_start f m =
     ((mem m (f + 24), mem m (f + 32)),
      (\<lambda>m'. if mem m' (f + 40) \<noteq> 0 then SwitchTo f (mem m' (f + 40)) else Abort))"

definition new_frame :: "u64 \<Rightarrow> u64 \<Rightarrow> u64" where
  "new_frame base sz = ((base + sz) AND NOT 0xF) - 64"


lemma initial_frame_holds:
  "frame_holds (initial_frame h s f trampoline) s ((\<lambda>_. 0)(R15 := f)) trampoline"
  by (simp add: initial_frame_def frame_holds_def)

lemma fw_fiber_make_frame:
  assumes make: "fw_fiber_make memalign trampoline f n entry arg link m = Some m'"
    and base: "memalign (round_stack n) = Some base"
    and off: "f \<notin> frame_cells (new_frame base (round_stack n))"
  shows "mem m' f = new_frame base (round_stack n)"
    and "frame_holds (mem m') (new_frame base (round_stack n)) ((\<lambda>_. 0)(R15 := f)) trampoline"
proof -
  let ?s = "new_frame base (round_stack n)"
  define h where "h = (\<lambda>a. if a - base < round_stack n then 0 else mem m a)
    (f + 8 := base, f + 16 := round_stack n, f + 24 := entry, f + 32 := arg, f + 40 := link)"
  have "Some m' = Some (m\<lparr>mem := (initial_frame h ?s f trampoline)(f := ?s)\<rparr>)"
    unfolding make [symmetric] fw_fiber_make_def Let_def base option.case new_frame_def h_def ..
  then have h: "mem m' = (initial_frame h ?s f trampoline)(f := ?s)" by simp
  then show "mem m' f = ?s" by simp
  show "frame_holds (mem m') ?s ((\<lambda>_. 0)(R15 := f)) trampoline"
    using off by (intro frame_holds_cong [OF initial_frame_holds]) (auto simp: h)
qed
section \<open>The first activation\<close>

lemma trampoline_exec:
  "regs (exec (fw_fiber_trampoline start ud2) m) RDI = regs m R15"
  "rip (exec (fw_fiber_trampoline start ud2) m) = start"
  "(regs (exec (fw_fiber_trampoline start ud2) m) RSP + 8) AND 15 = 0"
  by (simp_all add: fw_fiber_trampoline_def Let_def and.assoc)

text \<open>The first switch into a freshly made fiber enters the trampoline, which calls
  \<open>fw_fiber_start\<close> with the fiber as its argument and the stack aligned as the ABI asks at a
  function's entry.\<close>

theorem fiber_first_activation:
  assumes make: "fw_fiber_make memalign trampoline f n entry arg link m = Some m1"
    and base: "memalign (round_stack n) = Some base"
    and off: "f \<notin> frame_cells (new_frame base (round_stack n))"
    and kept: "\<forall>a \<in> insert f (frame_cells (new_frame base (round_stack n))). mem m2 a = mem m1 a"
    and sched: "frame_cells (regs m2 RSP - 56) \<inter> frame_cells (new_frame base (round_stack n)) = {}"
      "g \<notin> frame_cells (new_frame base (round_stack n))"
  shows "rip (fw_fiber_switch g f ret m2) = trampoline \<and>
    (let m3 = exec (fw_fiber_trampoline start ud2) (fw_fiber_switch g f ret m2)
     in rip m3 = start \<and> regs m3 RDI = f \<and> (regs m3 RSP + 8) AND 15 = 0)"
proof -
  note made = fw_fiber_make_frame [OF make base off]
  from kept made have sp: "mem m2 f = new_frame base (round_stack n)" by simp
  have "frame_holds (mem m2) (mem m2 f) ((\<lambda>_. 0)(R15 := f)) trampoline"
    unfolding sp using kept by (intro frame_holds_cong [OF made(2)]) simp
  from switch_in [OF this, of g ret] sched
  show ?thesis by (simp add: sp trampoline_exec same_callee_saved_def)
qed

theorem fiber_first_activation_witness:
  "\<exists>m1. fw_fiber_make (\<lambda>_. Some 65536) 7 9437184 65536 1 2 3 example_mach = Some m1 \<and>
     rip (fw_fiber_switch 9438208 9437184 99 (m1\<lparr>regs := (\<lambda>_. 8388608)\<rparr>)) = 7"
proof -
  have size: "round_stack 65536 = 65536" by (simp add: round_stack_def)
  obtain m1 where m1:
    "fw_fiber_make (\<lambda>_. Some 65536) 7 9437184 65536 1 2 3 example_mach = Some m1"
    by (simp add: fw_fiber_make_def Let_def)
  from fiber_first_activation [OF m1, of 65536 "m1\<lparr>regs := (\<lambda>_. 8388608)\<rparr>" 9438208 99]
  have "rip (fw_fiber_switch 9438208 9437184 99 (m1\<lparr>regs := (\<lambda>_. 8388608)\<rparr>)) = 7"
    by (simp add: size new_frame_def frame_cells_def)
  with m1 show ?thesis by blast
qed

section \<open>Freeing\<close>

text \<open>A fiber's stack is released at most once: the second free finds a null base.\<close>

lemma fw_fiber_free_once:
  "fst (fw_fiber_free f (snd (fw_fiber_free f m))) = None"
  by (simp add: fw_fiber_free_def)

lemma fw_fiber_free_scheduler: "fst (fw_fiber_free f (fw_fiber_init_self f m)) = None"
  by (simp add: fw_fiber_free_def fw_fiber_init_self_def)

text \<open>An entry function that returns goes back to the linked fiber, and aborts without one.\<close>

lemma fw_fiber_start_end:
  "snd (fw_fiber_start f m) m' = (if mem m' (f + 40) = 0 then Abort else SwitchTo f (mem m' (f + 40)))"
  by (simp add: fw_fiber_start_def)

end
