(* ===== verification/FiberArm.thy ===== *)
theory FiberArm
  imports Fiber
begin

text \<open>
  The aarch64 variant of the context switch: the instructions of \<open>fw_switch.S\<close>, the frame that \<open>fw_fiber.c\<close> lays out
  for them, and the first activation. Memory is again a map from 8-aligned addresses to quadwords, and a fiber is its
  address. \<open>simd n\<close> is the low half of the vector register \<open>v\<close>n, which the procedure call standard asks a callee to
  preserve for n from 8 to 15.
\<close>

unbundle bit_operations_syntax

section \<open>The machine\<close>

datatype areg = X0 | X1 | X2 | X19 | X20 | X21 | X22 | X23 | X24 | X25 | X26 | X27 | X28 | X29 | X30 | SP

record amach =
  xregs :: "areg \<Rightarrow> u64"
  simd :: "nat \<Rightarrow> u64"
  amem :: "u64 \<Rightarrow> u64"
  pc :: u64

text \<open>
  \<open>Stp r s n\<close> is \<open>stp r, s, [sp, #n]\<close>, \<open>Ldp\<close> its load, \<open>Str r d\<close> is \<open>str r, [d]\<close>, \<open>Mov d r\<close> is \<open>mov d, r\<close>, and
  \<open>Bl t r\<close> is \<open>bl t\<close> whose next instruction is at \<open>r\<close>.
\<close>

datatype ainstr =
    SubSp u64
  | AddSp u64
  | Stp areg areg u64
  | Ldp areg areg u64
  | Mov areg areg
  | Str areg areg
  | Bl u64 u64
  | ARet

fun exec_ainstr :: "ainstr \<Rightarrow> amach \<Rightarrow> amach" where
  "exec_ainstr (SubSp n) m = m\<lparr>xregs := (xregs m)(SP := xregs m SP - n)\<rparr>"
| "exec_ainstr (AddSp n) m = m\<lparr>xregs := (xregs m)(SP := xregs m SP + n)\<rparr>"
| "exec_ainstr (Stp r s n) m = m\<lparr>amem := (amem m)(xregs m SP + n := xregs m r, xregs m SP + (n + 8) := xregs m s)\<rparr>"
| "exec_ainstr (Ldp r s n) m =
     m\<lparr>xregs := (xregs m)(r := amem m (xregs m SP + n), s := amem m (xregs m SP + (n + 8)))\<rparr>"
| "exec_ainstr (Mov d r) m = m\<lparr>xregs := (xregs m)(d := xregs m r)\<rparr>"
| "exec_ainstr (Str r d) m = m\<lparr>amem := (amem m)(xregs m d := xregs m r)\<rparr>"
| "exec_ainstr (Bl t r) m = m\<lparr>xregs := (xregs m)(X30 := r), pc := t\<rparr>"
| "exec_ainstr ARet m = m\<lparr>pc := xregs m X30\<rparr>"

definition aexec :: "ainstr list \<Rightarrow> amach \<Rightarrow> amach" where
  "aexec is m = fold exec_ainstr is m"

section \<open>The context switch\<close>

definition arm_ctx_swap :: "ainstr list" where
  "arm_ctx_swap =
     [SubSp 112, Stp X19 X20 0, Stp X21 X22 16, Stp X23 X24 32, Stp X25 X26 48, Stp X27 X28 64, Stp X29 X30 80,
      Mov X2 SP, Str X2 X0, Mov SP X1,
      Ldp X19 X20 0, Ldp X21 X22 16, Ldp X23 X24 32, Ldp X25 X26 48, Ldp X27 X28 64, Ldp X29 X30 80, AddSp 112, ARet]"

definition arm_trampoline :: "u64 \<Rightarrow> u64 \<Rightarrow> ainstr list" where
  "arm_trampoline start brk = [Mov X0 X19, Bl start brk]"

text \<open>\<open>fw_fiber_switch\<close> is the call of \<open>fw_ctx_swap\<close>, which leaves the return address in the link register.\<close>

definition arm_fiber_switch :: "u64 \<Rightarrow> u64 \<Rightarrow> u64 \<Rightarrow> amach \<Rightarrow> amach" where
  "arm_fiber_switch from to ret m =
     aexec arm_ctx_swap (exec_ainstr (Bl 0 ret) (m\<lparr>xregs := (xregs m)(X0 := from, X1 := amem m to)\<rparr>))"

text \<open>The twelve used cells of the frame of 112 bytes at \<open>s\<close>, and what is in them.\<close>

definition arm_cells :: "u64 \<Rightarrow> u64 set" where
  "arm_cells s = {s, s + 8, s + 16, s + 24, s + 32, s + 40, s + 48, s + 56, s + 64, s + 72, s + 80, s + 88}"

definition arm_frame :: "(u64 \<Rightarrow> u64) \<Rightarrow> u64 \<Rightarrow> (areg \<Rightarrow> u64) \<Rightarrow> bool" where
  "arm_frame h s r \<longleftrightarrow>
     h s = r X19 \<and> h (s + 8) = r X20 \<and> h (s + 16) = r X21 \<and> h (s + 24) = r X22 \<and> h (s + 32) = r X23 \<and> h (s + 40) = r X24
     \<and> h (s + 48) = r X25 \<and> h (s + 56) = r X26 \<and> h (s + 64) = r X27 \<and> h (s + 72) = r X28 \<and> h (s + 80) = r X29
     \<and> h (s + 88) = r X30"

definition arm_store :: "(u64 \<Rightarrow> u64) \<Rightarrow> u64 \<Rightarrow> (areg \<Rightarrow> u64) \<Rightarrow> u64 \<Rightarrow> u64" where
  "arm_store h s r = h(s := r X19, s + 8 := r X20, s + 16 := r X21, s + 24 := r X22, s + 32 := r X23, s + 40 := r X24,
     s + 48 := r X25, s + 56 := r X26, s + 64 := r X27, s + 72 := r X28, s + 80 := r X29, s + 88 := r X30)"

definition arm_saved :: "areg list" where
  "arm_saved = [X19, X20, X21, X22, X23, X24, X25, X26, X27, X28, X29]"

lemma arm_store_frame: "arm_frame (arm_store h s r) s r"
  by (simp add: arm_frame_def arm_store_def)

lemma arm_store_other: "a \<notin> arm_cells s \<Longrightarrow> arm_store h s r a = h a"
  by (simp add: arm_cells_def arm_store_def)

lemma arm_frame_cong: "arm_frame h s r \<Longrightarrow> (\<And>a. a \<in> arm_cells s \<Longrightarrow> h' a = h a) \<Longrightarrow> arm_frame h' s r"
  by (simp add: arm_frame_def arm_cells_def)

lemma arm_switch_mem:
  "amem (arm_fiber_switch from to ret m)
     = (arm_store (amem m) (xregs m SP - 112) ((xregs m)(X30 := ret)))(from := xregs m SP - 112)"
  by (simp add: arm_fiber_switch_def arm_ctx_swap_def aexec_def arm_store_def)

lemma arm_switch_simd: "simd (arm_fiber_switch from to ret m) = simd m"
  by (simp add: arm_fiber_switch_def arm_ctx_swap_def aexec_def)

text \<open>Coming in: the registers are the frame's, whatever the switch stored before.\<close>

lemma arm_switch_in:
  assumes frame: "arm_frame (amem (arm_fiber_switch from to ret m)) (amem m to) r"
  shows "\<forall>x \<in> set arm_saved. xregs (arm_fiber_switch from to ret m) x = r x"
    and "pc (arm_fiber_switch from to ret m) = r X30"
    and "xregs (arm_fiber_switch from to ret m) SP = amem m to + 112"
  using frame
  by (simp_all add: arm_fiber_switch_def arm_ctx_swap_def aexec_def arm_frame_def arm_saved_def)

text \<open>On aarch64 a fiber that switches away is resumed with its registers x19 to x29, its stack pointer and its return
  address, whatever the other fibers did to the registers and to the rest of memory. The callee-saved halves of the
  vector registers are not among them: the fiber finds there what the last fiber left.\<close>

theorem arm_switch_round_trip:
  assumes "f \<notin> arm_cells (xregs m SP - 112)"
    and "\<forall>a \<in> insert f (arm_cells (xregs m SP - 112)). amem m2 a = amem (arm_fiber_switch f g ret m) a"
    and "arm_cells (xregs m2 SP - 112) \<inter> arm_cells (xregs m SP - 112) = {}"
    and "g2 \<notin> arm_cells (xregs m SP - 112)"
  shows "(\<forall>x \<in> set arm_saved. xregs (arm_fiber_switch g2 f ret2 m2) x = xregs m x)
     \<and> xregs (arm_fiber_switch g2 f ret2 m2) SP = xregs m SP \<and> pc (arm_fiber_switch g2 f ret2 m2) = ret
     \<and> (\<forall>n. simd (arm_fiber_switch g2 f ret2 m2) n = simd m2 n)"
proof -
  let ?s = "xregs m SP - 112" and ?r = "(xregs m)(X30 := ret)"
  have at: "amem m2 f = ?s"
    using assms(2) by (simp add: arm_switch_mem)
  have "arm_frame (amem (arm_fiber_switch f g ret m)) ?s ?r"
    using assms(1) by (intro arm_frame_cong [OF arm_store_frame]) (auto simp: arm_switch_mem)
  then have "arm_frame (amem m2) ?s ?r"
    using assms(2) by (elim arm_frame_cong) simp
  moreover have "amem (arm_fiber_switch g2 f ret2 m2) a = amem m2 a" if "a \<in> arm_cells ?s" for a
    using that assms(3,4) by (auto simp: arm_switch_mem intro!: arm_store_other)
  ultimately have "arm_frame (amem (arm_fiber_switch g2 f ret2 m2)) (amem m2 f) ?r"
    unfolding at by (elim arm_frame_cong) simp
  from arm_switch_in [OF this] show ?thesis
    by (auto simp: at arm_saved_def arm_switch_simd)
qed

text \<open>Another fiber puts 7 into d8 while fiber 16384 is parked.\<close>

definition example_arm :: amach where
  "example_arm = \<lparr>xregs = (\<lambda>r. if r = SP then 4096 else 5), simd = (\<lambda>_. 1), amem = (\<lambda>_. 0), pc = 0\<rparr>"

theorem arm_switch_round_trip_witness:
  "let m = arm_fiber_switch 32768 16384 78
     ((arm_fiber_switch 16384 32768 77 example_arm)\<lparr>xregs := (\<lambda>_. 65536), simd := (\<lambda>_. 7)\<rparr>)
   in xregs m X19 = 5 \<and> pc m = 77 \<and> simd m 8 = 7 \<and> simd example_arm 8 = 1"
  using arm_switch_round_trip [of 16384 example_arm
      "(arm_fiber_switch 16384 32768 77 example_arm)\<lparr>xregs := (\<lambda>_. 65536), simd := (\<lambda>_. 7)\<rparr>" 32768 77 32768 78]
  by (simp add: example_arm_def arm_cells_def arm_saved_def Let_def)

section \<open>A fresh fiber\<close>

definition arm_initial_frame :: "(u64 \<Rightarrow> u64) \<Rightarrow> u64 \<Rightarrow> u64 \<Rightarrow> u64 \<Rightarrow> u64 \<Rightarrow> u64" where
  "arm_initial_frame h sp f trampoline = (\<lambda>a. if a - sp < 14 * 8 then 0 else h a)(sp := f, sp + 11 * 8 := trampoline)"

definition arm_fiber_make ::
    "(u64 \<Rightarrow> u64 option) \<Rightarrow> u64 \<Rightarrow> u64 \<Rightarrow> u64 \<Rightarrow> u64 \<Rightarrow> u64 \<Rightarrow> u64 \<Rightarrow> amach \<Rightarrow> amach option" where
  "arm_fiber_make memalign trampoline f stack_size entry arg link m =
     (let sz = round_stack stack_size
      in case memalign sz of
           None \<Rightarrow> None
         | Some base \<Rightarrow>
             (let h = (\<lambda>a. if a - base < sz then 0 else amem m a)
                (f + 8 := base, f + 16 := sz, f + 24 := entry, f + 32 := arg, f + 40 := link);
                  top = (base + sz) AND NOT 0xF;
                  sp = top - 14 * 8
              in Some (m\<lparr>amem := (arm_initial_frame h sp f trampoline)(f := sp)\<rparr>)))"

lemma arm_initial_frame_holds: "arm_frame (arm_initial_frame h s f tr) s ((\<lambda>_. 0)(X19 := f, X30 := tr))"
  by (simp add: arm_initial_frame_def arm_frame_def)

text \<open>On aarch64 the first switch into a fresh fiber enters the trampoline, which calls \<open>fw_fiber_start\<close> with the fiber
  as its argument and the stack pointer aligned to 16.\<close>

theorem arm_first_activation:
  assumes make: "arm_fiber_make memalign trampoline f n entry arg link m = Some m1"
    and base: "memalign (round_stack n) = Some base" and s: "s = ((base + round_stack n) AND NOT 0xF) - 112"
    and off: "f \<notin> arm_cells s"
    and kept: "\<forall>a \<in> insert f (arm_cells s). amem m2 a = amem m1 a"
    and sched: "arm_cells (xregs m2 SP - 112) \<inter> arm_cells s = {}" "g \<notin> arm_cells s"
  shows "pc (arm_fiber_switch g f ret m2) = trampoline
     \<and> (let m3 = aexec (arm_trampoline start brk) (arm_fiber_switch g f ret m2)
        in pc m3 = start \<and> xregs m3 X0 = f \<and> xregs m3 SP AND 15 = 0)"
proof -
  obtain h where m1: "amem m1 = (arm_initial_frame h s f trampoline)(f := s)"
    using make base s by (auto simp: arm_fiber_make_def Let_def)
  have at: "amem m2 f = s"
    using kept m1 by simp
  have "arm_frame (amem m1) s ((\<lambda>_. 0)(X19 := f, X30 := trampoline))"
    using off by (intro arm_frame_cong [OF arm_initial_frame_holds]) (auto simp: m1)
  then have "arm_frame (amem m2) s ((\<lambda>_. 0)(X19 := f, X30 := trampoline))"
    using kept by (elim arm_frame_cong) simp
  moreover have "amem (arm_fiber_switch g f ret m2) a = amem m2 a" if "a \<in> arm_cells s" for a
    using that sched by (auto simp: arm_switch_mem intro!: arm_store_other)
  ultimately have "arm_frame (amem (arm_fiber_switch g f ret m2)) (amem m2 f) ((\<lambda>_. 0)(X19 := f, X30 := trampoline))"
    unfolding at by (elim arm_frame_cong) simp
  from arm_switch_in [OF this] show ?thesis
    by (simp add: at arm_saved_def arm_trampoline_def aexec_def s and.assoc)
qed

theorem arm_first_activation_witness:
  "\<exists>m1. arm_fiber_make (\<lambda>_. Some 65536) 7 9437184 65536 1 2 3 example_arm = Some m1
     \<and> pc (arm_fiber_switch 9438208 9437184 99 (m1\<lparr>xregs := (\<lambda>_. 8388608)\<rparr>)) = 7"
proof -
  have size: "round_stack 65536 = 65536"
    by (simp add: round_stack_def)
  obtain m1 where m1: "arm_fiber_make (\<lambda>_. Some 65536) 7 9437184 65536 1 2 3 example_arm = Some m1"
    by (simp add: arm_fiber_make_def Let_def)
  have "pc (arm_fiber_switch 9438208 9437184 99 (m1\<lparr>xregs := (\<lambda>_. 8388608)\<rparr>)) = 7"
    using arm_first_activation [OF m1, of 65536 130960 "m1\<lparr>xregs := (\<lambda>_. 8388608)\<rparr>" 9438208 99]
    by (simp add: size arm_cells_def)
  with m1 show ?thesis
    by blast
qed

end
