(* ===== verification/Detector.thy ===== *)
theory Detector
  imports Prelude "HOL-Library.Sublist"
begin

text \<open>
  The page-protection conflict detector (\<open>transparent-runtime/detector.c\<close>, \<open>detector.h\<close>).
  Shared pages are kept read-only; the first write to a page after a reprotection faults, the
  \<open>SIGSEGV\<close> handler stamps the page with a global version clock and compares the old stamp with
  the clock the running fiber read when it parked. The kernel's page table is the field
  \<open>writable\<close>, by page number; a \<open>struct det_fib\<close> is named by its address.
\<close>

record det_fib =
  park_clk :: nat
  active :: bool

record det =
  det_on :: bool
  det_conflicts :: nat
  det_faults :: nat
  PG :: nat
  regions :: "(nat \<times> nat) list"
  pver :: "nat \<Rightarrow> nat"
  gclk :: nat
  cur_df :: "nat option"
  dfs :: "nat \<Rightarrow> det_fib"
  writable :: "nat \<Rightarrow> bool"

definition MAXREG :: nat where "MAXREG = 8"
definition MAXPG :: nat where "MAXPG = 65536"

text \<open>The zero-initialised static state, on a machine whose page size is \<open>pg\<close>.\<close>

definition det0 :: "nat \<Rightarrow> det" where
  "det0 pg = \<lparr>det_on = False, det_conflicts = 0, det_faults = 0, PG = pg, regions = [],
     pver = (\<lambda>_. 0), gclk = 0, cur_df = None, dfs = (\<lambda>_. \<lparr>park_clk = 0, active = False\<rparr>),
     writable = (\<lambda>_. True)\<rparr>"

section \<open>Operations\<close>

fun page_index :: "nat \<Rightarrow> (nat \<times> nat) list \<Rightarrow> nat \<Rightarrow> nat \<Rightarrow> nat option" where
  "page_index pg [] base a = None"
| "page_index pg ((lo, hi) # rs) base a =
     (let npg = (hi - lo) div pg
      in if lo \<le> a \<and> a < hi then Some (base + (a - lo) div pg)
         else page_index pg rs (base + npg) a)"

definition det_page :: "det \<Rightarrow> nat \<Rightarrow> nat option" where
  "det_page d a = page_index (PG d) (regions d) 0 a"

text \<open>\<open>mprotect\<close> refuses an address that is not a multiple of the page size.\<close>

definition protect_regions :: "bool \<Rightarrow> det \<Rightarrow> det" where
  "protect_regions w d =
     d\<lparr>writable := (\<lambda>p. if list_ex (\<lambda>(lo, hi). lo mod PG d = 0 \<and> lo \<le> p * PG d \<and> p * PG d < hi)
                               (regions d)
                       then w else writable d p)\<rparr>"

definition det_set_fiber :: "nat \<Rightarrow> det \<Rightarrow> det" where
  "det_set_fiber f d = d\<lparr>cur_df := Some f\<rparr>"

definition set_active :: "nat \<Rightarrow> bool \<Rightarrow> det \<Rightarrow> det" where
  "set_active f b d = d\<lparr>dfs := (dfs d)(f := (dfs d f)\<lparr>active := b\<rparr>)\<rparr>"

definition det_reprotect :: "det \<Rightarrow> det" where
  "det_reprotect d = (if det_on d then protect_regions False d else d)"

definition det_park :: "nat \<Rightarrow> det \<Rightarrow> det" where
  "det_park f d =
     (if det_on d
      then protect_regions False (d\<lparr>dfs := (dfs d)(f := (dfs d f)\<lparr>park_clk := gclk d\<rparr>)\<rparr>)
      else d)"

definition stale :: "det \<Rightarrow> nat \<Rightarrow> bool" where
  "stale d gp = (case cur_df d of None \<Rightarrow> False
                 | Some f \<Rightarrow> active (dfs d f) \<and> park_clk (dfs d f) < pver d gp)"

text \<open>\<open>None\<close>: not a page of ours, so the default action is restored and the fault is real.\<close>

definition handler :: "nat \<Rightarrow> det \<Rightarrow> det option" where
  "handler a d =
     (case det_page d a of
        None \<Rightarrow> None
      | Some gp \<Rightarrow>
          (let d1 = (if gp < MAXPG
                     then d\<lparr>det_conflicts := det_conflicts d + (if stale d gp then 1 else 0),
                            gclk := gclk d + 1, pver := (pver d)(gp := gclk d + 1)\<rparr>
                     else d)
           in Some (d1\<lparr>det_faults := det_faults d1 + 1,
                       writable := (writable d1)(a div PG d1 := True)\<rparr>)))"

text \<open>A store of the program at address \<open>a\<close>: it faults when the page is read-only.\<close>

definition mem_write :: "nat \<Rightarrow> det \<Rightarrow> det option" where
  "mem_write a d = (if writable d (a div PG d) then Some d else handler a d)"

definition det_init_region :: "nat \<Rightarrow> nat \<Rightarrow> nat \<Rightarrow> det \<Rightarrow> det" where
  "det_init_region pg base len d =
     protect_regions False
       (d\<lparr>PG := pg, regions := [(base, base + len)], det_on := True\<rparr>)"

text \<open>
  \<open>det_init\<close> reads \<open>/proc/self/maps\<close>. A line that \<open>sscanf\<close> matched in at least three fields is a
  \<open>map_line\<close>; the code keeps the writable segments of the executable and the anonymous segment
  that continues the last kept one.
\<close>

record map_line =
  ml_lo :: nat
  ml_hi :: nat
  ml_perms :: string
  ml_path :: string

definition keep_segment :: "string \<Rightarrow> (nat \<times> nat) list \<Rightarrow> map_line \<Rightarrow> (nat \<times> nat) list" where
  "keep_segment exe rs l =
     (let p = dropWhile (\<lambda>c. c = CHR '' '') (ml_path l);
          isexe = sublist exe p; isbss = (p = [])
      in if take 2 (ml_perms l) = ''rw'' \<and> (isexe \<or> isbss) \<and> length rs < MAXREG
         then (if isexe \<or> (rs \<noteq> [] \<and> ml_lo l = snd (last rs)) then rs @ [(ml_lo l, ml_hi l)] else rs)
         else rs)"

definition det_init :: "bool \<Rightarrow> nat \<Rightarrow> string option \<Rightarrow> map_line list option \<Rightarrow> det \<Rightarrow> det" where
  "det_init rt_detect pg exe maps d =
     (if \<not> rt_detect then d
      else (let d1 = d\<lparr>PG := pg\<rparr>
            in case exe of None \<Rightarrow> d1 | Some e \<Rightarrow>
               (case maps of None \<Rightarrow> d1 | Some ls \<Rightarrow>
                 (let rs = foldl (keep_segment e) (regions d1) ls
                  in if rs = [] then d1 else d1\<lparr>regions := rs, det_on := True\<rparr>))))"

section \<open>Pages and their indices\<close>

definition wf_regions :: "nat \<Rightarrow> (nat \<times> nat) list \<Rightarrow> bool" where
  "wf_regions pg rs \<longleftrightarrow> 0 < pg \<and> list_all (\<lambda>(lo, hi). lo mod pg = 0 \<and> hi mod pg = 0 \<and> lo < hi) rs \<and>
     sorted_wrt (\<lambda>(lo, hi) (lo', hi'). hi \<le> lo' \<or> hi' \<le> lo) rs"

lemma wf_regions_Cons:
  "wf_regions pg ((lo, hi) # rs) \<Longrightarrow> wf_regions pg rs"
  by (simp add: wf_regions_def)

lemma page_index_range:
  "page_index pg rs base a = Some gp \<Longrightarrow> base \<le> gp \<and> (\<exists>(lo, hi) \<in> set rs. lo \<le> a \<and> a < hi)"
  by (induction pg rs base a rule: page_index.induct) (fastforce simp: Let_def split: if_splits)+

lemma sub_div:
  assumes "lo mod pg = (0::nat)"
  shows "(x - lo) div pg = x div pg - lo div pg"
proof (cases "lo \<le> x")
  case True
  have "(lo + (x - lo)) div pg = lo div pg + (x - lo) div pg"
    using assms by (intro div_plus_div_distrib_dvd_left) auto
  with True show ?thesis by simp
next
  case False
  then show ?thesis by (simp add: div_le_mono)
qed

lemma same_page_bounds:
  assumes "lo mod pg = 0" "hi mod pg = (0::nat)" "a div pg = b div pg" 
  shows "lo \<le> a \<and> a < hi \<longleftrightarrow> lo \<le> b \<and> b < hi"
proof (cases "pg = 0")
  case False
  have "lo \<le> x \<longleftrightarrow> lo div pg \<le> x div pg" "x < hi \<longleftrightarrow> x div pg < hi div pg" for x
    using assms(1,2) False
    by (auto simp: less_eq_div_iff_mult_less_eq div_less_iff_less_mult mult.commute elim!: dvdE)
  then show ?thesis using assms(3) by simp
qed (use assms in simp)

lemma div_less_pages:
  assumes "lo mod pg = 0" "hi mod pg = (0::nat)" "lo \<le> a" "a < hi" "0 < pg"
  shows "(a - lo) div pg < (hi - lo) div pg"
proof -
  have "pg dvd hi - lo" using assms(1,2) by (intro dvd_diff_nat) auto
  then obtain k where "hi - lo = pg * k" ..
  moreover have "a - lo < hi - lo" using assms(3,4) by simp
  ultimately show ?thesis using assms(5) by (simp add: div_less_iff_less_mult mult.commute)
qed

lemma page_index_eq_iff:
  assumes "wf_regions pg rs"
    and "page_index pg rs base a = Some i" "page_index pg rs base b = Some j"
  shows "i = j \<longleftrightarrow> a div pg = b div pg"
  using assms
proof (induction pg rs base a rule: page_index.induct)
  case (1 pg base a)
  then show ?case by simp
next
  case (2 pg lo hi rs base a)
  have wf: "lo mod pg = 0" "hi mod pg = 0" "0 < pg" "wf_regions pg rs"
    using "2.prems"(1) by (auto simp: wf_regions_def)
  have one: "x \<noteq> y \<and> c div pg \<noteq> e div pg"
    if "lo \<le> c" "c < hi" "\<not> (lo \<le> e \<and> e < hi)" "x = base + (c - lo) div pg"
      "page_index pg rs (base + (hi - lo) div pg) e = Some y" for c e x y
    using that page_index_range [OF that(5)] div_less_pages [OF wf(1,2) that(1,2) wf(3)]
      same_page_bounds [OF wf(1,2), of c e] by auto
  consider (both) "lo \<le> a \<and> a < hi" "lo \<le> b \<and> b < hi"
    | (left) "lo \<le> a \<and> a < hi" "\<not> (lo \<le> b \<and> b < hi)"
    | (right) "\<not> (lo \<le> a \<and> a < hi)" "lo \<le> b \<and> b < hi"
    | (rest) "\<not> (lo \<le> a \<and> a < hi)" "\<not> (lo \<le> b \<and> b < hi)" by blast
  then show ?case
  proof cases
    case both
    then have "lo div pg \<le> a div pg" "lo div pg \<le> b div pg" by (auto intro: div_le_mono)
    with both "2.prems" show ?thesis by (auto simp: Let_def sub_div [OF wf(1)])
  next
    case left
    with "2.prems" one [of a b i j] show ?thesis by (auto simp: Let_def)
  next
    case right
    with "2.prems" one [of b a j i] show ?thesis by (auto simp: Let_def)
  next
    case rest
    with "2.prems" "2.IH" [OF refl _ wf(4)] show ?thesis by (simp add: Let_def)
  qed
qed

fun region_pages :: "nat \<Rightarrow> (nat \<times> nat) list \<Rightarrow> nat" where
  "region_pages pg [] = 0"
| "region_pages pg ((lo, hi) # rs) = (hi - lo) div pg + region_pages pg rs"

lemma page_index_bound:
  assumes "wf_regions pg rs" "page_index pg rs base a = Some i"
  shows "i < base + region_pages pg rs"
  using assms
proof (induction pg rs base a rule: page_index.induct)
  case (1 pg base a)
  then show ?case by simp
next
  case (2 pg lo hi rs base a)
  then have "lo mod pg = 0" "hi mod pg = 0" "0 < pg" "wf_regions pg rs"
    by (auto simp: wf_regions_def)
  with 2 div_less_pages [of lo pg hi a] show ?case
    by (auto simp: Let_def split: if_splits)
qed

lemma page_index_None_iff:
  "page_index pg rs base a = None \<longleftrightarrow> \<not> list_ex (\<lambda>(lo, hi). lo \<le> a \<and> a < hi) rs"
  by (induction pg rs base a rule: page_index.induct) (auto simp: Let_def)

lemma page_index_same:
  assumes "wf_regions (PG d) (regions d)" "det_page d a = Some i" "det_page d b = Some j"
  shows "i = j \<longleftrightarrow> a div PG d = b div PG d"
  using page_index_eq_iff [OF assms(1), of 0 a i b j] assms(2,3) by (simp add: det_page_def)

text \<open>Over disjoint page-aligned regions the page number the handler computes identifies the
  page: two addresses get the same number exactly when they lie in the same page, and every number
  is below the total page count of the regions.\<close>

theorem page_index_injective:
  assumes "wf_regions (PG d) (regions d)" "det_page d a = Some i" "det_page d b = Some j"
  shows "(i = j \<longleftrightarrow> a div PG d = b div PG d) \<and> i < region_pages (PG d) (regions d)"
  using page_index_same [OF assms] page_index_bound [OF assms(1), of 0 a i] assms(2)
  by (simp add: det_page_def)

theorem page_index_injective_witness:
  "det_page ((det0 4096)\<lparr>regions := [(8192, 16384), (32768, 40960)]\<rparr>) 36864 = Some 3 \<and>
   region_pages 4096 [(8192, 16384), (32768, 40960)] = 4"
  using page_index_injective
    [of "(det0 4096)\<lparr>regions := [(8192, 16384), (32768, 40960)]\<rparr>" 36864 3 36870 3]
  by (simp add: wf_regions_def det0_def det_page_def)

lemma keep_segment_bound: "length rs \<le> MAXREG \<Longrightarrow> length (keep_segment exe rs l) \<le> MAXREG"
  by (simp add: keep_segment_def Let_def)

lemma det_init_bound:
  assumes "length (regions d) \<le> MAXREG"
  shows "length (regions (det_init rt pg exe maps d)) \<le> MAXREG"
proof -
  have "length (foldl (keep_segment e) rs ls) \<le> MAXREG" if "length rs \<le> MAXREG" for e rs ls
    using that by (induction ls arbitrary: rs) (auto intro: keep_segment_bound)
  with assms show ?thesis by (simp add: det_init_def Let_def split: option.splits)
qed

section \<open>Runs of the detector\<close>

text \<open>
  The calls the runtime and the server modules make, and the program's stores, as a script:
  a run stops at a store that faults outside the regions.
\<close>

datatype dop = Park nat | SetFiber nat | Activate nat bool | Reprotect | Write nat

fun det_step :: "dop \<Rightarrow> det \<Rightarrow> det option" where
  "det_step (Park f) d = Some (det_park f d)"
| "det_step (SetFiber f) d = Some (det_set_fiber f d)"
| "det_step (Activate f b) d = Some (set_active f b d)"
| "det_step Reprotect d = Some (det_reprotect d)"
| "det_step (Write a) d = mem_write a d"

fun det_run :: "dop list \<Rightarrow> det \<Rightarrow> det option" where
  "det_run [] d = Some d"
| "det_run (x # xs) d = (case det_step x d of None \<Rightarrow> None | Some d' \<Rightarrow> det_run xs d')"

lemma det_run_append:
  "det_run (xs @ ys) d = (case det_run xs d of None \<Rightarrow> None | Some d' \<Rightarrow> det_run ys d')"
  by (induction xs arbitrary: d) (auto split: option.splits)

definition wf_det :: "det \<Rightarrow> bool" where
  "wf_det d \<longleftrightarrow> det_on d \<and> wf_regions (PG d) (regions d) \<and> (\<forall>gp. pver d gp \<le> gclk d)"

definition same_frame :: "det \<Rightarrow> det \<Rightarrow> bool" where
  "same_frame d d' \<longleftrightarrow> det_on d' = det_on d \<and> PG d' = PG d \<and> regions d' = regions d"

lemmas det_ops = det_park_def det_set_fiber_def set_active_def det_reprotect_def protect_regions_def

lemma handler_some:
  assumes "handler a d = Some d'"
  obtains gp where "det_page d a = Some gp" "same_frame d d'"
    "dfs d' = dfs d" "cur_df d' = cur_df d"
    "writable d' = (writable d)(a div PG d := True)"
    "gp < MAXPG \<Longrightarrow> gclk d' = gclk d + 1 \<and> pver d' = (pver d)(gp := gclk d + 1) \<and>
       det_conflicts d' = det_conflicts d + (if stale d gp then 1 else 0)"
    "\<not> gp < MAXPG \<Longrightarrow> gclk d' = gclk d \<and> pver d' = pver d \<and> det_conflicts d' = det_conflicts d"
proof -
  from assms obtain gp where gp: "det_page d a = Some gp"
    by (auto simp: handler_def split: option.splits)
  show ?thesis
    by (rule that [OF gp]; cases "gp < MAXPG")
      (use assms gp in \<open>auto simp: handler_def same_frame_def Let_def\<close>)
qed

lemma step_frame: "det_step x d = Some d' \<Longrightarrow> same_frame d d'"
  by (cases x) (auto simp: det_ops same_frame_def mem_write_def split: if_splits elim: handler_some)

lemma step_wf: "wf_det d \<Longrightarrow> det_step x d = Some d' \<Longrightarrow> wf_det d'"
proof (cases x)
  case (Write a)
  assume wf: "wf_det d" and st: "det_step x d = Some d'"
  show ?thesis
  proof (cases "writable d (a div PG d)")
    case False
    with st Write have "handler a d = Some d'" by (simp add: mem_write_def)
    then show ?thesis
    proof (rule handler_some)
      fix gp assume h: "same_frame d d'"
        "gp < MAXPG \<Longrightarrow> gclk d' = gclk d + 1 \<and> pver d' = (pver d)(gp := gclk d + 1) \<and>
           det_conflicts d' = det_conflicts d + (if stale d gp then 1 else 0)"
        "\<not> gp < MAXPG \<Longrightarrow> gclk d' = gclk d \<and> pver d' = pver d \<and> det_conflicts d' = det_conflicts d"
      then show "wf_det d'"
        using wf by (cases "gp < MAXPG") (auto simp: wf_det_def same_frame_def le_SucI)
    qed
  qed (use wf st Write in \<open>simp add: mem_write_def\<close>)
qed (auto simp: wf_det_def det_ops)

text \<open>Every page of a region is covered by the protection.\<close>

lemma protect_covers:
  assumes "wf_regions (PG d) (regions d)" "det_page d a = Some gp"
  shows "\<not> writable (protect_regions False d) (a div PG d)"
proof -
  from assms(2) obtain lo hi where r: "(lo, hi) \<in> set (regions d)" "lo \<le> a" "a < hi"
    by (auto simp: det_page_def dest: page_index_range)
  with assms(1) have wf: "lo mod PG d = 0" "hi mod PG d = 0" "0 < PG d"
    by (auto simp: wf_regions_def list_all_iff)
  then have "lo \<le> a div PG d * PG d \<and> a div PG d * PG d < hi"
    using same_page_bounds [OF wf(1,2), of a "a div PG d * PG d"] r by simp
  with r wf show ?thesis by (auto simp: protect_regions_def list_ex_iff)
qed

text \<open>
  The invariant since the last park of \<open>f\<close>: \<open>T\<close> is the set of pages written since then; exactly
  those carry a stamp newer than the park, and only those can be writable.
\<close>

definition since_park :: "nat \<Rightarrow> nat set \<Rightarrow> det \<Rightarrow> bool" where
  "since_park f T d \<longleftrightarrow>
     park_clk (dfs d f) \<le> gclk d \<and>
     (\<forall>gp < MAXPG. park_clk (dfs d f) < pver d gp \<longleftrightarrow> gp \<in> T) \<and>
     (\<forall>a gp. det_page d a = Some gp \<longrightarrow> gp < MAXPG \<longrightarrow> writable d (a div PG d) \<longrightarrow> gp \<in> T)"

fun touch :: "det \<Rightarrow> dop \<Rightarrow> nat set" where
  "touch d (Write a) = set_option (det_page d a)"
| "touch d _ = {}"

lemma since_park_start:
  assumes "wf_det d"
  shows "since_park f {} (det_park f d)"
proof -
  let ?d = "d\<lparr>dfs := (dfs d)(f := (dfs d f)\<lparr>park_clk := gclk d\<rparr>)\<rparr>"
  have "wf_regions (PG ?d) (regions ?d)" using assms by (simp add: wf_det_def)
  from protect_covers [OF this] assms show ?thesis
    by (auto simp: since_park_def det_park_def wf_det_def det_page_def protect_regions_def
        not_less)
qed

lemma since_park_write:
  assumes "wf_det d" "since_park f T d" "mem_write a d = Some d'"
  shows "since_park f (T \<union> set_option (det_page d a)) d'"
proof (cases "writable d (a div PG d)")
  case True
  with assms show ?thesis by (auto simp: mem_write_def since_park_def)
next
  case False
  with assms(3) have "handler a d = Some d'" by (simp add: mem_write_def)
  then show ?thesis
  proof (rule handler_some)
    fix gp
    assume gp: "det_page d a = Some gp" and fr: "same_frame d d'" and k: "dfs d' = dfs d"
      and w: "writable d' = (writable d)(a div PG d := True)"
      and small: "gp < MAXPG \<Longrightarrow> gclk d' = gclk d + 1 \<and> pver d' = (pver d)(gp := gclk d + 1) \<and>
           det_conflicts d' = det_conflicts d + (if stale d gp then 1 else 0)"
      and large: "\<not> gp < MAXPG \<Longrightarrow> gclk d' = gclk d \<and> pver d' = pver d \<and> det_conflicts d' = det_conflicts d"
    have page: "det_page d' b = det_page d b" for b using fr by (simp add: det_page_def same_frame_def)
    have inj: "q = gp" if "det_page d b = Some q" "b div PG d = a div PG d" for b q
      using page_index_same [of d b q a gp] assms(1) that gp by (auto simp: wf_det_def)
    from fr have pg: "PG d' = PG d" by (simp add: same_frame_def)
    show "since_park f (T \<union> set_option (det_page d a)) d'"
      using assms(2) small large inj
      by (cases "gp < MAXPG") (auto simp: since_park_def page pg gp k w)
  qed
qed

lemma since_park_step:
  assumes "wf_det d" "since_park f T d" "x \<noteq> Park f" "det_step x d = Some d'"
  shows "since_park f (T \<union> touch d x) d'"
proof (cases x)
  case (Write a)
  with since_park_write [OF assms(1,2)] assms(4) show ?thesis by simp
qed (use assms in \<open>auto simp: since_park_def det_ops det_page_def split: if_splits\<close>)

lemma since_park_run:
  assumes "wf_det d" "since_park f T d" "Park f \<notin> set ops" "det_run ops d = Some d'"
  shows "since_park f (T \<union> (\<Union>x\<in>set ops. touch d x)) d' \<and> wf_det d' \<and> same_frame d d'"
  using assms
proof (induction ops arbitrary: T d)
  case Nil
  then show ?case by (simp add: same_frame_def)
next
  case (Cons x ops)
  then obtain d1 where d1: "det_step x d = Some d1" "det_run ops d1 = Some d'"
    by (auto split: option.splits)
  have fr: "same_frame d d1" by (rule step_frame [OF d1(1)])
  then have t: "touch d1 y = touch d y" for y
    by (cases y) (simp_all add: det_page_def same_frame_def)
  have "since_park f (T \<union> touch d x) d1"
    using Cons.prems since_park_step [OF _ _ _ d1(1)] by auto
  from Cons.IH [OF step_wf [OF Cons.prems(1) d1(1)] this _ d1(2)] Cons.prems(3) fr
  show ?case by (simp add: same_frame_def Un_assoc t)
qed


text \<open>C33: The detector is exact. After a fiber parks, whatever the fibers do next short of another
  park of it, its next write to a page of the protected regions is counted as a conflict if and
  only if some write hit that page since the park.\<close>

theorem detector_exact:
  assumes wf: "wf_det d" and page: "det_page d a = Some gp" "gp < MAXPG"
    and ops: "Park f \<notin> set ops"
    and run: "det_run ([Park f] @ ops @ [SetFiber f, Activate f True, Reprotect]) d = Some d1"
  shows "\<exists>d2. det_step (Write a) d1 = Some d2 \<and>
    det_conflicts d2 = det_conflicts d1 +
      (if \<exists>b. Write b \<in> set ops \<and> det_page d b = Some gp then 1 else 0)"
proof -
  let ?p = "det_park f d" and ?tail = "[SetFiber f, Activate f True, Reprotect]"
  have p: "wf_det ?p" "since_park f {} ?p" "same_frame d ?p"
    using step_wf [OF wf, of "Park f"] since_park_start [OF wf] step_frame [of "Park f" d] by auto
  from run have r: "det_run (ops @ ?tail) ?p = Some d1" by simp
  have sp: "since_park f (\<Union>x\<in>set (ops @ ?tail). touch ?p x) d1" "wf_det d1" "same_frame ?p d1"
    using since_park_run [OF p(1,2) _ r] ops by auto
  from r obtain d0 where d0: "d1 = det_reprotect (set_active f True (det_set_fiber f d0))"
    by (auto simp: det_run_append split: option.splits)
  have pg: "det_page d1 a = Some gp" "PG d1 = PG d"
    using page(1) p(3) sp(3) by (auto simp: det_page_def same_frame_def)
  have cur: "cur_df d1 = Some f" "active (dfs d1 f)"
    by (simp_all add: d0 det_ops)
  have ro: "\<not> writable d1 (a div PG d1)"
  proof -
    have "d1 = protect_regions False (set_active f True (det_set_fiber f d0))"
      using sp(2) unfolding d0 by (auto simp: wf_det_def det_reprotect_def)
    then show ?thesis
      using protect_covers [of "set_active f True (det_set_fiber f d0)" a gp] pg(1) sp(2)
      by (auto simp: wf_det_def det_page_def protect_regions_def)
  qed
  have "stale d1 gp \<longleftrightarrow> gp \<in> (\<Union>x\<in>set ops. touch ?p x)"
    using sp(1) page(2) cur by (auto simp: stale_def since_park_def)
  also have "\<dots> \<longleftrightarrow> (\<exists>b. Write b \<in> set ops \<and> det_page d b = Some gp)"
  proof -
    have "touch ?p x = touch d x" for x
      using p(3) by (cases x) (simp_all add: det_page_def same_frame_def)
    moreover have "gp \<in> touch d x \<longleftrightarrow> (\<exists>b. x = Write b \<and> det_page d b = Some gp)" for x
      by (cases x) auto
    ultimately show ?thesis by auto
  qed
  finally show ?thesis
    using ro page(2) pg by (auto simp: mem_write_def handler_def Let_def)
qed

definition arena1 :: det where
  "arena1 = det_init_region 4096 8192 8192 (det0 4096)"

theorem detector_exact_witness:
  "\<exists>d1 d2. det_run ([Park 0] @ [SetFiber 1, Reprotect, Write 8200] @
       [SetFiber 0, Activate 0 True, Reprotect]) arena1 = Some d1 \<and>
     det_step (Write 8192) d1 = Some d2 \<and> det_conflicts d2 = det_conflicts d1 + 1"
proof -
  let ?ops = "[SetFiber 1, Reprotect, Write 8200]"
  have wf: "wf_det arena1" 
    by (simp add: arena1_def wf_det_def det_init_region_def det0_def protect_regions_def wf_regions_def)
  have page: "det_page arena1 8192 = Some 0" "det_page arena1 8200 = Some 0"
    by (simp_all add: arena1_def det_page_def det_init_region_def det0_def protect_regions_def)
  obtain d1 where run: "det_run ([Park 0] @ ?ops @ [SetFiber 0, Activate 0 True, Reprotect]) arena1 = Some d1"
    by (simp add: arena1_def det_init_region_def det0_def det_ops mem_write_def handler_def
        det_page_def MAXPG_def stale_def Let_def)
  from detector_exact [OF wf page(1) _ _ run] page(2) run show ?thesis
    by (fastforce simp: MAXPG_def)
qed

text \<open>The count is not only of other fibers' writes. A fiber that is resumed after its
  offload, writes a shared page, yields at a socket and writes the same page again is counted as
  a conflict with itself: the park clock is not advanced by its own write.\<close>

theorem detector_flags_own_write:
  "map_option det_conflicts
     (det_run [Park 0, SetFiber 0, Activate 0 True, Reprotect, Write 8192,
               SetFiber 0, Activate 0 True, Reprotect, Write 8192] arena1) = Some 1"
  by (simp add: arena1_def det_init_region_def det0_def det_ops mem_write_def handler_def
      det_page_def MAXPG_def stale_def Let_def)

end
