(* ===== verification/DetTest.thy ===== *)
theory DetTest
  imports Prelude
begin

text \<open>
  The test program of the page-protection detector, \<open>src/detector/detector_test.c\<close>: two fibers that read a shared word,
  park as for an offload and write the word back, under a handler that checks the version of the page it unprotects.
\<close>

section \<open>The program\<close>

definition PAGES :: nat where "PAGES = 16"

text \<open>\<open>F\<close> has where a fiber is: not yet entered, parked with the value it has read, or at the end.\<close>

datatype at = At_entry | At_park u64 | At_end

record fib =
  fb :: at
  park_clk :: u64
  parked :: bool
  fin :: bool

record det =
  PG :: nat
  region :: "nat \<Rightarrow> u64"
  writable :: "nat \<Rightarrow> bool"
  gclk :: u64
  pver :: "nat \<Rightarrow> u64"
  conflicts :: nat
  F :: "nat \<Rightarrow> fib"
  cur :: nat

definition det0 :: "nat \<Rightarrow> det" where
  "det0 pg = \<lparr>PG = pg, region = (\<lambda>_. 0), writable = (\<lambda>_. True), gclk = 0, pver = (\<lambda>_. 0), conflicts = 0,
     F = (\<lambda>_. \<lparr>fb = At_entry, park_clk = 0, parked = False, fin = False\<rparr>), cur = 0\<rparr>"

definition upd_F :: "nat \<Rightarrow> (fib \<Rightarrow> fib) \<Rightarrow> det \<Rightarrow> det" where
  "upd_F i f s = s\<lparr>F := (F s)(i := f (F s i))\<rparr>"

definition protect_all :: "det \<Rightarrow> det" where
  "protect_all s = s\<lparr>writable := (\<lambda>_. False)\<rparr>"

text \<open>The handler of a write fault at \<open>a\<close> bytes from the start of the region; a fault outside ends the process.\<close>

definition seg_handler :: "nat \<Rightarrow> det \<Rightarrow> det option" where
  "seg_handler a s =
     (if a \<ge> PAGES * PG s then None
      else (let pg = a div PG s;
                s = (if pver s pg > park_clk (F s (cur s)) then s\<lparr>conflicts := conflicts s + 1\<rparr> else s);
                s = s\<lparr>gclk := gclk s + 1\<rparr>;
                s = s\<lparr>pver := (pver s)(pg := gclk s)\<rparr>
            in Some (s\<lparr>writable := (writable s)(pg := True)\<rparr>)))"

definition shared_idx_val :: "nat \<Rightarrow> det \<Rightarrow> u64" where
  "shared_idx_val i s = region s i"

text \<open>A store of the \<open>i\<close>-th word, which faults when its page is protected and is then done again.\<close>

definition shared_set :: "nat \<Rightarrow> u64 \<Rightarrow> det \<Rightarrow> det option" where
  "shared_set i v s =
     (case (if writable s (i * 8 div PG s) then Some s else seg_handler (i * 8) s) of
        None \<Rightarrow> None
      | Some s \<Rightarrow> Some (s\<lparr>region := (region s)(i := v)\<rparr>))"

definition park :: "u64 \<Rightarrow> det \<Rightarrow> det" where
  "park v s =
     (let s = upd_F (cur s) (\<lambda>f. f\<lparr>parked := True\<rparr>) s;
          s = upd_F (cur s) (\<lambda>f. f\<lparr>park_clk := gclk s\<rparr>) s;
          s = protect_all s
      in upd_F (cur s) (\<lambda>f. f\<lparr>fb := At_park v\<rparr>) s)"

text \<open>What a switch to fiber \<open>i\<close> runs of its body, up to the switch back.\<close>

definition body :: "nat \<Rightarrow> det \<Rightarrow> det option" where
  "body i s =
     (case fb (F s i) of
        At_entry \<Rightarrow> (let v = shared_idx_val 0 s in Some (park v s))
      | At_park v \<Rightarrow>
          (case shared_set 0 (v + 1) s of
             None \<Rightarrow> None
           | Some s \<Rightarrow> Some (upd_F i (\<lambda>f. f\<lparr>fin := True, fb := At_end\<rparr>) s))
      | At_end \<Rightarrow> Some s)"

definition first_run :: "nat \<Rightarrow> det \<Rightarrow> det option" where
  "first_run i s = (let s = s\<lparr>cur := i\<rparr> in body i s)"

definition resume :: "nat \<Rightarrow> det \<Rightarrow> det option" where
  "resume i s = (let s = protect_all s; s = s\<lparr>cur := i\<rparr>; s = upd_F i (\<lambda>f. f\<lparr>parked := False\<rparr>) s in body i s)"

definition test_main :: "nat \<Rightarrow> det option" where
  "test_main pg =
     Option.bind (first_run 0 (det0 pg)) (\<lambda>s. Option.bind (first_run 1 s) (\<lambda>s. Option.bind (resume 0 s) (\<lambda>s.
       Option.bind (resume 1 s) (\<lambda>s. Some (s\<lparr>writable := (\<lambda>_. True)\<rparr>)))))"

definition caught :: "det \<Rightarrow> bool" where
  "caught s \<longleftrightarrow> conflicts s \<ge> 1"

section \<open>Every order of the two fibers\<close>

text \<open>The program with another order of its switches: a fiber is entered first and resumed then.\<close>

fun test_run :: "nat list \<Rightarrow> det \<Rightarrow> det option" where
  "test_run [] s = Some s"
| "test_run (i # is) s = Option.bind (if fb (F s i) = At_entry then first_run i s else resume i s) (test_run is)"

definition orders :: "nat list list" where
  "orders = [[0, 0, 1, 1], [0, 1, 0, 1], [0, 1, 1, 0], [1, 0, 0, 1], [1, 0, 1, 0], [1, 1, 0, 0]]"

lemmas det_eval = first_run_def resume_def body_def shared_set_def shared_idx_val_def park_def protect_all_def seg_handler_def
  upd_F_def det0_def PAGES_def Let_def

lemma test_main_run: "0 < pg \<Longrightarrow> map_option region (test_main pg) = map_option region (test_run [0, 1, 0, 1] (det0 pg))
    \<and> map_option conflicts (test_main pg) = map_option conflicts (test_run [0, 1, 0, 1] (det0 pg))"
  by (simp add: test_main_def det_eval)

text \<open>The test of the detector shows what it is meant to: with any page size the program ends with \<open>shared[0] = 1\<close>, an
  update lost, and exactly one conflict detected. In every other order of the two fibers the detector is exact too: it
  counts one conflict for each update that is lost and none when no update is lost.\<close>

theorem detector_test_exact:
  assumes "0 < pg"
  shows "(\<exists>s. test_main pg = Some s \<and> shared_idx_val 0 s = 1 \<and> conflicts s = 1 \<and> caught s)
     \<and> (\<forall>is \<in> set orders. \<exists>s. test_run is (det0 pg) = Some s \<and> shared_idx_val 0 s + of_nat (conflicts s) = 2
          \<and> fin (F s 0) \<and> fin (F s 1))"
proof
  show "\<exists>s. test_main pg = Some s \<and> shared_idx_val 0 s = 1 \<and> conflicts s = 1 \<and> caught s"
    using assms by (simp add: test_main_def det_eval caught_def)
  show "\<forall>is \<in> set orders. \<exists>s. test_run is (det0 pg) = Some s \<and> shared_idx_val 0 s + of_nat (conflicts s) = 2
      \<and> fin (F s 0) \<and> fin (F s 1)"
    using assms by (simp add: orders_def det_eval)
qed

theorem detector_test_exact_witness:
  "\<exists>s. test_main 4096 = Some s \<and> shared_idx_val 0 s = 1 \<and> conflicts s = 1"
  using detector_test_exact [of 4096] by auto

end
