(* ===== verification/DetRedis.thy ===== *)
theory DetRedis
  imports Ring Detector
begin

text \<open>
  The Redis module \<open>transparent-runtime/apps/redis/detector_module.c\<close>: \<open>DET.RMW key\<close> reads a
  counter, offloads, and writes the counter plus one from the reply callback, so the
  read-modify-write spans the offload. The event loop, the workers and the Redis API calls that
  carry a job between them are the events of a trace; a job is named by its address. An operation
  returns \<open>None\<close> where the C code would use a freed job or take a real fault.
\<close>

datatype mode = M_NAIVE | M_DETECT | M_LOCK

definition KSLOTS :: nat where "KSLOTS = 256"
definition PENDN :: nat where "PENDN = 4096"
definition QN :: nat where "QN = 65536"

record job =
  jslot :: nat
  jv :: int

record srv =
  MODE :: mode
  arena :: nat
  cnt :: "nat \<Rightarrow> int"
  g_total :: int
  q :: "nat ring"
  inflight :: "nat \<Rightarrow> bool"
  pend :: "nat \<Rightarrow> nat ring"
  jobs :: "nat \<Rightarrow> job option"
  next_job :: nat
  offl :: "nat list"
  posted :: "nat list"
  dt :: det

text \<open>
  \<open>offl\<close> holds the jobs whose offload a worker is running, \<open>posted\<close> those whose client was
  unblocked and whose reply callback is due.
\<close>

section \<open>Operations\<close>

definition cnt_addr :: "srv \<Rightarrow> nat \<Rightarrow> nat" where
  "cnt_addr s k = arena s + k * PG (dt s)"

definition enqueue_offload :: "nat \<Rightarrow> srv \<Rightarrow> srv" where
  "enqueue_offload j s = s\<lparr>q := ring_put QN j (q s)\<rparr>"

definition begin_job :: "nat \<Rightarrow> srv \<Rightarrow> srv option" where
  "begin_job j s =
     (case jobs s j of
        None \<Rightarrow> None
      | Some jb \<Rightarrow>
          (let s1 = s\<lparr>jobs := (jobs s)(j \<mapsto> jb\<lparr>jv := cnt s (jslot jb)\<rparr>)\<rparr>;
               s2 = (if MODE s1 \<noteq> M_LOCK then s1\<lparr>dt := det_park j (dt s1)\<rparr> else s1)
           in Some (enqueue_offload j s2)))"

text \<open>The worker loop: take a job, run the offload, unblock the client with the job.\<close>

definition worker_take :: "srv \<Rightarrow> srv" where
  "worker_take s =
     (case ring_get QN (q s) of
        None \<Rightarrow> s
      | Some (j, q') \<Rightarrow> s\<lparr>q := q', offl := offl s @ [j]\<rparr>)"

definition worker_done :: "nat \<Rightarrow> srv \<Rightarrow> srv" where
  "worker_done j s = s\<lparr>offl := remove1 j (offl s), posted := posted s @ [j]\<rparr>"

definition gate :: "mode \<Rightarrow> nat \<Rightarrow> nat" where
  "gate m k = (if m = M_LOCK then 0 else k)"

definition advance_gate :: "nat \<Rightarrow> srv \<Rightarrow> srv option" where
  "advance_gate k s =
     (if MODE s \<noteq> M_NAIVE
      then (let g = gate (MODE s) k
            in case ring_get PENDN (pend s g) of
                 Some (nx, r) \<Rightarrow> begin_job nx (s\<lparr>pend := (pend s)(g := r)\<rparr>)
               | None \<Rightarrow> Some (s\<lparr>inflight := (inflight s)(g := False)\<rparr>))
      else Some s)"

definition reply_cb :: "nat \<Rightarrow> srv \<Rightarrow> srv option" where
  "reply_cb j s =
     (case jobs s j of
        None \<Rightarrow> None
      | Some jb \<Rightarrow>
          (let k = jslot jb;
               d1 = (if MODE s \<noteq> M_LOCK
                     then det_reprotect (set_active j True (det_set_fiber j (dt s))) else dt s)
           in case mem_write (cnt_addr s k) d1 of
                None \<Rightarrow> None
              | Some d2 \<Rightarrow>
                  (let d3 = (if MODE s \<noteq> M_LOCK then set_active j False d2 else d2);
                       s1 = s\<lparr>posted := remove1 j (posted s), cnt := (cnt s)(k := jv jb + 1),
                              g_total := g_total s + 1, dt := d3\<rparr>
                   in map_option (\<lambda>s2. s2\<lparr>jobs := (jobs s2)(j := None)\<rparr>) (advance_gate k s1))))"

fun fnv1a :: "u8 list \<Rightarrow> u32 \<Rightarrow> u32" where
  "fnv1a [] h = h"
| "fnv1a (b # bs) h = fnv1a bs (xor h (ucast b) * 16777619)"

definition slot_of :: "u8 list \<Rightarrow> nat" where
  "slot_of p = unat (fnv1a p 2166136261 mod of_nat KSLOTS)"

definition cmd_rmw :: "u8 list list \<Rightarrow> srv \<Rightarrow> srv option" where
  "cmd_rmw argv s =
     (if length argv \<noteq> 2 then Some s
      else
        (let k = slot_of (argv ! 1); j = next_job s;
             s1 = s\<lparr>next_job := Suc j, jobs := (jobs s)(j \<mapsto> \<lparr>jslot = k, jv = 0\<rparr>),
                    dt := (dt s)\<lparr>dfs := (dfs (dt s))(j := \<lparr>park_clk = 0, active = False\<rparr>)\<rparr>\<rparr>
         in if MODE s1 = M_NAIVE then begin_job j s1
            else (let g = gate (MODE s1) k
                  in if \<not> inflight s1 g
                     then begin_job j (s1\<lparr>inflight := (inflight s1)(g := True)\<rparr>)
                     else Some (s1\<lparr>pend := (pend s1)(g := ring_put PENDN j (pend s1 g))\<rparr>))))"

definition cmd_stats :: "srv \<Rightarrow> mode \<times> int \<times> int \<times> int \<times> nat \<times> nat" where
  "cmd_stats s =
     (let total = (\<Sum>i<KSLOTS. cnt s i)
      in (MODE s, g_total s, total, g_total s - total, det_conflicts (dt s), det_faults (dt s)))"

definition cmd_reset :: "srv \<Rightarrow> srv" where
  "cmd_reset s =
     (let d0 = (if det_on (dt s) then protect_regions True (dt s) else dt s);
          d1 = d0\<lparr>det_conflicts := 0, det_faults := 0\<rparr>;
          d2 = (if det_on d1 then protect_regions False d1 else d1)
      in s\<lparr>cnt := (\<lambda>k. if k < KSLOTS then 0 else cnt s k),
           inflight := (\<lambda>k. if k < KSLOTS then False else inflight s k),
           pend := (\<lambda>g. if g < KSLOTS then (pend s g)\<lparr>rhead := 0, rtail := 0\<rparr> else pend s g),
           g_total := 0, dt := d2\<rparr>)"

text \<open>The module load: \<open>mode\<close> is the environment variable, \<open>base\<close> the block \<open>mmap\<close> returned.\<close>

definition on_load :: "string option \<Rightarrow> nat \<Rightarrow> nat \<Rightarrow> srv" where
  "on_load rt_det_mode pg base =
     (let m = (case rt_det_mode of None \<Rightarrow> M_NAIVE
               | Some t \<Rightarrow> if t = ''detect'' then M_DETECT
                           else if t = ''lock'' then M_LOCK else M_NAIVE)
      in \<lparr>MODE = m, arena = base, cnt = (\<lambda>_. 0), g_total = 0, q = ring_empty 0,
          inflight = (\<lambda>_. False), pend = (\<lambda>_. ring_empty 0), jobs = (\<lambda>_. None), next_job = 0,
          offl = [], posted = [],
          dt = (if m \<noteq> M_LOCK then det_init_region pg base (KSLOTS * pg) (det0 pg) else det0 pg)\<rparr>)"

section \<open>Traces\<close>

datatype event = Cmd "u8 list list" | Take | Finish nat | Reply nat | Reset

text \<open>
  A worker finishes a job it is running, the event loop replies for a job that was posted; the
  other two are always possible.
\<close>

fun srv_step :: "event \<Rightarrow> srv \<Rightarrow> srv option" where
  "srv_step (Cmd argv) s = cmd_rmw argv s"
| "srv_step Take s = Some (worker_take s)"
| "srv_step (Finish j) s = (if j \<in> set (offl s) then Some (worker_done j s) else Some s)"
| "srv_step (Reply j) s = (if j \<in> set (posted s) then reply_cb j s else Some s)"
| "srv_step Reset s = Some (cmd_reset s)"

fun srv_run :: "event list \<Rightarrow> srv \<Rightarrow> srv option" where
  "srv_run [] s = Some s"
| "srv_run (e # es) s = (case srv_step e s of None \<Rightarrow> None | Some s' \<Rightarrow> srv_run es s')"

text \<open>
  What a trace must respect: the job rings, which have no full check, have room when a job is put
  in, and the counters are reset only while no request is in progress.
\<close>

definition pending :: "srv \<Rightarrow> nat \<Rightarrow> nat list" where
  "pending s g = ring_items PENDN (pend s g)"

definition in_progress :: "srv \<Rightarrow> nat list" where
  "in_progress s = ring_items QN (q s) @ offl s @ posted s"

fun fits :: "event \<Rightarrow> srv \<Rightarrow> bool" where
  "fits (Cmd argv) s \<longleftrightarrow> ring_room QN (q s) \<and>
     ring_room PENDN (pend s (gate (MODE s) (slot_of (argv ! 1))))"
| "fits (Reply j) s \<longleftrightarrow> ring_room QN (q s)"
| "fits Reset s \<longleftrightarrow> in_progress s = [] \<and> list_all (\<lambda>g. pending s g = []) [0..<KSLOTS]"
| "fits _ s \<longleftrightarrow> True"

fun run_fits :: "event list \<Rightarrow> srv \<Rightarrow> bool" where
  "run_fits [] s = True"
| "run_fits (e # es) s \<longleftrightarrow>
     fits e s \<and> (case srv_step e s of None \<Rightarrow> True | Some s' \<Rightarrow> run_fits es s')"

end
