(* ===== verification/DetRedisInv.thy ===== *)
theory DetRedisInv
  imports DetRedis
begin

text \<open>
  The invariant of the Redis module of \<open>DetRedis\<close> and the properties that rest on it. The job of a
  request is \<open>fresh\<close> while no commit has touched its page since its snapshot; a fresh job's snapshot
  is the counter's value, so its commit adds exactly one. The detector's clock tells a fresh job
  from a stale one, the admission gates keep every job in progress fresh.
\<close>

definition fresh :: "srv \<Rightarrow> nat \<Rightarrow> job \<Rightarrow> bool" where
  "fresh s j jb \<longleftrightarrow> pver (dt s) (jslot jb) \<le> park_clk (dfs (dt s) j)"

definition det_ok :: "srv \<Rightarrow> bool" where
  "det_ok s \<longleftrightarrow>
     0 < PG (dt s) \<and> (\<forall>gp. pver (dt s) gp \<le> gclk (dt s)) \<and> (\<forall>j. park_clk (dfs (dt s) j) \<le> gclk (dt s)) \<and>
     (if MODE s = M_LOCK
      then \<not> det_on (dt s) \<and> writable (dt s) = (\<lambda>_. True) \<and> gclk (dt s) = 0
      else det_on (dt s) \<and> arena s mod PG (dt s) = 0 \<and>
           regions (dt s) = [(arena s, arena s + KSLOTS * PG (dt s))])"

lemma det_page_slot:
  assumes "det_ok s" "MODE s \<noteq> M_LOCK" "k < KSLOTS"
  shows "det_page (dt s) (cnt_addr s k) = Some k"
  using assms by (auto simp: det_ok_def det_page_def cnt_addr_def Let_def)

lemma det_ok_wf: "det_ok s \<Longrightarrow> MODE s \<noteq> M_LOCK \<Longrightarrow> wf_det (dt s)"
  by (auto simp: det_ok_def wf_det_def wf_regions_def KSLOTS_def)

text \<open>The reply's write: always a fault, stamped, and counted exactly when the job is stale.\<close>

definition reply_write :: "srv \<Rightarrow> nat \<Rightarrow> nat \<Rightarrow> det option" where
  "reply_write s j k = 
     (let d1 = (if MODE s \<noteq> M_LOCK
                     then det_reprotect (set_active j True (det_set_fiber j (dt s))) else dt s)
           in case mem_write (cnt_addr s k) d1 of
                None \<Rightarrow> None
              | Some d2 \<Rightarrow> Some (if MODE s \<noteq> M_LOCK then set_active j False d2 else d2))"

lemma reply_write_det:
  assumes ok: "det_ok s" and m: "MODE s \<noteq> M_LOCK" and k: "k < KSLOTS"
  shows "\<exists>d. reply_write s j k = Some d \<and>
    pver d = (pver (dt s))(k := gclk (dt s) + 1) \<and> gclk d = gclk (dt s) + 1 \<and>
    (\<forall>i. park_clk (dfs d i) = park_clk (dfs (dt s) i)) \<and>
    det_conflicts d = det_conflicts (dt s) + (if park_clk (dfs (dt s) j) < pver (dt s) k then 1 else 0) \<and>
    same_frame (dt s) d"
proof -
  let ?d1 = "det_reprotect (set_active j True (det_set_fiber j (dt s)))"
  have on: "det_on (dt s)" using ok m by (simp add: det_ok_def)
  have d1: "?d1 = protect_regions False (set_active j True (det_set_fiber j (dt s)))"
    using on by (simp add: det_ops)
  have page: "det_page ?d1 (cnt_addr s k) = Some k"
    using det_page_slot [OF ok m k] on by (simp add: d1 det_page_def det_ops)
  have ro: "\<not> writable ?d1 (cnt_addr s k div PG ?d1)"
    using protect_covers [of "set_active j True (det_set_fiber j (dt s))" "cnt_addr s k" k]
      page det_ok_wf [OF ok m] by (auto simp: d1 det_page_def det_ops wf_det_def)
  have kp: "k < MAXPG" using k by (simp add: KSLOTS_def MAXPG_def)
  have st: "stale ?d1 k \<longleftrightarrow> park_clk (dfs (dt s) j) < pver (dt s) k"
    by (simp add: d1 stale_def det_ops)
  have "\<exists>d2. mem_write (cnt_addr s k) ?d1 = Some d2 \<and> handler (cnt_addr s k) ?d1 = Some d2"
    using ro page by (simp add: mem_write_def handler_def Let_def)
  then obtain d2 where d2: "mem_write (cnt_addr s k) ?d1 = Some d2" "handler (cnt_addr s k) ?d1 = Some d2"
    by blast
  from d2(2) have "pver d2 = (pver (dt s))(k := gclk (dt s) + 1) \<and> gclk d2 = gclk (dt s) + 1 \<and>
    (\<forall>i. park_clk (dfs d2 i) = park_clk (dfs (dt s) i)) \<and>
    det_conflicts d2 = det_conflicts (dt s) + (if park_clk (dfs (dt s) j) < pver (dt s) k then 1 else 0) \<and>
    same_frame (dt s) d2"
  proof (rule handler_some)
    fix gp assume "det_page ?d1 (cnt_addr s k) = Some gp" "same_frame ?d1 d2" "dfs d2 = dfs ?d1"
     "gp < MAXPG \<Longrightarrow> gclk d2 = gclk ?d1 + 1 \<and> pver d2 = (pver ?d1)(gp := gclk ?d1 + 1) \<and>
       det_conflicts d2 = det_conflicts ?d1 + (if stale ?d1 gp then 1 else 0)"
    then show ?thesis using page kp st by (auto simp: d1 det_ops same_frame_def)
  qed
  then show ?thesis
    using m d2(1) by (auto simp: reply_write_def set_active_def same_frame_def)
qed

definition total_cnt :: "srv \<Rightarrow> int" where
  "total_cnt s = (\<Sum>i<KSLOTS. cnt s i)"

definition job_ok :: "srv \<Rightarrow> nat \<Rightarrow> bool" where
  "job_ok s j \<longleftrightarrow> (case jobs s j of None \<Rightarrow> False
     | Some jb \<Rightarrow> jslot jb < KSLOTS \<and> (fresh s j jb \<longrightarrow> jv jb = cnt s (jslot jb)) \<and>
                 (MODE s \<noteq> M_NAIVE \<longrightarrow> fresh s j jb))"

definition queued_ok :: "srv \<Rightarrow> nat \<Rightarrow> nat \<Rightarrow> bool" where
  "queued_ok s g j \<longleftrightarrow> (case jobs s j of None \<Rightarrow> False
     | Some jb \<Rightarrow> jslot jb < KSLOTS \<and> gate (MODE s) (jslot jb) = g)"

definition gate_of :: "srv \<Rightarrow> nat \<Rightarrow> nat" where
  "gate_of s j = (case jobs s j of None \<Rightarrow> 0 | Some jb \<Rightarrow> gate (MODE s) (jslot jb))"

definition queues_inv :: "srv \<Rightarrow> bool" where
  "queues_inv s \<longleftrightarrow>
     ring_wf QN (q s) \<and> (\<forall>g. ring_wf PENDN (pend s g)) \<and> distinct (in_progress s) \<and>
     (\<forall>g. distinct (pending s g)) \<and> (\<forall>g. \<forall>j\<in>set (pending s g). j \<notin> set (in_progress s)) \<and>
     (\<forall>j. jobs s j \<noteq> None \<longrightarrow> j < next_job s)"

definition gates_inv :: "srv \<Rightarrow> bool" where
  "gates_inv s \<longleftrightarrow>
     (if MODE s = M_NAIVE then \<forall>g. pending s g = []
      else (\<forall>g. pending s g \<noteq> [] \<longrightarrow> inflight s g) \<and>
           (\<forall>j\<in>set (in_progress s). inflight s (gate_of s j)) \<and>
           inj_on (gate_of s) (set (in_progress s)))"

definition jobs_inv :: "srv \<Rightarrow> bool" where
  "jobs_inv s \<longleftrightarrow> (\<forall>j\<in>set (in_progress s). job_ok s j) \<and>
     (\<forall>g. \<forall>j\<in>set (pending s g). queued_ok s g j)"

definition count_inv :: "srv \<Rightarrow> bool" where
  "count_inv s \<longleftrightarrow>
     (det_conflicts (dt s) = 0 \<longrightarrow> total_cnt s = g_total s) \<and>
     (MODE s \<noteq> M_NAIVE \<longrightarrow> det_conflicts (dt s) = 0)"

definition srv_inv :: "srv \<Rightarrow> bool" where
  "srv_inv s \<longleftrightarrow> queues_inv s \<and> gates_inv s \<and> jobs_inv s \<and> count_inv s \<and> det_ok s"

lemmas inv_defs = srv_inv_def queues_inv_def gates_inv_def jobs_inv_def count_inv_def

lemma pending_ring_empty: "ring_items N (r\<lparr>rhead := 0, rtail := 0\<rparr>) = []" "ring_wf N (r\<lparr>rhead := 0, rtail := 0\<rparr>)"
  by (simp_all add: ring_items_def ring_wf_def)

lemma srv_inv_on_load:
  assumes "0 < pg" "base mod pg = 0"
  shows "srv_inv (on_load m pg base)"
  using assms
  by (auto simp: inv_defs on_load_def Let_def in_progress_def pending_def det_ok_def
      det_init_region_def protect_regions_def det0_def total_cnt_def)


text \<open>The invariant only sees the sets of jobs in progress, not where in the pipeline they are.\<close>

lemma srv_inv_cong:
  assumes "set (in_progress s') = set (in_progress s)" "distinct (in_progress s') = distinct (in_progress s)"
    and "jobs s' = jobs s" "pend s' = pend s" "MODE s' = MODE s" "dt s' = dt s" "cnt s' = cnt s"
      "inflight s' = inflight s" "g_total s' = g_total s" "arena s' = arena s"
      "next_job s' = next_job s" "ring_wf QN (q s') = ring_wf QN (q s)"
  shows "srv_inv s' = srv_inv s"
proof -
  have "job_ok s' = job_ok s" "queued_ok s' = queued_ok s" "gate_of s' = gate_of s"
    "total_cnt s' = total_cnt s" "det_ok s' = det_ok s" "pending s' = pending s"
    by (simp_all add: fun_eq_iff job_ok_def queued_ok_def gate_of_def total_cnt_def det_ok_def
        fresh_def pending_def assms split: option.splits)
  with assms show ?thesis by (simp add: inv_defs)
qed

lemma srv_inv_take: "srv_inv s \<Longrightarrow> srv_inv (worker_take s)"
proof (cases "ring_get QN (q s)")
  case None
  then show "srv_inv s \<Longrightarrow> ?thesis" by (simp add: worker_take_def)
next
  case (Some p)
  assume inv: "srv_inv s"
  obtain j r where p: "p = (j, r)" by (cases p)
  have wf: "ring_wf QN (q s)" using inv by (simp add: inv_defs)
  then have "ring_items QN (q s) = j # ring_items QN r" "ring_wf QN r"
    using Some p ring.get_Some [OF wf] ring.wf_get [OF wf] by auto
  with Some p wf have "srv_inv (worker_take s) = srv_inv s"
    by (intro srv_inv_cong) (auto simp: worker_take_def in_progress_def)
  with inv show ?thesis by simp
qed

lemma srv_inv_done: "srv_inv s \<Longrightarrow> j \<in> set (offl s) \<Longrightarrow> srv_inv (worker_done j s)"
  by (subst srv_inv_cong [where s = s])
    (auto simp: worker_done_def in_progress_def inv_defs distinct_remove1 dest: in_set_remove1)

definition can_begin :: "srv \<Rightarrow> nat \<Rightarrow> bool" where
  "can_begin s j \<longleftrightarrow> j \<notin> set (in_progress s) \<and> (\<forall>g. j \<notin> set (pending s g)) \<and> ring_room QN (q s) \<and>
     (case jobs s j of None \<Rightarrow> False | Some jb \<Rightarrow> jslot jb < KSLOTS) \<and>
     (MODE s \<noteq> M_NAIVE \<longrightarrow> inflight s (gate_of s j) \<and>
        gate_of s j \<notin> gate_of s ` set (in_progress s))"

text \<open>Outside the set \<open>X\<close>, a gate is closed only while a job that passed it is in progress.\<close>

definition held :: "nat set \<Rightarrow> srv \<Rightarrow> bool" where
  "held X s \<longleftrightarrow> (MODE s \<noteq> M_NAIVE \<longrightarrow> (\<forall>g. inflight s g \<longrightarrow> g \<in> gate_of s ` set (in_progress s) \<union> X))"

lemma srv_inv_begin:
  assumes inv: "srv_inv s" and ready: "can_begin s j"
  shows "\<exists>s'. begin_job j s = Some s' \<and> srv_inv s' \<and> cnt s' = cnt s \<and> g_total s' = g_total s \<and>
    det_conflicts (dt s') = det_conflicts (dt s) \<and> MODE s' = MODE s \<and>
    set (in_progress s') = insert j (set (in_progress s)) \<and> pending s' = pending s \<and>
    (held {gate_of s j} s \<longrightarrow> held {} s')"
proof -
  obtain jb where jb: "jobs s j = Some jb" "jslot jb < KSLOTS"
    using ready by (auto simp: can_begin_def split: option.splits)
  define s' where "s' = enqueue_offload j (s\<lparr>jobs := (jobs s)(j \<mapsto> jb\<lparr>jv := cnt s (jslot jb)\<rparr>),
      dt := (if MODE s \<noteq> M_LOCK then det_park j (dt s) else dt s)\<rparr>)"
  have b: "begin_job j s = Some s'"
    by (simp add: begin_job_def jb s'_def Let_def enqueue_offload_def)
  have room: "ring_wf QN (q s)" "ring_room QN (q s)"
    using inv ready by (auto simp: inv_defs can_begin_def)
  have prog: "set (in_progress s') = insert j (set (in_progress s))" "distinct (in_progress s')"
    using ring.items_put [OF room, of j] inv ready
    by (auto simp: s'_def enqueue_offload_def in_progress_def inv_defs can_begin_def)
  have wf: "ring_wf QN (q s')"
    using ring.wf_put [OF room] by (simp add: s'_def enqueue_offload_def)
  have view: "jobs s' = (jobs s)(j \<mapsto> jb\<lparr>jv := cnt s (jslot jb)\<rparr>)" "pend s' = pend s"
    "MODE s' = MODE s" "cnt s' = cnt s" "inflight s' = inflight s" "g_total s' = g_total s"
    "arena s' = arena s" "next_job s' = next_job s" "pending s' = pending s"
    "total_cnt s' = total_cnt s"
    by (simp_all add: s'_def enqueue_offload_def pending_def fun_eq_iff total_cnt_def)
  have ok: "det_ok s" using inv by (simp add: inv_defs)
  have d: "pver (dt s') = pver (dt s)" "gclk (dt s') = gclk (dt s)"
    "det_conflicts (dt s') = det_conflicts (dt s)"
    "\<And>i. i \<noteq> j \<Longrightarrow> dfs (dt s') i = dfs (dt s) i"
    "park_clk (dfs (dt s') j) = (if MODE s = M_LOCK then park_clk (dfs (dt s) j) else gclk (dt s))"
    using ok by (auto simp: s'_def enqueue_offload_def det_ops det_ok_def)
  have ok': "det_ok s'"
    using ok by (auto simp: s'_def enqueue_offload_def det_ops det_ok_def)
  have gates: "gate_of s' = gate_of s"
    by (auto simp: fun_eq_iff gate_of_def view jb split: option.splits)
  have others: "job_ok s' i = job_ok s i" if "i \<noteq> j" for i
    using that by (auto simp: job_ok_def fresh_def view d split: option.splits)
  have this_job: "job_ok s' j"
    using jb ok' by (auto simp: job_ok_def fresh_def view d det_ok_def split: if_splits)
  have queued: "queued_ok s' g i = queued_ok s g i" for g i
    by (auto simp: queued_ok_def view jb split: option.splits)
  have "job_ok s' i" if "i \<in> set (in_progress s')" for i
    using that prog(1) others [of i] this_job inv by (cases "i = j") (auto simp: inv_defs)
  then have "jobs_inv s'"
    using inv by (auto simp: inv_defs view queued)
  moreover have "queues_inv s'" "gates_inv s'" "count_inv s'"
    using inv ready prog wf
    by (auto simp: inv_defs view gates d can_begin_def jb)
  ultimately have "srv_inv s'" using ok' by (simp add: srv_inv_def)
  with b show ?thesis by (auto simp: view d prog held_def gates)
qed

lemma srv_inv_alloc:
  assumes inv: "srv_inv s" and k: "k < KSLOTS"
  defines "s1 \<equiv> s\<lparr>next_job := Suc (next_job s), jobs := (jobs s)(next_job s \<mapsto> \<lparr>jslot = k, jv = 0\<rparr>),
     dt := (dt s)\<lparr>dfs := (dfs (dt s))(next_job s := \<lparr>park_clk = 0, active = False\<rparr>)\<rparr>\<rparr>"
  shows "srv_inv s1" "next_job s \<notin> set (in_progress s1)" "\<forall>g. next_job s \<notin> set (pending s1 g)"
    "in_progress s1 = in_progress s" "\<forall>i\<in>set (in_progress s1). gate_of s1 i = gate_of s i"
proof -
  let ?j = "next_job s"
  have nj: "jobs s ?j = None" using inv by (auto simp: inv_defs)
  have view: "in_progress s1 = in_progress s" "pending s1 = pending s" "pend s1 = pend s" "q s1 = q s"
    "MODE s1 = MODE s" "inflight s1 = inflight s"
    by (simp_all add: s1_def in_progress_def pending_def fun_eq_iff)
  have in_dom: "jobs s i \<noteq> None" if "i \<in> set (in_progress s)" for i
    using that inv by (auto simp: inv_defs job_ok_def split: option.splits)
  have q_dom: "jobs s i \<noteq> None" if "i \<in> set (pending s g)" for i g
    using that inv by (fastforce simp: inv_defs queued_ok_def split: option.splits)
  show n1: "?j \<notin> set (in_progress s1)" "\<forall>g. ?j \<notin> set (pending s1 g)" "in_progress s1 = in_progress s"
    using in_dom [of ?j] q_dom [of ?j] nj by (auto simp: view)
  have gates: "gate_of s1 i = gate_of s i" "job_ok s1 i = job_ok s i" "queued_ok s1 g i = queued_ok s g i"
    if "i \<noteq> ?j" for i g
    using that by (simp_all add: s1_def gate_of_def job_ok_def queued_ok_def fresh_def split: option.splits)
  show g1: "\<forall>i\<in>set (in_progress s1). gate_of s1 i = gate_of s i"
    using n1(1) gates(1) by (metis view(1))
  have "jobs_inv s1"
    using inv n1 gates(2,3) unfolding inv_defs view by metis
  moreover have "gates_inv s1"
    using inv g1 by (auto simp: inv_defs view inj_on_def)
  moreover have "queues_inv s1" using inv by (auto simp: inv_defs view) (auto simp: s1_def less_SucI split: if_splits)
  moreover have "count_inv s1" using inv by (simp add: inv_defs s1_def total_cnt_def)
  moreover have "det_ok s1" using inv by (auto simp: srv_inv_def det_ok_def s1_def)
  ultimately show "srv_inv s1" by (simp add: srv_inv_def)
qed

lemma slot_of_less [simp]: "slot_of p < KSLOTS"
proof -
  have "slot_of p = unat (fnv1a p 2166136261) mod 256"
    by (simp add: slot_of_def unat_mod KSLOTS_def)
  then show ?thesis by (simp add: KSLOTS_def)
qed

lemma srv_inv_cmd:
  assumes inv: "srv_inv s" and fits: "fits (Cmd argv) s"
  shows "\<exists>s'. cmd_rmw argv s = Some s' \<and> srv_inv s' \<and> (held {} s \<longrightarrow> held {} s')"
proof (cases "length argv = 2")
  case False
  with inv show ?thesis by (simp add: cmd_rmw_def)
next
  case True
  define k where "k = slot_of (argv ! 1)"
  define s1 where "s1 = s\<lparr>next_job := Suc (next_job s), jobs := (jobs s)(next_job s \<mapsto> \<lparr>jslot = k, jv = 0\<rparr>),
     dt := (dt s)\<lparr>dfs := (dfs (dt s))(next_job s := \<lparr>park_clk = 0, active = False\<rparr>)\<rparr>\<rparr>"
  note alloc = srv_inv_alloc [OF inv, of k, folded s1_def]
  let ?j = "next_job s" and ?g = "gate (MODE s) k"
  have k: "k < KSLOTS" by (simp add: k_def)
  have view: "MODE s1 = MODE s" "inflight s1 = inflight s" "pend s1 = pend s" "q s1 = q s"
    "jobs s1 ?j = Some \<lparr>jslot = k, jv = 0\<rparr>" "gate_of s1 ?j = ?g" "pending s1 = pending s"
    by (simp_all add: s1_def gate_of_def pending_def fun_eq_iff)
  have room: "ring_room QN (q s1)" "ring_room PENDN (pend s1 ?g)"
    using fits by (simp_all add: view k_def)
  have cmd: "cmd_rmw argv s =
      (if MODE s = M_NAIVE then begin_job ?j s1
       else if \<not> inflight s1 ?g then begin_job ?j (s1\<lparr>inflight := (inflight s1)(?g := True)\<rparr>)
       else Some (s1\<lparr>pend := (pend s1)(?g := ring_put PENDN ?j (pend s1 ?g))\<rparr>))"
    using True by (simp add: cmd_rmw_def k_def s1_def Let_def)
  have h1: "held {} s \<Longrightarrow> held {} s1"
    using alloc(4,5) [OF k] by (force simp: held_def view)
  consider (naive) "MODE s = M_NAIVE" | (free) "MODE s \<noteq> M_NAIVE" "\<not> inflight s1 ?g"
    | (busy) "MODE s \<noteq> M_NAIVE" "inflight s1 ?g" by blast
  then show ?thesis
  proof cases
    case naive
    then have "can_begin s1 ?j" using alloc k room by (simp add: can_begin_def view)
    from srv_inv_begin [OF alloc(1) [OF k] this] naive h1 show ?thesis by (auto simp: cmd held_def view)
  next
    case free
    define s2 where "s2 = s1\<lparr>inflight := (inflight s1)(?g := True)\<rparr>"
    have v2: "in_progress s2 = in_progress s1" "pending s2 = pending s1" "jobs s2 = jobs s1"
      "gate_of s2 = gate_of s1" "MODE s2 = MODE s1" "job_ok s2 = job_ok s1" "queued_ok s2 = queued_ok s1"
      "total_cnt s2 = total_cnt s1" "det_ok s2 = det_ok s1" "pend s2 = pend s1" "q s2 = q s1"
      by (simp_all add: s2_def in_progress_def pending_def gate_of_def job_ok_def queued_ok_def
          fresh_def total_cnt_def det_ok_def fun_eq_iff split: option.splits)
    have inv2: "srv_inv s2" 
      using alloc(1) [OF k] by (auto simp: inv_defs v2) (auto simp: s2_def)
    have "\<not> inflight s1 (gate_of s1 ?j)" using free by (simp add: view)
    then have "gate_of s1 ?j \<notin> gate_of s1 ` set (in_progress s1)"
      using alloc(1) [OF k] free(1) by (auto simp: inv_defs view)
    then have "can_begin s2 ?j"
      using alloc(2,3) [OF k] k room by (simp add: can_begin_def v2 view) (simp add: s2_def view)
    moreover have "held {} s \<Longrightarrow> held {gate_of s2 ?j} s2"
      using h1 by (auto simp: held_def v2 view) (auto simp: s2_def view split: if_splits)
    ultimately show ?thesis using srv_inv_begin [OF inv2, of ?j] free by (auto simp: cmd s2_def)
  next
    case busy
    define s2 where "s2 = s1\<lparr>pend := (pend s1)(?g := ring_put PENDN ?j (pend s1 ?g))\<rparr>"
    have v2: "in_progress s2 = in_progress s1" "jobs s2 = jobs s1"
      "gate_of s2 = gate_of s1" "MODE s2 = MODE s1" "job_ok s2 = job_ok s1" "queued_ok s2 = queued_ok s1"
      "total_cnt s2 = total_cnt s1" "det_ok s2 = det_ok s1" "q s2 = q s1" "inflight s2 = inflight s1"
      by (simp_all add: s2_def in_progress_def gate_of_def job_ok_def queued_ok_def
          fresh_def total_cnt_def det_ok_def fun_eq_iff split: option.splits)
    have wf: "ring_wf PENDN (pend s1 ?g)" using alloc(1) [OF k] by (simp add: inv_defs)
    have p2: "pending s2 = (pending s1)(?g := pending s1 ?g @ [?j])"
      using ring.items_put [OF wf room(2)] by (auto simp: fun_eq_iff pending_def s2_def)
    have w2: "\<forall>g. ring_wf PENDN (pend s2 g)"
      using alloc(1) [OF k] ring.wf_put [OF wf room(2)] by (auto simp: inv_defs s2_def)
    have "queues_inv s2"
      using alloc(1) [OF k] alloc(2,3) [OF k] w2 by (auto simp: inv_defs v2 p2) (auto simp: s2_def)
    moreover have "gates_inv s2"
      using alloc(1) [OF k] busy by (auto simp: inv_defs v2 p2 view)
    moreover have "jobs_inv s2"
      using alloc(1) [OF k] k by (auto simp: inv_defs v2 p2 queued_ok_def view)
    moreover have "count_inv s2" "det_ok s2"
      using alloc(1) [OF k] by (auto simp: inv_defs v2) (auto simp: s2_def)
    moreover have "held {} s \<Longrightarrow> held {} s2" using h1 by (simp add: held_def v2)
    ultimately show ?thesis using busy by (auto simp: cmd s2_def srv_inv_def)
  qed
qed

text \<open>The reply's write in every mode, as far as the invariant sees it.\<close>

lemma reply_write_any:
  assumes ok: "det_ok s" and k: "k < KSLOTS"
  shows "\<exists>d. reply_write s j k = Some d \<and>
    (\<forall>gp. gp \<noteq> k \<longrightarrow> pver d gp = pver (dt s) gp) \<and>
    (MODE s \<noteq> M_LOCK \<longrightarrow> pver d k = gclk (dt s) + 1) \<and>
    (\<forall>i. park_clk (dfs d i) = park_clk (dfs (dt s) i)) \<and>
    det_conflicts d = det_conflicts (dt s) + (if park_clk (dfs (dt s) j) < pver (dt s) k then 1 else 0) \<and>
    det_ok (s\<lparr>dt := d\<rparr>)"
proof (cases "MODE s = M_LOCK")
  case True
  with ok have "reply_write s j k = Some (dt s)" "pver (dt s) k = 0"
    by (auto simp: reply_write_def mem_write_def det_ok_def)
  with True ok show ?thesis by (auto simp: det_ok_def)
next
  case False
  from reply_write_det [OF ok False k, of j] obtain d where
    "reply_write s j k = Some d" "pver d = (pver (dt s))(k := gclk (dt s) + 1)"
    "gclk d = gclk (dt s) + 1" "\<forall>i. park_clk (dfs d i) = park_clk (dfs (dt s) i)"
    "det_conflicts d = det_conflicts (dt s) + (if park_clk (dfs (dt s) j) < pver (dt s) k then 1 else 0)"
    "same_frame (dt s) d" by blast
  with False ok show ?thesis by (auto simp: det_ok_def same_frame_def le_SucI)
qed

lemma srv_inv_free:
  assumes "srv_inv s" "j \<notin> set (in_progress s)" "\<forall>g. j \<notin> set (pending s g)"
  shows "srv_inv (s\<lparr>jobs := (jobs s)(j := None)\<rparr>) \<and> (held X s \<longrightarrow> held X (s\<lparr>jobs := (jobs s)(j := None)\<rparr>))"
    (is "srv_inv ?s \<and> _")
proof -
  have view: "in_progress ?s = in_progress s" "pending ?s = pending s" "total_cnt ?s = total_cnt s"
    "det_ok ?s = det_ok s"
    by (simp_all add: in_progress_def pending_def fun_eq_iff total_cnt_def det_ok_def)
  have same: "gate_of ?s i = gate_of s i" "job_ok ?s i = job_ok s i" "queued_ok ?s g i = queued_ok s g i"
    if "i \<noteq> j" for i g
    using that by (simp_all add: gate_of_def job_ok_def queued_ok_def fresh_def split: option.splits)
  have jobs: "jobs_inv ?s"
    using assms same(2,3) unfolding inv_defs view by metis
  have "\<forall>i\<in>set (in_progress s). gate_of ?s i = gate_of s i" using same(1) assms(2) by metis
  then have "gates_inv ?s"
    using assms(1) by (auto simp: inv_defs view inj_on_def)
  moreover have "queues_inv ?s" "count_inv ?s"
    using assms(1) by (auto simp: inv_defs view split: if_splits)
  moreover have "gate_of ?s ` set (in_progress s) = gate_of s ` set (in_progress s)"
    using assms(2) by (intro image_cong refl) (metis same(1))
  then have "held X s \<longrightarrow> held X ?s" by (simp add: held_def view)
  ultimately show ?thesis using jobs assms(1) by (simp add: srv_inv_def view)
qed

lemma srv_inv_gate:
  assumes inv: "srv_inv s" and room: "ring_room QN (q s)"
    and open_gate: "MODE s \<noteq> M_NAIVE \<longrightarrow> inflight s (gate (MODE s) k) \<and>
       gate (MODE s) k \<notin> gate_of s ` set (in_progress s)"
    and j: "j \<notin> set (in_progress s)" "\<forall>g. j \<notin> set (pending s g)"
  shows "\<exists>s'. advance_gate k s = Some s' \<and> srv_inv s' \<and> j \<notin> set (in_progress s') \<and>
    (\<forall>g. j \<notin> set (pending s' g)) \<and> (held {gate (MODE s) k} s \<longrightarrow> held {} s')"
proof -
  let ?g = "gate (MODE s) k"
  have wf: "ring_wf PENDN (pend s ?g)" using inv by (simp add: inv_defs)
  consider (naive) "MODE s = M_NAIVE" | (idle) "MODE s \<noteq> M_NAIVE" "ring_get PENDN (pend s ?g) = None"
    | (nxt) nx r where "MODE s \<noteq> M_NAIVE" "ring_get PENDN (pend s ?g) = Some (nx, r)"
    by fastforce
  then show ?thesis
  proof cases
    case naive
    with inv j show ?thesis by (simp add: advance_gate_def held_def)
  next
    case idle
    define s' where "s' = s\<lparr>inflight := (inflight s)(?g := False)\<rparr>"
    have view: "in_progress s' = in_progress s" "pending s' = pending s" "total_cnt s' = total_cnt s"
      "det_ok s' = det_ok s" "gate_of s' = gate_of s" "job_ok s' = job_ok s" "queued_ok s' = queued_ok s"
      "MODE s' = MODE s" "inflight s' = (inflight s)(?g := False)" "q s' = q s" "pend s' = pend s"
      "jobs s' = jobs s" "next_job s' = next_job s" "dt s' = dt s" "g_total s' = g_total s"
      by (simp_all add: s'_def in_progress_def pending_def fun_eq_iff total_cnt_def det_ok_def
          gate_of_def job_ok_def queued_ok_def fresh_def split: option.splits)
    have empty: "pending s ?g = []" using ring.get_None [OF wf] idle(2) by (simp add: pending_def)
    moreover have "\<forall>i\<in>set (in_progress s). gate_of s i \<noteq> ?g" using open_gate idle(1) by (auto simp: image_iff)
    ultimately have "gates_inv s'" using inv idle by (auto simp: inv_defs view)
    then have "srv_inv s'" using inv by (simp add: inv_defs view)
    moreover have "held {?g} s \<Longrightarrow> held {} s'" by (auto simp: held_def view)
    ultimately show ?thesis using idle j view(1,2) by (auto simp: advance_gate_def s'_def [symmetric] Let_def)
  next
    case nxt
    define s' where "s' = s\<lparr>pend := (pend s)(?g := r)\<rparr>"
    have items: "pending s ?g = nx # ring_items PENDN r"
      using ring.get_Some [OF wf nxt(2)] by (simp add: pending_def)
    have p': "pending s' = (pending s)(?g := ring_items PENDN r)"
      by (auto simp: s'_def pending_def fun_eq_iff)
    have view: "in_progress s' = in_progress s" "total_cnt s' = total_cnt s"
      "det_ok s' = det_ok s" "gate_of s' = gate_of s" "job_ok s' = job_ok s" "queued_ok s' = queued_ok s"
      "MODE s' = MODE s" "inflight s' = inflight s" "q s' = q s" "jobs s' = jobs s"
      "next_job s' = next_job s" "dt s' = dt s" "g_total s' = g_total s"
      "pend s' = (pend s)(?g := r)"
      by (simp_all add: s'_def in_progress_def fun_eq_iff total_cnt_def det_ok_def
          gate_of_def job_ok_def queued_ok_def fresh_def split: option.splits)
    have wf': "ring_wf PENDN r" by (rule ring.wf_get [OF wf nxt(2)])
    have nx: "nx \<in> set (pending s ?g)" by (simp add: items)
    have dist: "distinct (pending s ?g)" "\<forall>j\<in>set (pending s ?g). j \<notin> set (in_progress s) \<and> queued_ok s ?g j"
      using inv by (auto simp: inv_defs)
    from dist have "queues_inv s'" "gates_inv s'" "jobs_inv s'" "count_inv s'" "det_ok s'"
      using inv wf' items nxt(1) by (auto simp: inv_defs view p')
    then have inv': "srv_inv s'" by (simp add: srv_inv_def)
    have q: "queued_ok s ?g nx" "\<And>g. nx \<in> set (pending s g) \<Longrightarrow> queued_ok s g nx"
      using inv nx by (auto simp: inv_defs)
    have "nx \<notin> set (pending s' g)" for g
    proof (cases "g = ?g")
      case True
      with dist(1) items show ?thesis by (simp add: p')
    next
      case False
      with q show ?thesis by (auto simp: p' queued_ok_def split: option.splits)
    qed
    then have "can_begin s' nx"
      using q(1) inv nx room open_gate nxt(1)
      by (auto simp: can_begin_def view inv_defs queued_ok_def gate_of_def split: option.splits)
    from srv_inv_begin [OF inv' this] obtain s2 where
      s2: "begin_job nx s' = Some s2" "srv_inv s2" "set (in_progress s2) = insert nx (set (in_progress s))"
        "pending s2 = pending s'" "held {gate_of s' nx} s' \<longrightarrow> held {} s2" by (auto simp: view)
    have "gate_of s nx = ?g"
      using q(1) by (auto simp: gate_of_def queued_ok_def split: option.splits)
    with s2(5) have hold: "held {?g} s \<longrightarrow> held {} s2" by (simp add: held_def view)
    have jnx: "j \<noteq> nx" using j nx by auto
    have "j \<notin> set (pending s ?g)" using j(2) by blast
    then have "\<forall>g. j \<notin> set (pending s' g)" using j(2) items by (simp add: p')
    with s2 hold jnx nxt j show ?thesis by (auto simp: advance_gate_def s'_def)
  qed
qed

lemma srv_inv_reply:
  assumes inv: "srv_inv s" and j: "j \<in> set (posted s)" and room: "ring_room QN (q s)"
  shows "\<exists>s'. reply_cb j s = Some s' \<and> srv_inv s' \<and> (held {} s \<longrightarrow> held {} s')"
proof -
  have jp: "j \<in> set (in_progress s)" using j by (simp add: in_progress_def)
  then have "job_ok s j" using inv by (simp add: inv_defs)
  then obtain jb where jb: "jobs s j = Some jb" "jslot jb < KSLOTS"
    "fresh s j jb \<longrightarrow> jv jb = cnt s (jslot jb)" "MODE s \<noteq> M_NAIVE \<longrightarrow> fresh s j jb"
    by (auto simp: job_ok_def split: option.splits)
  define k where "k = jslot jb"
  note jb = jb [folded k_def]
  have ok: "det_ok s" using inv by (simp add: srv_inv_def)
  from reply_write_any [OF ok jb(2), of j] obtain d where
    d: "reply_write s j k = Some d" "\<forall>gp. gp \<noteq> k \<longrightarrow> pver d gp = pver (dt s) gp"
      "MODE s \<noteq> M_LOCK \<longrightarrow> pver d k = gclk (dt s) + 1"
      "\<forall>i. park_clk (dfs d i) = park_clk (dfs (dt s) i)"
      "det_conflicts d = det_conflicts (dt s) + (if park_clk (dfs (dt s) j) < pver (dt s) k then 1 else 0)"
      "det_ok (s\<lparr>dt := d\<rparr>)" by blast
  define s1 where "s1 = s\<lparr>posted := remove1 j (posted s), cnt := (cnt s)(k := jv jb + 1),
       g_total := g_total s + 1, dt := d\<rparr>"
  have reply: "reply_cb j s = map_option (\<lambda>s2. s2\<lparr>jobs := (jobs s2)(j := None)\<rparr>) (advance_gate k s1)"
    using d(1) by (auto simp: reply_cb_def reply_write_def jb k_def [symmetric] s1_def Let_def
        split: option.splits)
  have view: "pending s1 = pending s" "gate_of s1 = gate_of s" "queued_ok s1 = queued_ok s"
    "MODE s1 = MODE s" "inflight s1 = inflight s" "q s1 = q s" "pend s1 = pend s" "jobs s1 = jobs s"
    "next_job s1 = next_job s" "dt s1 = d" "g_total s1 = g_total s + 1"
    by (simp_all add: s1_def pending_def fun_eq_iff gate_of_def queued_ok_def split: option.splits)
  have tot: "total_cnt s1 = total_cnt s + (jv jb + 1) - cnt s k"
    using jb(2) by (simp add: s1_def total_cnt_def del: fun_upd_apply)
  have dist: "distinct (in_progress s)" using inv by (simp add: inv_defs)
  then have prog: "set (in_progress s1) = set (in_progress s) - {j}" "distinct (in_progress s1)"
    using j by (auto simp: s1_def in_progress_def distinct_remove1 set_remove1_eq)
  have gj: "gate_of s j = gate (MODE s) k" by (simp add: gate_of_def jb k_def)
  have other: "job_ok s1 i" if i: "i \<in> set (in_progress s)" "i \<noteq> j" for i
  proof -
    have "job_ok s i" using i inv by (simp add: inv_defs)
    then obtain ib where ib: "jobs s i = Some ib" "jslot ib < KSLOTS"
      "fresh s i ib \<longrightarrow> jv ib = cnt s (jslot ib)" "MODE s \<noteq> M_NAIVE \<longrightarrow> fresh s i ib"
      by (auto simp: job_ok_def split: option.splits)
    have gi: "gate_of s i = gate (MODE s) (jslot ib)" by (simp add: gate_of_def ib)
    have neq: "gate_of s i \<noteq> gate_of s j" if "MODE s \<noteq> M_NAIVE"
      using that inv i jp by (auto simp: inv_defs dest: inj_onD)
    show ?thesis
    proof (cases "jslot ib = k")
      case True
      then have "MODE s = M_NAIVE" using neq gi gj by auto
      then have "\<not> fresh s1 i ib"
        using ok d(3,4) True by (auto simp: fresh_def view det_ok_def not_le less_Suc_eq_le)
      with ib \<open>MODE s = M_NAIVE\<close> show ?thesis by (simp add: job_ok_def view)
    next
      case False
      with ib d(2,4) show ?thesis by (auto simp: job_ok_def view fresh_def s1_def)
    qed
  qed
  have jpend: "\<forall>g. j \<notin> set (pending s g)" using inv jp by (auto simp: inv_defs)
  have "queues_inv s1" "gates_inv s1" "jobs_inv s1"
    using inv prog other by (auto simp: inv_defs view intro: inj_on_subset)
  moreover have "count_inv s1"
    using inv d(5) jb(3,4) by (auto simp: inv_defs view tot fresh_def k_def [symmetric] not_le)
  moreover have "det_ok s1" using d(6) by (simp add: det_ok_def s1_def split: if_splits)
  ultimately have inv1: "srv_inv s1" by (simp add: srv_inv_def)
  have "MODE s1 \<noteq> M_NAIVE \<longrightarrow> inflight s1 (gate (MODE s1) k) \<and>
       gate (MODE s1) k \<notin> gate_of s1 ` set (in_progress s1)"
    using inv jp prog(1) by (auto simp: inv_defs view gj [symmetric] dest: inj_onD)
  from srv_inv_gate [OF inv1 _ this, of j] room jpend prog(1) obtain s2 where
    "advance_gate k s1 = Some s2" "srv_inv s2" "j \<notin> set (in_progress s2)"
    "\<forall>g. j \<notin> set (pending s2 g)" "held {gate (MODE s1) k} s1 \<longrightarrow> held {} s2" by (auto simp: view)
  moreover have "held {} s \<Longrightarrow> held {gate (MODE s1) k} s1"
    by (auto simp: held_def view prog(1) gj [symmetric])
  ultimately show ?thesis using srv_inv_free [of s2 j "{}"] by (auto simp: reply)
qed

lemma srv_inv_reset:
  assumes inv: "srv_inv s" and fits: "fits Reset s"
  shows "srv_inv (cmd_reset s) \<and> (held {} s \<longrightarrow> held {} (cmd_reset s))"
proof -
  let ?s = "cmd_reset s"
  have ok: "det_ok s" and idle: "in_progress s = []" using inv fits by (auto simp: srv_inv_def)
  have "pending s g = []" for g
  proof (cases "g < KSLOTS")
    case True
    with fits show ?thesis by (simp add: list_all_iff)
  next
    case False
    have "queued_ok s g j" if "j \<in> set (pending s g)" for j using that inv by (auto simp: inv_defs)
    with False show ?thesis
      by (cases "pending s g") (force simp: queued_ok_def gate_def KSLOTS_def split: option.splits if_splits)+
  qed
  then have pnd: "pending ?s g = []" for g
    by (simp add: cmd_reset_def Let_def pending_def) (simp add: ring_items_def)
  have prog: "in_progress ?s = []" using idle by (simp add: cmd_reset_def Let_def in_progress_def)
  have "det_ok ?s"
    using ok by (auto simp: det_ok_def cmd_reset_def Let_def protect_regions_def fun_eq_iff)
  moreover have "queues_inv ?s"
    using inv by (auto simp: queues_inv_def prog pnd)
      (auto simp: inv_defs cmd_reset_def Let_def ring_wf_def)
  moreover have "count_inv ?s"
    by (auto simp: count_inv_def cmd_reset_def Let_def total_cnt_def protect_regions_def)
  moreover have "held {} s \<longrightarrow> held {} ?s"
    using idle prog by (auto simp: held_def cmd_reset_def Let_def)
  ultimately show ?thesis by (simp add: srv_inv_def gates_inv_def jobs_inv_def prog pnd)
qed

lemma held_on_load: "held {} (on_load m pg base)"
  by (simp add: held_def on_load_def Let_def)

lemma held_cong:
  assumes "set (in_progress s') = set (in_progress s)" "jobs s' = jobs s" "MODE s' = MODE s"
    "inflight s' = inflight s"
  shows "held X s' = held X s"
proof -
  have "gate_of s' = gate_of s" by (simp add: fun_eq_iff gate_of_def assms split: option.splits)
  with assms show ?thesis by (simp add: held_def)
qed

lemma held_take: "srv_inv s \<Longrightarrow> held {} s \<Longrightarrow> held {} (worker_take s)"
proof (cases "ring_get QN (q s)")
  case (Some p)
  assume inv: "srv_inv s" and h: "held {} s"
  obtain j r where p: "p = (j, r)" by (cases p)
  have wf: "ring_wf QN (q s)" using inv by (simp add: inv_defs)
  with Some p ring.get_Some [OF wf] have "held {} (worker_take s) = held {} s"
    by (intro held_cong) (auto simp: worker_take_def in_progress_def)
  with h show ?thesis by simp
qed (simp add: worker_take_def)

lemma held_done: "held {} s \<Longrightarrow> j \<in> set (offl s) \<Longrightarrow> srv_inv s \<Longrightarrow> held {} (worker_done j s)"
  by (subst held_cong [where s = s])
    (auto simp: worker_done_def in_progress_def inv_defs dest: in_set_remove1)

lemma srv_inv_step:
  assumes "srv_inv s" "held {} s" "fits e s"
  shows "\<exists>s'. srv_step e s = Some s' \<and> srv_inv s' \<and> held {} s'"
proof (cases e)
  case (Finish j)
  with assms srv_inv_done held_done show ?thesis by auto
qed (use assms srv_inv_cmd srv_inv_take held_take srv_inv_reply srv_inv_reset in fastforce)+

lemma begin_mode: "begin_job j s = Some s' \<Longrightarrow> MODE s' = MODE s"
  by (auto simp: begin_job_def enqueue_offload_def Let_def split: option.splits)

lemma gate_mode: "advance_gate k s = Some s' \<Longrightarrow> MODE s' = MODE s"
  by (auto simp: advance_gate_def Let_def dest: begin_mode split: option.splits if_splits)

lemma step_mode: "srv_step e s = Some s' \<Longrightarrow> MODE s' = MODE s"
  by (cases e)
    (auto simp: cmd_rmw_def reply_cb_def worker_take_def worker_done_def cmd_reset_def Let_def
      dest: begin_mode gate_mode split: option.splits if_splits)

lemma srv_inv_run:
  assumes "srv_inv s" "held {} s" "run_fits es s"
  shows "\<exists>s'. srv_run es s = Some s' \<and> srv_inv s' \<and> held {} s' \<and> MODE s' = MODE s"
  using assms
proof (induction es arbitrary: s)
  case (Cons e es)
  with srv_inv_step [of s e] obtain s1 where s1: "srv_step e s = Some s1" "srv_inv s1" "held {} s1" by auto
  with Cons.prems Cons.IH [of s1] step_mode [OF s1(1)] show ?case by auto
qed simp

section \<open>What the module guarantees\<close>

lemma cmd_stats_total:
  "cmd_stats s = (MODE s, g_total s, total_cnt s, g_total s - total_cnt s,
     det_conflicts (dt s), det_faults (dt s))"
  by (simp add: cmd_stats_def total_cnt_def)

lemma run_from_load:
  assumes "0 < pg" "base mod pg = 0" "run_fits es (on_load m pg base)"
  obtains s where "srv_run es (on_load m pg base) = Some s" "srv_inv s" "held {} s"
    "MODE s = MODE (on_load m pg base)"
  using srv_inv_run [OF srv_inv_on_load [OF assms(1,2)] held_on_load assms(3)] by blast

text \<open>A key of one byte, two overlapping requests for it, and a run of one request.\<close>

definition rmw_k :: event where "rmw_k = Cmd [[], [107]]"

definition one_job :: "event list" where
  "one_job = [rmw_k, Take, Finish 0, Reply 0]"

definition overlap :: "event list" where
  "overlap = [rmw_k, rmw_k, Take, Take, Finish 0, Finish 1, Reply 0, Reply 1]"

lemma slot_k: "slot_of [107] = 234"
  by (simp add: slot_of_def KSLOTS_def)

lemmas trace_defs = rmw_k_def slot_k on_load_def cmd_rmw_def begin_job_def enqueue_offload_def
  worker_take_def worker_done_def reply_cb_def advance_gate_def cnt_addr_def gate_def
  det_init_region_def det0_def ring_put_def ring_get_def ring_empty_def ring_room_def
  det_ops mem_write_def handler_def det_page_def stale_def Let_def KSLOTS_def QN_def PENDN_def MAXPG_def

lemma fits_one_job:
  "run_fits one_job (on_load None 4096 8192)"
  "run_fits one_job (on_load (Some ''detect'') 4096 8192)"
  "run_fits one_job (on_load (Some ''lock'') 4096 8192)"
  by (simp_all add: one_job_def trace_defs)





text \<open>The gates admit one request at a time: in mode \<open>detect\<close> two jobs in progress never work on
  the same key slot, in mode \<open>lock\<close> there is at most one job in progress.\<close>

theorem one_job_per_gate:
  assumes "0 < pg" "base mod pg = 0" "m = Some ''detect'' \<or> m = Some ''lock''"
    and "run_fits es (on_load m pg base)" "srv_run es (on_load m pg base) = Some s"
    and "i \<in> set (in_progress s)" "j \<in> set (in_progress s)" "i \<noteq> j"
  shows "m = Some ''detect'' \<and> map_option jslot (jobs s i) \<noteq> map_option jslot (jobs s j)"
proof (rule run_from_load [OF assms(1,2,4)])
  fix s' assume s': "srv_run es (on_load m pg base) = Some s'" "srv_inv s'"
    "MODE s' = MODE (on_load m pg base)"
  then have s: "srv_inv s" "MODE s = (if m = Some ''lock'' then M_LOCK else M_DETECT)"
    using assms(3,5) by (auto simp: on_load_def Let_def)
  then have "MODE s \<noteq> M_NAIVE" by simp
  with s(1) have inj: "inj_on (gate_of s) (set (in_progress s))" and ok: "job_ok s i" "job_ok s j"
    using assms(6,7) by (auto simp: inv_defs)
  from inj assms(6-8) have neq: "gate_of s i \<noteq> gate_of s j" by (auto dest: inj_onD)
  with ok s(2) assms(3) show ?thesis
    by (auto simp: gate_of_def job_ok_def gate_def split: option.splits if_splits)
qed

text \<open>Two keys at once, which mode \<open>detect\<close> admits.\<close>

definition two_keys :: "event list" where
  "two_keys = [rmw_k, Cmd [[], [108]]]"

theorem one_job_per_gate_witness:
  "\<exists>s. srv_run two_keys (on_load (Some ''detect'') 4096 8192) = Some s \<and>
    map_option jslot (jobs s 0) \<noteq> map_option jslot (jobs s 1)"
proof -
  have slot: "slot_of [108] = 11" by (simp add: slot_of_def KSLOTS_def)
  have fits: "run_fits two_keys (on_load (Some ''detect'') 4096 8192)"
    by (auto simp: two_keys_def trace_defs slot)
  obtain s where s: "srv_run two_keys (on_load (Some ''detect'') 4096 8192) = Some s"
    "in_progress s = [0, 1]"
    by (simp add: two_keys_def trace_defs slot in_progress_def ring_items_def)
  from one_job_per_gate [OF _ _ _ fits s(1), of 0 1] s show ?thesis by simp
qed

text \<open>C34: No request is stranded behind a gate. In the gated modes, whenever no job is in
  progress, every gate is open and no request waits.\<close>

theorem no_stranded_request:
  assumes "0 < pg" "base mod pg = 0" "m = Some ''detect'' \<or> m = Some ''lock''"
    and "run_fits es (on_load m pg base)" "srv_run es (on_load m pg base) = Some s"
    and "in_progress s = []"
  shows "\<not> inflight s g \<and> pending s g = []"
proof (rule run_from_load [OF assms(1,2,4)])
  fix s' assume s': "srv_run es (on_load m pg base) = Some s'" "srv_inv s'" "held {} s'"
    "MODE s' = MODE (on_load m pg base)"
  then have s: "srv_inv s" "held {} s" "MODE s \<noteq> M_NAIVE"
    using assms(3,5) by (auto simp: on_load_def Let_def)
  with assms(6) have "\<not> inflight s g" by (simp add: held_def)
  with s show ?thesis by (auto simp: inv_defs)
qed

theorem no_stranded_request_witness:
  "\<exists>s. srv_run one_job (on_load (Some ''lock'') 4096 8192) = Some s \<and> \<not> inflight s 0"
proof -
  obtain s where s: "srv_run one_job (on_load (Some ''lock'') 4096 8192) = Some s" "in_progress s = []"
    by (simp add: one_job_def trace_defs in_progress_def ring_items_def)
  from no_stranded_request [OF _ _ _ fits_one_job(3) s, of 0] s show ?thesis by simp
qed

text \<open>The naive mode does lose updates, and the detector says so: two overlapping requests for
  one key commit twice, the counter moves by one, and one conflict is reported.\<close>

theorem naive_mode_loses:
  "map_option cmd_stats (srv_run overlap (on_load None 4096 8192)) = Some (M_NAIVE, 2, 1, 1, 1, 2)"
  by (simp add: overlap_def trace_defs cmd_stats_def)

lemma sum_single_commit:
  fixes n k :: nat
  shows "(\<Sum>i<n. if i = k then v else if i < n then 0 else f i) = (if k < n then v else (0::int))"
proof -
  have "(\<Sum>i<n. if i = k then v else if i < n then 0 else f i) = (\<Sum>i<n. if i = k then v else 0)"
    by (intro sum.cong) auto
  then show ?thesis by (simp add: sum.delta)
qed

text \<open>\<open>DET.RESET\<close> does not wait for the jobs in flight: it opens their gates, so in mode
  \<open>detect\<close> a request admitted after it overlaps one from before it on the same key, and the
  update that the gates should have kept is lost.\<close>

theorem reset_in_flight_loses:
  "map_option cmd_stats
     (srv_run [rmw_k, Reset, rmw_k, Take, Take, Finish 0, Finish 1, Reply 0, Reply 1]
        (on_load (Some ''detect'') 4096 8192)) = Some (M_DETECT, 2, 1, 1, 1, 2)"
  by (simp add: trace_defs cmd_reset_def cmd_stats_def sum_single_commit)

end
