(* ===== verification/Accel.thy ===== *)
theory Accel
  imports Ring
begin

text \<open>
  The accelerator libraries: \<open>transparent-runtime/libaccel.c\<close>, whose device thread serves a table
  of \<open>NSLOT\<close> slots in order of their deadlines, and \<open>libaccel_remote.c\<close>, whose offload is a
  blocking round trip to a remote signer. The AES and zlib routines are parameters. The locale
  \<open>offload_device\<close> is what a caller of the asynchronous API relies on; both libraries are
  instances of it.
\<close>

section \<open>The shared accelerator\<close>

definition NSLOT :: nat where "NSLOT = 8192"

record slot =
  sbuf :: nat
  sn :: nat
  deadline :: u64
  busy :: bool
  sdone :: bool

record accel =
  slots :: "nat \<Rightarrow> slot"
  sub_head :: nat
  ACCEL_LAT_NS :: u64
  ACCEL_OP :: bool
  dev_started :: bool
  dmem :: memory

text \<open>The third-party routines: AES-128-CTR under the fixed key, and zlib.\<close>

record crypto =
  EVP_ctr :: "u8 list \<Rightarrow> u8 list"
  zcompress :: "u8 list \<Rightarrow> u8 list"
  zuncompress :: "nat \<Rightarrow> u8 list \<Rightarrow> u8 list"

definition accel0 :: "memory \<Rightarrow> accel" where
  "accel0 m = \<lparr>slots = (\<lambda>_. \<lparr>sbuf = 0, sn = 0, deadline = 0, busy = False, sdone = False\<rparr>),
     sub_head = 0, ACCEL_LAT_NS = 20000, ACCEL_OP = False, dev_started = False, dmem = m\<rparr>"

definition zip_roundtrip :: "crypto \<Rightarrow> nat \<Rightarrow> nat \<Rightarrow> memory \<Rightarrow> memory" where
  "zip_roundtrip cr b n m = (let c = zcompress cr (rd m b n); d = zuncompress cr n c in wr b d m)"

definition aes_ctr :: "crypto \<Rightarrow> nat \<Rightarrow> nat \<Rightarrow> memory \<Rightarrow> memory" where
  "aes_ctr cr b n m = (let tmp = rd m b n in wr b (EVP_ctr cr tmp) m)"

definition device_slot :: "crypto \<Rightarrow> u64 \<Rightarrow> nat \<Rightarrow> accel \<Rightarrow> accel" where
  "device_slot cr t i d =
     (let s = slots d i
      in if busy s \<and> \<not> sdone s \<and> deadline s \<le> t
         then d\<lparr>dmem := (if ACCEL_OP d then zip_roundtrip cr (sbuf s) (sn s) (dmem d)
                        else aes_ctr cr (sbuf s) (sn s) (dmem d)),
                slots := (slots d)(i := s\<lparr>sdone := True\<rparr>)\<rparr>
         else d)"

text \<open>One turn of the device's endless loop, at the time \<open>t\<close> it reads first.\<close>

definition device_pass :: "crypto \<Rightarrow> u64 \<Rightarrow> accel \<Rightarrow> accel" where
  "device_pass cr t d = fold (device_slot cr t) [0..<NSLOT] d"

definition ensure_dev :: "environ \<Rightarrow> accel \<Rightarrow> accel" where
  "ensure_dev env d =
     (if dev_started d then d
      else d\<lparr>ACCEL_LAT_NS := (case env ''ACCEL_LAT_US'' of None \<Rightarrow> ACCEL_LAT_NS d
                                | Some e \<Rightarrow> of_int (atoi e) * 1000),
             ACCEL_OP := (if env ''ACCEL_OP'' = Some ''zip'' then True else ACCEL_OP d),
             dev_started := True\<rparr>)"

definition accel_submit :: "environ \<Rightarrow> u64 \<Rightarrow> nat \<Rightarrow> nat \<Rightarrow> accel \<Rightarrow> nat \<times> accel" where
  "accel_submit env now b n d0 =
     (let d = ensure_dev env d0; rid = sub_head d; i = rid mod NSLOT
      in (rid, d\<lparr>sub_head := Suc rid,
                slots := (slots d)(i := \<lparr>sbuf = b, sn = n, deadline = now + ACCEL_LAT_NS d,
                                         busy = True, sdone = False\<rparr>)\<rparr>))"

definition accel_done :: "nat \<Rightarrow> accel \<Rightarrow> bool" where
  "accel_done rid d = sdone (slots d (rid mod NSLOT))"

definition accel_release :: "nat \<Rightarrow> accel \<Rightarrow> accel" where
  "accel_release rid d =
     d\<lparr>slots := (slots d)(rid mod NSLOT := (slots d (rid mod NSLOT))\<lparr>busy := False\<rparr>)\<rparr>"

text \<open>
  The synchronous API: the caller sleeps between polls; \<open>ts\<close> are the times of the device turns that
  pass meanwhile, and \<open>None\<close> is a caller that is still waiting when they end.
\<close>

fun wait_done :: "crypto \<Rightarrow> nat \<Rightarrow> u64 list \<Rightarrow> accel \<Rightarrow> accel option" where
  "wait_done cr rid ts d =
     (if accel_done rid d then Some (accel_release rid d)
      else case ts of [] \<Rightarrow> None | t # ts' \<Rightarrow> wait_done cr rid ts' (device_pass cr t d))"

definition accel_encrypt ::
  "environ \<Rightarrow> crypto \<Rightarrow> u64 \<Rightarrow> nat \<Rightarrow> nat \<Rightarrow> u64 list \<Rightarrow> accel \<Rightarrow> accel option" where
  "accel_encrypt env cr now b n ts d =
     (let (rid, d1) = accel_submit env now b n d in wait_done cr rid ts d1)"

section \<open>The remote accelerator\<close>

text \<open>
  \<open>libaccel_remote.c\<close>: \<open>attempt\<close> says, for each attempt, whether the connection could be made,
  whether the digest could be written and what the signer answered: the bytes that arrived before
  the peer closed. \<open>garbage\<close> is the content of the uninitialised signature buffer. A connection
  kept from an earlier call may turn out to be broken when the digest is written.
\<close>

record attempt =
  connects :: bool
  writes :: bool
  answer :: "u8 list"

record remote =
  rsock :: bool
  rmem :: memory

definition remote_sig :: "u8 list \<Rightarrow> u8 list \<Rightarrow> u8 list" where
  "remote_sig garbage ans = take 256 ans @ drop (length (take 256 ans)) garbage"

definition remote_encrypt ::
  "u8 list \<Rightarrow> attempt \<Rightarrow> attempt \<Rightarrow> nat \<Rightarrow> nat \<Rightarrow> remote \<Rightarrow> remote" where
  "remote_encrypt garbage a1 a2 b n r =
     (if \<not> rsock r \<and> \<not> connects a1 then r
      else
        (let r1 = r\<lparr>rsock := True\<rparr>
         in if writes a1
            then r1\<lparr>rmem := wr b (take (min 32 n) (remote_sig garbage (answer a1))) (rmem r1)\<rparr>
            else if \<not> connects a2 then r1\<lparr>rsock := False\<rparr>
            else r1\<lparr>rmem := wr b (take (min 32 n)
                      (remote_sig garbage (if writes a2 then answer a2 else []))) (rmem r1)\<rparr>))"

definition remote_submit ::
  "u8 list \<Rightarrow> attempt \<Rightarrow> attempt \<Rightarrow> nat \<Rightarrow> nat \<Rightarrow> remote \<Rightarrow> nat \<times> remote" where
  "remote_submit garbage a1 a2 b n r = (0, remote_encrypt garbage a1 a2 b n r)"

definition remote_done :: "nat \<Rightarrow> remote \<Rightarrow> bool" where
  "remote_done rid r = True"

definition remote_release :: "nat \<Rightarrow> remote \<Rightarrow> remote" where
  "remote_release rid r = r"

section \<open>The contract of an asynchronous device\<close>

text \<open>
  \<open>live rid d\<close>: the request \<open>rid\<close> was submitted and not released. The first locale says that a
  device keeps a live request and its completion, whatever is submitted, served or released
  beside it; the second that live requests have names of their own.
\<close>

text \<open>A client's calls and the device's turns; a submission needs room, a release a live request.\<close>

datatype 'i client_op = Submit_op nat nat | Release_op 'i | Turn_op

fun client_run :: "(nat \<Rightarrow> nat \<Rightarrow> 'd \<Rightarrow> 'i \<times> 'd) \<Rightarrow> ('i \<Rightarrow> 'd \<Rightarrow> 'd) \<Rightarrow> ('d \<Rightarrow> 'd) \<Rightarrow> ('i \<Rightarrow> 'd \<Rightarrow> bool) \<Rightarrow> ('d \<Rightarrow> bool) \<Rightarrow>
    'i client_op list \<Rightarrow> 'd \<Rightarrow> 'd option" where
  "client_run submit release turn live room [] d = Some d"
| "client_run submit release turn live room (Submit_op b n # ops) d =
     (if room d then client_run submit release turn live room ops (snd (submit b n d)) else None)"
| "client_run submit release turn live room (Release_op rid # ops) d =
     (if live rid d then client_run submit release turn live room ops (release rid d) else None)"
| "client_run submit release turn live room (Turn_op # ops) d = client_run submit release turn live room ops (turn d)"

locale offload_device =
  fixes submit :: "nat \<Rightarrow> nat \<Rightarrow> 'd \<Rightarrow> 'i \<times> 'd"
    and is_done :: "'i \<Rightarrow> 'd \<Rightarrow> bool"
    and release :: "'i \<Rightarrow> 'd \<Rightarrow> 'd"
    and turn :: "'d \<Rightarrow> 'd"
    and live :: "'i \<Rightarrow> 'd \<Rightarrow> bool"
    and room :: "'d \<Rightarrow> bool"
  assumes submit_live: "room d \<Longrightarrow> submit b n d = (rid, d') \<Longrightarrow> live rid d'"
    and submit_keeps: "room d \<Longrightarrow> submit b n d = (rid, d') \<Longrightarrow> live k d \<Longrightarrow>
          live k d' \<and> is_done k d' = is_done k d"
    and release_keeps: "live rid d \<Longrightarrow> live k d \<Longrightarrow> k \<noteq> rid \<Longrightarrow>
          live k (release rid d) \<and> is_done k (release rid d) = is_done k d"
    and turn_keeps: "live k d \<Longrightarrow> live k (turn d) \<and> (is_done k d \<longrightarrow> is_done k (turn d))"
begin

text \<open>A request that is done stays done, whatever is submitted, served or released beside it.\<close>

lemma stays_done:
  assumes "live k d" "is_done k d" "Release_op k \<notin> set ops" "client_run submit release turn live room ops d = Some d'"
  shows "live k d' \<and> is_done k d'"
  using assms
proof (induction ops arbitrary: d)
  case (Cons op ops)
  show ?case
  proof (cases op)
    case (Submit_op b n)
    have "room d" "client_run submit release turn live room ops (snd (submit b n d)) = Some d'"
      using Submit_op Cons.prems(4) by (simp_all split: if_splits)
    moreover have "live k (snd (submit b n d)) \<and> is_done k (snd (submit b n d))"
      using submit_keeps [of d b n "fst (submit b n d)" "snd (submit b n d)" k] Cons.prems(1,2) calculation(1) by simp
    ultimately show ?thesis
      using Cons.prems(3) by (intro Cons.IH) simp_all
  next
    case (Release_op rid)
    have "live rid d" "rid \<noteq> k" "client_run submit release turn live room ops (release rid d) = Some d'"
      using Release_op Cons.prems(3,4) by (auto split: if_splits)
    moreover have "live k (release rid d) \<and> is_done k (release rid d)"
      using release_keeps [of rid d k] Cons.prems(1,2) calculation(1,2) by simp
    ultimately show ?thesis
      using Cons.prems(3) by (intro Cons.IH) simp_all
  next
    case Turn_op
    moreover have "live k (turn d) \<and> is_done k (turn d)"
      using turn_keeps [of k d] Cons.prems(1,2) by simp
    ultimately show ?thesis
      using Cons.prems(3,4) by (intro Cons.IH) simp_all
  qed
qed simp

end

locale async_device = offload_device +
  assumes submit_fresh: "room d \<Longrightarrow> submit b n d = (rid, d') \<Longrightarrow> live k d \<Longrightarrow> k \<noteq> rid"
    and release_ends: "live rid d \<Longrightarrow> \<not> live rid (release rid d)"
begin

text \<open>A submission never gets the name of a request that is live, so its own is done exactly when the device says so.\<close>

lemma submit_distinct:
  assumes "room d" "submit b n d = (rid, d1)" "room d1" "submit b' n' d1 = (rid', d2)"
  shows "rid' \<noteq> rid"
  using submit_fresh [OF assms(3,4) submit_live [OF assms(1,2)]] by simp

end

section \<open>Both libraries keep the contract\<close>

definition slot_live :: "nat \<Rightarrow> accel \<Rightarrow> bool" where
  "slot_live rid d \<longleftrightarrow> rid < sub_head d \<and> sub_head d \<le> rid + NSLOT \<and> busy (slots d (rid mod NSLOT))"

definition slot_room :: "accel \<Rightarrow> bool" where
  "slot_room d \<longleftrightarrow> \<not> busy (slots d (sub_head d mod NSLOT))"

lemma NSLOT_pos: "0 < NSLOT"
  by (simp add: NSLOT_def)

lemma window_slots:
  assumes "slot_live k d" "slot_live rid d" "k \<noteq> rid"
  shows "k mod NSLOT \<noteq> rid mod NSLOT"
proof -
  have "k < rid \<Longrightarrow> rid - k < NSLOT" "rid < k \<Longrightarrow> k - rid < NSLOT"
    using assms by (auto simp: slot_live_def)
  with assms(3) mod_window_neq [of k rid NSLOT] mod_window_neq [of rid k NSLOT] show ?thesis
    by (metis linorder_neqE_nat)
qed

lemma ensure_dev_frame [simp]:
  "slots (ensure_dev env d) = slots d" "sub_head (ensure_dev env d) = sub_head d"
  "dmem (ensure_dev env d) = dmem d" "dev_started (ensure_dev env d)"
  by (simp_all add: ensure_dev_def)

lemma device_slot_frame [simp]:
  "sub_head (device_slot cr t i d) = sub_head d" "busy (slots (device_slot cr t i d) j) = busy (slots d j)"
  "ACCEL_OP (device_slot cr t i d) = ACCEL_OP d"
  "sdone (slots d j) \<Longrightarrow> sdone (slots (device_slot cr t i d) j)"
  by (simp_all add: device_slot_def Let_def)

lemma device_fold_frame:
  "sub_head (fold (device_slot cr t) xs d) = sub_head d \<and>
   busy (slots (fold (device_slot cr t) xs d) j) = busy (slots d j) \<and>
   ACCEL_OP (fold (device_slot cr t) xs d) = ACCEL_OP d \<and>
   (sdone (slots d j) \<longrightarrow> sdone (slots (fold (device_slot cr t) xs d) j))"
  by (induction xs arbitrary: d) auto

interpretation accel: async_device "accel_submit env now" accel_done accel_release "device_pass cr t"
    slot_live slot_room for env now cr t
proof unfold_locales
  fix b n rid k :: nat and d d' :: accel
  assume room: "slot_room d" and sub: "accel_submit env now b n d = (rid, d')"
  then have rid: "rid = sub_head d" and d': "sub_head d' = Suc rid"
    "slots d' (rid mod NSLOT) = \<lparr>sbuf = b, sn = n, deadline = now + ACCEL_LAT_NS (ensure_dev env d),
       busy = True, sdone = False\<rparr>"
    "\<And>j. j \<noteq> rid mod NSLOT \<Longrightarrow> slots d' j = slots d j"
    by (auto simp: accel_submit_def Let_def)
  show "slot_live rid d'" using NSLOT_pos by (simp add: slot_live_def d')
  assume live: "slot_live k d"
  then have w: "k < rid" "rid < k + NSLOT \<or> rid = k + NSLOT" by (auto simp: slot_live_def rid)
  moreover have "rid \<noteq> k + NSLOT" using room live by (auto simp: slot_room_def slot_live_def rid)
  ultimately have "k mod NSLOT \<noteq> rid mod NSLOT" using mod_window_neq [of k rid NSLOT] by auto
  with live w \<open>rid \<noteq> k + NSLOT\<close> show "slot_live k d' \<and> accel_done k d' = accel_done k d"
    by (auto simp: slot_live_def accel_done_def d' rid)
  from w show "k \<noteq> rid" by simp
next
  fix rid k :: nat and d :: accel
  assume live: "slot_live rid d"
  show "\<not> slot_live rid (accel_release rid d)" by (simp add: slot_live_def accel_release_def)
  assume "slot_live k d" "k \<noteq> rid"
  with live window_slots [of k d rid]
  show "slot_live k (accel_release rid d) \<and> accel_done k (accel_release rid d) = accel_done k d"
    by (auto simp: slot_live_def accel_done_def accel_release_def)
next
  fix k :: nat and d :: accel
  assume "slot_live k d"
  then show "slot_live k (device_pass cr t d) \<and> (accel_done k d \<longrightarrow> accel_done k (device_pass cr t d))"
    using device_fold_frame [of cr t "[0..<NSLOT]" d "k mod NSLOT"]
    by (auto simp: slot_live_def accel_done_def device_pass_def)
qed

interpretation remote: offload_device "remote_submit garbage a1 a2" remote_done remote_release "\<lambda>r. r"
    "\<lambda>_ _. True" "\<lambda>_. True" for garbage a1 a2
  by unfold_locales (auto simp: remote_done_def)

section \<open>What one offload does\<close>

definition crypto_ok :: "crypto \<Rightarrow> bool" where
  "crypto_ok cr \<longleftrightarrow> (\<forall>bs. length (EVP_ctr cr bs) = length bs \<and>
     zuncompress cr (length bs) (zcompress cr bs) = bs)"

definition enc :: "crypto \<Rightarrow> bool \<Rightarrow> u8 list \<Rightarrow> u8 list" where
  "enc cr zp bs = (if zp then bs else EVP_ctr cr bs)"

lemma length_enc [simp]: "crypto_ok cr \<Longrightarrow> length (enc cr zp bs) = length bs"
  by (simp add: enc_def crypto_ok_def)

lemma zip_rd [simp]: "crypto_ok cr \<Longrightarrow> zuncompress cr n (zcompress cr (rd m b n)) = rd m b n"
  by (metis crypto_ok_def length_rd)

lemma device_slot_mem:
  assumes "crypto_ok cr"
  shows "device_slot cr t i d =
    (let s = slots d i
     in if busy s \<and> \<not> sdone s \<and> deadline s \<le> t
        then d\<lparr>dmem := wr (sbuf s) (enc cr (ACCEL_OP d) (rd (dmem d) (sbuf s) (sn s))) (dmem d),
               slots := (slots d)(i := s\<lparr>sdone := True\<rparr>)\<rparr>
        else d)"
  using assms by (auto simp: device_slot_def zip_roundtrip_def aes_ctr_def enc_def Let_def)

text \<open>
  The state of one request: its slot, its buffer, and that no other request that is still to be
  served touches the buffer. \<open>fin\<close> says whether the device has served it.
\<close>

record req =
  r_slot :: nat
  r_buf :: nat
  r_n :: nat
  r_due :: u64
  r_in :: "u8 list"

definition req_inv :: "crypto \<Rightarrow> bool \<Rightarrow> req \<Rightarrow> bool \<Rightarrow> accel \<Rightarrow> bool" where
  "req_inv cr zp r fin d \<longleftrightarrow>
     slots d (r_slot r) = \<lparr>sbuf = r_buf r, sn = r_n r, deadline = r_due r, busy = True, sdone = fin\<rparr> \<and>
     ACCEL_OP d = zp \<and> dev_started d \<and> length (r_in r) = r_n r \<and>
     rd (dmem d) (r_buf r) (r_n r) = (if fin then enc cr zp (r_in r) else r_in r) \<and>
     (\<forall>j. j \<noteq> r_slot r \<longrightarrow> busy (slots d j) \<longrightarrow> \<not> sdone (slots d j) \<longrightarrow>
        apart (sbuf (slots d j)) (sn (slots d j)) (r_buf r) (r_n r))"

lemma req_inv_slot:
  assumes ok: "crypto_ok cr" and inv: "req_inv cr zp r fin d"
  shows "req_inv cr zp r (fin \<or> (i = r_slot r \<and> r_due r \<le> t)) (device_slot cr t i d)"
proof (cases "i = r_slot r")
  case True
  with inv ok show ?thesis
    by (cases fin; cases "r_due r \<le> t") (auto simp: req_inv_def device_slot_mem Let_def)
next
  case False
  with inv ok show ?thesis
    by (auto simp: req_inv_def device_slot_mem Let_def)
qed

lemma req_inv_fold:
  assumes ok: "crypto_ok cr" and inv: "req_inv cr zp r fin d"
  shows "req_inv cr zp r (fin \<or> (r_slot r \<in> set xs \<and> r_due r \<le> t)) (fold (device_slot cr t) xs d)"
  using inv
proof (induction xs arbitrary: fin d)
  case (Cons i xs)
  from Cons.IH [OF req_inv_slot [OF ok Cons.prems, of i t]]
  have a: "req_inv cr zp r ((fin \<or> (i = r_slot r \<and> r_due r \<le> t)) \<or> (r_slot r \<in> set xs \<and> r_due r \<le> t))
      (fold (device_slot cr t) (i # xs) d)" by simp
  have e: "((fin \<or> (i = r_slot r \<and> r_due r \<le> t)) \<or> (r_slot r \<in> set xs \<and> r_due r \<le> t)) =
      (fin \<or> (r_slot r \<in> set (i # xs) \<and> r_due r \<le> t))" by auto
  show ?case using a unfolding e .
qed simp

lemma req_inv_pass:
  assumes "crypto_ok cr" "req_inv cr zp r fin d" "r_slot r < NSLOT"
  shows "req_inv cr zp r (fin \<or> r_due r \<le> t) (device_pass cr t d)"
  using req_inv_fold [OF assms(1,2), of "[0..<NSLOT]" t] assms(3) by (simp add: device_pass_def)

text \<open>The calls of other fibers and threads, and the device's turns, beside one request.\<close>

datatype dev_op = Submit u64 nat nat | Pass u64 | Release nat

fun dev_step :: "environ \<Rightarrow> crypto \<Rightarrow> dev_op \<Rightarrow> accel \<Rightarrow> accel" where
  "dev_step env cr (Submit now b n) d = snd (accel_submit env now b n d)"
| "dev_step env cr (Pass t) d = device_pass cr t d"
| "dev_step env cr (Release k) d = accel_release k d"

fun beside :: "req \<Rightarrow> dev_op \<Rightarrow> accel \<Rightarrow> bool" where
  "beside r (Submit now b n) d \<longleftrightarrow> slot_room d \<and> apart b n (r_buf r) (r_n r)"
| "beside r (Pass t) d \<longleftrightarrow> True"
| "beside r (Release k) d \<longleftrightarrow> k mod NSLOT \<noteq> r_slot r"

fun run_beside :: "environ \<Rightarrow> crypto \<Rightarrow> req \<Rightarrow> dev_op list \<Rightarrow> accel \<Rightarrow> bool" where
  "run_beside env cr r [] d = True"
| "run_beside env cr r (x # xs) d \<longleftrightarrow> beside r x d \<and> run_beside env cr r xs (dev_step env cr x d)"

lemma req_inv_step:
  assumes "crypto_ok cr" "req_inv cr zp r fin d" "r_slot r < NSLOT" "beside r x d"
  shows "req_inv cr zp r (fin \<or> (\<exists>t. x = Pass t \<and> r_due r \<le> t)) (dev_step env cr x d)"
proof (cases x)
  case (Pass t)
  with req_inv_pass [OF assms(1-3)] show ?thesis by simp
next
  case (Submit now b n)
  with assms show ?thesis
    by (auto simp: req_inv_def accel_submit_def ensure_dev_def slot_room_def Let_def)
next
  case (Release k)
  with assms show ?thesis by (auto simp: req_inv_def accel_release_def)
qed

lemma req_inv_run:
  assumes "crypto_ok cr" "req_inv cr zp r fin d" "r_slot r < NSLOT" "run_beside env cr r xs d"
  shows "req_inv cr zp r (fin \<or> (\<exists>t. Pass t \<in> set xs \<and> r_due r \<le> t)) (fold (dev_step env cr) xs d)"
  using assms
proof (induction xs arbitrary: fin d)
  case (Cons x xs)
  from Cons.IH [OF Cons.prems(1) req_inv_step [OF Cons.prems(1-3)]] Cons.prems
  have a: "req_inv cr zp r ((fin \<or> (\<exists>t. x = Pass t \<and> r_due r \<le> t)) \<or>
      (\<exists>t. Pass t \<in> set xs \<and> r_due r \<le> t)) (fold (dev_step env cr) (x # xs) d)" by simp
  have e: "((fin \<or> (\<exists>t. x = Pass t \<and> r_due r \<le> t)) \<or> (\<exists>t. Pass t \<in> set xs \<and> r_due r \<le> t)) =
      (fin \<or> (\<exists>t. Pass t \<in> set (x # xs) \<and> r_due r \<le> t))" by auto
  show ?case using a unfolding e .
qed simp

text \<open>No request that is still to be served touches the buffer.\<close>

definition quiet :: "nat \<Rightarrow> nat \<Rightarrow> accel \<Rightarrow> bool" where
  "quiet b n d \<longleftrightarrow> (\<forall>j<NSLOT. busy (slots d j) \<longrightarrow> apart (sbuf (slots d j)) (sn (slots d j)) b n) \<and>
     (\<forall>j\<ge>NSLOT. \<not> busy (slots d j))"

lemma req_inv_submit:
  assumes sub: "accel_submit env now b n d = (k, d1)" and quiet: "quiet b n d"
  shows "req_inv cr (ACCEL_OP d1) \<lparr>r_slot = k mod NSLOT, r_buf = b, r_n = n,
      r_due = now + ACCEL_LAT_NS d1, r_in = rd (dmem d) b n\<rparr> False d1"
proof -
  from sub have d1: "k = sub_head d" "d1 = (ensure_dev env d)\<lparr>sub_head := Suc k,
      slots := (slots d)(k mod NSLOT := \<lparr>sbuf = b, sn = n,
        deadline = now + ACCEL_LAT_NS (ensure_dev env d), busy = True, sdone = False\<rparr>)\<rparr>"
    by (auto simp: accel_submit_def Let_def)
  have "apart (sbuf (slots d j)) (sn (slots d j)) b n" if "busy (slots d j)" for j
    using quiet that by (cases "j < NSLOT") (auto simp: quiet_def)
  then show ?thesis by (simp add: req_inv_def d1)
qed


definition xor_crypto :: crypto where
  "xor_crypto = \<lparr>EVP_ctr = map (\<lambda>x. xor x 90), zcompress = rev, zuncompress = (\<lambda>n. rev)\<rparr>"


text \<open>The synchronous call returns as soon as the device takes a turn at or after the deadline,
  with the buffer transformed once and the slot free again.\<close>

theorem accel_encrypt_returns:
  assumes ok: "crypto_ok cr" and quiet: "quiet b n d"
    and t: "t \<in> set ts" "now + ACCEL_LAT_NS (ensure_dev env d) \<le> t"
  shows "\<exists>d'. accel_encrypt env cr now b n ts d = Some d' \<and>
    rd (dmem d') b n = enc cr (ACCEL_OP (ensure_dev env d)) (rd (dmem d) b n) \<and>
    \<not> busy (slots d' (sub_head d mod NSLOT))"
proof -
  obtain k d1 where sub: "accel_submit env now b n d = (k, d1)" by fastforce
  then have k: "k = sub_head d" "ACCEL_OP d1 = ACCEL_OP (ensure_dev env d)"
    "ACCEL_LAT_NS d1 = ACCEL_LAT_NS (ensure_dev env d)"
    by (auto simp: accel_submit_def Let_def)
  let ?r = "\<lparr>r_slot = k mod NSLOT, r_buf = b, r_n = n, r_due = now + ACCEL_LAT_NS d1,
      r_in = rd (dmem d) b n\<rparr>"
  have "\<exists>d'. wait_done cr k ts e = Some d' \<and> rd (dmem d') b n = enc cr (ACCEL_OP d1) (rd (dmem d) b n) \<and>
      \<not> busy (slots d' (k mod NSLOT))"
    if "req_inv cr (ACCEL_OP d1) ?r fin e" "fin \<or> t \<in> set ts" for fin e
    using that
  proof (induction ts arbitrary: fin e)
    case Nil
    then show ?case by (auto simp: req_inv_def accel_done_def accel_release_def)
  next
    case (Cons t1 ts)
    show ?case
    proof (cases "accel_done k e")
      case True
      with Cons.prems(1) show ?thesis by (auto simp: req_inv_def accel_done_def accel_release_def)
    next
      case False
      with Cons.prems(1) have "\<not> fin" by (simp add: req_inv_def accel_done_def)
      with Cons.prems(1) req_inv_pass [OF ok, of "ACCEL_OP d1" ?r False e t1] NSLOT_pos
      have "req_inv cr (ACCEL_OP d1) ?r (now + ACCEL_LAT_NS d1 \<le> t1) (device_pass cr t1 e)" by simp
      from Cons.IH [OF this] Cons.prems(2) \<open>\<not> fin\<close> False t(2) k(3) show ?thesis by auto
    qed
  qed
  from this [OF req_inv_submit [OF sub quiet, of cr]] t(1) sub k show ?thesis
    by (auto simp: accel_encrypt_def)
qed

theorem accel_encrypt_returns_witness:
  "\<exists>d'. accel_encrypt (\<lambda>_. None) xor_crypto 100 16 4 [50, 20100] (accel0 (\<lambda>_. 7)) = Some d' \<and>
     rd (dmem d') 16 4 = map (\<lambda>x. xor x 90) [7, 7, 7, 7]"
proof -
  have "crypto_ok xor_crypto" by (simp add: crypto_ok_def xor_crypto_def)
  moreover have "quiet 16 4 (accel0 (\<lambda>_. 7))" by (simp add: quiet_def accel0_def)
  moreover have "rd (dmem (accel0 (\<lambda>_. 7))) 16 4 = [7, 7, 7, 7]"
    by (simp add: rd_def accel0_def upt_rec numeral_eq_Suc)
  ultimately show ?thesis
    using accel_encrypt_returns [of xor_crypto 16 4 "accel0 (\<lambda>_. 7)" 20100 "[50, 20100]" 100 "\<lambda>_. None"]
    by (auto simp: ensure_dev_def accel0_def enc_def xor_crypto_def)
qed

lemma quiet_slot:
  assumes "crypto_ok cr" "quiet b n d" "i < NSLOT"
  shows "quiet b n (device_slot cr t i d) \<and> rd (dmem (device_slot cr t i d)) b n = rd (dmem d) b n"
  using assms by (auto simp: quiet_def device_slot_mem Let_def)

lemma quiet_fold:
  assumes "crypto_ok cr" "quiet b n d" "set xs \<subseteq> {..<NSLOT}"
  shows "quiet b n (fold (device_slot cr t) xs d) \<and> rd (dmem (fold (device_slot cr t) xs d)) b n = rd (dmem d) b n"
  using assms(2,3) quiet_slot [OF assms(1)] by (induction xs arbitrary: d) auto

text \<open>The slot table has no full check. A submission made while the one \<open>NSLOT\<close> before it is still
  unserved takes over its slot: the earlier caller is told that its offload is done when the later
  one is served, and its buffer has never been touched.\<close>

theorem slot_overrun:
  assumes ok: "crypto_ok cr" and head: "sub_head d = k + NSLOT"
    and old: "\<forall>j<NSLOT. j \<noteq> k mod NSLOT \<longrightarrow> busy (slots d j) \<longrightarrow> apart (sbuf (slots d j)) (sn (slots d j)) b n"
      "\<forall>j\<ge>NSLOT. \<not> busy (slots d j)"
    and sub: "accel_submit env now b' n' d = (k', d1)" and ap: "apart b' n' b n"
    and due: "now + ACCEL_LAT_NS d1 \<le> t"
  shows "accel_done k (device_pass cr t d1) \<and> rd (dmem (device_pass cr t d1)) b n = rd (dmem d) b n"
proof -
  from sub head have d1: "k' mod NSLOT = k mod NSLOT" "dmem d1 = dmem d"
    "slots d1 = (slots d)(k mod NSLOT := \<lparr>sbuf = b', sn = n', deadline = now + ACCEL_LAT_NS d1,
      busy = True, sdone = False\<rparr>)"
    by (auto simp: accel_submit_def Let_def head)
  have lt: "k mod NSLOT < NSLOT" using NSLOT_pos by simp
  have quiet: "quiet b n d1" using old ap lt by (auto simp: quiet_def d1)
  have served: "sdone (slots (fold (device_slot cr t) xs e) (k mod NSLOT))"
    if "k mod NSLOT \<in> set xs" "busy (slots e (k mod NSLOT))"
      "deadline (slots e (k mod NSLOT)) \<le> t" for xs e
    using that
  proof (induction xs arbitrary: e)
    case (Cons i xs)
    show ?case
    proof (cases "i = k mod NSLOT")
      case True
      with Cons.prems have "sdone (slots (device_slot cr t i e) (k mod NSLOT))"
        by (simp add: device_slot_def Let_def)
      then show ?thesis
        using device_fold_frame [of cr t xs "device_slot cr t i e" "k mod NSLOT"] by simp
    next
      case False
      with Cons show ?thesis by (simp add: device_slot_def Let_def)
    qed
  qed simp
  have "set [0..<NSLOT] \<subseteq> {..<NSLOT}" by auto
  from quiet_fold [OF ok quiet this, of t] served [of "[0..<NSLOT]" d1] lt due d1 show ?thesis
    by (simp add: device_pass_def accel_done_def)
qed

theorem slot_overrun_witness:
  "\<exists>d d1. sub_head d = NSLOT \<and> accel_submit (\<lambda>_. None) 0 64 4 d = (NSLOT, d1) \<and>
     accel_done 0 (device_pass xor_crypto 20000 d1) \<and>
     rd (dmem (device_pass xor_crypto 20000 d1)) 16 4 = rd (dmem d) 16 4"
proof -
  let ?d = "(accel0 (\<lambda>_. 7))\<lparr>sub_head := NSLOT, slots := (slots (accel0 (\<lambda>_. 7)))
    (0 := \<lparr>sbuf = 16, sn = 4, deadline = 20000, busy = True, sdone = False\<rparr>)\<rparr>"
  obtain k d1 where sub: "accel_submit (\<lambda>_. None) 0 64 4 ?d = (k, d1)" by fastforce
  then have k: "k = NSLOT" "ACCEL_LAT_NS d1 = 20000"
    by (auto simp: accel_submit_def ensure_dev_def accel0_def Let_def)
  have "crypto_ok xor_crypto" by (simp add: crypto_ok_def xor_crypto_def)
  moreover have "\<forall>j\<ge>NSLOT. \<not> busy (slots ?d j)" using NSLOT_pos by (auto simp: accel0_def)
  ultimately
  have "accel_done 0 (device_pass xor_crypto 20000 d1) \<and>
      rd (dmem (device_pass xor_crypto 20000 d1)) 16 4 = rd (dmem ?d) 16 4"
    using slot_overrun [OF _ _ _ _ sub, of xor_crypto 0 16 4 20000] k by (simp add: accel0_def apart_def)
  with sub k(1) show ?thesis by (intro exI [of _ ?d] exI [of _ d1]) simp
qed

text \<open>The remote accelerator reports every request done, even the ones it could not serve. When
  no connection can be made the buffer keeps its input; when the signer's answer breaks off before
  the bytes that are copied, the rest of the buffer is uninitialised stack; only a full answer
  gives the signature.\<close>

theorem remote_outcomes:
  assumes "length garbage = 256"
  shows "(case remote_submit garbage a1 a2 b n r of (k, r') \<Rightarrow>
     remote_done k r' \<and>
     (\<not> rsock r \<and> \<not> connects a1 \<longrightarrow> rmem r' = rmem r) \<and>
     (writes a1 \<and> (rsock r \<or> connects a1) \<longrightarrow>
        rd (rmem r') b (min 32 n) =
          take (min 32 n) (answer a1) @ take (min 32 n - length (answer a1)) (drop (length (answer a1)) garbage)))"
  using assms
  by (auto simp: remote_submit_def remote_done_def remote_encrypt_def remote_sig_def Let_def min_def
      take_drop intro!: rd_wr_same [THEN trans])

theorem remote_outcomes_witness:
  "(case remote_submit (replicate 256 170) \<lparr>connects = True, writes = True, answer = [1, 2]\<rparr>
      \<lparr>connects = False, writes = False, answer = []\<rparr> 0 4 \<lparr>rsock = False, rmem = (\<lambda>_. 9)\<rparr> of (k, r') \<Rightarrow>
     remote_done k r' \<and> rd (rmem r') 0 4 = [1, 2, 170, 170])"
  using remote_outcomes [where garbage = "replicate 256 170" and r = "\<lparr>rsock = False, rmem = (\<lambda>_. 9)\<rparr>"
     and ?a1.0 = "\<lparr>connects = True, writes = True, answer = [1, 2]\<rparr>"
     and ?a2.0 = "\<lparr>connects = False, writes = False, answer = []\<rparr>" and b = 0 and n = 4]
  by (simp add: numeral_eq_Suc split: prod.splits)

end
