(* ===== verification/ThreadServers.thy ===== *)
theory ThreadServers
  imports Accel
begin

text \<open>
  The thread-per-connection servers that run under the fiber runtime without knowing of it: \<open>conn_server.c\<close>,
  \<open>infer_server.c\<close>, \<open>hostile_server.c\<close> and \<open>remote_hsm.c\<close>. A connection's thread is stepped by the results of its
  blocking calls, so that threads interleave at every call; the offload and the signature are parameters.
\<close>

section \<open>A connection\<close>

text \<open>
  \<open>buf\<close> has the bytes of the request that have been read, then the reply, of which \<open>put\<close> bytes have been written;
  \<open>inp\<close> and \<open>outp\<close> are all the bytes that went over the socket.
\<close>

record 'p cthread =
  phase :: 'p
  buf :: "u8 list"
  put :: nat
  inp :: "u8 list"
  outp :: "u8 list"

definition fresh :: "'p \<Rightarrow> 'p cthread" where
  "fresh p = \<lparr>phase = p, buf = [], put = 0, inp = [], outp = []\<rparr>"

text \<open>What a call returns: bytes, a number of bytes, an error or the end of the stream; other calls just return.\<close>

datatype io = Got "u8 list" | Sent nat | Failed | Returned

text \<open>The loops that read and write \<open>n\<close> bytes. A result that the call cannot give leaves the thread in it.\<close>

definition read_step :: "nat \<Rightarrow> io \<Rightarrow> 'p \<Rightarrow> 'p \<Rightarrow> 'p cthread \<Rightarrow> 'p cthread" where
  "read_step n e full closed c =
     (case e of
        Got bs \<Rightarrow>
          if bs = [] \<or> n - length (buf c) < length bs then c
          else (let c = c\<lparr>buf := buf c @ bs, inp := inp c @ bs\<rparr>
                in if length (buf c) < n then c else c\<lparr>phase := full\<rparr>)
      | Failed \<Rightarrow> c\<lparr>phase := closed\<rparr>
      | _ \<Rightarrow> c)"

definition write_step :: "nat \<Rightarrow> io \<Rightarrow> 'p \<Rightarrow> 'p \<Rightarrow> 'p cthread \<Rightarrow> 'p cthread" where
  "write_step n e all closed c =
     (case e of
        Sent k \<Rightarrow>
          if k = 0 \<or> n - put c < k then c
          else (let c = c\<lparr>outp := outp c @ take k (drop (put c) (buf c)), put := put c + k\<rparr>
                in if put c < n then c else c\<lparr>phase := all, buf := [], put := 0\<rparr>)
      | Failed \<Rightarrow> c\<lparr>phase := closed\<rparr>
      | _ \<Rightarrow> c)"

section \<open>The servers\<close>

definition REQ :: nat where "REQ = 4096"

datatype cphase = Reading | Offload | Writing | Closed

definition conn_thread :: "(u8 list \<Rightarrow> u8 list) \<Rightarrow> io \<Rightarrow> cphase cthread \<Rightarrow> cphase cthread" where
  "conn_thread acc e c =
     (case phase c of
        Reading \<Rightarrow> read_step REQ e Offload Closed c
      | Offload \<Rightarrow> c\<lparr>buf := acc (buf c), phase := Writing\<rparr>
      | Writing \<Rightarrow> write_step REQ e Reading Closed c
      | Closed \<Rightarrow> c)"

datatype iphase = I_reading | I_pre | I_offload | I_post | I_writing | I_closed

definition infer_conn :: "(u8 list \<Rightarrow> u8 list) \<Rightarrow> io \<Rightarrow> iphase cthread \<Rightarrow> iphase cthread" where
  "infer_conn acc e c =
     (case phase c of
        I_reading \<Rightarrow> read_step REQ e I_pre I_closed c
      | I_pre \<Rightarrow> c\<lparr>phase := I_offload\<rparr>
      | I_offload \<Rightarrow> c\<lparr>buf := acc (buf c), phase := I_post\<rparr>
      | I_post \<Rightarrow> c\<lparr>phase := I_writing\<rparr>
      | I_writing \<Rightarrow> write_step REQ e I_reading I_closed c
      | I_closed \<Rightarrow> c)"

text \<open>The signer: the signature goes into a buffer of 512 bytes, of which it sends 256.\<close>

definition hsm_conn :: "u8 list \<Rightarrow> (u8 list \<Rightarrow> u8 list) \<Rightarrow> io \<Rightarrow> cphase cthread \<Rightarrow> cphase cthread" where
  "hsm_conn garbage sign e c =
     (case phase c of
        Reading \<Rightarrow> read_step 32 e Offload Closed c
      | Offload \<Rightarrow> (let s = sign (buf c) in c\<lparr>buf := take 512 (s @ drop (length s) garbage), phase := Writing\<rparr>)
      | Writing \<Rightarrow> write_step 256 e Reading Closed c
      | Closed \<Rightarrow> c)"

section \<open>The hostile server\<close>

datatype hphase = H_reading | H_lock | H_load | H_offload nat | H_store nat | H_unlock | H_count | H_writing | H_closed

record hostile =
  hconns :: "nat \<Rightarrow> hphase cthread"
  shared :: nat
  total :: nat
  lk :: "nat option"

definition hostile0 :: hostile where
  "hostile0 = \<lparr>hconns = (\<lambda>_. fresh H_reading), shared = 0, total = 0, lk = None\<rparr>"

definition set_phase :: "nat \<Rightarrow> hphase \<Rightarrow> hostile \<Rightarrow> hostile" where
  "set_phase i p s = s\<lparr>hconns := (hconns s)(i := (hconns s i)\<lparr>phase := p\<rparr>)\<rparr>"

text \<open>A connection's step; a thread that waits for the mutex stays where it is. The counter \<open>total\<close> is atomic.\<close>

definition hostile_conn :: "bool \<Rightarrow> (u8 list \<Rightarrow> u8 list) \<Rightarrow> nat \<Rightarrow> io \<Rightarrow> hostile \<Rightarrow> hostile" where
  "hostile_conn LOCKED acc i e s =
     (let c = hconns s i
      in case phase c of
           H_reading \<Rightarrow> s\<lparr>hconns := (hconns s)(i := read_step REQ e H_lock H_closed c)\<rparr>
         | H_lock \<Rightarrow>
             if \<not> LOCKED then set_phase i H_load s
             else if lk s = None then set_phase i H_load (s\<lparr>lk := Some i\<rparr>) else s
         | H_load \<Rightarrow> set_phase i (H_offload (shared s)) s
         | H_offload v \<Rightarrow> s\<lparr>hconns := (hconns s)(i := c\<lparr>buf := acc (buf c), phase := H_store v\<rparr>)\<rparr>
         | H_store v \<Rightarrow> set_phase i H_unlock (s\<lparr>shared := v + 1\<rparr>)
         | H_unlock \<Rightarrow> set_phase i H_count (if LOCKED then s\<lparr>lk := None\<rparr> else s)
         | H_count \<Rightarrow> set_phase i H_writing (s\<lparr>total := total s + 1\<rparr>)
         | H_writing \<Rightarrow> s\<lparr>hconns := (hconns s)(i := write_step REQ e H_reading H_closed c)\<rparr>
         | H_closed \<Rightarrow> s)"

definition lost :: "hostile \<Rightarrow> int" where
  "lost s = int (total s) - int (shared s)"

definition hostile_run :: "bool \<Rightarrow> (u8 list \<Rightarrow> u8 list) \<Rightarrow> (nat \<times> io) list \<Rightarrow> hostile" where
  "hostile_run LOCKED acc es = fold (\<lambda>(i, e). hostile_conn LOCKED acc i e) es hostile0"

section \<open>What a connection has read and written\<close>

text \<open>
  The requests \<open>rs\<close> of \<open>n\<close> bytes that have been answered, the bytes \<open>part\<close> of the next one, and what has been written
  of the replies.
\<close>

definition whole :: "nat \<Rightarrow> u8 list list \<Rightarrow> bool" where
  "whole n rs \<longleftrightarrow> (\<forall>r \<in> set rs. length r = n)"

definition at_read :: "nat \<Rightarrow> (u8 list \<Rightarrow> u8 list) \<Rightarrow> 'p cthread \<Rightarrow> bool" where
  "at_read n f c \<longleftrightarrow> put c = 0 \<and> length (buf c) < n \<and>
     (\<exists>rs. whole n rs \<and> inp c = concat rs @ buf c \<and> outp c = concat (map f rs))"

definition at_work :: "nat \<Rightarrow> (u8 list \<Rightarrow> u8 list) \<Rightarrow> 'p cthread \<Rightarrow> bool" where
  "at_work n f c \<longleftrightarrow> put c = 0 \<and> length (buf c) = n \<and>
     (\<exists>rs. whole n rs \<and> inp c = concat rs @ buf c \<and> outp c = concat (map f rs))"

definition at_write :: "nat \<Rightarrow> nat \<Rightarrow> (u8 list \<Rightarrow> u8 list) \<Rightarrow> 'p cthread \<Rightarrow> bool" where
  "at_write n m f c \<longleftrightarrow> put c < m \<and>
     (\<exists>rs r. whole n (rs @ [r]) \<and> inp c = concat (rs @ [r]) \<and> take m (buf c) = f r \<and> outp c = concat (map f rs) @ take (put c) (f r))"

definition at_end :: "nat \<Rightarrow> (u8 list \<Rightarrow> u8 list) \<Rightarrow> 'p cthread \<Rightarrow> bool" where
  "at_end n f c \<longleftrightarrow> (\<exists>rs part. whole n rs \<and> inp c = concat rs @ part \<and> (\<exists>k. outp c = take k (concat (map f rs))))"

lemma at_end_read: "at_read n f c \<Longrightarrow> at_end n f c"
  unfolding at_read_def at_end_def by (metis order_refl take_all)

lemma at_end_work: "at_work n f c \<Longrightarrow> at_end n f c"
  unfolding at_work_def at_end_def by (metis order_refl take_all)

lemma at_end_write: "at_write n m f c \<Longrightarrow> at_end n f c"
proof -
  assume "at_write n m f c"
  then obtain rs r where r: "whole n (rs @ [r])" "inp c = concat (rs @ [r])" "outp c = concat (map f rs) @ take (put c) (f r)"
    by (auto simp: at_write_def)
  have "outp c = take (length (concat (map f rs)) + put c) (concat (map f (rs @ [r])))"
    using r(3) by simp
  then show ?thesis
    using r(1,2) unfolding at_end_def by (metis append_Nil2)
qed

lemma at_cong:
  "at_read n f (c\<lparr>phase := p\<rparr>) = at_read n f c" "at_work n f (c\<lparr>phase := p\<rparr>) = at_work n f c"
  "at_write n m f (c\<lparr>phase := p\<rparr>) = at_write n m f c" "at_end n f (c\<lparr>phase := p\<rparr>) = at_end n f c"
  by (simp_all add: at_read_def at_work_def at_write_def at_end_def)

lemma read_step_cases:
  assumes "at_read n f c"
  shows "(phase (read_step n e full closed c) = phase c \<and> at_read n f (read_step n e full closed c))
     \<or> (phase (read_step n e full closed c) = full \<and> at_work n f (read_step n e full closed c))
     \<or> (phase (read_step n e full closed c) = closed \<and> at_end n f (read_step n e full closed c))"
proof (cases e)
  case (Got bs)
  then show ?thesis
    using assms by (auto simp: read_step_def at_read_def at_work_def Let_def)
qed (use assms at_end_read [OF assms] in \<open>auto simp: read_step_def at_cong\<close>)

lemma write_step_cases:
  assumes "at_write n m f c" "0 < n" "\<And>r. length r = n \<Longrightarrow> length (f r) = m"
  shows "(phase (write_step m e all closed c) = phase c \<and> at_write n m f (write_step m e all closed c))
     \<or> (phase (write_step m e all closed c) = all \<and> at_read n f (write_step m e all closed c))
     \<or> (phase (write_step m e all closed c) = closed \<and> at_end n f (write_step m e all closed c))"
proof (cases e)
  case (Sent k)
  obtain rs r where r: "whole n (rs @ [r])" "inp c = concat (rs @ [r])" "take m (buf c) = f r"
    "outp c = concat (map f rs) @ take (put c) (f r)" "put c < m"
    using assms(1) by (auto simp: at_write_def)
  have len: "length (f r) = m"
    using assms(3) r(1) by (simp add: whole_def)
  show ?thesis
  proof (cases "k = 0 \<or> m - put c < k")
    case True
    then show ?thesis
      using assms(1) Sent by (auto simp: write_step_def)
  next
    case False
    then have k: "put c + k \<le> m"
      by auto
    have "take k (drop (put c) (buf c)) = take k (drop (put c) (f r))"
      unfolding r(3) [symmetric] using k by (simp add: drop_take min_def)
    then have out: "outp c @ take k (drop (put c) (buf c)) = concat (map f rs) @ take (put c + k) (f r)"
      by (simp add: r(4) take_add)
    show ?thesis
    proof (cases "put c + k < m")
      case True
      then have "write_step m e all closed c = c\<lparr>outp := concat (map f rs) @ take (put c + k) (f r), put := put c + k\<rparr>"
        using Sent False out by (simp add: write_step_def Let_def)
      moreover have "at_write n m f (c\<lparr>outp := concat (map f rs) @ take (put c + k) (f r), put := put c + k\<rparr>)"
        using r True by (auto simp: at_write_def)
      ultimately show ?thesis
        by simp
    next
      case full: False
      then have "take (put c + k) (f r) = f r"
        using len k by simp
      then have "write_step m e all closed c = c\<lparr>outp := concat (map f (rs @ [r])), put := 0, buf := [], phase := all\<rparr>"
        using Sent False full out by (simp add: write_step_def Let_def)
      moreover have "at_read n f (c\<lparr>outp := concat (map f (rs @ [r])), put := 0, buf := [], phase := all\<rparr>)"
        unfolding at_read_def using r assms(2) by (intro conjI exI [of _ "rs @ [r]"]) simp_all
      ultimately show ?thesis
        by simp
    qed
  qed
qed (use assms(1) at_end_write [OF assms(1)] in \<open>auto simp: write_step_def at_cong\<close>)

text \<open>
  The contract of a server's loop: its steps keep an invariant that ties what has been written to what has been read,
  whatever the calls return.
\<close>

locale reply_loop =
  fixes step :: "io \<Rightarrow> 'p cthread \<Rightarrow> 'p cthread"
    and ok :: "'p cthread \<Rightarrow> bool"
    and n :: nat
    and f :: "u8 list \<Rightarrow> u8 list"
  assumes ok_step: "ok c \<Longrightarrow> ok (step e c)"
    and ok_end: "ok c \<Longrightarrow> at_end n f c"
begin

lemma run_ok: "ok c \<Longrightarrow> ok (fold step es c)"
  by (induction es arbitrary: c) (simp_all add: ok_step)

lemma run_end: "ok c \<Longrightarrow> at_end n f (fold step es c)"
  by (rule ok_end [OF run_ok])

end

definition cphase_ok :: "nat \<Rightarrow> nat \<Rightarrow> (u8 list \<Rightarrow> u8 list) \<Rightarrow> cphase cthread \<Rightarrow> bool" where
  "cphase_ok n m f c \<longleftrightarrow>
     (case phase c of Reading \<Rightarrow> at_read n f c | Offload \<Rightarrow> at_work n f c | Writing \<Rightarrow> at_write n m f c | Closed \<Rightarrow> at_end n f c)"

definition iphase_ok :: "(u8 list \<Rightarrow> u8 list) \<Rightarrow> iphase cthread \<Rightarrow> bool" where
  "iphase_ok f c \<longleftrightarrow>
     (case phase c of I_reading \<Rightarrow> at_read REQ f c | I_pre \<Rightarrow> at_work REQ f c | I_offload \<Rightarrow> at_work REQ f c
      | I_post \<Rightarrow> at_write REQ REQ f c | I_writing \<Rightarrow> at_write REQ REQ f c | I_closed \<Rightarrow> at_end REQ f c)"

text \<open>What \<open>accel_encrypt\<close> and the signer are relied on for: a result of the right length.\<close>

definition in_place :: "(u8 list \<Rightarrow> u8 list) \<Rightarrow> bool" where
  "in_place acc \<longleftrightarrow> (\<forall>r. length (acc r) = length r)"

definition signs :: "(u8 list \<Rightarrow> u8 list) \<Rightarrow> bool" where
  "signs sign \<longleftrightarrow> (\<forall>r. length (sign r) = 256)"

text \<open>The work turns a request into its reply, of which the first \<open>m\<close> bytes are written.\<close>

lemma work_done:
  assumes "at_work n f c" "0 < m" "take m b = f (buf c)"
  shows "at_write n m f (c\<lparr>buf := b, phase := p\<rparr>)"
proof -
  obtain rs where "whole n rs" "inp c = concat rs @ buf c" "outp c = concat (map f rs)" "length (buf c) = n" "put c = 0"
    using assms(1) by (auto simp: at_work_def)
  then show ?thesis
    using assms(2,3) unfolding at_write_def by (intro conjI exI [of _ rs] exI [of _ "buf c"]) (simp_all add: whole_def)
qed

lemma REQ_positive: "0 < REQ"
  by (simp add: REQ_def)

lemma conn_step_ok:
  assumes "in_place acc" "cphase_ok REQ REQ acc c"
  shows "cphase_ok REQ REQ acc (conn_thread acc e c)"
proof (cases "phase c")
  case Reading
  then show ?thesis
    using assms(2) read_step_cases [of REQ acc c e Offload Closed] by (auto simp: cphase_ok_def conn_thread_def)
next
  case Offload
  then have w: "at_work REQ acc c"
    using assms(2) by (simp add: cphase_ok_def)
  then have "length (acc (buf c)) = REQ"
    using assms(1) by (simp add: in_place_def at_work_def)
  then show ?thesis
    using work_done [OF w REQ_positive, of "acc (buf c)" Writing] Offload by (simp add: cphase_ok_def conn_thread_def)
next
  case Writing
  then show ?thesis
    using assms write_step_cases [of REQ REQ acc c e Reading Closed] REQ_positive
    by (auto simp: cphase_ok_def conn_thread_def in_place_def)
qed (use assms in \<open>simp add: conn_thread_def\<close>)

lemma infer_step_ok:
  assumes "in_place acc" "iphase_ok acc c"
  shows "iphase_ok acc (infer_conn acc e c)"
proof (cases "phase c")
  case I_reading
  then show ?thesis
    using assms(2) read_step_cases [of REQ acc c e I_pre I_closed] by (auto simp: iphase_ok_def infer_conn_def)
next
  case I_offload
  then have w: "at_work REQ acc c"
    using assms(2) by (simp add: iphase_ok_def)
  then have "length (acc (buf c)) = REQ"
    using assms(1) by (simp add: in_place_def at_work_def)
  then show ?thesis
    using work_done [OF w REQ_positive, of "acc (buf c)" I_post] I_offload by (simp add: iphase_ok_def infer_conn_def)
next
  case I_writing
  then show ?thesis
    using assms write_step_cases [of REQ REQ acc c e I_reading I_closed] REQ_positive
    by (auto simp: iphase_ok_def infer_conn_def in_place_def)
qed (use assms in \<open>simp_all add: infer_conn_def iphase_ok_def at_cong\<close>)

lemma hsm_step_ok:
  assumes "signs sign" "cphase_ok 32 256 sign c"
  shows "cphase_ok 32 256 sign (hsm_conn garbage sign e c)"
proof (cases "phase c")
  case Reading
  then show ?thesis
    using assms(2) read_step_cases [of 32 sign c e Offload Closed] by (auto simp: cphase_ok_def hsm_conn_def)
next
  case Offload
  then have w: "at_work 32 sign c"
    using assms(2) by (simp add: cphase_ok_def)
  have "take 256 (take 512 (sign (buf c) @ drop (length (sign (buf c))) garbage)) = sign (buf c)"
    using assms(1) by (simp add: signs_def)
  then show ?thesis
    using work_done [OF w, of 256 _ Writing] Offload by (simp add: cphase_ok_def hsm_conn_def Let_def)
next
  case Writing
  then show ?thesis
    using assms write_step_cases [of 32 256 sign c e Reading Closed] by (auto simp: cphase_ok_def hsm_conn_def signs_def)
qed (use assms in \<open>simp add: hsm_conn_def\<close>)

lemma phase_ok_end: "cphase_ok n m f c \<Longrightarrow> at_end n f c" "iphase_ok f d \<Longrightarrow> at_end REQ f d"
  by (cases "phase c"; simp add: cphase_ok_def at_end_read at_end_work at_end_write)
    (cases "phase d"; simp add: iphase_ok_def at_end_read at_end_work at_end_write)

interpretation conn: reply_loop "conn_thread acc" "\<lambda>c. in_place acc \<and> cphase_ok REQ REQ acc c" REQ acc for acc
  by unfold_locales (simp add: conn_step_ok, blast intro: phase_ok_end(1))

interpretation infer: reply_loop "infer_conn acc" "\<lambda>c. in_place acc \<and> iphase_ok acc c" REQ acc for acc
  by unfold_locales (simp add: infer_step_ok, blast intro: phase_ok_end(2))

interpretation hsm: reply_loop "hsm_conn garbage sign" "\<lambda>c. signs sign \<and> cphase_ok 32 256 sign c" 32 sign for garbage sign
  by unfold_locales (simp add: hsm_step_ok, blast intro: phase_ok_end(1))

lemma fresh_ok: "0 < n \<Longrightarrow> cphase_ok n m f (fresh Reading)" "iphase_ok f (fresh I_reading)"
  by (auto simp: cphase_ok_def iphase_ok_def fresh_def at_read_def whole_def REQ_def intro!: exI [of _ "[]"])

text \<open>The two stock servers, stepped by any results of their calls, write on each connection a prefix of the accelerator's
  results for the requests they have read there, in order and nothing else; a connection that waits for a request has
  been sent all its replies.\<close>

theorem stock_servers_reply:
  assumes "in_place acc" and "c = fold (conn_thread acc) es (fresh Reading)" and "d = fold (infer_conn acc) es (fresh I_reading)"
  shows "(\<exists>rs part k. whole REQ rs \<and> inp c = concat rs @ part \<and> outp c = take k (concat (map acc rs))
        \<and> (phase c = Reading \<longrightarrow> part = buf c \<and> length part < REQ \<and> outp c = concat (map acc rs)))
     \<and> (\<exists>rs part k. whole REQ rs \<and> inp d = concat rs @ part \<and> outp d = take k (concat (map acc rs))
        \<and> (phase d = I_reading \<longrightarrow> part = buf d \<and> length part < REQ \<and> outp d = concat (map acc rs)))"
proof (intro conjI)
  have ok: "cphase_ok REQ REQ acc c" "iphase_ok acc d"
    using conn.run_ok [of acc "fresh Reading" es] infer.run_ok [of acc "fresh I_reading" es]
      fresh_ok(1) [OF REQ_positive] fresh_ok(2) assms
    by simp_all
  have fin: "at_end REQ acc c" "at_end REQ acc d"
    by (rule phase_ok_end(1) [OF ok(1)], rule phase_ok_end(2) [OF ok(2)])
  show "\<exists>rs part k. whole REQ rs \<and> inp c = concat rs @ part \<and> outp c = take k (concat (map acc rs))
      \<and> (phase c = Reading \<longrightarrow> part = buf c \<and> length part < REQ \<and> outp c = concat (map acc rs))"
  proof (cases "phase c = Reading")
    case True
    then obtain rs where "whole REQ rs" "inp c = concat rs @ buf c" "outp c = concat (map acc rs)" "length (buf c) < REQ"
      using ok(1) by (auto simp: cphase_ok_def at_read_def)
    then show ?thesis
      by (intro exI [of _ rs] exI [of _ "buf c"] exI [of _ "length (outp c)"]) simp
  next
    case False
    then show ?thesis
      using fin(1) unfolding at_end_def by blast
  qed
  show "\<exists>rs part k. whole REQ rs \<and> inp d = concat rs @ part \<and> outp d = take k (concat (map acc rs))
      \<and> (phase d = I_reading \<longrightarrow> part = buf d \<and> length part < REQ \<and> outp d = concat (map acc rs))"
  proof (cases "phase d = I_reading")
    case True
    then obtain rs where "whole REQ rs" "inp d = concat rs @ buf d" "outp d = concat (map acc rs)" "length (buf d) < REQ"
      using ok(2) by (auto simp: iphase_ok_def at_read_def)
    then show ?thesis
      by (intro exI [of _ rs] exI [of _ "buf d"] exI [of _ "length (outp d)"]) simp
  next
    case False
    then show ?thesis
      using fin(2) unfolding at_end_def by blast
  qed
qed

definition one_request :: "io list" where
  "one_request = [Got (replicate 4096 0), Returned, Sent 4096]"

theorem stock_servers_reply_witness:
  "outp (fold (conn_thread rev) one_request (fresh Reading)) = concat (map rev [replicate 4096 0])
   \<and> (\<exists>rs part k. whole REQ rs \<and> inp (fold (conn_thread rev) one_request (fresh Reading)) = concat rs @ part
        \<and> outp (fold (conn_thread rev) one_request (fresh Reading)) = take k (concat (map rev rs)))"
proof
  show "outp (fold (conn_thread rev) one_request (fresh Reading)) = concat (map rev [replicate 4096 0])"
    by (simp add: one_request_def conn_thread_def fresh_def read_step_def write_step_def REQ_def Let_def)
  show "\<exists>rs part k. whole REQ rs \<and> inp (fold (conn_thread rev) one_request (fresh Reading)) = concat rs @ part
        \<and> outp (fold (conn_thread rev) one_request (fresh Reading)) = take k (concat (map rev rs))"
    using stock_servers_reply [of rev _ one_request, OF _ refl refl] unfolding in_place_def by fastforce
qed

section \<open>The signer and its client\<close>


definition demo_sign :: "u8 list \<Rightarrow> u8 list" where
  "demo_sign d = replicate 256 (d ! 0)"


section \<open>A read-modify-write across the offload\<close>

definition in_section :: "hphase \<Rightarrow> bool" where
  "in_section p \<longleftrightarrow> (case p of H_load \<Rightarrow> True | H_offload v \<Rightarrow> True | H_store v \<Rightarrow> True | H_unlock \<Rightarrow> True | _ \<Rightarrow> False)"

definition uncounted :: "hphase \<Rightarrow> bool" where
  "uncounted p \<longleftrightarrow> p = H_unlock \<or> p = H_count"

definition hostile_inv :: "hostile \<Rightarrow> bool" where
  "hostile_inv s \<longleftrightarrow>
     (\<forall>i. in_section (phase (hconns s i)) \<longleftrightarrow> lk s = Some i)
   \<and> (\<forall>i v. phase (hconns s i) = H_offload v \<or> phase (hconns s i) = H_store v \<longrightarrow> v = shared s)
   \<and> finite {i. uncounted (phase (hconns s i))}
   \<and> shared s = total s + card {i. uncounted (phase (hconns s i))}"

lemma read_step_phase:
  "phase (read_step n e full closed c) = phase c \<or> phase (read_step n e full closed c) = full \<or> phase (read_step n e full closed c) = closed"
  by (simp add: read_step_def Let_def split: io.split)

lemma write_step_phase:
  "phase (write_step n e full closed c) = phase c \<or> phase (write_step n e full closed c) = full \<or> phase (write_step n e full closed c) = closed"
  by (simp add: write_step_def Let_def split: io.split)

lemma uncounted_upd:
  "{j. uncounted (phase ((f(i := c)) j))}
     = (if uncounted (phase c) then insert i {j. uncounted (phase (f j))} else {j. uncounted (phase (f j))} - {i})"
  by auto

lemma hostile_D:
  assumes "hostile_inv s"
  shows "in_section (phase (hconns s i)) \<longleftrightarrow> lk s = Some i"
    and "phase (hconns s i) = H_offload v \<or> phase (hconns s i) = H_store v \<Longrightarrow> v = shared s"
    and "finite {i. uncounted (phase (hconns s i))}"
    and "shared s = total s + card {i. uncounted (phase (hconns s i))}"
  using assms unfolding hostile_inv_def by blast+

lemma section_phases [simp]:
  "\<not> in_section H_reading" "\<not> in_section H_lock" "in_section H_load" "in_section (H_offload v)" "in_section (H_store v)"
  "in_section H_unlock" "\<not> in_section H_count" "\<not> in_section H_writing" "\<not> in_section H_closed"
  "\<not> uncounted H_reading" "\<not> uncounted H_lock" "\<not> uncounted H_load" "\<not> uncounted (H_offload v)"
  "\<not> uncounted (H_store v)" "uncounted H_unlock" "uncounted H_count" "\<not> uncounted H_writing" "\<not> uncounted H_closed"
  by (simp_all add: in_section_def uncounted_def)

text \<open>A step of connection \<open>i\<close> keeps the invariant when the mutex follows its phase, a loaded value is the current one
  and the counters follow whether it is counted; no other connection is in the section when the shared value changes.\<close>

lemma hostile_step_inv:
  assumes inv: "hostile_inv s"
    and s': "hconns s' = (hconns s)(i := c)"
    and lock: "lk s' = (if in_section (phase c) then Some i else if in_section (phase (hconns s i)) then None else lk s)"
      "in_section (phase c) \<Longrightarrow> in_section (phase (hconns s i)) \<or> lk s = None"
    and val: "\<And>v. phase c = H_offload v \<or> phase c = H_store v \<Longrightarrow> v = shared s'"
      "shared s' = shared s \<or> in_section (phase (hconns s i))"
    and count: "shared s' + (if uncounted (phase (hconns s i)) then 1 else 0) + total s
        = shared s + (if uncounted (phase c) then 1 else 0) + total s'"
  shows "hostile_inv s'"
proof -
  let ?U = "{j. uncounted (phase (hconns s j))}"
  have "in_section (phase (hconns s' j)) \<longleftrightarrow> lk s' = Some j" for j
    using lock hostile_D(1) [OF inv, of i] hostile_D(1) [OF inv, of j] s' by (cases "j = i") auto
  moreover have "v = shared s'" if v: "phase (hconns s' j) = H_offload v \<or> phase (hconns s' j) = H_store v" for j v
  proof (cases "j = i")
    case False
    then have j: "phase (hconns s j) = H_offload v \<or> phase (hconns s j) = H_store v"
      using v s' by simp
    then have "lk s = Some j"
      using hostile_D(1) [OF inv, of j] by auto
    then have "shared s' = shared s"
      using val(2) hostile_D(1) [OF inv, of i] False by auto
    then show ?thesis
      using hostile_D(2) [OF inv j] by simp
  qed (use v s' val(1) in auto)
  moreover have "finite {j. uncounted (phase (hconns s' j))}"
    using hostile_D(3) [OF inv] unfolding s' uncounted_upd by simp
  moreover have "shared s' = total s' + card {j. uncounted (phase (hconns s' j))}"
  proof (cases "uncounted (phase (hconns s i))")
    case True
    then have "card ?U = Suc (card (?U - {i}))"
      by (intro card.remove hostile_D(3) [OF inv]) simp
    moreover have "insert i ?U = ?U"
      using True by auto
    ultimately show ?thesis
      using True count hostile_D(4) [OF inv] unfolding s' uncounted_upd by (simp split: if_splits)
  next
    case False
    then have "?U - {i} = ?U" "card (insert i ?U) = Suc (card ?U)"
      using hostile_D(3) [OF inv] by simp_all
    then show ?thesis
      using False count hostile_D(4) [OF inv] unfolding s' uncounted_upd by (simp split: if_splits)
  qed
  ultimately show ?thesis
    unfolding hostile_inv_def by blast
qed

lemma hostile_conn_inv:
  assumes inv: "hostile_inv s"
  shows "hostile_inv (hostile_conn True acc i e s)"
proof (cases "phase (hconns s i)")
  case H_reading
  let ?c = "read_step REQ e H_lock H_closed (hconns s i)"
  have "hostile_inv (s\<lparr>hconns := (hconns s)(i := ?c)\<rparr>)"
    using read_step_phase [of REQ e H_lock H_closed "hconns s i"] H_reading
    by (intro hostile_step_inv [OF inv, of _ i ?c]) auto
  then show ?thesis
    using H_reading by (simp add: hostile_conn_def Let_def)
next
  case H_writing
  let ?c = "write_step REQ e H_reading H_closed (hconns s i)"
  have "hostile_inv (s\<lparr>hconns := (hconns s)(i := ?c)\<rparr>)"
    using write_step_phase [of REQ e H_reading H_closed "hconns s i"] H_writing
    by (intro hostile_step_inv [OF inv, of _ i ?c]) auto
  then show ?thesis
    using H_writing by (simp add: hostile_conn_def Let_def)
next
  case H_lock
  then show ?thesis
    using inv by (auto simp: hostile_conn_def set_phase_def Let_def intro!: hostile_step_inv [OF inv])
next
  case (H_offload v)
  then show ?thesis
    using hostile_D(2) [OF inv, of i v] hostile_D(1) [OF inv, of i] by (auto simp: hostile_conn_def set_phase_def Let_def intro!: hostile_step_inv [OF inv])
next
  case (H_store v)
  then show ?thesis
    using hostile_D(2) [OF inv, of i v] hostile_D(1) [OF inv, of i] by (auto simp: hostile_conn_def set_phase_def Let_def intro!: hostile_step_inv [OF inv])
qed (use inv hostile_D(1) [OF inv, of i] in \<open>auto simp: hostile_conn_def set_phase_def Let_def intro!: hostile_step_inv [OF inv]\<close>)

lemma hostile_run_inv: "hostile_inv (fold (\<lambda>(i, e). hostile_conn True acc i e) es s)" if "hostile_inv s"
  using that by (induction es arbitrary: s) (auto simp: hostile_conn_inv)

lemma hostile0_inv: "hostile_inv hostile0"
  by (simp add: hostile_inv_def hostile0_def fresh_def)

text \<open>With \<open>LOCKED\<close>, whatever the order of the connections' steps, no update of the shared counter is lost: it is the
  number of requests counted and of those that are about to be, at most one connection is between the lock and the
  unlock, and \<open>report\<close> finds \<open>shared == total\<close> whenever no connection is between its unlock and its count.\<close>

theorem locked_rmw_exact:
  assumes "s = hostile_run True acc es"
  shows "shared s = total s + card {i. uncounted (phase (hconns s i))} \<and> lost s \<le> 0
     \<and> (in_section (phase (hconns s i)) \<longrightarrow> in_section (phase (hconns s j)) \<longrightarrow> i = j)
     \<and> ((\<forall>i. \<not> uncounted (phase (hconns s i))) \<longrightarrow> lost s = 0)"
proof -
  have inv: "hostile_inv s"
    unfolding assms hostile_run_def by (rule hostile_run_inv [OF hostile0_inv])
  show ?thesis
    using hostile_D(4) [OF inv] hostile_D(1) [OF inv, of i] hostile_D(1) [OF inv, of j] by (auto simp: lost_def)
qed

text \<open>Two connections of which the second starts while the first waits for its offload. With the mutex it waits.\<close>

definition two_clients :: "(nat \<times> io) list" where
  "two_clients = [(0, Got (replicate 4096 0)), (1, Got (replicate 4096 0)), (0, Returned), (0, Returned), (1, Returned), (1, Returned),
     (0, Returned), (0, Returned), (0, Returned), (0, Returned), (1, Returned), (1, Returned), (1, Returned), (1, Returned),
     (1, Returned), (1, Returned)]"

lemmas hostile_eval = two_clients_def hostile_run_def hostile_conn_def hostile0_def set_phase_def fresh_def read_step_def write_step_def
  REQ_def Let_def

theorem locked_rmw_exact_witness:
  "lost (hostile_run True rev two_clients) = 0 \<and> total (hostile_run True rev two_clients) = 2"
proof -
  let ?s = "hostile_run True rev two_clients"
  have p: "phase (hconns ?s 0) = H_writing" "phase (hconns ?s 1) = H_writing" "total ?s = 2"
    "\<And>i. i \<noteq> 0 \<Longrightarrow> i \<noteq> 1 \<Longrightarrow> phase (hconns ?s i) = H_reading"
    by (simp_all add: hostile_eval)
  have "\<not> uncounted (phase (hconns ?s i))" for i
    using p(1,2) p(4) [of i] by (cases "i = 0 \<or> i = 1") auto
  then show ?thesis
    using locked_rmw_exact [of ?s rev two_clients 0 0, OF refl] p(3) by blast
qed

text \<open>Without it, the same two connections lose an update, and with it a signal between the unlock and the count makes
  \<open>report\<close> print CORRUPTED though no update was lost.\<close>

lemma unlocked_rmw_loses: "lost (hostile_run False rev two_clients) = 1"
  by (simp add: hostile_eval lost_def)

lemma report_may_misjudge:
  "shared (hostile_run True rev (take 9 two_clients)) = 1 \<and> total (hostile_run True rev (take 9 two_clients)) = 0"
  by (simp add: hostile_eval)

end
