(* ===== verification/RedisAccel.thy ===== *)
theory RedisAccel
  imports Ring "HOL-Library.Multiset"
begin

text \<open>
  The two Redis commands of \<open>apps/redis/accel_module.c\<close>: \<open>accel.sync\<close> offloads on the event loop, \<open>accel.async\<close> blocks
  its client and queues a job for a pool of workers. A step is what happens between two points where threads can
  switch: a command, a critical section of a worker, an offload, or a reply by the event loop.
\<close>

section \<open>The module\<close>

definition QN :: nat where "QN = 65536"

text \<open>A blocked client is the handle that \<open>RedisModule_BlockClient\<close> returns; the handles count up, \<open>clients ! h\<close> is whose
  it is. A worker runs, waits on the condition or has a job whose offload it waits for.\<close>

datatype wphase = W_run | W_wait | W_enc nat

record redis_accel =
  jobs :: "nat ring"
  clients :: "nat list"
  wst :: "nat \<Rightarrow> wphase"
  unblocked :: "nat list"
  replies :: "(nat \<times> string) list"

definition mod0 :: redis_accel where
  "mod0 = \<lparr>jobs = ring_empty 0, clients = [], wst = (\<lambda>_. W_run), unblocked = [], replies = []\<rparr>"

definition reply :: "nat \<Rightarrow> string \<Rightarrow> redis_accel \<Rightarrow> redis_accel" where
  "reply ctx msg s = s\<lparr>replies := replies s @ [(ctx, msg)]\<rparr>"

definition reply_cb :: "nat \<Rightarrow> redis_accel \<Rightarrow> redis_accel" where
  "reply_cb ctx = reply ctx ''OK''"

definition timeout_cb :: "nat \<Rightarrow> redis_accel \<Rightarrow> redis_accel" where
  "timeout_cb ctx = reply ctx ''TIMEOUT''"

definition cmd_sync :: "nat \<Rightarrow> redis_accel \<Rightarrow> redis_accel" where
  "cmd_sync ctx = reply ctx ''OK''"

text \<open>The condition wakes one of the waiting workers, the \<open>k\<close>-th; a worker can also wake by itself.\<close>

definition waiting :: "nat \<Rightarrow> redis_accel \<Rightarrow> nat list" where
  "waiting nw s = filter (\<lambda>w. wst s w = W_wait) [0..<nw]"

definition cond_signal :: "nat \<Rightarrow> nat \<Rightarrow> redis_accel \<Rightarrow> redis_accel" where
  "cond_signal nw k s =
     (if waiting nw s = [] then s else s\<lparr>wst := (wst s)(waiting nw s ! (k mod length (waiting nw s)) := W_run)\<rparr>)"

definition cmd_async :: "nat \<Rightarrow> nat \<Rightarrow> nat \<Rightarrow> redis_accel \<Rightarrow> redis_accel" where
  "cmd_async nw k ctx s =
     (let bc = length (clients s);
          s = s\<lparr>clients := clients s @ [ctx]\<rparr>;
          s = s\<lparr>jobs := ring_put QN bc (jobs s)\<rparr>
      in cond_signal nw k s)"

definition worker :: "nat \<Rightarrow> redis_accel \<Rightarrow> redis_accel" where
  "worker w s =
     (case wst s w of
        W_run \<Rightarrow>
          (case ring_get QN (jobs s) of
             None \<Rightarrow> s\<lparr>wst := (wst s)(w := W_wait)\<rparr>
           | Some (j, r) \<Rightarrow> s\<lparr>jobs := r, wst := (wst s)(w := W_enc j)\<rparr>)
      | W_wait \<Rightarrow> s
      | W_enc j \<Rightarrow> s\<lparr>unblocked := unblocked s @ [j], wst := (wst s)(w := W_run)\<rparr>)"

text \<open>The event loop calls the reply callback of the next client that was unblocked. The module asks for no timeout, so
  the loop never calls \<open>timeout_cb\<close>.\<close>

definition loop_reply :: "redis_accel \<Rightarrow> redis_accel" where
  "loop_reply s = (case unblocked s of [] \<Rightarrow> s | h # hs \<Rightarrow> reply_cb (clients s ! h) (s\<lparr>unblocked := hs\<rparr>))"

datatype mod_event = Sync nat | Async nat nat | Work nat | Spurious nat | Loop

fun mod_step :: "nat \<Rightarrow> mod_event \<Rightarrow> redis_accel \<Rightarrow> redis_accel" where
  "mod_step nw (Sync ctx) s = cmd_sync ctx s"
| "mod_step nw (Async ctx k) s = cmd_async nw k ctx s"
| "mod_step nw (Work w) s = (if w < nw then worker w s else s)"
| "mod_step nw (Spurious w) s = (if wst s w = W_wait then s\<lparr>wst := (wst s)(w := W_run)\<rparr> else s)"
| "mod_step nw Loop s = loop_reply s"

text \<open>A run, and whether the array of jobs had room whenever a job was put.\<close>

definition mod_run :: "nat \<Rightarrow> mod_event list \<Rightarrow> redis_accel \<Rightarrow> redis_accel" where
  "mod_run nw es s = fold (mod_step nw) es s"

fun had_room :: "nat \<Rightarrow> mod_event list \<Rightarrow> redis_accel \<Rightarrow> bool" where
  "had_room nw [] s = True"
| "had_room nw (e # es) s = ((case e of Async ctx k \<Rightarrow> ring_room QN (jobs s) | _ \<Rightarrow> True) \<and> had_room nw es (mod_step nw e s))"

text \<open>Loading the module: the answers of Redis and of the loader are inputs, the workers started and the commands made
  are results.\<close>

record load_env =
  init_ok :: bool
  lib_found :: bool
  symbol_found :: bool
  env_workers :: "string option"
  sync_ok :: bool
  async_ok :: bool

record loaded =
  load_ok :: bool
  started :: nat
  commands :: "string list"

definition OnLoad :: "load_env \<Rightarrow> loaded" where
  "OnLoad e =
     (if \<not> init_ok e then \<lparr>load_ok = False, started = 0, commands = []\<rparr>
      else if \<not> lib_found e then \<lparr>load_ok = False, started = 0, commands = []\<rparr>
      else if \<not> symbol_found e then \<lparr>load_ok = False, started = 0, commands = []\<rparr>
      else (let nw = nat (case env_workers e of None \<Rightarrow> 16 | Some v \<Rightarrow> atoi v)
            in if \<not> sync_ok e then \<lparr>load_ok = False, started = nw, commands = []\<rparr>
               else if \<not> async_ok e then \<lparr>load_ok = False, started = nw, commands = [''accel.sync'']\<rparr>
               else \<lparr>load_ok = True, started = nw, commands = [''accel.sync'', ''accel.async'']\<rparr>))"

section \<open>Where a blocked client is\<close>

definition held :: "wphase \<Rightarrow> nat list" where
  "held p = (case p of W_enc j \<Rightarrow> [j] | _ \<Rightarrow> [])"

definition in_work :: "nat \<Rightarrow> redis_accel \<Rightarrow> nat list" where
  "in_work nw s = concat (map (\<lambda>w. held (wst s w)) [0..<nw])"

text \<open>The handles that are pending, offloaded or woken but not yet replied to; a handle that is in none of these places
  has been replied to.\<close>

definition open_handles :: "nat \<Rightarrow> redis_accel \<Rightarrow> nat list" where
  "open_handles nw s = ring_items QN (jobs s) @ in_work nw s @ unblocked s"

definition submitted :: "mod_event list \<Rightarrow> nat list" where
  "submitted es = concat (map (\<lambda>e. case e of Sync c \<Rightarrow> [c] | Async c k \<Rightarrow> [c] | _ \<Rightarrow> []) es)"

abbreviation OK_to :: "nat \<Rightarrow> nat \<times> string" where
  "OK_to c \<equiv> (c, ''OK'')"

text \<open>The replies and the clients still to be replied to.\<close>

definition owed :: "nat \<Rightarrow> redis_accel \<Rightarrow> (nat \<times> string) multiset" where
  "owed nw s = mset (replies s) + mset (map (\<lambda>h. OK_to (clients s ! h)) (open_handles nw s))"

definition mod_inv :: "nat \<Rightarrow> redis_accel \<Rightarrow> bool" where
  "mod_inv nw s \<longleftrightarrow> ring_wf QN (jobs s) \<and> (\<forall>h \<in> set (open_handles nw s). h < length (clients s))
     \<and> (0 < nw \<longrightarrow> ring_items QN (jobs s) \<noteq> [] \<longrightarrow> (\<exists>w < nw. wst s w \<noteq> W_wait))"

lemma mod_inv_D:
  assumes "mod_inv nw s"
  shows "ring_wf QN (jobs s)" and "h \<in> set (open_handles nw s) \<Longrightarrow> h < length (clients s)"
    and "0 < nw \<Longrightarrow> ring_items QN (jobs s) \<noteq> [] \<Longrightarrow> \<exists>w < nw. wst s w \<noteq> W_wait"
  using assms unfolding mod_inv_def by blast+

lemma held_simps [simp]: "held W_run = []" "held W_wait = []" "held (W_enc j) = [j]"
  by (simp_all add: held_def)

lemma in_work_other: "nw \<le> w \<Longrightarrow> concat (map (\<lambda>v. held ((f(w := p)) v)) [0..<nw]) = concat (map (\<lambda>v. held (f v)) [0..<nw])"
  by (intro arg_cong [of _ _ concat] map_cong) auto

lemma in_work_upd:
  "w < nw \<Longrightarrow> mset (concat (map (\<lambda>v. held ((f(w := p)) v)) [0..<nw])) + mset (held (f w))
     = mset (concat (map (\<lambda>v. held (f v)) [0..<nw])) + mset (held p)"
proof (induction nw)
  case (Suc nw)
  show ?case
  proof (cases "w = nw")
    case True
    then show ?thesis
      using in_work_other [of nw w f p] by (simp del: fun_upd_apply add: fun_upd_same)
  next
    case False
    then show ?thesis
      using Suc by (simp add: ac_simps)
  qed
qed simp

lemma in_work_same: "held p = held (wst s w) \<Longrightarrow> in_work nw (s\<lparr>wst := (wst s)(w := p)\<rparr>) = in_work nw s"
  unfolding in_work_def by (intro arg_cong [of _ _ concat] map_cong) auto

lemma in_work_take:
  assumes "w < nw" "held (wst s w) = []"
  shows "mset (in_work nw (s\<lparr>wst := (wst s)(w := W_enc j)\<rparr>)) = add_mset j (mset (in_work nw s))"
  using in_work_upd [OF assms(1), of "wst s" "W_enc j"] assms(2) by (simp add: in_work_def del: fun_upd_apply)

lemma in_work_drop:
  assumes "w < nw" "wst s w = W_enc j"
  shows "add_mset j (mset (in_work nw (s\<lparr>wst := (wst s)(w := W_run)\<rparr>))) = mset (in_work nw s)"
  using in_work_upd [OF assms(1), of "wst s" W_run] assms(2) by (simp add: in_work_def del: fun_upd_apply)

lemma in_work_cong [simp]:
  "in_work nw (s\<lparr>jobs := r\<rparr>) = in_work nw s" "in_work nw (s\<lparr>clients := cs\<rparr>) = in_work nw s"
  "in_work nw (s\<lparr>unblocked := u\<rparr>) = in_work nw s" "in_work nw (s\<lparr>replies := rs\<rparr>) = in_work nw s"
  by (simp_all add: in_work_def)

text \<open>A signal wakes a worker when one waits, and moves no job.\<close>

lemma cond_signal_props:
  shows "jobs (cond_signal nw k s) = jobs s" "clients (cond_signal nw k s) = clients s"
    "unblocked (cond_signal nw k s) = unblocked s" "replies (cond_signal nw k s) = replies s"
    "in_work nw (cond_signal nw k s) = in_work nw s"
    "0 < nw \<Longrightarrow> \<exists>w < nw. wst (cond_signal nw k s) w \<noteq> W_wait"
proof -
  let ?w = "waiting nw s ! (k mod length (waiting nw s))"
  have w: "?w < nw \<and> wst s ?w = W_wait" if "waiting nw s \<noteq> []"
  proof -
    have "?w \<in> set (waiting nw s)"
      using that by (intro nth_mem) simp
    then show ?thesis
      by (auto simp: waiting_def)
  qed
  show "in_work nw (cond_signal nw k s) = in_work nw s"
    using w by (auto simp: cond_signal_def intro!: in_work_same)
  show "\<exists>w < nw. wst (cond_signal nw k s) w \<noteq> W_wait" if "0 < nw"
  proof (cases "waiting nw s = []")
    case True
    then show ?thesis
      using that by (auto simp: cond_signal_def waiting_def filter_empty_conv)
  next
    case False
    then have "wst (cond_signal nw k s) ?w = W_run"
      by (simp add: cond_signal_def)
    then show ?thesis
      using w [OF False] by (metis wphase.distinct(1))
  qed
qed (simp_all add: cond_signal_def)

text \<open>What each event does to the open handles.\<close>

lemma cmd_async_open:
  assumes "ring_wf QN (jobs s)" "ring_room QN (jobs s)"
  shows "mset (open_handles nw (cmd_async nw k c s)) = add_mset (length (clients s)) (mset (open_handles nw s))"
    and "clients (cmd_async nw k c s) = clients s @ [c]" and "replies (cmd_async nw k c s) = replies s"
    and "ring_wf QN (jobs (cmd_async nw k c s))" and "0 < nw \<Longrightarrow> \<exists>w < nw. wst (cmd_async nw k c s) w \<noteq> W_wait"
  using ring_items_put [OF assms] ring_wf_put [OF assms]
  by (simp_all add: cmd_async_def Let_def cond_signal_props open_handles_def)

lemma worker_open:
  assumes wf: "ring_wf QN (jobs s)" and w: "w < nw"
  shows "mset (open_handles nw (worker w s)) = mset (open_handles nw s)"
    and "clients (worker w s) = clients s" and "replies (worker w s) = replies s" and "ring_wf QN (jobs (worker w s))"
proof -
  show "mset (open_handles nw (worker w s)) = mset (open_handles nw s)"
  proof (cases "wst s w")
    case W_run
    show ?thesis
    proof (cases "ring_get QN (jobs s)")
      case None
      then show ?thesis
        using W_run in_work_same [of W_wait s w nw] by (simp add: worker_def open_handles_def)
    next
      case (Some p)
      obtain j r where p: "p = (j, r)"
        by (cases p)
      have "mset (in_work nw (s\<lparr>jobs := r, wst := (wst s)(w := W_enc j)\<rparr>)) = add_mset j (mset (in_work nw s))"
        using in_work_take [OF w, of "s\<lparr>jobs := r\<rparr>" j] W_run by simp
      then show ?thesis
        using W_run Some p ring_get_Some [OF wf, of j r] by (simp add: worker_def open_handles_def)
    qed
  next
    case (W_enc j)
    have "add_mset j (mset (in_work nw (s\<lparr>unblocked := unblocked s @ [j], wst := (wst s)(w := W_run)\<rparr>))) = mset (in_work nw s)"
      using in_work_drop [OF w, of "s\<lparr>unblocked := unblocked s @ [j]\<rparr>" j] W_enc by simp
    then show ?thesis
      using W_enc by (simp add: worker_def open_handles_def)
  qed (simp add: worker_def)
qed (auto simp: worker_def ring_wf_get [OF wf] wf split: wphase.split option.split)

lemma worker_waits:
  assumes "ring_wf QN (jobs s)" "ring_items QN (jobs (worker w s)) \<noteq> []"
  shows "wst (worker w s) w \<noteq> W_wait \<or> worker w s = s" and "v \<noteq> w \<Longrightarrow> wst (worker w s) v = wst s v"
    and "ring_items QN (jobs s) \<noteq> []"
proof -
  have n: "ring_get QN (jobs s) = None \<Longrightarrow> ring_items QN (jobs s) = []"
    using ring_get_None [OF assms(1)] by simp
  show "wst (worker w s) w \<noteq> W_wait \<or> worker w s = s" "ring_items QN (jobs s) \<noteq> []" "v \<noteq> w \<Longrightarrow> wst (worker w s) v = wst s v"
    using assms n ring_get_Some [OF assms(1)] by (auto simp: worker_def split: wphase.splits option.splits)
qed

lemma owed_cong:
  assumes "mset (open_handles nw s') = mset (open_handles nw s)" "clients s' = clients s" "replies s' = replies s"
  shows "owed nw s' = owed nw s"
  using assms by (simp add: owed_def)

text \<open>Every event keeps the invariant and adds to what is owed exactly what it submits.\<close>

lemma async_step:
  assumes inv: "mod_inv nw s" and room: "ring_room QN (jobs s)"
  shows "mod_inv nw (cmd_async nw k c s) \<and> owed nw (cmd_async nw k c s) = add_mset (OK_to c) (owed nw s)"
proof
  note a = cmd_async_open [OF mod_inv_D(1) [OF inv] room, of nw k c]
  have set: "set (open_handles nw (cmd_async nw k c s)) = insert (length (clients s)) (set (open_handles nw s))"
    using arg_cong [OF a(1), of set_mset] by simp
  show "mod_inv nw (cmd_async nw k c s)"
    unfolding mod_inv_def using a(4,5) mod_inv_D(2) [OF inv] by (auto simp: set a(2) less_Suc_eq)
  have "image_mset (\<lambda>h. OK_to ((clients s @ [c]) ! h)) (mset (open_handles nw s))
      = image_mset (\<lambda>h. OK_to (clients s ! h)) (mset (open_handles nw s))"
    using mod_inv_D(2) [OF inv] by (intro image_mset_cong) (simp add: nth_append)
  then show "owed nw (cmd_async nw k c s) = add_mset (OK_to c) (owed nw s)"
    by (simp add: owed_def a(1,2,3))
qed

lemma work_step:
  assumes inv: "mod_inv nw s" and w: "w < nw"
  shows "mod_inv nw (worker w s) \<and> owed nw (worker w s) = owed nw s"
proof
  note a = worker_open [OF mod_inv_D(1) [OF inv] w]
  have set: "set (open_handles nw (worker w s)) = set (open_handles nw s)"
    using arg_cong [OF a(1), of set_mset] by simp
  have "\<exists>v < nw. wst (worker w s) v \<noteq> W_wait" if "ring_items QN (jobs (worker w s)) \<noteq> []"
    using worker_waits [OF mod_inv_D(1) [OF inv] that] mod_inv_D(3) [OF inv] w by (metis gr_implies_not0 gr0I)
  then show "mod_inv nw (worker w s)"
    unfolding mod_inv_def using a(4) mod_inv_D(2) [OF inv] by (simp add: set a(2))
  show "owed nw (worker w s) = owed nw s"
    by (rule owed_cong [OF a(1-3)])
qed

lemma spurious_step:
  assumes inv: "mod_inv nw s" and w: "wst s w = W_wait"
  shows "mod_inv nw (s\<lparr>wst := (wst s)(w := W_run)\<rparr>) \<and> owed nw (s\<lparr>wst := (wst s)(w := W_run)\<rparr>) = owed nw s"
proof -
  have "in_work nw (s\<lparr>wst := (wst s)(w := W_run)\<rparr>) = in_work nw s"
    using w by (intro in_work_same) simp
  then have same: "open_handles nw (s\<lparr>wst := (wst s)(w := W_run)\<rparr>) = open_handles nw s"
    by (simp add: open_handles_def)
  have "\<exists>v < nw. wst s v \<noteq> W_wait \<Longrightarrow> \<exists>v < nw. ((wst s)(w := W_run)) v \<noteq> W_wait"
    by auto
  then show ?thesis
    using mod_inv_D [OF inv] by (auto simp: mod_inv_def same owed_def)
qed

lemma loop_step:
  assumes inv: "mod_inv nw s"
  shows "mod_inv nw (loop_reply s) \<and> owed nw (loop_reply s) = owed nw s"
proof (cases "unblocked s")
  case (Cons h hs)
  then show ?thesis
    using mod_inv_D [OF inv]
    by (auto simp: loop_reply_def reply_cb_def reply_def mod_inv_def owed_def open_handles_def)
qed (use inv in \<open>simp add: loop_reply_def\<close>)

lemma sync_step:
  assumes "mod_inv nw s"
  shows "mod_inv nw (cmd_sync c s) \<and> owed nw (cmd_sync c s) = add_mset (OK_to c) (owed nw s)"
  using mod_inv_D [OF assms] by (auto simp: cmd_sync_def reply_def mod_inv_def owed_def open_handles_def)

lemma mod_run_owed:
  assumes "mod_inv nw s" "had_room nw es s"
  shows "mod_inv nw (mod_run nw es s) \<and> owed nw (mod_run nw es s) = owed nw s + mset (map OK_to (submitted es))"
  using assms
proof (induction es arbitrary: s)
  case (Cons e es)
  have step: "mod_inv nw (mod_step nw e s) \<and> owed nw (mod_step nw e s) = owed nw s + mset (map OK_to (submitted [e]))"
    using Cons.prems
    by (cases e) (auto simp: submitted_def async_step sync_step work_step spurious_step loop_step)
  have "submitted (e # es) = submitted [e] @ submitted es"
    by (simp add: submitted_def)
  then show ?case
    using Cons.IH [of "mod_step nw e s"] Cons.prems(2) step by (simp add: mod_run_def)
qed (simp add: mod_run_def submitted_def)

lemma mod0_inv: "mod_inv nw mod0" "owed nw mod0 = {#}"
  by (simp_all add: mod_inv_def owed_def open_handles_def mod0_def in_work_def concat_eq_Nil_conv)

section \<open>Progress\<close>

definition todo :: "nat \<Rightarrow> redis_accel \<Rightarrow> nat" where
  "todo nw s = 3 * length (ring_items QN (jobs s)) + 2 * length (in_work nw s) + length (unblocked s)"

text \<open>Every worker takes a turn, then the event loop replies to a client.\<close>

definition turns :: "nat \<Rightarrow> mod_event list" where
  "turns nw = map Work [0..<nw] @ [Loop]"

lemma worker_todo:
  assumes wf: "ring_wf QN (jobs s)" and w: "w < nw"
  shows "todo nw (worker w s) < todo nw s
    \<or> (todo nw (worker w s) = todo nw s \<and> jobs (worker w s) = jobs s \<and> (\<forall>v. v \<noteq> w \<longrightarrow> wst (worker w s) v = wst s v)
       \<and> unblocked (worker w s) = unblocked s \<and> (wst s w = W_wait \<or> wst s w = W_run \<and> ring_items QN (jobs s) = []))"
proof (cases "wst s w")
  case W_run
  show ?thesis
  proof (cases "ring_get QN (jobs s)")
    case None
    then show ?thesis
      using W_run in_work_same [of W_wait s w nw] ring_get_None [OF wf] by (simp add: worker_def todo_def)
  next
    case (Some p)
    obtain j r where p: "p = (j, r)"
      by (cases p)
    have "mset (in_work nw (s\<lparr>jobs := r, wst := (wst s)(w := W_enc j)\<rparr>)) = add_mset j (mset (in_work nw s))"
      using in_work_take [OF w, of "s\<lparr>jobs := r\<rparr>" j] W_run by simp
    then have "length (in_work nw (s\<lparr>jobs := r, wst := (wst s)(w := W_enc j)\<rparr>)) = Suc (length (in_work nw s))"
      by (metis size_add_mset size_mset)
    then show ?thesis
      using W_run Some p ring_get_Some [OF wf, of j r] by (simp add: worker_def todo_def)
  qed
next
  case (W_enc j)
  have "add_mset j (mset (in_work nw (s\<lparr>unblocked := unblocked s @ [j], wst := (wst s)(w := W_run)\<rparr>))) = mset (in_work nw s)"
    using in_work_drop [OF w, of "s\<lparr>unblocked := unblocked s @ [j]\<rparr>" j] W_enc by simp
  then have "Suc (length (in_work nw (s\<lparr>unblocked := unblocked s @ [j], wst := (wst s)(w := W_run)\<rparr>))) = length (in_work nw s)"
    by (metis size_add_mset size_mset)
  then show ?thesis
    using W_enc by (simp add: worker_def todo_def)
qed (simp add: worker_def)

lemma workers_todo:
  assumes "mod_inv nw s" "distinct ws" "set ws \<subseteq> {..<nw}"
  shows "mod_inv nw (fold worker ws s) \<and> (todo nw (fold worker ws s) < todo nw s
    \<or> (todo nw (fold worker ws s) = todo nw s \<and> unblocked (fold worker ws s) = unblocked s
       \<and> (\<forall>w \<in> set ws. wst s w = W_wait \<or> wst s w = W_run \<and> ring_items QN (jobs s) = [])))"
  using assms
proof (induction ws arbitrary: s)
  case (Cons v ws)
  have v: "v < nw" "v \<notin> set ws"
    using Cons.prems by auto
  have inv: "mod_inv nw (worker v s)"
    using work_step [OF Cons.prems(1) v(1)] by blast
  have IH: "mod_inv nw (fold worker ws (worker v s)) \<and> (todo nw (fold worker ws (worker v s)) < todo nw (worker v s)
      \<or> (todo nw (fold worker ws (worker v s)) = todo nw (worker v s)
        \<and> unblocked (fold worker ws (worker v s)) = unblocked (worker v s)
        \<and> (\<forall>w \<in> set ws. wst (worker v s) w = W_wait \<or> wst (worker v s) w = W_run \<and> ring_items QN (jobs (worker v s)) = [])))"
    using Cons.IH [OF inv] Cons.prems(2,3) by simp
  from worker_todo [OF mod_inv_D(1) [OF Cons.prems(1)] v(1)] show ?case
  proof
    assume "todo nw (worker v s) < todo nw s"
    then show ?thesis
      using IH by auto
  next
    assume e: "todo nw (worker v s) = todo nw s \<and> jobs (worker v s) = jobs s
      \<and> (\<forall>u. u \<noteq> v \<longrightarrow> wst (worker v s) u = wst s u) \<and> unblocked (worker v s) = unblocked s
      \<and> (wst s v = W_wait \<or> wst s v = W_run \<and> ring_items QN (jobs s) = [])"
    then have "\<forall>w \<in> set ws. wst (worker v s) w = wst s w"
      using v(2) by metis
    then show ?thesis
      using IH e by auto
  qed
qed simp

lemma all_workers: "set [0..<nw] \<subseteq> {..<(nw::nat)}"
  by auto

lemma turns_eq: "mod_run nw (turns nw) s = loop_reply (fold worker [0..<nw] s)"
proof -
  have "fold (mod_step nw) (map Work ws) s = fold worker ws s" if "set ws \<subseteq> {..<nw}" for ws
    using that by (induction ws arbitrary: s) auto
  from this [OF all_workers] show ?thesis
    by (simp add: mod_run_def turns_def)
qed

lemma loop_todo: "todo nw (loop_reply s) = todo nw s - (if unblocked s = [] then 0 else 1)"
  by (simp add: loop_reply_def reply_cb_def reply_def todo_def split: list.split)

lemma turns_todo:
  assumes inv: "mod_inv nw s" and nw: "0 < nw" and t: "todo nw s \<noteq> 0"
  shows "mod_inv nw (mod_run nw (turns nw) s) \<and> todo nw (mod_run nw (turns nw) s) < todo nw s"
proof -
  let ?s = "fold worker [0..<nw] s"
  have w: "mod_inv nw ?s" "todo nw ?s < todo nw s \<or> (todo nw ?s = todo nw s \<and> unblocked ?s = unblocked s
      \<and> (\<forall>w \<in> set [0..<nw]. wst s w = W_wait \<or> wst s w = W_run \<and> ring_items QN (jobs s) = []))"
    using workers_todo [OF inv distinct_upt all_workers] by blast+
  have "todo nw ?s < todo nw s \<or> unblocked ?s \<noteq> []"
  proof (rule ccontr)
    assume "\<not> ?thesis"
    then have u: "unblocked s = []" and all: "\<forall>w < nw. wst s w = W_wait \<or> wst s w = W_run \<and> ring_items QN (jobs s) = []"
      using w(2) by auto
    then have "ring_items QN (jobs s) = []"
      using mod_inv_D(3) [OF inv nw] by blast
    moreover have "in_work nw s = []"
      using all by (auto simp: in_work_def concat_eq_Nil_conv)
    ultimately show False
      using t u by (simp add: todo_def)
  qed
  moreover have "todo nw ?s \<le> todo nw s"
    using w(2) by linarith
  ultimately show ?thesis
    using loop_step [OF w(1)] t unfolding turns_eq loop_todo by auto
qed

lemma rounds_todo:
  assumes "0 < nw" "mod_inv nw s" "todo nw s \<le> n"
  shows "todo nw (mod_run nw (concat (replicate n (turns nw))) s) = 0"
  using assms(2,3)
proof (induction n arbitrary: s)
  case (Suc n)
  have split: "mod_run nw (concat (replicate (Suc n) (turns nw))) s
      = mod_run nw (concat (replicate n (turns nw))) (mod_run nw (turns nw) s)"
    by (simp add: mod_run_def)
  show ?case
  proof (cases "todo nw s = 0")
    case True
    let ?s = "fold worker [0..<nw] s"
    have w: "mod_inv nw ?s" "todo nw ?s = 0"
      using workers_todo [OF Suc.prems(1) distinct_upt all_workers] True by auto
    then have "mod_inv nw (mod_run nw (turns nw) s)" "todo nw (mod_run nw (turns nw) s) \<le> n"
      using loop_step [OF w(1)] unfolding turns_eq loop_todo by auto
    then show ?thesis
      unfolding split by (rule Suc.IH)
  next
    case False
    then show ?thesis
      unfolding split using turns_todo [OF Suc.prems(1) assms(1)] Suc.prems(2) by (intro Suc.IH) auto
  qed
qed (simp add: mod_run_def)

lemma todo_open: "todo nw s \<le> 3 * length (open_handles nw s)" "todo nw s = 0 \<Longrightarrow> open_handles nw s = []"
  by (auto simp: todo_def open_handles_def)

lemma rounds_events: "had_room nw (concat (replicate n (turns nw))) s" "submitted (concat (replicate n (turns nw))) = []"
proof -
  have app: "had_room nw (es @ es') s = (had_room nw es s \<and> had_room nw es' (mod_run nw es s))" for es es' s
    by (induction es arbitrary: s) (auto simp: mod_run_def)
  have ws: "had_room nw (map Work ws) s" for ws s
    by (induction ws arbitrary: s) auto
  show "had_room nw (concat (replicate n (turns nw))) s"
    by (induction n arbitrary: s) (auto simp: app turns_def ws)
  show "submitted (concat (replicate n (turns nw))) = []"
    by (induction n) (auto simp: submitted_def turns_def)
qed

text \<open>In every run of the Redis module, whatever the order of commands, workers, wake-ups and the event loop, the
  replies sent and the clients blocked are together exactly the commands received, each to be answered OK once, as long
  as fewer than \<open>QN\<close> jobs are pending at each \<open>accel.async\<close>.\<close>

theorem async_replies_exact:
  assumes "s = mod_run nw es mod0" "had_room nw es mod0"
  shows "mset (replies s) + mset (map (\<lambda>h. OK_to (clients s ! h)) (open_handles nw s)) = mset (map OK_to (submitted es))"
  using mod_run_owed [OF mod0_inv(1) assms(2)] unfolding mod0_inv(2) assms(1) [symmetric] by (simp add: owed_def)

text \<open>C29: No wake-up is lost: from every state that the Redis module reaches with a worker started, at most three turns of
  the workers and the event loop for every blocked client answer all of them, so that every command has been answered.\<close>

theorem async_all_answered:
  assumes "s = mod_run nw es mod0" "had_room nw es mod0" "0 < nw"
    and "t = mod_run nw (concat (replicate (3 * length (open_handles nw s)) (turns nw))) s"
  shows "open_handles nw t = [] \<and> mset (replies t) = mset (map OK_to (submitted es))"
proof -
  have s: "mod_inv nw s" "owed nw s = mset (map OK_to (submitted es))"
    using mod_run_owed [OF mod0_inv(1) assms(2)] by (simp_all add: assms(1) mod0_inv(2))
  have "open_handles nw t = []"
    unfolding assms(4) by (intro todo_open(2) rounds_todo assms(3) s(1) todo_open(1))
  moreover have "owed nw t = mset (map OK_to (submitted es))"
    using mod_run_owed [OF s(1) rounds_events(1)] s(2) rounds_events(2) by (simp add: assms(4))
  ultimately show ?thesis
    by (simp add: owed_def)
qed

text \<open>Two clients and two workers; the first command's signal comes when both workers wait.\<close>

definition demo_events :: "mod_event list" where
  "demo_events = [Work 0, Work 1, Async 7 1, Sync 8, Async 9 0, Work 1, Work 0, Work 1, Loop]"

lemmas mod_demo_eval = demo_events_def mod_run_def cmd_async_def cmd_sync_def cond_signal_def waiting_def worker_def
  loop_reply_def reply_cb_def reply_def mod0_def ring_put_def ring_get_def ring_empty_def QN_def Let_def

theorem async_replies_exact_witness:
  "mset (replies (mod_run 2 demo_events mod0))
     + mset (map (\<lambda>h. OK_to (clients (mod_run 2 demo_events mod0) ! h)) (open_handles 2 (mod_run 2 demo_events mod0)))
   = {#OK_to 7, OK_to 8, OK_to 9#}"
proof -
  have "had_room 2 demo_events mod0"
    by (simp add: mod_demo_eval ring_room_def upt_rec)
  then show ?thesis
    using async_replies_exact [of _ 2 demo_events, OF refl] by (simp add: submitted_def demo_events_def)
qed

theorem async_all_answered_witness:
  "\<exists>t. open_handles 2 t = [] \<and> mset (replies t) = {#OK_to 7, OK_to 8, OK_to 9#}"
proof -
  have "had_room 2 demo_events mod0"
    by (simp add: mod_demo_eval ring_room_def upt_rec)
  then show ?thesis
    using async_all_answered [of _ 2 demo_events, OF refl _ _ refl] unfolding submitted_def demo_events_def by fastforce
qed

text \<open>A module that fails to load after its first command leaves its workers running.\<close>

lemma load_failure_leaves_workers:
  assumes "init_ok e" "lib_found e" "symbol_found e" "\<not> async_ok e" "env_workers e = None"
  shows "\<not> load_ok (OnLoad e) \<and> started (OnLoad e) = 16"
  using assms by (simp add: OnLoad_def Let_def)

end
