(* ===== verification/NgxAccel.thy ===== *)
theory NgxAccel
  imports Prelude "HOL-Library.Multiset"
begin

text \<open>
  The nginx module of \<open>apps/ngx_accel/ngx_http_accel_module.c\<close>: a handler that offloads on the event loop and one that
  posts the offload to a thread pool and answers in the completion. nginx and the loader are parameters: what their
  functions return is the input of a handler, the calls they get are recorded in its result.
\<close>

section \<open>The module\<close>

definition NGX_OK :: int where "NGX_OK = 0"
definition NGX_DONE :: int where "NGX_DONE = -4"
definition NGX_HTTP_OK :: int where "NGX_HTTP_OK = 200"
definition NGX_HTTP_INTERNAL_SERVER_ERROR :: int where "NGX_HTTP_INTERNAL_SERVER_ERROR = 500"
definition BUFSZ :: nat where "BUFSZ = 4096"

text \<open>What a handler reads and writes of a request; \<open>main\<close> is the request that a subrequest belongs to.\<close>

record ngx_request =
  main :: nat
  blocked :: int
  aio :: bool
  count :: int
  status :: int
  content_length_n :: int

record ngx_buf =
  body :: string
  memory :: bool
  last_buf :: bool
  last_in_chain :: bool

datatype ngx_call =
    Send_header nat int int
  | Output_filter nat ngx_buf
  | Finalize_request nat int
  | Run_posted_requests nat

record accel_task_ctx =
  tbuf :: "u8 list"
  treq :: nat

record ngx =
  requests :: "nat \<Rightarrow> ngx_request"
  calls :: "ngx_call list"
  posted :: "accel_task_ctx list"
  finished :: "accel_task_ctx list"

record ngx_api =
  discard_rc :: int
  pcalloc_ok :: bool
  filter_rc :: int
  task_ok :: bool
  post_rc :: int

definition upd_req :: "nat \<Rightarrow> (ngx_request \<Rightarrow> ngx_request) \<Rightarrow> ngx \<Rightarrow> ngx" where
  "upd_req r f s = s\<lparr>requests := (requests s)(r := f (requests s r))\<rparr>"

definition ngx_call :: "ngx_call \<Rightarrow> ngx \<Rightarrow> ngx" where
  "ngx_call c s = s\<lparr>calls := calls s @ [c]\<rparr>"

text \<open>The reply. The buffer that \<open>ngx_pcalloc\<close> gives is used unchecked: without one the worker crashes, \<open>None\<close>.\<close>

definition accel_send_ok :: "ngx_api \<Rightarrow> nat \<Rightarrow> ngx \<Rightarrow> (int \<times> ngx) option" where
  "accel_send_ok api r s =
     (let s = upd_req r (\<lambda>q. q\<lparr>status := NGX_HTTP_OK, content_length_n := 2\<rparr>) s;
          s = ngx_call (Send_header r (status (requests s r)) (content_length_n (requests s r))) s
      in if \<not> pcalloc_ok api then None
         else Some (filter_rc api,
           ngx_call (Output_filter r \<lparr>body = ''OK'', memory = True, last_buf = True, last_in_chain = True\<rparr>) s))"

text \<open>The offload is \<open>None\<close> while the library has not been found; a call of it then crashes.\<close>

definition sync_handler :: "(u8 list \<Rightarrow> u8 list) option \<Rightarrow> ngx_api \<Rightarrow> nat \<Rightarrow> ngx \<Rightarrow> (int \<times> ngx) option" where
  "sync_handler accel api r s =
     (let rc = discard_rc api
      in if rc \<noteq> NGX_OK then Some (rc, s)
         else (case accel of None \<Rightarrow> None | Some f \<Rightarrow> accel_send_ok api r s))"

definition thread_func :: "(u8 list \<Rightarrow> u8 list) option \<Rightarrow> accel_task_ctx \<Rightarrow> accel_task_ctx option" where
  "thread_func accel ctx = (case accel of None \<Rightarrow> None | Some f \<Rightarrow> Some (ctx\<lparr>tbuf := f (tbuf ctx)\<rparr>))"

definition thread_completion :: "ngx_api \<Rightarrow> nat \<Rightarrow> ngx \<Rightarrow> ngx option" where
  "thread_completion api r s =
     (let s = upd_req (main (requests s r)) (\<lambda>q. q\<lparr>blocked := blocked q - 1\<rparr>) s;
          s = upd_req r (\<lambda>q. q\<lparr>aio := False\<rparr>) s
      in case accel_send_ok api r s of
           None \<Rightarrow> None
         | Some (rc, s) \<Rightarrow> Some (ngx_call (Run_posted_requests r) (ngx_call (Finalize_request r rc) s)))"

definition async_handler :: "ngx_api \<Rightarrow> nat \<Rightarrow> ngx \<Rightarrow> int \<times> ngx" where
  "async_handler api r s =
     (let rc = discard_rc api
      in if rc \<noteq> NGX_OK then (rc, s)
         else if \<not> task_ok api then (NGX_HTTP_INTERNAL_SERVER_ERROR, s)
         else (let ctx = \<lparr>tbuf = replicate BUFSZ 0, treq = r\<rparr>
               in if post_rc api \<noteq> NGX_OK then (NGX_HTTP_INTERNAL_SERVER_ERROR, s)
                  else (let s = s\<lparr>posted := posted s @ [ctx]\<rparr>;
                            s = upd_req (main (requests s r)) (\<lambda>q. q\<lparr>blocked := blocked q + 1\<rparr>) s;
                            s = upd_req r (\<lambda>q. q\<lparr>aio := True\<rparr>) s;
                            s = upd_req r (\<lambda>q. q\<lparr>count := count q + 1\<rparr>) s
                        in (NGX_DONE, s))))"

section \<open>The directives\<close>

text \<open>A location's configuration: its content handler and the thread pool of the module.\<close>

datatype handler = H_sync | H_async

record loc_conf =
  handler :: "handler option"
  pool :: "nat option"

definition create_loc_conf :: loc_conf where
  "create_loc_conf = \<lparr>handler = None, pool = None\<rparr>"

text \<open>\<open>dl\<close> opens a library and finds the symbol in it, both of which may fail.\<close>

definition load_accel :: "environ \<Rightarrow> (string \<Rightarrow> 'f option option) \<Rightarrow> 'f option \<Rightarrow> 'f option" where
  "load_accel env dl accel =
     (case accel of
        Some f \<Rightarrow> Some f
      | None \<Rightarrow> (case dl (case env ''ACCEL_LIB'' of None \<Rightarrow> ''libaccel.so'' | Some l \<Rightarrow> l) of None \<Rightarrow> None | Some fn \<Rightarrow> fn))"

definition accel_sync :: "environ \<Rightarrow> (string \<Rightarrow> 'f option option) \<Rightarrow> loc_conf \<times> 'f option \<Rightarrow> string option \<times> loc_conf \<times> 'f option" where
  "accel_sync env dl c = (case c of (lc, accel) \<Rightarrow> (None, lc\<lparr>handler := Some H_sync\<rparr>, load_accel env dl accel))"

definition accel_async ::
  "nat option \<Rightarrow> environ \<Rightarrow> (string \<Rightarrow> 'f option option) \<Rightarrow> loc_conf \<times> 'f option \<Rightarrow> string option \<times> loc_conf \<times> 'f option" where
  "accel_async pool_add env dl c =
     (case c of (lc, accel) \<Rightarrow>
        let lc = lc\<lparr>handler := Some H_async, pool := pool_add\<rparr>
        in if pool lc = None then (Some (''could not get thread pool '' @ [CHR 0x27] @ ''default'' @ [CHR 0x27]), lc, accel)
           else (None, lc, load_accel env dl accel))"

section \<open>Runs of the event loop and of the pool\<close>

text \<open>A request comes in, a thread of the pool runs the \<open>k\<close>-th task that was posted, and the event loop handles the
  \<open>k\<close>-th task that has finished.\<close>

datatype ngx_event = Async_request ngx_api nat | Pool_thread nat | Completion ngx_api nat

definition take_out :: "nat \<Rightarrow> 'a list \<Rightarrow> 'a list" where
  "take_out k xs = take k xs @ drop (Suc k) xs"

definition ngx_step :: "(u8 list \<Rightarrow> u8 list) option \<Rightarrow> ngx_event \<Rightarrow> ngx \<Rightarrow> ngx option" where
  "ngx_step accel e s =
     (case e of
        Async_request api r \<Rightarrow> Some (snd (async_handler api r s))
      | Pool_thread k \<Rightarrow>
          if length (posted s) \<le> k then Some s
          else (case thread_func accel (posted s ! k) of
                  None \<Rightarrow> None
                | Some ctx \<Rightarrow> Some (s\<lparr>posted := take_out k (posted s), finished := finished s @ [ctx]\<rparr>))
      | Completion api k \<Rightarrow>
          if length (finished s) \<le> k then Some s
          else thread_completion api (treq (finished s ! k)) (s\<lparr>finished := take_out k (finished s)\<rparr>))"

fun ngx_run :: "(u8 list \<Rightarrow> u8 list) option \<Rightarrow> ngx_event list \<Rightarrow> ngx \<Rightarrow> ngx option" where
  "ngx_run accel [] s = Some s"
| "ngx_run accel (e # es) s = (case ngx_step accel e s of None \<Rightarrow> None | Some s \<Rightarrow> ngx_run accel es s)"

text \<open>Requests as nginx makes them: \<open>mainof\<close> says which is the main request of each.\<close>

definition ngx0 :: "(nat \<Rightarrow> nat) \<Rightarrow> ngx" where
  "ngx0 mainof = \<lparr>requests = (\<lambda>r. \<lparr>main = mainof r, blocked = 0, aio = False, count = 1, status = 0, content_length_n = -1\<rparr>),
     calls = [], posted = [], finished = []\<rparr>"

text \<open>The requests of the tasks in flight, and those that a list of calls answers and finalizes.\<close>

definition flight :: "ngx \<Rightarrow> nat list" where
  "flight s = map treq (posted s) @ map treq (finished s)"

definition ok_buf :: ngx_buf where
  "ok_buf = \<lparr>body = ''OK'', memory = True, last_buf = True, last_in_chain = True\<rparr>"

definition answers :: "nat \<Rightarrow> ngx \<Rightarrow> nat" where
  "answers r s = length (filter (\<lambda>c. c = Output_filter r ok_buf) (calls s))"

definition finals :: "nat \<Rightarrow> ngx \<Rightarrow> nat" where
  "finals r s = length (filter (\<lambda>c. \<exists>rc. c = Finalize_request r rc) (calls s))"

definition ngx_inv :: "(nat \<Rightarrow> nat) \<Rightarrow> ngx \<Rightarrow> bool" where
  "ngx_inv mainof s \<longleftrightarrow>
     (\<forall>r. main (requests s r) = mainof r
        \<and> blocked (requests s r) = int (length (filter (\<lambda>q. mainof q = r) (flight s)))
        \<and> (aio (requests s r) \<longrightarrow> r \<in> set (flight s))
        \<and> count (requests s r) = 1 + int (count_list (flight s) r) + int (finals r s)
        \<and> answers r s = finals r s)"

lemma ngx_inv_D:
  assumes "ngx_inv m s"
  shows "main (requests s r) = m r" and "blocked (requests s r) = int (length (filter (\<lambda>q. m q = r) (flight s)))"
    and "aio (requests s r) \<Longrightarrow> r \<in> set (flight s)"
    and "count (requests s r) = 1 + int (count_list (flight s) r) + int (finals r s)" and "answers r s = finals r s"
  using assms unfolding ngx_inv_def by blast+

lemma take_out_split:
  assumes "k < length xs"
  shows "xs = take k xs @ xs ! k # drop (Suc k) xs"
  by (rule id_take_nth_drop [OF assms])

lemma take_out_count:
  assumes "k < length xs"
  shows "count_list (map f xs) r = count_list (map f (take_out k xs)) r + (if f (xs ! k) = r then 1 else 0)"
    and "length (filter P (map f xs)) = length (filter P (map f (take_out k xs))) + (if P (f (xs ! k)) then 1 else 0)"
proof -
  have eq: "map f xs = map f (take k xs) @ f (xs ! k) # map f (drop (Suc k) xs)"
    using arg_cong [OF take_out_split [OF assms], of "map f"] by simp
  show "count_list (map f xs) r = count_list (map f (take_out k xs)) r + (if f (xs ! k) = r then 1 else 0)"
    unfolding eq by (simp add: take_out_def)
  show "length (filter P (map f xs)) = length (filter P (map f (take_out k xs))) + (if P (f (xs ! k)) then 1 else 0)"
    unfolding eq by (simp add: take_out_def)
qed

lemma in_flight_count: "r \<in> set xs \<longleftrightarrow> 0 < count_list xs r"
  by (metis count_notin count_list_0_iff gr0I less_numeral_extra(3))

text \<open>A request that has been accepted is in flight, and holds its main request.\<close>

lemma async_handler_cases:
  "async_handler api r s =
     (if discard_rc api = NGX_OK \<and> task_ok api \<and> post_rc api = NGX_OK then (NGX_DONE, snd (async_handler api r s))
      else (if discard_rc api \<noteq> NGX_OK then discard_rc api else NGX_HTTP_INTERNAL_SERVER_ERROR, s))"
  by (simp add: async_handler_def Let_def)

definition accepts :: "ngx_api \<Rightarrow> bool" where
  "accepts api \<longleftrightarrow> discard_rc api = NGX_OK \<and> task_ok api \<and> post_rc api = NGX_OK"

lemma async_handler_state:
  assumes "accepts api"
  shows "flight (snd (async_handler api r s)) = map treq (posted s) @ [r] @ map treq (finished s)"
    and "calls (snd (async_handler api r s)) = calls s"
    and "requests (snd (async_handler api r s)) q = (requests s q)
      \<lparr>blocked := blocked (requests s q) + (if q = main (requests s r) then 1 else 0), aio := aio (requests s q) \<or> q = r,
       count := count (requests s q) + (if q = r then 1 else 0)\<rparr>"
  using assms by (auto simp: async_handler_def accepts_def flight_def upd_req_def Let_def)

lemma async_handler_inv:
  assumes inv: "ngx_inv m s"
  shows "ngx_inv m (snd (async_handler api r s))"
    and "answers q (snd (async_handler api r s)) + count_list (flight (snd (async_handler api r s))) q
      = answers q s + count_list (flight s) q + (if accepts api \<and> q = r then 1 else 0)"
proof -
  have rej: "snd (async_handler api r s) = s" if "\<not> accepts api"
    using that by (subst async_handler_cases) (auto simp: accepts_def)
  have fin: "finals q (snd (async_handler api r s)) = finals q s" "answers q (snd (async_handler api r s)) = answers q s" for q
    using async_handler_state(2) [of api r s] rej by (cases "accepts api"; simp add: finals_def answers_def)+
  have cnt: "count_list (flight (snd (async_handler api r s))) q = count_list (flight s) q + (if q = r then 1 else 0)"
    and len: "length (filter P (flight (snd (async_handler api r s)))) = length (filter P (flight s)) + (if P r then 1 else 0)"
    if "accepts api" for q P
    unfolding async_handler_state(1) [OF that] by (simp_all add: flight_def)
  show "answers q (snd (async_handler api r s)) + count_list (flight (snd (async_handler api r s))) q
      = answers q s + count_list (flight s) q + (if accepts api \<and> q = r then 1 else 0)"
    using fin(2) cnt rej by (cases "accepts api") simp_all
  show "ngx_inv m (snd (async_handler api r s))"
  proof (cases "accepts api")
    case True
    have "r \<in> set (flight (snd (async_handler api r s)))" "set (flight s) \<subseteq> set (flight (snd (async_handler api r s)))"
      unfolding async_handler_state(1) [OF True] by (auto simp: flight_def)
    then have "aio (requests s q) \<or> q = r \<Longrightarrow> q \<in> set (flight (snd (async_handler api r s)))" for q
      using ngx_inv_D(3) [OF inv, of q] by blast
    then show ?thesis
      unfolding ngx_inv_def fin cnt [OF True] len [OF True] async_handler_state(3) [OF True]
      using ngx_inv_D(1,2,4,5) [OF inv] by simp
  qed (use rej inv in simp)
qed

text \<open>The completion answers the request once, finalizes it once and takes its hold off the main request.\<close>

lemma thread_completion_state:
  assumes "thread_completion api r s = Some t"
  shows "posted t = posted s" "finished t = finished s" "pcalloc_ok api"
    and "calls t = calls s @ [Send_header r NGX_HTTP_OK 2, Output_filter r ok_buf, Finalize_request r (filter_rc api), Run_posted_requests r]"
    and "main (requests t q) = main (requests s q)"
    and "blocked (requests t q) = blocked (requests s q) - (if q = main (requests s r) then 1 else 0)"
    and "aio (requests t q) \<longleftrightarrow> aio (requests s q) \<and> q \<noteq> r"
    and "count (requests t q) = count (requests s q)"
  using assms
  by (auto simp: thread_completion_def accel_send_ok_def upd_req_def ngx_call_def ok_buf_def Let_def split: if_splits)

lemma thread_completion_inv:
  assumes inv: "ngx_inv m s" and k: "k < length (finished s)"
    and t: "thread_completion api (treq (finished s ! k)) (s\<lparr>finished := take_out k (finished s)\<rparr>) = Some t"
  shows "ngx_inv m t" and "answers q t + count_list (flight t) q = answers q s + count_list (flight s) q"
proof -
  note c = thread_completion_state [OF t]
  let ?r = "treq (finished s ! k)"
  have fin: "finals q t = finals q s + (if q = ?r then 1 else 0)" "answers q t = answers q s + (if q = ?r then 1 else 0)" for q
    using c(4) by (auto simp: finals_def answers_def)
  have cnt: "count_list (flight s) q = count_list (flight t) q + (if ?r = q then 1 else 0)"
    and len: "length (filter P (flight s)) = length (filter P (flight t)) + (if P ?r then 1 else 0)" for q P
    using take_out_count [OF k, where f = treq] c(1,2) by (simp_all add: flight_def)
  show "answers q t + count_list (flight t) q = answers q s + count_list (flight s) q"
    using fin(2) cnt by simp
  have "q \<in> set (flight t)" if "aio (requests s q)" "q \<noteq> ?r" for q
    using ngx_inv_D(3) [OF inv that(1)] cnt [of q] that(2) unfolding in_flight_count by simp
  then show "ngx_inv m t"
    unfolding ngx_inv_def c(5-8) fin
    using ngx_inv_D(1,2,4,5) [OF inv] cnt len by auto
qed

lemma pool_thread_inv:
  assumes inv: "ngx_inv m s" and k: "k < length (posted s)" and r: "treq ctx = treq (posted s ! k)"
    and t: "t = s\<lparr>posted := take_out k (posted s), finished := finished s @ [ctx]\<rparr>"
  shows "ngx_inv m t" and "answers q t + count_list (flight t) q = answers q s + count_list (flight s) q"
proof -
  have cnt: "count_list (flight t) q = count_list (flight s) q" and len: "length (filter P (flight t)) = length (filter P (flight s))" for q P
    using take_out_count [OF k, where f = treq] r by (simp_all add: flight_def t)
  have same: "requests t = requests s" "finals q t = finals q s" "answers q t = answers q s" for q
    by (simp_all add: t finals_def answers_def)
  show "answers q t + count_list (flight t) q = answers q s + count_list (flight s) q"
    by (simp add: same cnt)
  show "ngx_inv m t"
    using inv unfolding ngx_inv_def same cnt len in_flight_count .
qed

section \<open>What a run does\<close>

definition accepted :: "nat \<Rightarrow> ngx_event list \<Rightarrow> nat" where
  "accepted r es = length (filter (\<lambda>e. \<exists>api. e = Async_request api r \<and> accepts api) es)"

lemma accepted_simps [simp]:
  "accepted r [] = 0"
  "accepted r (Async_request api q # es) = (if accepts api \<and> q = r then 1 else 0) + accepted r es"
  "accepted r (Pool_thread k # es) = accepted r es" "accepted r (Completion api k # es) = accepted r es"
  by (auto simp: accepted_def)

lemma ngx_step_inv:
  assumes inv: "ngx_inv m s" and t: "ngx_step accel e s = Some t"
  shows "ngx_inv m t \<and> answers q t + count_list (flight t) q = answers q s + count_list (flight s) q + accepted q [e]"
proof (cases e)
  case (Async_request api r)
  then show ?thesis
    using t async_handler_inv(1) [OF inv, of api r] async_handler_inv(2) [OF inv, of q api r] by (auto simp: ngx_step_def)
next
  case (Pool_thread k)
  show ?thesis
  proof (cases "k < length (posted s)")
    case True
    then obtain f where eq: "t = s\<lparr>posted := take_out k (posted s), finished := finished s @ [(posted s ! k)\<lparr>tbuf := f\<rparr>]\<rparr>"
      using t Pool_thread by (auto simp: ngx_step_def thread_func_def split: option.splits)
    then show ?thesis
      using pool_thread_inv [OF inv True _ eq] Pool_thread by simp
  qed (use t Pool_thread inv in \<open>simp add: ngx_step_def\<close>)
next
  case (Completion api k)
  show ?thesis
  proof (cases "k < length (finished s)")
    case True
    then show ?thesis
      using thread_completion_inv [OF inv True, of api t] t Completion by (simp add: ngx_step_def)
  qed (use t Completion inv in \<open>simp add: ngx_step_def\<close>)
qed

lemma ngx_run_inv:
  assumes "ngx_inv m s" "ngx_run accel es s = Some t"
  shows "ngx_inv m t \<and> answers q t + count_list (flight t) q = answers q s + count_list (flight s) q + accepted q es"
  using assms
proof (induction es arbitrary: s)
  case (Cons e es)
  obtain s1 where s1: "ngx_step accel e s = Some s1" "ngx_run accel es s1 = Some t"
    using Cons.prems(2) by (auto split: option.splits)
  note step = ngx_step_inv [OF Cons.prems(1) s1(1), of q]
  have "accepted q (e # es) = accepted q [e] + accepted q es"
    by (cases e) simp_all
  then show ?case
    using Cons.IH [OF _ s1(2)] step by simp
qed simp

lemma ngx0_inv: "ngx_inv m (ngx0 m)" "answers q (ngx0 m) = 0" "flight (ngx0 m) = []"
  by (simp_all add: ngx_inv_def ngx0_def flight_def answers_def finals_def)

text \<open>With the library found and memory for the replies no step crashes.\<close>

definition replies_fit :: "ngx_event list \<Rightarrow> bool" where
  "replies_fit es \<longleftrightarrow> (\<forall>e \<in> set es. case e of Completion api k \<Rightarrow> pcalloc_ok api | _ \<Rightarrow> True)"

lemma ngx_run_no_crash: "replies_fit es \<Longrightarrow> ngx_run (Some f) es s \<noteq> None"
proof (induction es arbitrary: s)
  case (Cons e es)
  have "ngx_step (Some f) e s \<noteq> None"
    using Cons.prems
    by (auto simp: ngx_step_def thread_func_def thread_completion_def accel_send_ok_def replies_fit_def Let_def split: ngx_event.splits)
  then show ?case
    using Cons by (auto simp: replies_fit_def)
qed simp


definition fine :: ngx_api where
  "fine = \<lparr>discard_rc = NGX_OK, pcalloc_ok = True, filter_rc = NGX_OK, task_ok = True, post_rc = NGX_OK\<rparr>"


text \<open>A directive accepts a library that is not there; the first request crashes the worker.\<close>

lemma missing_library_accepted:
  assumes "dl ''libaccel.so'' = None" "env ''ACCEL_LIB'' = None"
  shows "accel_sync env dl (create_loc_conf, None) = (None, \<lparr>handler = Some H_sync, pool = None\<rparr>, None)"
    and "discard_rc api = NGX_OK \<Longrightarrow> sync_handler None api r s = None"
  using assms by (simp_all add: accel_sync_def create_loc_conf_def load_accel_def sync_handler_def)

text \<open>The hold of a subrequest is counted on the subrequest, not on its main request, which nginx counts down.\<close>

lemma subrequest_hold:
  assumes "accepts api" "main (requests s r) \<noteq> r"
  shows "count (requests (snd (async_handler api r s)) (main (requests s r))) = count (requests s (main (requests s r)))"
    and "count (requests (snd (async_handler api r s)) r) = count (requests s r) + 1"
  using assms(2) by (simp_all add: async_handler_state(3) [OF assms(1)])

end
