(* ===== verification/Tls.thy ===== *)
theory Tls
  imports Prelude
begin

text \<open>
  Thread-local state across a fiber switch: the \<open>errno\<close> and OpenSSL error queue handling of
  \<open>transparent-runtime/libtransparent.c\<close> (\<open>tls_save\<close>, \<open>tls_restore\<close>) and the experiment
  \<open>conflict-measurement/coop_err.c\<close>, two coroutines on one thread that stamp this state before a
  yield and check it after. The OpenSSL functions are parameters on an opaque queue \<open>'q\<close>.
\<close>

section \<open>The OpenSSL error queue\<close>

text \<open>A function pointer that \<open>dlsym\<close> did not resolve is \<open>None\<close>.\<close>

record 'q ssl =
  ssl_err_get :: "('q \<Rightarrow> u64 \<times> 'q) option"
  ssl_err_clear :: "('q \<Rightarrow> 'q) option"
  ssl_err_put :: "(u64 \<Rightarrow> u64 \<Rightarrow> 'q \<Rightarrow> 'q) option"

text \<open>
  The documented behaviour: the queue holds nonzero codes, oldest first; \<open>ERR_get_error\<close> removes
  the oldest, or returns 0; \<open>ERR_put_error\<close> appends a code packed from library and reason.
\<close>

definition err_pack :: "u64 \<Rightarrow> u64 \<Rightarrow> u64" where
  "err_pack lib reason = or (push_bit 23 (and lib 255)) (and reason 8388607)"

definition get_spec :: "('q \<Rightarrow> u64 list) \<Rightarrow> ('q \<Rightarrow> u64 \<times> 'q) \<Rightarrow> bool" where
  "get_spec items get \<longleftrightarrow> (\<forall>q. 0 \<notin> set (items q) \<and>
     (case items q of [] \<Rightarrow> fst (get q) = 0 \<and> items (snd (get q)) = []
      | e # es \<Rightarrow> fst (get q) = e \<and> items (snd (get q)) = es))"

definition clear_spec :: "('q \<Rightarrow> u64 list) \<Rightarrow> ('q \<Rightarrow> 'q) \<Rightarrow> bool" where
  "clear_spec items clear \<longleftrightarrow> (\<forall>q. items (clear q) = [])"

definition put_spec :: "('q \<Rightarrow> u64 list) \<Rightarrow> (u64 \<Rightarrow> u64 \<Rightarrow> 'q \<Rightarrow> 'q) \<Rightarrow> bool" where
  "put_spec items put \<longleftrightarrow> (\<forall>l r q. length (items q) < 16 \<longrightarrow> err_pack l r \<noteq> 0 \<longrightarrow>
     items (put l r q) = items q @ [err_pack l r])"

section \<open>Saving and restoring\<close>

record area =
  serr :: int
  errbuf :: "u64 list"

text \<open>The loop of \<open>tls_save\<close>: it reads a code before it tests whether the buffer has room.\<close>

fun drain :: "('q \<Rightarrow> u64 \<times> 'q) \<Rightarrow> nat \<Rightarrow> 'q \<Rightarrow> u64 list \<times> 'q" where
  "drain get 0 q = ([], snd (get q))"
| "drain get (Suc k) q =
     (let (e, q') = get q
      in if e = 0 then ([], q') else let (es, q'') = drain get k q' in (e # es, q''))"

definition tls_save :: "'q ssl \<Rightarrow> int \<Rightarrow> 'q \<Rightarrow> area \<Rightarrow> area \<times> 'q" where
  "tls_save lib errno q a =
     (case ssl_err_get lib of
        None \<Rightarrow> (a\<lparr>serr := errno\<rparr>, q)
      | Some get \<Rightarrow> (let (es, q') = drain get 16 q in (a\<lparr>serr := errno, errbuf := es\<rparr>, q')))"

definition tls_restore :: "'q ssl \<Rightarrow> area \<Rightarrow> 'q \<Rightarrow> int \<times> 'q" where
  "tls_restore lib a q =
     (serr a,
      (case (ssl_err_get lib, ssl_err_clear lib, ssl_err_put lib) of
         (Some get, Some clear, Some put) \<Rightarrow>
           fold (\<lambda>e. put (and (drop_bit 23 e) 255) (and e 8388607)) (errbuf a) (clear q)
       | _ \<Rightarrow> q))"

lemma drain_items:
  assumes "get_spec items get" "length (items q) \<le> k"
  shows "fst (drain get k q) = items q \<and> items (snd (drain get k q)) = []"
  using assms(2)
proof (induction k arbitrary: q)
  case 0
  with assms(1) show ?case by (auto simp: get_spec_def dest: spec [of _ q])
next
  case (Suc k)
  note spec = assms(1) [unfolded get_spec_def, rule_format, of q]
  show ?case
  proof (cases "items q")
    case Nil
    with spec show ?thesis by (auto simp: Let_def split: prod.splits)
  next
    case (Cons e es)
    with spec have g: "fst (get q) = e" "items (snd (get q)) = es" "e \<noteq> 0" by auto
    with Suc.IH [of "snd (get q)"] Suc.prems Cons show ?thesis
      by (auto simp: Let_def split: prod.splits)
  qed
qed

lemma err_pack_unpack:
  assumes "e < 2 ^ 31"
  shows "err_pack (and (drop_bit 23 e) 255) (and e 8388607) = (e :: u64)"
proof (rule bit_word_eqI)
  fix n assume n: "n < LENGTH(64)"
  have mask: "(255 :: u64) = mask 8" "(8388607 :: u64) = mask 23" by (simp_all add: mask_numeral)
  have "uint e < 2 ^ 31" using assms by (simp add: word_less_alt)
  then have "and e (mask 31) = e" by (simp only: mask_eq_iff)
  then have high: "bit e n \<Longrightarrow> n < 31" by (metis bit_and_iff bit_mask_iff)
  show "bit (err_pack (and (drop_bit 23 e) 255) (and e 8388607)) n = bit e n"
    using n high unfolding err_pack_def mask
    by (auto simp: bit_or_iff bit_push_bit_iff bit_and_iff bit_mask_iff bit_drop_bit_eq)
qed

lemma put_all:
  assumes "put_spec items put" "length (items q) + length es \<le> 16" "\<forall>e\<in>set es. e < 2 ^ 31 \<and> e \<noteq> 0"
  shows "items (fold (\<lambda>e. put (and (drop_bit 23 e) 255) (and e 8388607)) es q) = items q @ es"
  using assms(2,3)
proof (induction es arbitrary: q)
  case (Cons e es)
  then have "items (put (and (drop_bit 23 e) 255) (and e 8388607) q) = items q @ [e]"
    using assms(1) by (simp add: put_spec_def err_pack_unpack)
  with Cons show ?case by simp
qed simp

text \<open>Saving and restoring around a switch is transparent, provided the three error queue
  functions are resolved: whatever \<open>errno\<close> and error queue the other fibers leave behind, the
  fiber finds its own \<open>errno\<close> and its own queue again, and the others start with an empty queue.\<close>

theorem tls_round_trip:
  assumes "lib = \<lparr>ssl_err_get = Some get, ssl_err_clear = Some clear, ssl_err_put = Some put\<rparr>"
    and "get_spec items get" "clear_spec items clear" "put_spec items put"
    and "length (items q) \<le> 16" "\<forall>e\<in>set (items q). e < 2 ^ 31"
    and "tls_save lib errno q a = (a', q1)" "tls_restore lib a' q2 = (errno', q3)"
  shows "items q1 = [] \<and> errno' = errno \<and> items q3 = items q"
proof -
  have "\<forall>e\<in>set (items q). e < 2 ^ 31 \<and> e \<noteq> 0"
    using assms(2,6) by (metis get_spec_def)
  with assms drain_items [OF assms(2,5)] put_all [OF assms(4), of "clear q2" "items q"] show ?thesis
    by (auto simp: tls_save_def tls_restore_def clear_spec_def Let_def split: prod.splits)
qed

text \<open>A concrete queue of at most 16 codes, for the instances.\<close>

definition get_list :: "u64 list \<Rightarrow> u64 \<times> u64 list" where
  "get_list q = (case filter (\<lambda>e. e \<noteq> 0) q of [] \<Rightarrow> (0, []) | e # es \<Rightarrow> (e, es))"

definition put_list :: "u64 \<Rightarrow> u64 \<Rightarrow> u64 list \<Rightarrow> u64 list" where
  "put_list l r q = q @ [err_pack l r]"

definition items_list :: "u64 list \<Rightarrow> u64 list" where
  "items_list q = filter (\<lambda>e. e \<noteq> 0) q"

lemma list_api:
  "get_spec items_list get_list" "clear_spec items_list (\<lambda>_. [])" "put_spec items_list put_list"
proof -
  have "filter (\<lambda>e. e \<noteq> 0) es = es" if "filter (\<lambda>e. e \<noteq> 0) q = e # es" for q es and e :: u64
  proof -
    have "list_all (\<lambda>e. e \<noteq> 0) (filter (\<lambda>e. e \<noteq> 0) q)" by (simp add: list_all_iff)
    then show ?thesis unfolding that by (simp add: list_all_iff)
  qed
  then show "get_spec items_list get_list"
    by (auto simp: get_spec_def get_list_def items_list_def split: list.splits)
qed (simp_all add: clear_spec_def put_spec_def put_list_def items_list_def)

theorem tls_round_trip_witness:
  "\<exists>a' q1 q3. tls_save \<lparr>ssl_err_get = Some get_list, ssl_err_clear = Some (\<lambda>_. []),
       ssl_err_put = Some put_list\<rparr> 11 [2147, 75] \<lparr>serr = 0, errbuf = []\<rparr> = (a', q1) \<and>
     tls_restore \<lparr>ssl_err_get = Some get_list, ssl_err_clear = Some (\<lambda>_. []),
       ssl_err_put = Some put_list\<rparr> a' [99] = (11, q3) \<and> items_list q3 = [2147, 75]"
proof -
  let ?lib = "\<lparr>ssl_err_get = Some get_list, ssl_err_clear = Some (\<lambda>_. []), ssl_err_put = Some put_list\<rparr>"
  obtain a' q1 where sv: "tls_save ?lib 11 [2147, 75] \<lparr>serr = 0, errbuf = []\<rparr> = (a', q1)" by fastforce
  obtain e q3 where rs: "tls_restore ?lib a' [99] = (e, q3)" by fastforce
  from tls_round_trip [OF refl list_api _ _ sv rs] have "e = 11" "items_list q3 = [2147, 75]"
    by (simp_all add: items_list_def)
  with sv rs show ?thesis by blast
qed

lemma drain_only:
  assumes "get_spec items get" "length (items q) \<le> 16" "ssl_err_get lib = Some get"
    "ssl_err_put lib = None"
  shows "items (snd (tls_save lib errno q a)) = [] \<and> snd (tls_restore lib a' q') = q'"
  using assms drain_items [OF assms(1,2)]
  by (auto simp: tls_save_def tls_restore_def Let_def split: prod.splits option.splits)

section \<open>The coroutine experiment\<close>

text \<open>\<open>raise\<close>, \<open>peek\<close> and the two accessors stand for the OpenSSL macros and functions it calls.\<close>

record 'q err_lib =
  ERR_get_error :: "'q \<Rightarrow> u64 \<times> 'q"
  ERR_clear_error :: "'q \<Rightarrow> 'q"
  ERR_raise :: "u64 \<Rightarrow> u64 \<Rightarrow> 'q \<Rightarrow> 'q"
  ERR_peek_last_error :: "'q \<Rightarrow> u64"
  ERR_GET_LIB :: "u64 \<Rightarrow> u64"
  ERR_GET_REASON :: "u64 \<Rightarrow> u64"
  ERR_LIB_USER :: u64

definition NCO :: nat where "NCO = 2"
definition ERRBUF :: nat where "ERRBUF = 64"

record coro =
  saved_errno :: int
  saved_codes :: "u64 list"
  cround :: nat
  started :: bool
  cdone :: bool

record 'q coexp =
  SAVE :: bool
  ROUNDS :: nat
  xerrno :: int
  xqueue :: "'q"
  co :: "nat \<Rightarrow> coro"
  checks :: nat
  corruption_errno :: nat
  corruption_err :: nat

fun err_drain :: "'q err_lib \<Rightarrow> nat \<Rightarrow> 'q \<Rightarrow> u64 list \<times> 'q" where
  "err_drain lib 0 q = ([], snd (ERR_get_error lib q))"
| "err_drain lib (Suc k) q =
     (let (e, q') = ERR_get_error lib q
      in if e = 0 then ([], q') else let (es, q'') = err_drain lib k q' in (e # es, q''))"

definition err_restore :: "'q err_lib \<Rightarrow> u64 list \<Rightarrow> 'q \<Rightarrow> 'q" where
  "err_restore lib codes q =
     fold (\<lambda>e. ERR_raise lib (ERR_GET_LIB lib e) (ERR_GET_REASON lib e)) codes (ERR_clear_error lib q)"

text \<open>\<open>coro_yield\<close> is split at its \<open>swapcontext\<close>; the body's loop is split at the yield.\<close>

definition yield_out :: "'q err_lib \<Rightarrow> nat \<Rightarrow> 'q coexp \<Rightarrow> 'q coexp" where
  "yield_out lib i x =
     (if SAVE x
      then (let (es, q') = err_drain lib ERRBUF (xqueue x)
            in x\<lparr>co := (co x)(i := (co x i)\<lparr>saved_errno := xerrno x, saved_codes := es\<rparr>), xqueue := q'\<rparr>)
      else x)"

definition yield_in :: "'q err_lib \<Rightarrow> nat \<Rightarrow> 'q coexp \<Rightarrow> 'q coexp" where
  "yield_in lib i x =
     (if SAVE x
      then x\<lparr>xerrno := saved_errno (co x i), xqueue := err_restore lib (saved_codes (co x i)) (xqueue x)\<rparr>
      else x)"

definition stamp :: "'q err_lib \<Rightarrow> nat \<Rightarrow> 'q coexp \<Rightarrow> 'q coexp" where
  "stamp lib i x =
     x\<lparr>xerrno := 1000 + int i,
       xqueue := ERR_raise lib (ERR_LIB_USER lib) (256 + of_nat i) (ERR_clear_error lib (xqueue x))\<rparr>"

definition check_stamp :: "'q err_lib \<Rightarrow> nat \<Rightarrow> 'q coexp \<Rightarrow> 'q coexp" where
  "check_stamp lib i x =
     x\<lparr>checks := checks x + 1,
       corruption_errno := corruption_errno x + (if xerrno x \<noteq> 1000 + int i then 1 else 0),
       corruption_err := corruption_err x +
         (if ERR_GET_REASON lib (ERR_peek_last_error lib (xqueue x)) \<noteq> 256 + of_nat i then 1 else 0)\<rparr>"

text \<open>From one resumption of coroutine \<open>i\<close> to its next switch.\<close>

definition loop_head :: "'q err_lib \<Rightarrow> nat \<Rightarrow> 'q coexp \<Rightarrow> 'q coexp" where
  "loop_head lib i x =
     (if cround (co x i) < ROUNDS x then yield_out lib i (stamp lib i x)
      else x\<lparr>co := (co x)(i := (co x i)\<lparr>cdone := True\<rparr>)\<rparr>)"

definition resume_coro :: "'q err_lib \<Rightarrow> nat \<Rightarrow> 'q coexp \<Rightarrow> 'q coexp" where
  "resume_coro lib i x =
     (if \<not> started (co x i)
      then loop_head lib i (x\<lparr>co := (co x)(i := (co x i)\<lparr>started := True\<rparr>)\<rparr>)
      else (let y = check_stamp lib i (yield_in lib i x)
            in loop_head lib i (y\<lparr>co := (co y)(i := (co y i)\<lparr>cround := cround (co y i) + 1\<rparr>)\<rparr>)))"

text \<open>One pass of the scheduler's inner loop, with the number of live coroutines it counts.\<close>

definition sched_pass :: "'q err_lib \<Rightarrow> 'q coexp \<Rightarrow> 'q coexp \<times> nat" where
  "sched_pass lib x =
     fold (\<lambda>i (y, live). if cdone (co y i) then (y, live)
             else (let z = resume_coro lib i y in (z, if cdone (co z i) then live else live + 1)))
       [0..<NCO] (x, 0)"

fun sched_loop :: "'q err_lib \<Rightarrow> nat \<Rightarrow> 'q coexp \<Rightarrow> 'q coexp option" where
  "sched_loop lib 0 x = None"
| "sched_loop lib (Suc fuel) x =
     (let (y, live) = sched_pass lib x in if live > 0 then sched_loop lib fuel y else Some y)"

definition coexp0 :: "bool \<Rightarrow> nat \<Rightarrow> 'q \<Rightarrow> 'q coexp" where
  "coexp0 save rounds q =
     \<lparr>SAVE = save, ROUNDS = rounds, xerrno = 0, xqueue = q,
      co = (\<lambda>_. \<lparr>saved_errno = 0, saved_codes = [], cround = 0, started = False, cdone = False\<rparr>),
      checks = 0, corruption_errno = 0, corruption_err = 0\<rparr>"

text \<open>
  What the experiment relies on: a raised error is one new code at the end of the queue with the
  reason it was raised with, and the last code is what \<open>ERR_peek_last_error\<close> returns.
\<close>

definition err_lib_ok :: "'q err_lib \<Rightarrow> ('q \<Rightarrow> u64 list) \<Rightarrow> bool" where
  "err_lib_ok lib items \<longleftrightarrow>
     get_spec items (ERR_get_error lib) \<and> clear_spec items (ERR_clear_error lib) \<and>
     (\<forall>l r q. items q = [] \<longrightarrow> r \<noteq> 0 \<longrightarrow> r < 8388608 \<longrightarrow>
        (\<exists>c. items (ERR_raise lib l r q) = [c] \<and> ERR_GET_REASON lib c = r)) \<and>
     (\<forall>q. items q \<noteq> [] \<longrightarrow> ERR_peek_last_error lib q = last (items q))"

definition stamped :: "'q err_lib \<Rightarrow> nat \<Rightarrow> u64 list \<Rightarrow> bool" where
  "stamped lib i codes \<longleftrightarrow> (\<exists>c. codes = [c] \<and> ERR_GET_REASON lib c = 256 + of_nat i)"

lemma err_drain_items:
  assumes "get_spec items (ERR_get_error lib)" "length (items q) \<le> k"
  shows "fst (err_drain lib k q) = items q \<and> items (snd (err_drain lib k q)) = []"
proof -
  have "err_drain lib k q = drain (ERR_get_error lib) k q"
    by (induction k arbitrary: q) (auto simp: Let_def split: prod.splits)
  with drain_items [OF assms] show ?thesis by simp
qed

lemma reason_ok: "i < NCO \<Longrightarrow> 256 + of_nat i < (8388608 :: u64) \<and> 256 + of_nat i \<noteq> (0 :: u64)"
proof -
  assume "i < NCO"
  then have "i = 0 \<or> i = 1" by (auto simp: NCO_def)
  then show ?thesis by auto
qed

lemma stamp_items:
  assumes "err_lib_ok lib items" "i < NCO"
  shows "stamped lib i (items (xqueue (stamp lib i x)))" "xerrno (stamp lib i x) = 1000 + int i"
proof -
  from reason_ok [OF assms(2)] assms(1) show "stamped lib i (items (xqueue (stamp lib i x)))"
    by (auto simp: stamp_def stamped_def err_lib_ok_def clear_spec_def)
qed (simp add: stamp_def)

lemma stamped_reason:
  assumes "err_lib_ok lib items" "stamped lib i (items q)"
  shows "ERR_GET_REASON lib (ERR_peek_last_error lib q) = 256 + of_nat i"
  using assms by (auto simp: err_lib_ok_def stamped_def)

lemma yield_in_items:
  assumes ok: "err_lib_ok lib items" and i: "i < NCO" and st: "stamped lib i codes"
  shows "stamped lib i (items (err_restore lib codes q))"
proof -
  obtain c where c: "codes = [c]" "ERR_GET_REASON lib c = 256 + of_nat i"
    using st by (auto simp: stamped_def)
  from reason_ok [OF i] ok c show ?thesis
    by (auto simp: err_restore_def stamped_def err_lib_ok_def clear_spec_def)
qed

text \<open>The saved mode: every parked coroutine has its own stamp in its save area.\<close>

definition saved_inv :: "'q err_lib \<Rightarrow> nat \<Rightarrow> 'q coexp \<Rightarrow> bool" where
  "saved_inv lib i x \<longleftrightarrow> (let c = co x i in started c \<and> \<not> cdone c \<longrightarrow>
     cround c < ROUNDS x \<and> saved_errno c = 1000 + int i \<and> stamped lib i (saved_codes c))"

lemma loop_head_saved:
  assumes ok: "err_lib_ok lib items" and i: "i < NCO" and save: "SAVE x"
    and st: "started (co x i)" "\<not> cdone (co x i)"
  defines "y \<equiv> loop_head lib i x"
  shows "saved_inv lib i y" "\<forall>j. j \<noteq> i \<longrightarrow> co y j = co x j" "SAVE y" "ROUNDS y = ROUNDS x"
    "checks y = checks x" "corruption_errno y = corruption_errno x" "corruption_err y = corruption_err x"
    "cround (co y i) = cround (co x i)" "started (co y i)"
    "cdone (co y i) \<longleftrightarrow> \<not> cround (co x i) < ROUNDS x"
proof -
  have g: "get_spec items (ERR_get_error lib)" using ok by (simp add: err_lib_ok_def)
  note stp = stamp_items [OF ok i, of x]
  have len: "length (items (xqueue (stamp lib i x))) \<le> ERRBUF"
    using stp(1) by (auto simp: stamped_def ERRBUF_def)
  note dr = err_drain_items [OF g len]
  have f: "SAVE (stamp lib i x)" "co (stamp lib i x) = co x" "ROUNDS (stamp lib i x) = ROUNDS x"
    "checks (stamp lib i x) = checks x" "corruption_errno (stamp lib i x) = corruption_errno x"
    "corruption_err (stamp lib i x) = corruption_err x"
    using save by (simp_all add: stamp_def)
  show "saved_inv lib i y" "\<forall>j. j \<noteq> i \<longrightarrow> co y j = co x j" "SAVE y" "ROUNDS y = ROUNDS x"
    "checks y = checks x" "corruption_errno y = corruption_errno x" "corruption_err y = corruption_err x"
    "cround (co y i) = cround (co x i)" "started (co y i)"
    "cdone (co y i) \<longleftrightarrow> \<not> cround (co x i) < ROUNDS x"
    using save st dr stp
    by (auto simp: y_def loop_head_def yield_out_def f saved_inv_def Let_def split: prod.splits)
qed

lemma resume_saved:
  assumes ok: "err_lib_ok lib items" and i: "i < NCO" and save: "SAVE x"
    and inv: "saved_inv lib i x" "\<not> cdone (co x i)"
  defines "y \<equiv> resume_coro lib i x"
  shows "saved_inv lib i y" "\<forall>j. j \<noteq> i \<longrightarrow> co y j = co x j" "SAVE y" "ROUNDS y = ROUNDS x"
    "corruption_errno y = corruption_errno x" "corruption_err y = corruption_err x"
    "checks y = checks x + (if started (co x i) then 1 else 0)"
    "cround (co y i) = cround (co x i) + (if started (co x i) then 1 else 0)" "started (co y i)"
    "cdone (co y i) \<longleftrightarrow> \<not> cround (co y i) < ROUNDS x"
proof -
  define z where "z = (if \<not> started (co x i) then x\<lparr>co := (co x)(i := (co x i)\<lparr>started := True\<rparr>)\<rparr>
    else (let v = check_stamp lib i (yield_in lib i x)
          in v\<lparr>co := (co v)(i := (co v i)\<lparr>cround := cround (co v i) + 1\<rparr>)\<rparr>))"
  have y: "y = loop_head lib i z" by (simp add: y_def resume_coro_def z_def Let_def)
  have z: "SAVE z" "started (co z i)" "\<not> cdone (co z i)" "ROUNDS z = ROUNDS x"
    "\<forall>j. j \<noteq> i \<longrightarrow> co z j = co x j"
    "corruption_errno z = corruption_errno x" "corruption_err z = corruption_err x"
    "checks z = checks x + (if started (co x i) then 1 else 0)"
    "cround (co z i) = cround (co x i) + (if started (co x i) then 1 else 0)"
    using save inv yield_in_items [OF ok i, of "saved_codes (co x i)" "xqueue x"]
    by (auto simp: z_def check_stamp_def yield_in_def saved_inv_def Let_def stamped_reason [OF ok])
  note lh = loop_head_saved [OF ok i z(1-3), folded y]
  show "saved_inv lib i y" "\<forall>j. j \<noteq> i \<longrightarrow> co y j = co x j" "SAVE y" "ROUNDS y = ROUNDS x"
    "corruption_errno y = corruption_errno x" "corruption_err y = corruption_err x"
    "checks y = checks x + (if started (co x i) then 1 else 0)"
    "cround (co y i) = cround (co x i) + (if started (co x i) then 1 else 0)" "started (co y i)"
    "cdone (co y i) \<longleftrightarrow> \<not> cround (co y i) < ROUNDS x"
    using lh z by simp_all
qed

definition saved_at :: "'q err_lib \<Rightarrow> nat \<Rightarrow> nat \<Rightarrow> 'q coexp \<Rightarrow> bool" where
  "saved_at lib R p x \<longleftrightarrow> SAVE x \<and> ROUNDS x = R \<and> corruption_errno x = 0 \<and> corruption_err x = 0 \<and>
     checks x = 2 * (p - 1) \<and>
     (\<forall>i<NCO. saved_inv lib i x \<and> \<not> cdone (co x i) \<and> (started (co x i) \<longleftrightarrow> 0 < p) \<and>
        cround (co x i) = p - 1)"

lemma sched_pass_two:
  assumes "\<not> cdone (co x 0)" "\<not> cdone (co (resume_coro lib 0 x) 1)"
  shows "sched_pass lib x = (let y = resume_coro lib 0 x; z = resume_coro lib 1 y
    in (z, (if cdone (co y 0) then 0 else 1) + (if cdone (co z 1) then 0 else 1)))"
  using assms by (simp add: sched_pass_def NCO_def Let_def upt_rec)

lemma saved_pass:
  assumes ok: "err_lib_ok lib items" and at: "saved_at lib R p x" and p: "p \<le> R"
  shows "\<exists>y. sched_pass lib x = (y, if p < R then 2 else 0) \<and>
    (if p < R then saved_at lib R (Suc p) y
     else corruption_errno y = 0 \<and> corruption_err y = 0 \<and> checks y = 2 * R)"
proof -
  have n: "0 < NCO" "1 < NCO" "\<And>i. i < NCO \<longleftrightarrow> i = 0 \<or> i = 1" by (auto simp: NCO_def)
  have x: "SAVE x" "ROUNDS x = R" "corruption_errno x = 0" "corruption_err x = 0" "checks x = 2 * (p - 1)"
    "saved_inv lib 0 x" "\<not> cdone (co x 0)" "started (co x 0) \<longleftrightarrow> 0 < p" "cround (co x 0) = p - 1"
    "saved_inv lib 1 x" "\<not> cdone (co x 1)" "started (co x 1) \<longleftrightarrow> 0 < p" "cround (co x 1) = p - 1"
    using at n(3) by (auto simp: saved_at_def)
  define y where "y = resume_coro lib 0 x"
  note y = resume_saved [OF ok n(1) x(1,6,7), folded y_def]
  have y1: "co y 1 = co x 1" using y(2) by simp
  then have "saved_inv lib 1 y" "\<not> cdone (co y 1)" using x y(4) by (simp_all add: saved_inv_def)
  define z where "z = resume_coro lib 1 y"
  note z = resume_saved [OF ok n(2) y(3) \<open>saved_inv lib 1 y\<close> \<open>\<not> cdone (co y 1)\<close>, folded z_def]
  have z0: "co z 0 = co y 0" using z(2) by simp
  have d: "cdone (co y 0) \<longleftrightarrow> \<not> p < R" "cdone (co z 1) \<longleftrightarrow> \<not> p < R"
    using y z x y1 p by auto
  have "sched_pass lib x = (z, if p < R then 2 else 0)"
    using sched_pass_two [of x lib, unfolded Let_def, folded y_def, folded z_def]
      x(7) \<open>\<not> cdone (co y 1)\<close> d by simp
  moreover have c: "corruption_errno z = 0" "corruption_err z = 0" "SAVE z" "ROUNDS z = R"
    using x(2-4) y(4-6) z(3-6) by simp_all
  moreover have ck: "checks z = 2 * p" "cround (co z 1) = p" "cround (co y 0) = p"
    using x(5,8,9,12,13) y(7,8) z(7,8) y1 by (cases p; simp)+
  moreover have "saved_at lib R (Suc p) z" if "p < R"
  proof -
    have "saved_inv lib 0 z" using y(1) z0 z(4) by (simp add: saved_inv_def)
    with that c ck z(1,9) z0 y(9) d n(3) show ?thesis by (auto simp: saved_at_def)
  qed
  moreover have "p = R" if "\<not> p < R" using that p by simp
  ultimately have "if p < R then saved_at lib R (Suc p) z
     else corruption_errno z = 0 \<and> corruption_err z = 0 \<and> checks z = 2 * R" by simp
  with \<open>sched_pass lib x = (z, if p < R then 2 else 0)\<close> show ?thesis by blast
qed

lemma saved_loop:
  assumes ok: "err_lib_ok lib items" and at: "saved_at lib R p x" and p: "p \<le> R" and fuel: "R < p + fuel"
  shows "\<exists>y. sched_loop lib fuel x = Some y \<and> corruption_errno y = 0 \<and> corruption_err y = 0 \<and>
    checks y = 2 * R"
  using at p fuel
proof (induction fuel arbitrary: p x)
  case (Suc fuel)
  obtain y where y: "sched_pass lib x = (y, if p < R then 2 else 0)"
    "if p < R then saved_at lib R (Suc p) y
     else corruption_errno y = 0 \<and> corruption_err y = 0 \<and> checks y = 2 * R"
    using saved_pass [OF ok Suc.prems(1,2)] by blast
  show ?case
  proof (cases "p < R")
    case True
    with y Suc.IH [of "Suc p" y] Suc.prems show ?thesis by simp
  next
    case False
    with y show ?thesis by simp
  qed
qed simp

text \<open>With the save and restore the experiment finds no corruption: for any number of rounds the
  scheduler comes to an end, every check has been made, and every check found the stamp of its own
  coroutine in \<open>errno\<close> and in the error queue.\<close>

theorem saved_mode_clean:
  assumes "err_lib_ok lib items"
  shows "\<exists>y. sched_loop lib (Suc R) (coexp0 True R q) = Some y \<and> checks y = 2 * R \<and>
    corruption_errno y = 0 \<and> corruption_err y = 0"
proof -
  have "saved_at lib R 0 (coexp0 True R q)"
    by (simp add: saved_at_def coexp0_def saved_inv_def)
  from saved_loop [OF assms this, of "Suc R"] show ?thesis by auto
qed

definition list_lib :: "u64 list err_lib" where
  "list_lib = \<lparr>ERR_get_error = get_list, ERR_clear_error = (\<lambda>_. []),
     ERR_raise = (\<lambda>l r q. q @ [err_pack l r]), ERR_peek_last_error = (\<lambda>q. last (filter (\<lambda>e. e \<noteq> 0) q)),
     ERR_GET_LIB = (\<lambda>e. and (drop_bit 23 e) 255), ERR_GET_REASON = (\<lambda>e. and e 8388607),
     ERR_LIB_USER = 128\<rparr>"

lemma list_lib_ok: "err_lib_ok list_lib items_list"
proof -
  have mask: "(8388607 :: u64) = mask 23" by (simp add: mask_numeral)
  have r: "and (err_pack l r) 8388607 = r" if "r < 8388608" for l r
  proof (rule bit_word_eqI)
    fix n assume n: "n < LENGTH(64)"
    have "uint r < 2 ^ 23" using that by (simp add: word_less_alt)
    then have "and r (mask 23) = r" by (simp only: mask_eq_iff)
    then have "bit r n \<Longrightarrow> n < 23" by (metis bit_and_iff bit_mask_iff)
    with n show "bit (and (err_pack l r) 8388607) n = bit r n"
      unfolding err_pack_def mask by (auto simp: bit_or_iff bit_push_bit_iff bit_and_iff bit_mask_iff)
  qed
  have "items_list (ERR_raise list_lib l r q) = [err_pack l r] \<and>
      ERR_GET_REASON list_lib (err_pack l r) = r"
    if "items_list q = []" "r \<noteq> 0" "r < 8388608" for l r and q
    using that r [of r l] by (auto simp: items_list_def list_lib_def)
  then show ?thesis
    using list_api(1) by (auto simp: err_lib_ok_def list_lib_def clear_spec_def items_list_def)
qed

theorem saved_mode_clean_witness:
  "\<exists>y. sched_loop list_lib 1001 (coexp0 True 1000 []) = Some y \<and> checks y = 2000 \<and>
    corruption_errno y = 0 \<and> corruption_err y = 0"
  using saved_mode_clean [OF list_lib_ok, of 1000 "[]"] by simp

text \<open>The naive mode: the thread's state carries the stamp of the coroutine that ran last.\<close>

definition last_stamp :: "'q err_lib \<Rightarrow> ('q \<Rightarrow> u64 list) \<Rightarrow> nat \<Rightarrow> 'q coexp \<Rightarrow> bool" where
  "last_stamp lib items j x \<longleftrightarrow> xerrno x = 1000 + int j \<and> stamped lib j (items (xqueue x))"

lemma resume_naive:
  assumes ok: "err_lib_ok lib items" and i: "i < NCO" and j: "j < NCO" and save: "\<not> SAVE x"
    and ls: "started (co x i) \<Longrightarrow> last_stamp lib items j x" and nd: "\<not> cdone (co x i)"
  defines "y \<equiv> resume_coro lib i x" and "bad \<equiv> (if started (co x i) \<and> i \<noteq> j then 1 else 0)"
  shows "\<forall>k. k \<noteq> i \<longrightarrow> co y k = co x k" "\<not> SAVE y" "ROUNDS y = ROUNDS x"
    "corruption_errno y = corruption_errno x + bad" "corruption_err y = corruption_err x + bad"
    "checks y = checks x + (if started (co x i) then 1 else 0)"
    "cround (co y i) = cround (co x i) + (if started (co x i) then 1 else 0)" "started (co y i)"
    "cdone (co y i) \<longleftrightarrow> \<not> cround (co y i) < ROUNDS x"
    "\<not> cdone (co y i) \<longrightarrow> last_stamp lib items i y"
    "cdone (co y i) \<longrightarrow> xerrno y = xerrno x \<and> xqueue y = xqueue x"
proof -
  define z where "z = (if \<not> started (co x i) then x\<lparr>co := (co x)(i := (co x i)\<lparr>started := True\<rparr>)\<rparr>
    else (let v = check_stamp lib i (yield_in lib i x)
          in v\<lparr>co := (co v)(i := (co v i)\<lparr>cround := cround (co v i) + 1\<rparr>)\<rparr>))"
  have y: "y = loop_head lib i z" by (simp add: y_def resume_coro_def z_def Let_def)
  have reason: "(ERR_GET_REASON lib (ERR_peek_last_error lib (xqueue x)) \<noteq> 256 + of_nat i) = (i \<noteq> j)"
    if "started (co x i)"
  proof -
    have "(256 + of_nat i = (256 + of_nat j :: u64)) = (i = j)"
      using i j by (auto simp: NCO_def less_Suc_eq numeral_2_eq_2)
    with stamped_reason [OF ok, of j "xqueue x"] ls [OF that] show ?thesis
      by (auto simp: last_stamp_def)
  qed
  have z: "\<not> SAVE z" "started (co z i)" "\<not> cdone (co z i)" "ROUNDS z = ROUNDS x"
    "\<forall>k. k \<noteq> i \<longrightarrow> co z k = co x k" "xerrno z = xerrno x" "xqueue z = xqueue x"
    "corruption_errno z = corruption_errno x + bad" "corruption_err z = corruption_err x + bad"
    "checks z = checks x + (if started (co x i) then 1 else 0)"
    "cround (co z i) = cround (co x i) + (if started (co x i) then 1 else 0)"
    using save nd ls reason
    by (auto simp: z_def check_stamp_def yield_in_def last_stamp_def bad_def Let_def)
  note stp = stamp_items [OF ok i, of z]
  have f: "co (stamp lib i z) = co z" "ROUNDS (stamp lib i z) = ROUNDS z" "SAVE (stamp lib i z) = SAVE z"
    "checks (stamp lib i z) = checks z" "corruption_errno (stamp lib i z) = corruption_errno z"
    "corruption_err (stamp lib i z) = corruption_err z"
    by (simp_all add: stamp_def)
  have yy: "y = (if cround (co z i) < ROUNDS z then stamp lib i z
      else z\<lparr>co := (co z)(i := (co z i)\<lparr>cdone := True\<rparr>)\<rparr>)"
    using z(1) by (simp add: y loop_head_def yield_out_def f)
  show "\<forall>k. k \<noteq> i \<longrightarrow> co y k = co x k" "\<not> SAVE y" "ROUNDS y = ROUNDS x"
    "corruption_errno y = corruption_errno x + bad" "corruption_err y = corruption_err x + bad"
    "checks y = checks x + (if started (co x i) then 1 else 0)"
    "cround (co y i) = cround (co x i) + (if started (co x i) then 1 else 0)" "started (co y i)"
    "cdone (co y i) \<longleftrightarrow> \<not> cround (co y i) < ROUNDS x"
    "\<not> cdone (co y i) \<longrightarrow> last_stamp lib items i y"
    "cdone (co y i) \<longrightarrow> xerrno y = xerrno x \<and> xqueue y = xqueue x"
    using z stp by (simp_all add: yy f last_stamp_def)
qed

definition naive_at ::
  "'q err_lib \<Rightarrow> ('q \<Rightarrow> u64 list) \<Rightarrow> nat \<Rightarrow> nat \<Rightarrow> 'q coexp \<Rightarrow> bool" where
  "naive_at lib items R p x \<longleftrightarrow> \<not> SAVE x \<and> ROUNDS x = R \<and> checks x = 2 * (p - 1) \<and>
     corruption_errno x = 2 * (p - 1) \<and> corruption_err x = 2 * (p - 1) \<and>
     (0 < p \<longrightarrow> last_stamp lib items 1 x) \<and>
     (\<forall>i<NCO. \<not> cdone (co x i) \<and> (started (co x i) \<longleftrightarrow> 0 < p) \<and> cround (co x i) = p - 1)"

lemma naive_pass:
  assumes ok: "err_lib_ok lib items" and at: "naive_at lib items R p x" and p: "p \<le> R"
  shows "\<exists>y. sched_pass lib x = (y, if p < R then 2 else 0) \<and>
    (if p < R then naive_at lib items R (Suc p) y
     else corruption_errno y = 2 * R - 1 \<and> corruption_err y = 2 * R - 1 \<and> checks y = 2 * R)"
proof -
  have n: "0 < NCO" "1 < NCO" "\<And>i. i < NCO \<longleftrightarrow> i = 0 \<or> i = 1" by (auto simp: NCO_def)
  have x: "\<not> SAVE x" "ROUNDS x = R" "corruption_errno x = 2 * (p - 1)" "corruption_err x = 2 * (p - 1)"
    "checks x = 2 * (p - 1)" "0 < p \<longrightarrow> last_stamp lib items 1 x"
    "\<not> cdone (co x 0)" "started (co x 0) \<longleftrightarrow> 0 < p" "cround (co x 0) = p - 1"
    "\<not> cdone (co x 1)" "started (co x 1) \<longleftrightarrow> 0 < p" "cround (co x 1) = p - 1"
    using at n(3) by (auto simp: naive_at_def)
  define y where "y = resume_coro lib 0 x"
  have "started (co x 0) \<Longrightarrow> last_stamp lib items 1 x" using x by simp
  note y = resume_naive [OF ok n(1,2) x(1) this x(7), folded y_def]
  have y1: "co y 1 = co x 1" using y(1) by simp
  have y0: "cdone (co y 0) \<longleftrightarrow> \<not> p < R"
    using y(7,9) x(2,8,9) p by (cases p) auto
  define j where "j = (if p < R then 0 else 1 :: nat)"
  have j: "j < NCO" by (auto simp: j_def NCO_def)
  have lj: "started (co y 1) \<Longrightarrow> last_stamp lib items j y"
    using y(10,11) y0 x(6,11) y1 by (auto simp: j_def last_stamp_def)
  define z where "z = resume_coro lib 1 y"
  have "\<not> cdone (co y 1)" using y1 x by simp
  note z = resume_naive [OF ok n(2) j y(2) lj this, folded z_def]
  have z0: "co z 0 = co y 0" using z(1) by simp
  have d: "cdone (co z 1) \<longleftrightarrow> \<not> p < R"
    using z(7,9) x(2,11,12) y1 y(3) p by (cases p) auto
  have "sched_pass lib x = (z, if p < R then 2 else 0)"
    using sched_pass_two [of x lib, unfolded Let_def, folded y_def, folded z_def]
      x(7) \<open>\<not> cdone (co y 1)\<close> y0 d by simp
  moreover have ck: "checks z = 2 * p" "cround (co z 1) = p" "cround (co y 0) = p"
    using x(5,8,9,11,12) y(6,7) z(6,7) y1 by (cases p; simp)+
  moreover have bad: "corruption_errno z = (if p < R then 2 * p else 2 * p - 1)"
      "corruption_err z = (if p < R then 2 * p else 2 * p - 1)"
    using x(3,4,8,11) y(4,5) z(4,5) y1 by (cases p; simp add: j_def)+
  moreover have "naive_at lib items R (Suc p) z" if "p < R"
    using that ck bad z(2,3,8,10) z0 y(3,8) y0 d n(3) x(2) by (auto simp: naive_at_def)
  moreover have "p = R" if "\<not> p < R" using that p by simp
  ultimately have "if p < R then naive_at lib items R (Suc p) z
     else corruption_errno z = 2 * R - 1 \<and> corruption_err z = 2 * R - 1 \<and> checks z = 2 * R"
    by (cases "p < R") simp_all
  with \<open>sched_pass lib x = (z, if p < R then 2 else 0)\<close> show ?thesis by blast
qed

lemma naive_loop:
  assumes ok: "err_lib_ok lib items" and at: "naive_at lib items R p x" and p: "p \<le> R" and fuel: "R < p + fuel"
  shows "\<exists>y. sched_loop lib fuel x = Some y \<and> corruption_errno y = 2 * R - 1 \<and>
    corruption_err y = 2 * R - 1 \<and> checks y = 2 * R"
  using at p fuel
proof (induction fuel arbitrary: p x)
  case (Suc fuel)
  obtain y where y: "sched_pass lib x = (y, if p < R then 2 else 0)"
    "if p < R then naive_at lib items R (Suc p) y
     else corruption_errno y = 2 * R - 1 \<and> corruption_err y = 2 * R - 1 \<and> checks y = 2 * R"
    using naive_pass [OF ok Suc.prems(1,2)] by blast
  show ?case
  proof (cases "p < R")
    case True
    with y Suc.IH [of "Suc p" y] Suc.prems show ?thesis by simp
  next
    case False
    with y show ?thesis by simp
  qed
qed simp

text \<open>Without the save and restore every check but one finds the other coroutine's stamp: of the
  \<open>2 R\<close> checks, \<open>2 R - 1\<close> see a foreign \<open>errno\<close> and a foreign error queue; the one that does not is the
  last check of the coroutine that ran last.\<close>

theorem naive_mode_corrupts:
  assumes "err_lib_ok lib items"
  shows "\<exists>y. sched_loop lib (Suc R) (coexp0 False R q) = Some y \<and> checks y = 2 * R \<and>
    corruption_errno y = 2 * R - 1 \<and> corruption_err y = 2 * R - 1"
proof -
  have "naive_at lib items R 0 (coexp0 False R q)" by (simp add: naive_at_def coexp0_def)
  from naive_loop [OF assms this, of "Suc R"] show ?thesis by auto
qed

theorem naive_mode_corrupts_witness:
  "\<exists>y. sched_loop list_lib 1001 (coexp0 False 1000 []) = Some y \<and> checks y = 2000 \<and>
    corruption_errno y = 1999 \<and> corruption_err y = 1999"
  using naive_mode_corrupts [OF list_lib_ok, of 1000 "[]"] by simp

end
