(* ===== verification/TimeSpec.thy ===== *)
theory TimeSpec
  imports Prelude
begin

text \<open>
  The deadlines of \<open>transparent-runtime/libtransparent.c\<close>: \<open>poll\<close> adds its timeout to the real-time
  clock, \<open>fiber_cond_wait\<close> converts an absolute time of any clock, and the carrier compares them
  with the clock field by field. \<open>nanos\<close> is the time a \<open>timespec\<close> means.
\<close>

record timespec =
  tv_sec :: int
  tv_nsec :: int

definition nanos :: "timespec \<Rightarrow> int" where
  "nanos t = tv_sec t * 1000000000 + tv_nsec t"

definition ts_ok :: "timespec \<Rightarrow> bool" where
  "ts_ok t \<longleftrightarrow> 0 \<le> tv_nsec t \<and> tv_nsec t < 1000000000"

text \<open>The deadline of \<open>yield_io_to\<close>: \<open>now\<close> plus a timeout in milliseconds.\<close>

definition poll_deadline :: "timespec \<Rightarrow> int \<Rightarrow> timespec" where
  "poll_deadline now timeout_ms =
     (let d = \<lparr>tv_sec = tv_sec now + timeout_ms div 1000,
               tv_nsec = tv_nsec now + (timeout_ms mod 1000) * 1000000\<rparr>
      in if tv_nsec d \<ge> 1000000000
         then d\<lparr>tv_sec := tv_sec d + 1, tv_nsec := tv_nsec d - 1000000000\<rparr> else d)"

datatype clk = CLOCK_REALTIME | OtherClock

text \<open>\<open>nm\<close> and \<open>nr\<close> are what the two \<open>clock_gettime\<close> calls read.\<close>

definition to_realtime :: "timespec \<Rightarrow> clk \<Rightarrow> timespec \<Rightarrow> timespec \<Rightarrow> timespec" where
  "to_realtime ab clk nm nr =
     (if clk = CLOCK_REALTIME then ab
      else
        (let ds = tv_sec ab - tv_sec nm; dn = tv_nsec ab - tv_nsec nm;
             t = \<lparr>tv_sec = tv_sec nr + ds, tv_nsec = tv_nsec nr + dn\<rparr>
         in if tv_nsec t \<ge> 1000000000 then t\<lparr>tv_sec := tv_sec t + 1, tv_nsec := tv_nsec t - 1000000000\<rparr>
            else if tv_nsec t < 0 then t\<lparr>tv_sec := tv_sec t - 1, tv_nsec := tv_nsec t + 1000000000\<rparr>
            else t))"

definition expired :: "timespec \<Rightarrow> timespec \<Rightarrow> bool" where
  "expired now d \<longleftrightarrow> tv_sec now > tv_sec d \<or> (tv_sec now = tv_sec d \<and> tv_nsec now \<ge> tv_nsec d)"

lemma expired_nanos: "ts_ok now \<Longrightarrow> ts_ok d \<Longrightarrow> expired now d \<longleftrightarrow> nanos d \<le> nanos now"
  by (auto simp: expired_def ts_ok_def nanos_def)

lemma poll_deadline_nanos:
  assumes "ts_ok now" "0 \<le> ms"
  shows "ts_ok (poll_deadline now ms) \<and> nanos (poll_deadline now ms) = nanos now + ms * 1000000"
proof -
  have "ms div 1000 * 1000000000 + ms mod 1000 * 1000000 = ms * 1000000"
    using div_mult_mod_eq [of ms 1000] by linarith
  moreover have "0 \<le> ms mod 1000" "ms mod 1000 < 1000"
    using assms(2) by simp_all
  ultimately show ?thesis
    using assms(1) by (auto simp: poll_deadline_def ts_ok_def nanos_def Let_def)
qed

lemma to_realtime_nanos:
  assumes "ts_ok ab" "ts_ok nm" "ts_ok nr"
  shows "ts_ok (to_realtime ab OtherClock nm nr) \<and>
    nanos (to_realtime ab OtherClock nm nr) = nanos nr + (nanos ab - nanos nm)"
  using assms by (auto simp: to_realtime_def ts_ok_def nanos_def Let_def)

text \<open>Deadlines mean what the caller asked for. The carrier finds a \<open>poll\<close> expired exactly when
  its timeout has passed on the real-time clock, and a timed wait on another clock exactly when as
  much real time has passed as was left on that clock: the single carry of the nanoseconds is
  enough.\<close>

theorem deadlines_exact:
  assumes "ts_ok now" "ts_ok later" "0 \<le> ms" "ts_ok ab" "ts_ok nm" "ts_ok nr"
  shows "(expired later (poll_deadline now ms) \<longleftrightarrow> nanos now + ms * 1000000 \<le> nanos later) \<and>
    (expired later (to_realtime ab OtherClock nm nr) \<longleftrightarrow>
       nanos ab - nanos nm \<le> nanos later - nanos nr)"
  using poll_deadline_nanos [OF assms(1,3)] to_realtime_nanos [OF assms(4-6)]
    expired_nanos [OF assms(2)] by auto

theorem deadlines_exact_witness:
  "expired \<lparr>tv_sec = 12, tv_nsec = 100\<rparr> (poll_deadline \<lparr>tv_sec = 10, tv_nsec = 999000000\<rparr> 1001) \<and>
   \<not> expired \<lparr>tv_sec = 11, tv_nsec = 999999999\<rparr> (poll_deadline \<lparr>tv_sec = 10, tv_nsec = 999000000\<rparr> 1001)"
  using deadlines_exact [of "\<lparr>tv_sec = 10, tv_nsec = 999000000\<rparr>" "\<lparr>tv_sec = 12, tv_nsec = 100\<rparr>" 1001
      "\<lparr>tv_sec = 0, tv_nsec = 0\<rparr>" "\<lparr>tv_sec = 0, tv_nsec = 0\<rparr>" "\<lparr>tv_sec = 0, tv_nsec = 0\<rparr>"]
    deadlines_exact [of "\<lparr>tv_sec = 10, tv_nsec = 999000000\<rparr>" "\<lparr>tv_sec = 11, tv_nsec = 999999999\<rparr>" 1001
      "\<lparr>tv_sec = 0, tv_nsec = 0\<rparr>" "\<lparr>tv_sec = 0, tv_nsec = 0\<rparr>" "\<lparr>tv_sec = 0, tv_nsec = 0\<rparr>"]
  by (simp add: ts_ok_def nanos_def)

end
