(* ===== verification/Runtime.thy ===== *)
theory Runtime
  imports Ring Fiber Tls TimeSpec Detector
begin

text \<open>
  The fiber runtime \<open>transparent-runtime/libtransparent.c\<close>: one carrier thread that runs the fibers
  of an unmodified threaded program, the interposed libc calls in which a fiber parks, and the
  real threads beside it. A \<open>struct fiber\<close> is named by its address. The machine-level switch is the
  theory \<open>Fiber\<close>; here a switch moves the control (\<open>phase\<close>) and what the fiber's stack remembers is
  its \<open>cont\<close>: the place in the interposed call where it continues. The system calls' answers, the
  clocks and the accelerator are arguments.
\<close>

section \<open>State\<close>

datatype fstate = F_NEW | F_RUN | F_WAIT_IO | F_WAIT_OFF | F_WAIT_COND | F_DONE

datatype iok = Read | Write | Recv | Send | Recvfrom | Sendto

text \<open>
  The continuations: the entry, the application's own code, the retry loops of socket calls and
  locks, the handler lock's loop in \<open>read\<close>, the two waits of \<open>poll\<close>, the offload, and the two halves
  of a condition wait.
\<close>

datatype cont =
    K_entry | K_app
  | K_io iok int
  | K_hl int
  | K_poll u32 | K_poll_inf u32
  | K_off
  | K_mutex nat
  | K_cond nat nat bool | K_cond_lock nat bool bool
  | K_rd nat | K_wr nat

record fiber =
  fn :: "nat option"
  farg :: nat
  fstack :: u64
  state :: fstate
  ffd :: int
  off_id :: nat
  farea :: area
  fslot :: nat
  ftls :: "nat \<Rightarrow> nat"
  waitcond :: "nat option"
  waitmutex :: "nat option"
  fdeadline :: timespec
  has_deadline :: bool
  timed_out :: bool
  cont :: cont
  ret :: int
  revents :: u32

text \<open>The flags that \<open>init\<close> reads from the environment.\<close>

record conf =
  SRV_CORE :: int
  g_realmutex :: bool
  g_enforce :: bool
  g_pool :: bool
  getenv_nofiber :: bool
  g_nocond :: bool
  g_norw :: bool
  g_notls :: bool
  g_noself :: bool
  g_fiberself :: bool
  g_nodetach :: bool
  g_nomutex :: bool
  g_noio :: bool
  nocarrier :: bool

text \<open>The function pointers that \<open>dlsym\<close> resolves: OpenSSL's and the accelerator's.\<close>

record ('q, 'd) libs =
  ssl_f :: "'q ssl"
  accel_submit_f :: "(nat \<Rightarrow> nat \<Rightarrow> 'd \<Rightarrow> nat \<times> 'd) option"
  accel_done_f :: "(nat \<Rightarrow> 'd \<Rightarrow> bool) option"
  accel_release_f :: "(nat \<Rightarrow> 'd \<Rightarrow> 'd) option"

text \<open>Mutexes and read-write locks of the C library, owned by threads; the carrier is thread 0.\<close>

record mutex =
  mrec :: bool
  mowner :: "nat option"
  mcount :: nat

record rwlock =
  readers :: nat
  writer :: bool

datatype block = B_mutex nat int | B_rd nat | B_wr nat | B_cond nat nat

datatype phase =
    P_intake | P_epoll | P_off | P_wakes | P_deadlines
  | P_run nat
  | In_fiber nat
  | Blocked nat block

record ('q, 'd) rt =
  conf :: conf
  libs :: "('q, 'd) libs"
  fibers :: "nat \<Rightarrow> fiber option"
  next_fib :: nat
  fibs :: "nat option list"
  newq :: "nat list"
  epoll :: "int \<Rightarrow> (nat \<times> u32 \<times> bool) option"
  pollable :: "int \<Rightarrow> bool"
  nonblock :: "int \<Rightarrow> bool"
  cur_fib :: "nat option"
  phase :: phase
  runtime_ready :: bool
  carrier_running :: bool
  g_serving :: bool
  hlock_owner :: "nat option"
  pend :: "nat ring"
  reserved :: "nat list"
  errno :: int
  errq :: "'q"
  dt :: det
  dev :: "'d"
  mutexes :: "nat \<Rightarrow> mutex"
  rwlocks :: "nat \<Rightarrow> rwlock"
  real_tls :: "nat \<Rightarrow> nat \<Rightarrow> nat"
  g_switches :: nat
  g_conn_fibers :: nat

definition MAXFIB :: nat where "MAXFIB = 8192"
definition PENDN :: nat where "PENDN = 8192"
definition EAGAIN :: int where "EAGAIN = 11"
definition EBUSY :: int where "EBUSY = 16"
definition ETIMEDOUT :: int where "ETIMEDOUT = 110"
definition EPOLLIN :: u32 where "EPOLLIN = 1"
definition EPOLLOUT :: u32 where "EPOLLOUT = 4"

text \<open>What the environment answers during one step: a system call and the clocks.\<close>

datatype sysres = Val nat | Err int

record kern =
  kres :: sysres
  now_rt :: timespec
  now_other :: timespec

section \<open>Access to the fibers\<close>

definition fib :: "('q, 'd) rt \<Rightarrow> nat \<Rightarrow> fiber" where
  "fib s f = the (fibers s f)"

definition upd_fib :: "nat \<Rightarrow> (fiber \<Rightarrow> fiber) \<Rightarrow> ('q, 'd) rt \<Rightarrow> ('q, 'd) rt" where
  "upd_fib f g s = s\<lparr>fibers := (fibers s)(f := map_option g (fibers s f))\<rparr>"

definition in_state :: "('q, 'd) rt \<Rightarrow> nat \<Rightarrow> fstate \<Rightarrow> bool" where
  "in_state s f st \<longleftrightarrow> (case fibers s f of None \<Rightarrow> False | Some b \<Rightarrow> state b = st)"

section \<open>Thread-local state and the yields\<close>

definition save_tls :: "nat \<Rightarrow> ('q, 'd) rt \<Rightarrow> ('q, 'd) rt" where
  "save_tls f s =
     (let (a, q) = tls_save (ssl_f (libs s)) (errno s) (errq s) (farea (fib s f))
      in (upd_fib f (\<lambda>b. b\<lparr>farea := a\<rparr>) s)\<lparr>errq := q\<rparr>)"

definition restore_tls :: "nat \<Rightarrow> ('q, 'd) rt \<Rightarrow> ('q, 'd) rt" where
  "restore_tls f s =
     (let (e, q) = tls_restore (ssl_f (libs s)) (farea (fib s f)) (errq s)
      in s\<lparr>errno := e, errq := q\<rparr>)"

text \<open>
  The switch to the carrier, which goes on behind its own switch: it clears \<open>cur_fib\<close> and looks at
  the next slot.
\<close>

definition run_index :: "phase \<Rightarrow> nat" where
  "run_index p = (case p of In_fiber i \<Rightarrow> i | Blocked i b \<Rightarrow> i | P_run i \<Rightarrow> i | _ \<Rightarrow> 0)"

definition switch_out :: "nat \<Rightarrow> cont \<Rightarrow> ('q, 'd) rt \<Rightarrow> ('q, 'd) rt" where
  "switch_out f k s =
     (upd_fib f (\<lambda>b. b\<lparr>cont := k\<rparr>) s)\<lparr>cur_fib := None, phase := P_run (Suc (run_index (phase s)))\<rparr>"

definition count_switch :: "('q, 'd) rt \<Rightarrow> ('q, 'd) rt" where
  "count_switch s = s\<lparr>g_switches := g_switches s + 1\<rparr>"

text \<open>
  \<open>epoll_ctl\<close> with \<open>MOD\<close>, and \<open>ADD\<close> when the descriptor is not registered: one shot, with the fiber
  as the data. A descriptor that cannot be polled stays unregistered.
\<close>

definition arm :: "int \<Rightarrow> u32 \<Rightarrow> nat \<Rightarrow> ('q, 'd) rt \<Rightarrow> ('q, 'd) rt" where
  "arm fd ev f s = (if pollable s fd then s\<lparr>epoll := (epoll s)(fd \<mapsto> (f, ev, True))\<rparr> else s)"

definition yield_io :: "nat \<Rightarrow> int \<Rightarrow> u32 \<Rightarrow> cont \<Rightarrow> ('q, 'd) rt \<Rightarrow> ('q, 'd) rt" where
  "yield_io f fd ev k s =
     (let s1 = arm fd ev f s;
          s2 = upd_fib f (\<lambda>b. b\<lparr>ffd := fd, state := F_WAIT_IO, has_deadline := False\<rparr>) s1
      in switch_out f k (count_switch (save_tls f s2)))"

definition yield_io_to ::
  "nat \<Rightarrow> int \<Rightarrow> u32 \<Rightarrow> u32 \<Rightarrow> int \<Rightarrow> timespec \<Rightarrow> ('q, 'd) rt \<Rightarrow> ('q, 'd) rt" where
  "yield_io_to f fd ev events timeout_ms now s =
     (if timeout_ms < 0 then yield_io f fd ev (K_poll_inf events) s
      else
        (let s1 = arm fd ev f s;
             s2 = upd_fib f (\<lambda>b. b\<lparr>ffd := fd, state := F_WAIT_IO, timed_out := False,
                                   fdeadline := poll_deadline now timeout_ms, has_deadline := True\<rparr>) s1
         in switch_out f (K_poll events) (count_switch (save_tls f s2))))"

definition yield_off :: "nat \<Rightarrow> nat \<Rightarrow> ('q, 'd) rt \<Rightarrow> ('q, 'd) rt" where
  "yield_off f oid s =
     (let s1 = save_tls f (upd_fib f (\<lambda>b. b\<lparr>off_id := oid, state := F_WAIT_OFF\<rparr>) s);
          s2 = s1\<lparr>dt := det_park f (dt s1)\<rparr>
      in switch_out f K_off (count_switch s2))"

definition yield_run :: "nat \<Rightarrow> cont \<Rightarrow> ('q, 'd) rt \<Rightarrow> ('q, 'd) rt" where
  "yield_run f k s =
     switch_out f k (count_switch (save_tls f (upd_fib f (\<lambda>b. b\<lparr>state := F_RUN\<rparr>) s)))"

text \<open>A call returns to the application.\<close>

definition return_to :: "nat \<Rightarrow> int \<Rightarrow> ('q, 'd) rt \<Rightarrow> ('q, 'd) rt" where
  "return_to f r s = upd_fib f (\<lambda>b. b\<lparr>ret := r, cont := K_app\<rparr>) s"

text \<open>
  The carrier's loops over \<open>fibs\<close>: every non-null entry is dereferenced. \<open>None\<close> is a use of freed
  memory.
\<close>

fun scan :: "(nat \<Rightarrow> fiber \<Rightarrow> ('q, 'd) rt \<Rightarrow> ('q, 'd) rt) \<Rightarrow> nat option list \<Rightarrow>
    ('q, 'd) rt \<Rightarrow> ('q, 'd) rt option" where
  "scan g [] s = Some s"
| "scan g (None # xs) s = scan g xs s"
| "scan g (Some f # xs) s = (case fibers s f of None \<Rightarrow> None | Some b \<Rightarrow> scan g xs (g f b s))"

definition wake_one :: "nat \<Rightarrow> nat \<Rightarrow> fiber \<Rightarrow> ('q, 'd) rt \<Rightarrow> ('q, 'd) rt" where
  "wake_one c f b s =
     (if state b = F_WAIT_COND \<and> waitcond b = Some c
      then upd_fib f (\<lambda>b. b\<lparr>state := F_RUN, waitcond := None\<rparr>) s else s)"

definition wake_fibers :: "nat \<Rightarrow> ('q, 'd) rt \<Rightarrow> ('q, 'd) rt option" where
  "wake_fibers c s = scan (wake_one c) (fibs s) s"

section \<open>Locks\<close>

definition mutex_free :: "nat \<Rightarrow> mutex \<Rightarrow> bool" where
  "mutex_free tid m \<longleftrightarrow> mowner m = None \<or> (mrec m \<and> mowner m = Some tid)"

definition take_mutex :: "nat \<Rightarrow> nat \<Rightarrow> ('q, 'd) rt \<Rightarrow> ('q, 'd) rt" where
  "take_mutex tid m s =
     s\<lparr>mutexes := (mutexes s)(m := (mutexes s m)\<lparr>mowner := Some tid, mcount := mcount (mutexes s m) + 1\<rparr>)\<rparr>"

definition drop_mutex :: "nat \<Rightarrow> ('q, 'd) rt \<Rightarrow> ('q, 'd) rt" where
  "drop_mutex m s =
     (let c = mcount (mutexes s m) - 1
      in s\<lparr>mutexes := (mutexes s)(m := (mutexes s m)
             \<lparr>mcount := c, mowner := (if c = 0 then None else mowner (mutexes s m))\<rparr>)\<rparr>)"

definition block_on :: "block \<Rightarrow> ('q, 'd) rt \<Rightarrow> ('q, 'd) rt" where
  "block_on b s = s\<lparr>phase := Blocked (run_index (phase s)) b\<rparr>"

text \<open>
  \<open>pthread_mutex_lock\<close> in a fiber, and its loop: \<open>k\<close> is where the loop stands, \<open>r\<close> what the caller
  returns once the mutex is taken. With the flags that keep the real lock the carrier blocks.
\<close>

definition mutex_lock :: "nat \<Rightarrow> nat \<Rightarrow> cont \<Rightarrow> int \<Rightarrow> ('q, 'd) rt \<Rightarrow> ('q, 'd) rt" where
  "mutex_lock f m k r s =
     (if mutex_free 0 (mutexes s m) then return_to f r (take_mutex 0 m s)
      else if g_nomutex (conf s) \<or> g_realmutex (conf s) then block_on (B_mutex m r) s
      else yield_run f k s)"

definition rd_free :: "rwlock \<Rightarrow> bool" where
  "rd_free l \<longleftrightarrow> \<not> writer l"

definition wr_free :: "rwlock \<Rightarrow> bool" where
  "wr_free l \<longleftrightarrow> \<not> writer l \<and> readers l = 0"

definition take_rd :: "nat \<Rightarrow> ('q, 'd) rt \<Rightarrow> ('q, 'd) rt" where
  "take_rd l s = s\<lparr>rwlocks := (rwlocks s)(l := (rwlocks s l)\<lparr>readers := readers (rwlocks s l) + 1\<rparr>)\<rparr>"

definition take_wr :: "nat \<Rightarrow> ('q, 'd) rt \<Rightarrow> ('q, 'd) rt" where
  "take_wr l s = s\<lparr>rwlocks := (rwlocks s)(l := (rwlocks s l)\<lparr>writer := True\<rparr>)\<rparr>"

definition drop_rw :: "nat \<Rightarrow> ('q, 'd) rt \<Rightarrow> ('q, 'd) rt" where
  "drop_rw l s = s\<lparr>rwlocks := (rwlocks s)(l :=
     (if writer (rwlocks s l) then (rwlocks s l)\<lparr>writer := False\<rparr>
      else (rwlocks s l)\<lparr>readers := readers (rwlocks s l) - 1\<rparr>))\<rparr>"

definition rwlock_rdlock :: "nat \<Rightarrow> nat \<Rightarrow> ('q, 'd) rt \<Rightarrow> ('q, 'd) rt" where
  "rwlock_rdlock f l s =
     (if rd_free (rwlocks s l) then return_to f 0 (take_rd l s)
      else if g_norw (conf s) then block_on (B_rd l) s
      else yield_run f (K_rd l) s)"

definition rwlock_wrlock :: "nat \<Rightarrow> nat \<Rightarrow> ('q, 'd) rt \<Rightarrow> ('q, 'd) rt" where
  "rwlock_wrlock f l s =
     (if wr_free (rwlocks s l) then return_to f 0 (take_wr l s)
      else if g_norw (conf s) then block_on (B_wr l) s
      else yield_run f (K_wr l) s)"

section \<open>The interposed calls of a fiber\<close>

definition io_ev :: "iok \<Rightarrow> u32" where
  "io_ev kind = (case kind of Read \<Rightarrow> EPOLLIN | Recv \<Rightarrow> EPOLLIN | Recvfrom \<Rightarrow> EPOLLIN | _ \<Rightarrow> EPOLLOUT)"

definition setnb :: "int \<Rightarrow> ('q, 'd) rt \<Rightarrow> ('q, 'd) rt" where
  "setnb fd s = s\<lparr>nonblock := (nonblock s)(fd := True)\<rparr>"

text \<open>A real system call whose answer goes to the application as it is.\<close>

definition real_call :: "nat \<Rightarrow> sysres \<Rightarrow> ('q, 'd) rt \<Rightarrow> ('q, 'd) rt" where
  "real_call f r s = (case r of Val v \<Rightarrow> return_to f (int v) s | Err e \<Rightarrow> return_to f (-1) (s\<lparr>errno := e\<rparr>))"

text \<open>One turn of the retry loop of \<open>read\<close>, \<open>write\<close>, \<open>recv\<close>, \<open>send\<close>, \<open>recvfrom\<close>, \<open>sendto\<close>.\<close>

definition io_try :: "nat \<Rightarrow> iok \<Rightarrow> int \<Rightarrow> sysres \<Rightarrow> ('q, 'd) rt \<Rightarrow> ('q, 'd) rt" where
  "io_try f kind fd r s =
     (case r of
        Val v \<Rightarrow> return_to f (int v) s
      | Err e \<Rightarrow>
          (let s1 = s\<lparr>errno := e\<rparr>
           in if e \<noteq> EAGAIN then return_to f (-1) s1
              else yield_io f fd (io_ev kind) (K_io kind fd) s1))"

definition enforcing :: "('q, 'd) rt \<Rightarrow> bool" where
  "enforcing s \<longleftrightarrow> g_enforce (conf s) \<or> det_conflicts (dt s) > 0"

definition hl_acquire_read :: "nat \<Rightarrow> int \<Rightarrow> sysres \<Rightarrow> ('q, 'd) rt \<Rightarrow> ('q, 'd) rt" where
  "hl_acquire_read f fd r s =
     (let me = fslot (fib s f)
      in if hlock_owner s \<noteq> None \<and> hlock_owner s \<noteq> Some me then yield_run f (K_hl fd) s
         else io_try f Read fd r (setnb fd (s\<lparr>hlock_owner := Some me\<rparr>)))"

definition hl_release :: "nat \<Rightarrow> ('q, 'd) rt \<Rightarrow> ('q, 'd) rt" where
  "hl_release f s = (if hlock_owner s = Some (fslot (fib s f)) then s\<lparr>hlock_owner := None\<rparr> else s)"

definition fib_read :: "nat \<Rightarrow> int \<Rightarrow> sysres \<Rightarrow> ('q, 'd) rt \<Rightarrow> ('q, 'd) rt" where
  "fib_read f fd r s =
     (if g_noio (conf s) then real_call f r s
      else if enforcing s \<and> hlock_owner s \<noteq> Some (fslot (fib s f)) then hl_acquire_read f fd r s
      else io_try f Read fd r (setnb fd s))"

definition fib_write :: "nat \<Rightarrow> int \<Rightarrow> sysres \<Rightarrow> ('q, 'd) rt \<Rightarrow> ('q, 'd) rt" where
  "fib_write f fd r s =
     (if g_noio (conf s) then real_call f r s
      else io_try f Write fd r (setnb fd (if enforcing s then hl_release f s else s)))"

definition fib_sock :: "nat \<Rightarrow> iok \<Rightarrow> int \<Rightarrow> sysres \<Rightarrow> ('q, 'd) rt \<Rightarrow> ('q, 'd) rt" where
  "fib_sock f kind fd r s =
     (if g_noio (conf s) then real_call f r s else io_try f kind fd r (setnb fd s))"

definition fib_poll ::
  "nat \<Rightarrow> int \<Rightarrow> u32 \<Rightarrow> nat \<Rightarrow> int \<Rightarrow> kern \<Rightarrow> ('q, 'd) rt \<Rightarrow> ('q, 'd) rt" where
  "fib_poll f fd events nfds timeout kn s =
     (if g_noio (conf s) \<or> nfds \<noteq> 1 then real_call f (kres kn) s
      else
        (let ev = or (if and events 1 \<noteq> 0 then EPOLLIN else 0) (if and events 4 \<noteq> 0 then EPOLLOUT else 0)
         in if ev = 0 \<or> timeout = 0 then real_call f (kres kn) s
            else yield_io_to f fd ev events timeout (now_rt kn) s))"

definition fib_accel :: "nat \<Rightarrow> nat \<Rightarrow> nat \<Rightarrow> ('q, 'd) rt \<Rightarrow> ('q, 'd) rt option" where
  "fib_accel f buf n s =
     (case accel_submit_f (libs s) of
        None \<Rightarrow> None
      | Some submit \<Rightarrow> (let (oid, d) = submit buf n (dev s) in Some (yield_off f oid (s\<lparr>dev := d\<rparr>))))"

text \<open>
  \<open>fiber_cond_wait\<close> up to its switch, which unlike the yields neither saves the thread-local state
  nor counts; \<open>timed\<close> says whether the caller returns \<open>ETIMEDOUT\<close>.
\<close>

definition fiber_cond_wait ::
  "nat \<Rightarrow> nat \<Rightarrow> nat \<Rightarrow> (timespec \<times> clk) option \<Rightarrow> kern \<Rightarrow> ('q, 'd) rt \<Rightarrow> ('q, 'd) rt" where
  "fiber_cond_wait f c m ab kn s =
     (let s1 = upd_fib f (\<lambda>b. b\<lparr>waitcond := Some c, waitmutex := Some m, timed_out := False\<rparr>) s;
          s2 = (case ab of
                  None \<Rightarrow> upd_fib f (\<lambda>b. b\<lparr>has_deadline := False\<rparr>) s1
                | Some (t, clk) \<Rightarrow>
                    upd_fib f (\<lambda>b. b\<lparr>fdeadline := to_realtime t clk (now_other kn) (now_rt kn),
                                     has_deadline := True\<rparr>) s1);
          s3 = drop_mutex m (upd_fib f (\<lambda>b. b\<lparr>state := F_WAIT_COND\<rparr>) s2)
      in switch_out f (K_cond c m (ab \<noteq> None)) s3)"

definition cond_result :: "bool \<Rightarrow> bool \<Rightarrow> int" where
  "cond_result timed tout = (if timed \<and> tout then ETIMEDOUT else 0)"

definition cond_wait ::
  "nat \<Rightarrow> nat \<Rightarrow> nat \<Rightarrow> (timespec \<times> clk) option \<Rightarrow> kern \<Rightarrow> ('q, 'd) rt \<Rightarrow> ('q, 'd) rt" where
  "cond_wait f c m ab kn s =
     (if g_nocond (conf s) then block_on (B_cond c m) (drop_mutex m s)
      else fiber_cond_wait f c m ab kn s)"

definition cond_signal :: "nat \<Rightarrow> nat \<Rightarrow> ('q, 'd) rt \<Rightarrow> ('q, 'd) rt option" where
  "cond_signal f c s =
     (if g_nocond (conf s) then Some (return_to f 0 s)
      else map_option (return_to f 0) (wake_fibers c s))"

definition set_specific :: "nat option \<Rightarrow> nat \<Rightarrow> nat \<Rightarrow> nat \<Rightarrow> ('q, 'd) rt \<Rightarrow> ('q, 'd) rt" where
  "set_specific cf tid k v s =
     (case cf of
        Some f \<Rightarrow> if \<not> g_notls (conf s) \<and> k < 128
                  then upd_fib f (\<lambda>b. b\<lparr>ftls := (ftls b)(k := v)\<rparr>) s
                  else s\<lparr>real_tls := (real_tls s)(tid := (real_tls s tid)(k := v))\<rparr>
      | None \<Rightarrow> s\<lparr>real_tls := (real_tls s)(tid := (real_tls s tid)(k := v))\<rparr>)"

definition get_specific :: "nat option \<Rightarrow> nat \<Rightarrow> nat \<Rightarrow> ('q, 'd) rt \<Rightarrow> nat" where
  "get_specific cf tid k s =
     (case cf of
        Some f \<Rightarrow> if \<not> g_notls (conf s) \<and> k < 128 then ftls (fib s f) k else real_tls s tid k
      | None \<Rightarrow> real_tls s tid k)"

text \<open>The stack \<open>pthread_getattr_np\<close> reports, and the identity \<open>pthread_self\<close> returns.\<close>

definition attr_stack :: "nat option \<Rightarrow> u64 \<Rightarrow> ('q, 'd) rt \<Rightarrow> u64" where
  "attr_stack cf real s =
     (case cf of Some f \<Rightarrow> if fstack (fib s f) \<noteq> 0 then fstack (fib s f) else real | None \<Rightarrow> real)"

definition self_id :: "nat option \<Rightarrow> nat \<Rightarrow> ('q, 'd) rt \<Rightarrow> nat" where
  "self_id cf tid s = (case cf of Some f \<Rightarrow> if g_fiberself (conf s) then f else tid | None \<Rightarrow> tid)"

definition new_fiber :: "nat option \<Rightarrow> nat \<Rightarrow> fiber" where
  "new_fiber entry a =
     \<lparr>fn = entry, farg = a, fstack = round_stack (1024 * 1024), state = F_NEW, ffd = 0, off_id = 0,
      farea = \<lparr>serr = 0, errbuf = []\<rparr>, fslot = 0, ftls = (\<lambda>_. 0), waitcond = None, waitmutex = None,
      fdeadline = \<lparr>tv_sec = 0, tv_nsec = 0\<rparr>, has_deadline = False, timed_out = False,
      cont = K_entry, ret = 0, revents = 0\<rparr>"

text \<open>
  \<open>pthread_create\<close>: the result says whether a fiber was made; otherwise a real thread is. A fiber
  for which \<open>newq\<close> has no room is made and forgotten.
\<close>

definition makes_fiber :: "nat option \<Rightarrow> ('q, 'd) rt \<Rightarrow> bool" where
  "makes_fiber cf s \<longleftrightarrow> \<not> (getenv_nofiber (conf s) \<or> \<not> runtime_ready s \<or>
     (\<not> g_serving s \<and> \<not> g_pool (conf s)) \<or> cf \<noteq> None)"

definition pthread_create :: "nat option \<Rightarrow> nat option \<Rightarrow> nat \<Rightarrow> ('q, 'd) rt \<Rightarrow> nat option \<times> ('q, 'd) rt" where
  "pthread_create cf entry a s =
     (if \<not> makes_fiber cf s then (None, s)
      else
        (let f = next_fib s;
             s1 = s\<lparr>fibers := (fibers s)(f \<mapsto> new_fiber entry a), next_fib := Suc f,
                    g_conn_fibers := g_conn_fibers s + 1\<rparr>
         in (Some f, if length (newq s1) < MAXFIB then s1\<lparr>newq := newq s1 @ [f]\<rparr> else s1)))"

datatype call =
    C_io iok int
  | C_poll int u32 nat int
  | C_accel nat nat
  | C_mutex_lock nat | C_mutex_trylock nat | C_mutex_unlock nat
  | C_cond_wait nat nat "(timespec \<times> clk) option"
  | C_cond_signal nat
  | C_rdlock nat | C_wrlock nat | C_rwunlock nat | C_tryrdlock nat | C_trywrlock nat
  | C_setspecific nat nat | C_getspecific nat
  | C_create "nat option" nat
  | C_accept int
  | C_self

definition fib_call :: "nat \<Rightarrow> call \<Rightarrow> kern \<Rightarrow> ('q, 'd) rt \<Rightarrow> ('q, 'd) rt option" where
  "fib_call f c kn s =
     (case c of
        C_io kind fd \<Rightarrow> Some (case kind of Read \<Rightarrow> fib_read f fd (kres kn) s
                              | Write \<Rightarrow> fib_write f fd (kres kn) s
                              | _ \<Rightarrow> fib_sock f kind fd (kres kn) s)
      | C_poll fd events nfds timeout \<Rightarrow> Some (fib_poll f fd events nfds timeout kn s)
      | C_accel buf n \<Rightarrow> fib_accel f buf n s
      | C_mutex_lock m \<Rightarrow> Some (mutex_lock f m (K_mutex m) 0 s)
      | C_mutex_trylock m \<Rightarrow>
          Some (if mutex_free 0 (mutexes s m) then return_to f 0 (take_mutex 0 m s) else return_to f EBUSY s)
      | C_mutex_unlock m \<Rightarrow> Some (return_to f 0 (drop_mutex m s))
      | C_cond_wait cv m ab \<Rightarrow> Some (cond_wait f cv m ab kn s)
      | C_cond_signal cv \<Rightarrow> cond_signal f cv s
      | C_rdlock l \<Rightarrow> Some (rwlock_rdlock f l s)
      | C_wrlock l \<Rightarrow> Some (rwlock_wrlock f l s)
      | C_rwunlock l \<Rightarrow> Some (return_to f 0 (drop_rw l s))
      | C_tryrdlock l \<Rightarrow>
          Some (if rd_free (rwlocks s l) then return_to f 0 (take_rd l s) else return_to f EBUSY s)
      | C_trywrlock l \<Rightarrow>
          Some (if wr_free (rwlocks s l) then return_to f 0 (take_wr l s) else return_to f EBUSY s)
      | C_setspecific k v \<Rightarrow> Some (return_to f 0 (set_specific (Some f) 0 k v s))
      | C_getspecific k \<Rightarrow> Some (return_to f (int (get_specific (Some f) 0 k s)) s)
      | C_create entry a \<Rightarrow> Some (real_call f (kres kn) (snd (pthread_create (Some f) entry a s)))
      | C_accept fd \<Rightarrow>
          Some (real_call f (kres kn) (case kres kn of Val v \<Rightarrow> s\<lparr>g_serving := True\<rparr> | Err e \<Rightarrow> s))
      | C_self \<Rightarrow> Some (return_to f (int (self_id (Some f) 0 s)) s))"

text \<open>What a fiber does first when the carrier switches to it.\<close>

definition fib_exit :: "nat \<Rightarrow> ('q, 'd) rt \<Rightarrow> ('q, 'd) rt" where
  "fib_exit f s =
     (let i = run_index (phase s)
      in s\<lparr>fibers := (fibers s)(f := None), fibs := (fibs s)[i := None], cur_fib := None,
           phase := P_run (Suc i)\<rparr>)"

definition resume :: "nat \<Rightarrow> kern \<Rightarrow> ('q, 'd) rt \<Rightarrow> ('q, 'd) rt" where
  "resume f kn s =
     (case cont (fib s f) of
        K_entry \<Rightarrow> if fn (fib s f) = None then fib_exit f s else upd_fib f (\<lambda>b. b\<lparr>cont := K_app\<rparr>) s
      | K_app \<Rightarrow> s
      | K_io kind fd \<Rightarrow> io_try f kind fd (kres kn) (restore_tls f s)
      | K_hl fd \<Rightarrow> hl_acquire_read f fd (kres kn) (restore_tls f s)
      | K_poll events \<Rightarrow>
          (let s1 = restore_tls f s; tout = timed_out (fib s1 f)
           in return_to f (if tout then 0 else 1)
                (upd_fib f (\<lambda>b. b\<lparr>has_deadline := False, revents := (if tout then 0 else events)\<rparr>) s1))
      | K_poll_inf events \<Rightarrow> return_to f 1 (upd_fib f (\<lambda>b. b\<lparr>revents := events\<rparr>) (restore_tls f s))
      | K_off \<Rightarrow> return_to f 0 (restore_tls f s)
      | K_mutex m \<Rightarrow> mutex_lock f m (K_mutex m) 0 (restore_tls f s)
      | K_cond c m timed \<Rightarrow>
          (let tout = timed_out (fib s f)
           in mutex_lock f m (K_cond_lock m timed tout) (cond_result timed tout)
                (upd_fib f (\<lambda>b. b\<lparr>has_deadline := False\<rparr>) s))
      | K_cond_lock m timed tout \<Rightarrow>
          mutex_lock f m (K_cond_lock m timed tout) (cond_result timed tout) (restore_tls f s)
      | K_rd l \<Rightarrow> rwlock_rdlock f l (restore_tls f s)
      | K_wr l \<Rightarrow> rwlock_wrlock f l (restore_tls f s))"

section \<open>The carrier\<close>

text \<open>The intake writes behind the end of \<open>fibs\<close> when \<open>MAXFIB\<close> slots are in use: \<open>None\<close>.\<close>

fun take_new :: "nat list \<Rightarrow> ('q, 'd) rt \<Rightarrow> ('q, 'd) rt option" where
  "take_new [] s = Some s"
| "take_new (f # fs) s =
     (if length (fibs s) \<ge> MAXFIB then None
      else take_new fs ((upd_fib f (\<lambda>b. b\<lparr>fslot := length (fibs s)\<rparr>) s)\<lparr>fibs := fibs s @ [Some f]\<rparr>))"

definition intake :: "('q, 'd) rt \<Rightarrow> ('q, 'd) rt option" where
  "intake s =
     (if newq s = [] then Some s
      else map_option (\<lambda>s'. s'\<lparr>newq := []\<rparr>) (take_new (newq s) s))"

text \<open>\<open>epoll_wait\<close> reports a list of armed descriptors and disarms them.\<close>

fun io_ready :: "int list \<Rightarrow> ('q, 'd) rt \<Rightarrow> ('q, 'd) rt option" where
  "io_ready [] s = Some s"
| "io_ready (fd # fds) s =
     (case epoll s fd of
        Some (f, ev, True) \<Rightarrow>
          (case fibers s f of
             None \<Rightarrow> None
           | Some b \<Rightarrow>
               (let s1 = s\<lparr>epoll := (epoll s)(fd \<mapsto> (f, ev, False))\<rparr>
                in io_ready fds (if state b = F_WAIT_IO then upd_fib f (\<lambda>b. b\<lparr>state := F_RUN\<rparr>) s1 else s1)))
      | _ \<Rightarrow> io_ready fds s)"

definition off_one :: "nat \<Rightarrow> fiber \<Rightarrow> ('q, 'd) rt \<Rightarrow> ('q, 'd) rt" where
  "off_one f b s =
     (if state b = F_WAIT_OFF
      then (case accel_done_f (libs s) of
              None \<Rightarrow> s
            | Some is_done \<Rightarrow>
                if is_done (off_id b) (dev s)
                then (let s1 = (case accel_release_f (libs s) of
                                  None \<Rightarrow> s | Some rel \<Rightarrow> s\<lparr>dev := rel (off_id b) (dev s)\<rparr>)
                      in upd_fib f (\<lambda>b. b\<lparr>state := F_RUN\<rparr>) s1)
                else s)
      else s)"

text \<open>The drain of the wake ring; the number of turns is the number of entries it holds.\<close>

fun drain_wakes :: "nat \<Rightarrow> ('q, 'd) rt \<Rightarrow> ('q, 'd) rt option" where
  "drain_wakes 0 s = Some s"
| "drain_wakes (Suc n) s =
     (case ring_get PENDN (pend s) of
        None \<Rightarrow> Some s
      | Some (c, r) \<Rightarrow>
          (case wake_fibers c (s\<lparr>pend := r\<rparr>) of None \<Rightarrow> None | Some s' \<Rightarrow> drain_wakes n s'))"

definition deadline_one :: "timespec \<Rightarrow> nat \<Rightarrow> fiber \<Rightarrow> ('q, 'd) rt \<Rightarrow> ('q, 'd) rt" where
  "deadline_one now f b s =
     (if (state b = F_WAIT_COND \<or> state b = F_WAIT_IO) \<and> has_deadline b \<and> expired now (fdeadline b)
      then upd_fib f (\<lambda>b. b\<lparr>timed_out := True, state := F_RUN, waitcond := None\<rparr>)
             (if state b = F_WAIT_IO then s\<lparr>epoll := (epoll s)(ffd b := None)\<rparr> else s)
      else s)"

text \<open>The run loop at slot \<open>i\<close>: switch to the fiber, pass over the slot, or end the pass.\<close>

definition enter_fiber :: "nat \<Rightarrow> nat \<Rightarrow> ('q, 'd) rt \<Rightarrow> ('q, 'd) rt" where
  "enter_fiber i f s =
     s\<lparr>cur_fib := Some f, dt := det_reprotect (set_active f True (det_set_fiber f (dt s))),
       g_switches := g_switches s + 1, phase := In_fiber i\<rparr>"

definition run_slot :: "nat \<Rightarrow> ('q, 'd) rt \<Rightarrow> ('q, 'd) rt option" where
  "run_slot i s =
     (if length (fibs s) \<le> i then Some (s\<lparr>phase := P_intake\<rparr>)
      else (case fibs s ! i of
              None \<Rightarrow> Some (s\<lparr>phase := P_run (Suc i)\<rparr>)
            | Some f \<Rightarrow>
                (case fibers s f of
                   None \<Rightarrow> None
                 | Some b \<Rightarrow> if state b = F_NEW \<or> state b = F_RUN then Some (enter_fiber i f s)
                             else Some (s\<lparr>phase := P_run (Suc i)\<rparr>))))"

text \<open>A blocked carrier goes on when the real lock is free; a condition wait may end at any time.\<close>

definition unblock :: "nat \<Rightarrow> nat \<Rightarrow> block \<Rightarrow> ('q, 'd) rt \<Rightarrow> ('q, 'd) rt" where
  "unblock i f b s =
     (let s1 = s\<lparr>phase := In_fiber i\<rparr>
      in case b of
           B_mutex m r \<Rightarrow> if mutex_free 0 (mutexes s m) then return_to f r (take_mutex 0 m s1) else s
         | B_cond c m \<Rightarrow> if mutex_free 0 (mutexes s m) then return_to f 0 (take_mutex 0 m s1) else s
         | B_rd l \<Rightarrow> if rd_free (rwlocks s l) then return_to f 0 (take_rd l s1) else s
         | B_wr l \<Rightarrow> if wr_free (rwlocks s l) then return_to f 0 (take_wr l s1) else s)"

section \<open>The real threads\<close>

text \<open>
  \<open>pthread_cond_signal\<close> on a real thread: an atomic increment reserves an entry of the wake ring, a
  later store fills it.
\<close>

definition thread_reserve :: "('q, 'd) rt \<Rightarrow> ('q, 'd) rt" where
  "thread_reserve s =
     (if g_nocond (conf s) \<or> fibs s = [] then s
      else s\<lparr>pend := (pend s)\<lparr>rhead := Suc (rhead (pend s))\<rparr>, reserved := rhead (pend s) # reserved s\<rparr>)"

definition thread_store :: "nat \<Rightarrow> nat \<Rightarrow> ('q, 'd) rt \<Rightarrow> ('q, 'd) rt" where
  "thread_store h c s =
     (if h \<in> set (reserved s)
      then s\<lparr>pend := (pend s)\<lparr>rbuf := (rbuf (pend s))(h mod PENDN := c)\<rparr>, reserved := removeAll h (reserved s)\<rparr>
      else s)"

definition thread_signal :: "nat \<Rightarrow> ('q, 'd) rt \<Rightarrow> ('q, 'd) rt" where
  "thread_signal c s = thread_store (rhead (pend s)) c (thread_reserve s)"

section \<open>Start and fork\<close>

definition init_conf :: "environ \<Rightarrow> conf" where
  "init_conf env =
     (let set = (\<lambda>v. env v \<noteq> None); passive = set ''RT_PASSIVE''
      in \<lparr>SRV_CORE = (case env ''RT_CORE'' of None \<Rightarrow> 4 | Some c \<Rightarrow> atoi c),
          g_realmutex = set ''RT_REALMUTEX'', g_enforce = set ''RT_ENFORCE'', g_pool = set ''RT_POOL'',
          getenv_nofiber = set ''RT_NOFIBER'', g_nocond = set ''RT_NOCOND'' \<or> passive,
          g_norw = set ''RT_NORW'' \<or> passive, g_notls = set ''RT_NOTLS'' \<or> passive,
          g_noself = set ''RT_NOSELF'' \<or> passive, g_fiberself = set ''RT_FIBERSELF'',
          g_nodetach = set ''RT_NODETACH'' \<or> passive, g_nomutex = set ''RT_NOMUTEX'' \<or> passive,
          g_noio = set ''RT_NOIO'' \<or> passive, nocarrier = set ''RT_NOCARRIER''\<rparr>)"

text \<open>
  \<open>init\<close>: \<open>so\<close> are the symbols that \<open>dlsym\<close> finds. It looks up the error queue's \<open>get\<close> and \<open>clear\<close>
  functions, and never its \<open>put\<close>.
\<close>

definition resolve :: "('q, 'd) libs \<Rightarrow> ('q, 'd) libs" where
  "resolve so = so\<lparr>ssl_f := (ssl_f so)\<lparr>ssl_err_put := None\<rparr>\<rparr>"

definition start_carrier :: "('q, 'd) rt \<Rightarrow> ('q, 'd) rt" where
  "start_carrier s =
     (if nocarrier (conf s) then s else s\<lparr>carrier_running := True, phase := P_intake\<rparr>)"

definition init :: "environ \<Rightarrow> ('q, 'd) libs \<Rightarrow> (int \<Rightarrow> bool) \<Rightarrow> (nat \<Rightarrow> mutex) \<Rightarrow> 'q \<Rightarrow> 'd \<Rightarrow>
    nat \<Rightarrow> string option \<Rightarrow> map_line list option \<Rightarrow> ('q, 'd) rt" where
  "init env so can_poll mx q0 d0 pg exe maps =
     (let s = start_carrier
           \<lparr>conf = init_conf env, libs = resolve so, fibers = (\<lambda>_. None), next_fib = 1, fibs = [],
            newq = [], epoll = (\<lambda>_. None), pollable = can_poll, nonblock = (\<lambda>_. False),
            cur_fib = None, phase = P_intake, runtime_ready = True, carrier_running = False,
            g_serving = False, hlock_owner = None, pend = ring_empty 0, reserved = [],
            errno = 0, errq = q0, dt = det0 pg, dev = d0, mutexes = mx,
            rwlocks = (\<lambda>_. \<lparr>readers = 0, writer = False\<rparr>), real_tls = (\<lambda>_ _. 0),
            g_switches = 0, g_conn_fibers = 0\<rparr>
      in s\<lparr>dt := det_init (env ''RT_DETECT'' \<noteq> None) pg exe maps (dt s)\<rparr>)"

definition atfork_child :: "('q, 'd) rt \<Rightarrow> ('q, 'd) rt" where
  "atfork_child s =
     (let s1 = s\<lparr>fibs := [], newq := [], pend := (pend s)\<lparr>rhead := 0, rtail := 0\<rparr>, reserved := [], cur_fib := None,
                 hlock_owner := None, epoll := (\<lambda>_. None), carrier_running := False\<rparr>
      in if runtime_ready s1 then start_carrier s1 else s1)"

section \<open>Steps\<close>

datatype 'd event =
    E_intake | E_epoll "int list" | E_off | E_wakes | E_deadlines timespec | E_next
  | E_resume kern | E_call call kern | E_exit | E_unblock
  | T_create "nat option" nat | T_reserve | T_store nat nat
  | T_lock nat nat | T_unlock nat | T_rdlock nat | T_wrlock nat | T_rwunlock nat
  | T_accept | T_setspecific nat nat nat
  | K_close int | D_turn "'d \<Rightarrow> 'd"

text \<open>
  A carrier step happens only in its phase, a fiber's only while the carrier runs it; out of turn
  they change nothing. \<open>None\<close> is undefined behaviour.
\<close>

definition at_phase :: "phase \<Rightarrow> ('q, 'd) rt \<Rightarrow> bool" where
  "at_phase p s \<longleftrightarrow> carrier_running s \<and> phase s = p"

fun rt_step :: "'d event \<Rightarrow> ('q, 'd) rt \<Rightarrow> ('q, 'd) rt option" where
  "rt_step E_intake s =
     (if at_phase P_intake s then map_option (\<lambda>s. s\<lparr>phase := P_epoll\<rparr>) (intake s) else Some s)"
| "rt_step (E_epoll fds) s =
     (if at_phase P_epoll s then map_option (\<lambda>s. s\<lparr>phase := P_off\<rparr>) (io_ready fds s) else Some s)"
| "rt_step E_off s =
     (if at_phase P_off s then map_option (\<lambda>s. s\<lparr>phase := P_wakes\<rparr>) (scan off_one (fibs s) s) else Some s)"
| "rt_step E_wakes s =
     (if at_phase P_wakes s
      then map_option (\<lambda>s. s\<lparr>phase := P_deadlines\<rparr>) (drain_wakes (rhead (pend s) - rtail (pend s)) s)
      else Some s)"
| "rt_step (E_deadlines now) s =
     (if at_phase P_deadlines s
      then map_option (\<lambda>s. s\<lparr>phase := P_run 0\<rparr>) (scan (deadline_one now) (fibs s) s) else Some s)"
| "rt_step E_next s = (case phase s of P_run i \<Rightarrow> if carrier_running s then run_slot i s else Some s | _ \<Rightarrow> Some s)"
| "rt_step (E_resume kn) s =
     (case (phase s, cur_fib s) of
        (In_fiber i, Some f) \<Rightarrow> Some (if cont (fib s f) = K_app then s else resume f kn s)
      | _ \<Rightarrow> Some s)"
| "rt_step (E_call c kn) s =
     (case (phase s, cur_fib s) of
        (In_fiber i, Some f) \<Rightarrow> if cont (fib s f) = K_app then fib_call f c kn s else Some s
      | _ \<Rightarrow> Some s)"
| "rt_step E_exit s =
     (case (phase s, cur_fib s) of
        (In_fiber i, Some f) \<Rightarrow> Some (if cont (fib s f) = K_app then fib_exit f s else s)
      | _ \<Rightarrow> Some s)"
| "rt_step E_unblock s =
     (case (phase s, cur_fib s) of (Blocked i b, Some f) \<Rightarrow> Some (unblock i f b s) | _ \<Rightarrow> Some s)"
| "rt_step (T_create entry a) s = Some (snd (pthread_create None entry a s))"
| "rt_step T_reserve s = Some (thread_reserve s)"
| "rt_step (T_store h c) s = Some (thread_store h c s)"
| "rt_step (T_lock t m) s =
     Some (if t \<noteq> 0 \<and> mutex_free t (mutexes s m) then take_mutex t m s else s)"
| "rt_step (T_unlock m) s =
     Some (if mowner (mutexes s m) \<noteq> Some 0 \<and> mowner (mutexes s m) \<noteq> None then drop_mutex m s else s)"
| "rt_step (T_rdlock l) s = Some (if rd_free (rwlocks s l) then take_rd l s else s)"
| "rt_step (T_wrlock l) s = Some (if wr_free (rwlocks s l) then take_wr l s else s)"
| "rt_step (T_rwunlock l) s = Some (drop_rw l s)"
| "rt_step T_accept s = Some (s\<lparr>g_serving := True\<rparr>)"
| "rt_step (T_setspecific t k v) s = Some (if t \<noteq> 0 then set_specific None t k v s else s)"
| "rt_step (K_close fd) s = Some (s\<lparr>epoll := (epoll s)(fd := None)\<rparr>)"
| "rt_step (D_turn g) s = Some (s\<lparr>dev := g (dev s)\<rparr>)"

fun rt_run :: "'d event list \<Rightarrow> ('q, 'd) rt \<Rightarrow> ('q, 'd) rt option" where
  "rt_run [] s = Some s"
| "rt_run (e # es) s = (case rt_step e s of None \<Rightarrow> None | Some s' \<Rightarrow> rt_run es s')"

end
