(* ===== verification/RuntimeInv.thy ===== *)
theory RuntimeInv
  imports Runtime
begin

text \<open>
  The invariant of the runtime of \<open>Runtime\<close>: every fiber the carrier can dereference is live, every
  armed registration belongs to a fiber that waits on that descriptor, and what a fiber waits for
  is what its continuation expects. Every step preserves it and none uses freed memory.
\<close>

section \<open>The invariant\<close>

definition fib_ok :: "bool \<Rightarrow> fiber \<Rightarrow> bool" where
  "fib_ok running b \<longleftrightarrow>
     (if running then state b = F_NEW \<or> state b = F_RUN
      else (case state b of
              F_NEW \<Rightarrow> cont b = K_entry
            | F_RUN \<Rightarrow> cont b \<noteq> K_entry \<and> cont b \<noteq> K_app
            | F_WAIT_IO \<Rightarrow> (\<exists>k fd. cont b = K_io k fd \<and> fd = ffd b) \<or> (\<exists>ev. cont b = K_poll ev \<or> cont b = K_poll_inf ev)
            | F_WAIT_OFF \<Rightarrow> cont b = K_off
            | F_WAIT_COND \<Rightarrow> (\<exists>c m t. cont b = K_cond c m t \<and> waitcond b = Some c)
            | F_DONE \<Rightarrow> False))"

definition slots_inv :: "('q, 'd) rt \<Rightarrow> bool" where
  "slots_inv s \<longleftrightarrow> (\<forall>i < length (fibs s). \<forall>f. fibs s ! i = Some f \<longrightarrow> (\<exists>b. fibers s f = Some b \<and> fslot b = i))"

definition new_inv :: "('q, 'd) rt \<Rightarrow> bool" where
  "new_inv s \<longleftrightarrow> distinct (newq s) \<and>
     (\<forall>f \<in> set (newq s). Some f \<notin> set (fibs s) \<and> (\<exists>b. fibers s f = Some b \<and> state b = F_NEW))"

definition armed_inv :: "('q, 'd) rt \<Rightarrow> bool" where
  "armed_inv s \<longleftrightarrow> (\<forall>fd f ev. epoll s fd = Some (f, ev, True) \<longrightarrow>
     Some f \<in> set (fibs s) \<and> (\<exists>b. fibers s f = Some b \<and> state b = F_WAIT_IO \<and> ffd b = fd))"

definition heap_inv :: "('q, 'd) rt \<Rightarrow> bool" where
  "heap_inv s \<longleftrightarrow> (\<forall>f b. fibers s f = Some b \<longrightarrow> f < next_fib s \<and> fib_ok (cur_fib s = Some f) b)"

definition phase_inv :: "('q, 'd) rt \<Rightarrow> bool" where
  "phase_inv s \<longleftrightarrow>
     (\<forall>i. phase s = In_fiber i \<or> (\<exists>bl. phase s = Blocked i bl) \<longrightarrow>
        i < length (fibs s) \<and> cur_fib s \<noteq> None \<and> fibs s ! i = cur_fib s) \<and>
     (cur_fib s \<noteq> None \<longrightarrow> (\<exists>i. phase s = In_fiber i \<or> (\<exists>bl. phase s = Blocked i bl)))"

definition rt_inv :: "('q, 'd) rt \<Rightarrow> bool" where
  "rt_inv s \<longleftrightarrow> slots_inv s \<and> new_inv s \<and> armed_inv s \<and> heap_inv s \<and> phase_inv s"

lemmas rt_inv_defs = rt_inv_def slots_inv_def new_inv_def armed_inv_def heap_inv_def phase_inv_def

lemma inv_slot:
  "rt_inv s \<Longrightarrow> i < length (fibs s) \<Longrightarrow> fibs s ! i = Some f \<Longrightarrow> \<exists>b. fibers s f = Some b \<and> fslot b = i"
  by (simp add: rt_inv_def slots_inv_def)

lemma inv_member: "rt_inv s \<Longrightarrow> Some f \<in> set (fibs s) \<Longrightarrow> \<exists>b. fibers s f = Some b"
  using inv_slot by (metis in_set_conv_nth)

lemma inv_armed:
  "rt_inv s \<Longrightarrow> epoll s fd = Some (f, ev, True) \<Longrightarrow>
     Some f \<in> set (fibs s) \<and> (\<exists>b. fibers s f = Some b \<and> state b = F_WAIT_IO \<and> ffd b = fd)"
  unfolding rt_inv_def armed_inv_def by blast

lemma inv_heap: "rt_inv s \<Longrightarrow> fibers s f = Some b \<Longrightarrow> f < next_fib s \<and> fib_ok (cur_fib s = Some f) b"
  unfolding rt_inv_def heap_inv_def by blast

lemma inv_new:
  "rt_inv s \<Longrightarrow> f \<in> set (newq s) \<Longrightarrow> Some f \<notin> set (fibs s) \<and> (\<exists>b. fibers s f = Some b \<and> state b = F_NEW)"
  unfolding rt_inv_def new_inv_def by blast

text \<open>The parts of the state the invariant reads.\<close>

definition same_view :: "('q, 'd) rt \<Rightarrow> ('q, 'd) rt \<Rightarrow> bool" where
  "same_view s s' \<longleftrightarrow> fibs s' = fibs s \<and> newq s' = newq s \<and> next_fib s' = next_fib s \<and>
     epoll s' = epoll s \<and> cur_fib s' = cur_fib s \<and> libs s' = libs s \<and> pollable s' = pollable s"

lemma rt_inv_cong:
  assumes "same_view s s'" "fibers s' = fibers s" "phase s' = phase s"
  shows "rt_inv s' = rt_inv s"
  using assms by (simp add: rt_inv_defs same_view_def)

lemma slots_upd:
  assumes "slots_inv s" "fibs s' = fibs s" "fibers s' = (fibers s)(f \<mapsto> b')" "fslot b' = fslot b" "fibers s f = Some b"
  shows "slots_inv s'"
  using assms unfolding slots_inv_def by (metis fun_upd_apply option.inject)

lemma new_upd:
  assumes "new_inv s" "fibs s' = fibs s" "newq s' = newq s" "fibers s' = (fibers s)(f := v)" "f \<notin> set (newq s)"
  shows "new_inv s'"
  using assms by (auto simp: new_inv_def)

lemma heap_upd:
  assumes inv: "rt_inv s" and f: "fibers s' = (fibers s)(f \<mapsto> b')" "f < next_fib s'" "fib_ok (cur_fib s' = Some f) b'"
    and n: "next_fib s \<le> next_fib s'"
    and c: "\<And>g. g \<noteq> f \<Longrightarrow> (cur_fib s' = Some g) = (cur_fib s = Some g)"
  shows "heap_inv s'"
  unfolding heap_inv_def
proof (intro allI impI)
  fix g b assume "fibers s' g = Some b"
  with f inv_heap [OF inv, of g b] n c [of g]
  show "g < next_fib s' \<and> fib_ok (cur_fib s' = Some g) b" by (cases "g = f") auto
qed

section \<open>A running fiber stays or parks\<close>

definition running :: "nat \<Rightarrow> ('q, 'd) rt \<Rightarrow> bool" where
  "running f s \<longleftrightarrow> cur_fib s = Some f \<and> (\<exists>i. phase s = In_fiber i)"

text \<open>The flags under which an interposed call may block the carrier in the real call.\<close>

definition may_block :: "conf \<Rightarrow> bool" where
  "may_block c \<longleftrightarrow> g_nomutex c \<or> g_realmutex c \<or> g_norw c \<or> g_nocond c"

definition stays :: "nat \<Rightarrow> ('q, 'd) rt \<Rightarrow> ('q, 'd) rt \<Rightarrow> bool" where
  "stays f s s' \<longleftrightarrow> same_view s s' \<and> conf s' = conf s \<and>
     fibers s' = (fibers s)(f \<mapsto> fib s' f) \<and>
     fslot (fib s' f) = fslot (fib s f) \<and> state (fib s' f) = state (fib s f) \<and>
     (phase s' = phase s \<or> (may_block (conf s) \<and> (\<exists>bl. phase s' = Blocked (run_index (phase s)) bl)))"

definition parks :: "nat \<Rightarrow> ('q, 'd) rt \<Rightarrow> ('q, 'd) rt \<Rightarrow> bool" where
  "parks f s s' \<longleftrightarrow> fibs s' = fibs s \<and> newq s' = newq s \<and> next_fib s' = next_fib s \<and> conf s' = conf s \<and>
     libs s' = libs s \<and> pollable s' = pollable s \<and>
     cur_fib s' = None \<and> phase s' = P_run (Suc (run_index (phase s))) \<and>
     fibers s' = (fibers s)(f \<mapsto> fib s' f) \<and>
     fslot (fib s' f) = fslot (fib s f) \<and> fib_ok False (fib s' f) \<and>
     ((\<forall>c m t. cont (fib s' f) \<noteq> K_cond c m t) \<longrightarrow> serr (farea (fib s' f)) = errno s') \<and>
     (state (fib s' f) = F_WAIT_IO \<longrightarrow> pollable s (ffd (fib s' f)) \<longrightarrow>
        (\<exists>ev. epoll s' (ffd (fib s' f)) = Some (f, ev, True))) \<and>
     (epoll s' = epoll s \<or>
      (\<exists>ev. epoll s' = (epoll s)(ffd (fib s' f) \<mapsto> (f, ev, True))) \<and> state (fib s' f) = F_WAIT_IO)"

lemma running_fib:
  assumes "rt_inv s" "running f s"
  obtains i b where "phase s = In_fiber i" "i < length (fibs s)" "fibs s ! i = Some f"
    "fibers s f = Some b" "fib s f = b" "fslot b = i" "state b = F_NEW \<or> state b = F_RUN" "f \<notin> set (newq s)"
    "f < next_fib s"
proof -
  obtain i where i: "phase s = In_fiber i" "cur_fib s = Some f" using assms(2) by (auto simp: running_def)
  with assms(1) have l: "i < length (fibs s)" "fibs s ! i = Some f"
    unfolding rt_inv_def phase_inv_def by auto
  from inv_slot [OF assms(1) l] obtain b where b: "fibers s f = Some b" "fslot b = i" by blast
  from inv_heap [OF assms(1) b(1)] i have "fib_ok True b" "f < next_fib s" by simp_all
  moreover have "f \<notin> set (newq s)" using inv_new [OF assms(1)] l nth_mem by metis
  ultimately show ?thesis using that i l b by (auto simp: fib_def fib_ok_def)
qed

lemma not_armed:
  assumes "rt_inv s" "running f s"
  shows "epoll s fd \<noteq> Some (f, ev, True)"
proof -
  obtain b where b: "fibers s f = Some b" "state b = F_NEW \<or> state b = F_RUN"
    using running_fib [OF assms] by metis
  show ?thesis
  proof
    assume "epoll s fd = Some (f, ev, True)"
    from inv_armed [OF assms(1) this] b(1) have "state b = F_WAIT_IO" by simp
    with b(2) show False by auto
  qed
qed

lemma inv_stays:
  assumes inv: "rt_inv s" and run: "running f s" and st: "stays f s s'"
  shows "rt_inv s'"
proof -
  from running_fib [OF inv run] obtain i b where
    b: "phase s = In_fiber i" "i < length (fibs s)" "fibs s ! i = Some f" "fibers s f = Some b"
       "fib s f = b" "fslot b = i" "state b = F_NEW \<or> state b = F_RUN" "f \<notin> set (newq s)" "f < next_fib s" .
  define b' where "b' = fib s' f"
  have b': "fibers s' = (fibers s)(f \<mapsto> b')" "fslot b' = i" "state b' = state b"
    using st by (auto simp: stays_def b b'_def)
  have v: "fibs s' = fibs s" "newq s' = newq s" "next_fib s' = next_fib s" "epoll s' = epoll s"
    "cur_fib s' = cur_fib s" "phase s' = In_fiber i \<or> (\<exists>bl. phase s' = Blocked i bl)"
    using st b(1) by (auto simp: stays_def same_view_def run_index_def)
  have cur: "cur_fib s = Some f" using run by (simp add: running_def)
  have na: "\<And>fd ev. epoll s fd \<noteq> Some (f, ev, True)" by (rule not_armed [OF inv run])
  have "slots_inv s'" "new_inv s'"
    using slots_upd [of s s' f b' b] new_upd [of s s' f] inv b b' v by (simp_all add: rt_inv_def)
  moreover have "armed_inv s'"
    unfolding armed_inv_def v(1,4) b'(1) using inv_armed [OF inv] na by (metis fun_upd_other)
  moreover have "heap_inv s'"
    by (rule heap_upd [OF inv b'(1)]) (use b b' cur in \<open>auto simp: v(1-5) fib_ok_def\<close>)
  moreover have "phase_inv s'" using b(1-3) cur v(6) by (auto simp: phase_inv_def v(1,5))
  ultimately show ?thesis by (simp add: rt_inv_def)
qed

lemma inv_parks:
  assumes inv: "rt_inv s" and run: "running f s" and pk: "parks f s s'"
  shows "rt_inv s'"
proof -
  from running_fib [OF inv run] obtain i b where
    b: "phase s = In_fiber i" "i < length (fibs s)" "fibs s ! i = Some f" "fibers s f = Some b"
       "fib s f = b" "fslot b = i" "state b = F_NEW \<or> state b = F_RUN" "f \<notin> set (newq s)" "f < next_fib s" .
  define b' where "b' = fib s' f"
  have b': "fibers s' = (fibers s)(f \<mapsto> b')" "fslot b' = i" "fib_ok False b'"
    "epoll s' = epoll s \<or> (\<exists>ev. epoll s' = (epoll s)(ffd b' \<mapsto> (f, ev, True)) \<and> state b' = F_WAIT_IO)"
    using pk by (auto simp: parks_def b b'_def)
  have v: "fibs s' = fibs s" "newq s' = newq s" "next_fib s' = next_fib s" "cur_fib s' = None"
    "phase s' = P_run (Suc i)"
    using pk b(1) by (auto simp: parks_def run_index_def)
  have cur: "cur_fib s = Some f" using run by (simp add: running_def)
  have na: "\<And>fd ev. epoll s fd \<noteq> Some (f, ev, True)" by (rule not_armed [OF inv run])
  have ff: "Some f \<in> set (fibs s)" using b(2,3) nth_mem by metis
  have arm: "Some f' \<in> set (fibs s) \<and> (\<exists>b2. fibers s' f' = Some b2 \<and> state b2 = F_WAIT_IO \<and> ffd b2 = fd)"
    if "epoll s' fd = Some (f', ev, True)" for fd f' ev
  proof (cases "epoll s' fd = epoll s fd")
    case True
    with that na have "epoll s fd = Some (f', ev, True)" "f' \<noteq> f" by auto
    with inv_armed [OF inv] show ?thesis by (simp add: b')
  next
    case False
    with that b'(4) have "fd = ffd b'" "f' = f" "state b' = F_WAIT_IO" by (auto split: if_splits)
    with ff show ?thesis by (simp add: b')
  qed
  have "slots_inv s'" "new_inv s'"
    using slots_upd [of s s' f b' b] new_upd [of s s' f] inv b b' v by (simp_all add: rt_inv_def)
  moreover have "armed_inv s'" unfolding armed_inv_def v using arm by blast
  moreover have "heap_inv s'"
    by (rule heap_upd [OF inv b'(1)]) (use b b' cur in \<open>auto simp: v\<close>)
  moreover have "phase_inv s'" by (simp add: phase_inv_def v)
  ultimately show ?thesis by (simp add: rt_inv_def)
qed

section \<open>What the calls do to the calling fiber\<close>

lemma save_tls_view:
  "save_tls f s = (upd_fib f (\<lambda>b. b\<lparr>farea := fst (tls_save (ssl_f (libs s)) (errno s) (errq s) (farea (fib s f)))\<rparr>) s)
     \<lparr>errq := snd (tls_save (ssl_f (libs s)) (errno s) (errq s) (farea (fib s f)))\<rparr>"
  by (simp add: save_tls_def split: prod.splits)

lemma restore_tls_view:
  "restore_tls f s = s\<lparr>errno := fst (tls_restore (ssl_f (libs s)) (farea (fib s f)) (errq s)),
     errq := snd (tls_restore (ssl_f (libs s)) (farea (fib s f)) (errq s))\<rparr>"
  by (simp add: restore_tls_def split: prod.splits)

lemma tls_save_serr [simp]: "serr (fst (tls_save lib e q a)) = e"
  by (simp add: tls_save_def split: option.splits prod.splits)

lemmas step_defs = stays_def parks_def same_view_def upd_fib_def fib_def save_tls_view restore_tls_view
  switch_out_def count_switch_def return_to_def run_index_def

lemma stays_return:
  "fibers s f = Some b \<Longrightarrow> stays f s (return_to f r s)"
  by (auto simp: step_defs)

lemma parks_yield_run:
  "fibers s f = Some b \<Longrightarrow> k \<noteq> K_entry \<Longrightarrow> k \<noteq> K_app \<Longrightarrow> parks f s (yield_run f k s)"
  by (auto simp: step_defs yield_run_def fib_ok_def)

lemma parks_yield_io:
  "fibers s f = Some b \<Longrightarrow> (\<exists>kd. k = K_io kd fd) \<or> (\<exists>ev. k = K_poll_inf ev) \<Longrightarrow> parks f s (yield_io f fd ev k s)"
  by (auto simp: step_defs yield_io_def arm_def fib_ok_def Let_def)

lemma parks_yield_io_to:
  "fibers s f = Some b \<Longrightarrow> 0 \<le> ms \<Longrightarrow> parks f s (yield_io_to f fd ev events ms now s)"
  by (auto simp: step_defs yield_io_to_def arm_def fib_ok_def Let_def)

lemma parks_yield_off:
  "fibers s f = Some b \<Longrightarrow> parks f s (yield_off f oid s)"
  by (auto simp: step_defs yield_off_def fib_ok_def Let_def)

lemma parks_cond:
  "fibers s f = Some b \<Longrightarrow> parks f s (fiber_cond_wait f c m ab kn s)"
  by (cases ab) (auto simp: step_defs fiber_cond_wait_def drop_mutex_def fib_ok_def Let_def)

text \<open>Changes outside the view: locks, descriptors' flags, \<open>errno\<close>, the device.\<close>

definition silent :: "('q, 'd) rt \<Rightarrow> ('q, 'd) rt \<Rightarrow> bool" where
  "silent s s' \<longleftrightarrow> same_view s s' \<and> fibers s' = fibers s \<and> phase s' = phase s \<and> conf s' = conf s"

definition moves :: "nat \<Rightarrow> ('q, 'd) rt \<Rightarrow> ('q, 'd) rt \<Rightarrow> bool" where
  "moves f s s' \<longleftrightarrow> stays f s s' \<or> parks f s s'"

lemma silent_moves:
  assumes "silent s s0" "moves f s0 s'"
  shows "moves f s s'"
  using assms by (auto simp: moves_def stays_def parks_def silent_def same_view_def fib_def)

lemma stays_moves:
  assumes "stays f s s0" "phase s0 = phase s" "moves f s0 s'" "fibers s f = Some b"
  shows "moves f s s'"
proof -
  have "(fibers s0)(f \<mapsto> v) = (fibers s)(f \<mapsto> v)" for v
    using assms(1) by (metis fun_upd_upd stays_def)
  with assms show ?thesis by (auto simp: moves_def stays_def parks_def same_view_def)
qed

lemma silent_simps [simp]:
  "silent s (x\<lparr>errno := e\<rparr>) = silent s x" "silent s (setnb fd x) = silent s x"
  "silent s (restore_tls f x) = silent s x"
  "silent s (take_mutex t m x) = silent s x" "silent s (drop_mutex m x) = silent s x"
  "silent s (take_rd l x) = silent s x" "silent s (take_wr l x) = silent s x"
  "silent s (drop_rw l x) = silent s x" "silent s (x\<lparr>g_serving := g\<rparr>) = silent s x"
  "silent s (x\<lparr>dev := d\<rparr>) = silent s x" "silent s (hl_release f x) = silent s x"
  "silent s (x\<lparr>hlock_owner := h\<rparr>) = silent s x" "silent s s"
  by (auto simp: silent_def same_view_def setnb_def restore_tls_view take_mutex_def drop_mutex_def
      take_rd_def take_wr_def drop_rw_def hl_release_def Let_def)

lemma silent_fibers: "silent s s' \<Longrightarrow> fibers s' = fibers s"
  by (simp add: silent_def)

lemma stays_silent: "silent s s0 \<Longrightarrow> stays f s0 s' \<Longrightarrow> moves f s s'"
  by (rule silent_moves) (auto simp: moves_def)

lemma parks_silent: "silent s s0 \<Longrightarrow> parks f s0 s' \<Longrightarrow> moves f s s'"
  by (rule silent_moves) (auto simp: moves_def)

lemma moves_return: "silent s s0 \<Longrightarrow> fibers s f = Some b \<Longrightarrow> moves f s (return_to f r s0)"
  by (rule stays_silent) (auto simp: silent_fibers intro: stays_return)

lemma moves_real_call: "silent s s0 \<Longrightarrow> fibers s f = Some b \<Longrightarrow> moves f s (real_call f r s0)"
  by (auto simp: real_call_def intro!: moves_return split: sysres.split)

lemma moves_block:
  "silent s s0 \<Longrightarrow> fibers s f = Some b \<Longrightarrow> may_block (conf s0) \<Longrightarrow> moves f s (block_on bl s0)"
  by (auto simp: moves_def step_defs block_on_def silent_def)

lemma moves_yield_run:
  "silent s s0 \<Longrightarrow> fibers s f = Some b \<Longrightarrow> k \<noteq> K_entry \<Longrightarrow> k \<noteq> K_app \<Longrightarrow> moves f s (yield_run f k s0)"
  by (rule parks_silent) (auto simp: silent_fibers intro: parks_yield_run)

lemma moves_yield_io:
  "silent s s0 \<Longrightarrow> fibers s f = Some b \<Longrightarrow> moves f s (yield_io f fd ev (K_io kd fd) s0)"
  by (rule parks_silent) (auto simp: silent_fibers intro: parks_yield_io)

lemma moves_io_try: "silent s s0 \<Longrightarrow> fibers s f = Some b \<Longrightarrow> moves f s (io_try f kind fd r s0)"
  by (auto simp: io_try_def Let_def intro!: moves_return moves_yield_io split: sysres.split)

lemma moves_hl: "silent s s0 \<Longrightarrow> fibers s f = Some b \<Longrightarrow> moves f s (hl_acquire_read f fd r s0)"
  by (auto simp: hl_acquire_read_def Let_def intro!: moves_yield_run moves_io_try)

lemma moves_mutex_lock:
  "silent s s0 \<Longrightarrow> fibers s f = Some b \<Longrightarrow> k \<noteq> K_entry \<Longrightarrow> k \<noteq> K_app \<Longrightarrow> moves f s (mutex_lock f m k r s0)"
  by (auto simp: mutex_lock_def may_block_def intro!: moves_yield_run moves_block moves_return)

lemma moves_rdlock: "silent s s0 \<Longrightarrow> fibers s f = Some b \<Longrightarrow> moves f s (rwlock_rdlock f l s0)"
  by (auto simp: rwlock_rdlock_def may_block_def intro!: moves_yield_run moves_block moves_return)

lemma moves_wrlock: "silent s s0 \<Longrightarrow> fibers s f = Some b \<Longrightarrow> moves f s (rwlock_wrlock f l s0)"
  by (auto simp: rwlock_wrlock_def may_block_def intro!: moves_yield_run moves_block moves_return)

lemma moves_poll:
  assumes "fibers s f = Some b"
  shows "moves f s (fib_poll f fd events nfds timeout kn s)"
proof (cases "timeout < 0")
  case True
  then have "moves f s (yield_io_to f fd ev events timeout (now_rt kn) s)" for ev
    using parks_yield_io [OF assms, of "K_poll_inf events" fd ev] by (simp add: yield_io_to_def moves_def)
  with assms show ?thesis by (auto simp: fib_poll_def Let_def intro: moves_real_call)
next
  case False
  then have "moves f s (yield_io_to f fd ev events timeout (now_rt kn) s)" for ev
    using parks_yield_io_to [OF assms, of timeout fd ev events "now_rt kn"] by (simp add: moves_def)
  with assms show ?thesis by (auto simp: fib_poll_def Let_def intro: moves_real_call)
qed

lemma moves_cond_wait:
  "fibers s f = Some b \<Longrightarrow> moves f s (cond_wait f c m ab kn s)"
proof -
  assume b: "fibers s f = Some b"
  have "conf (drop_mutex m s) = conf s" by (simp add: drop_mutex_def Let_def)
  then have "moves f s (block_on bl (drop_mutex m s))" if "g_nocond (conf s)" for bl
    using that b by (intro moves_block) (auto simp: may_block_def)
  with parks_cond [OF b, of c m ab kn] show ?thesis by (simp add: cond_wait_def moves_def)
qed

lemma moves_setspecific:
  "fibers s f = Some b \<Longrightarrow> moves f s (return_to f r (set_specific (Some f) 0 k v s))"
  by (auto simp: set_specific_def moves_def step_defs)

text \<open>The call of a signal changes other fibers too; every other call moves the caller only.\<close>

lemma call_moves:
  assumes b: "fibers s f = Some b" and call: "fib_call f c kn s = Some s'" and c: "\<nexists>cv. c = C_cond_signal cv"
  shows "moves f s s'"
proof (cases c)
  case (C_io kind fd)
  with call show ?thesis
    by (cases kind)
      (auto simp: fib_call_def fib_read_def fib_write_def fib_sock_def
        intro!: moves_io_try [OF _ b] moves_real_call [OF _ b] moves_hl [OF _ b])
next
  case (C_accel buf n)
  with call obtain oid d where "s' = yield_off f oid (s\<lparr>dev := d\<rparr>)"
    by (auto simp: fib_call_def fib_accel_def split: option.splits prod.splits)
  with parks_yield_off [of "s\<lparr>dev := d\<rparr>" f b oid] b show ?thesis
    by (auto intro: parks_silent [of s "s\<lparr>dev := d\<rparr>"])
next
  case (C_create entry a)
  with call b show ?thesis
    by (auto simp: fib_call_def pthread_create_def makes_fiber_def intro: moves_real_call)
qed (use call c in \<open>auto simp: fib_call_def intro!: moves_return [OF _ b] moves_mutex_lock [OF _ b]
    moves_rdlock [OF _ b] moves_wrlock [OF _ b] moves_poll [OF b] moves_cond_wait [OF b]
    moves_setspecific [OF b] moves_real_call [OF _ b] split: if_splits sysres.splits\<close>)

text \<open>A resumption moves the fiber, unless its function is null and it ends at once.\<close>

lemma moves_upd:
  assumes "fibers s f = Some b" "silent s s0" "fslot (g b) = fslot b" "state (g b) = state b"
    and "moves f (upd_fib f g s0) s'"
  shows "moves f s s'"
  by (rule stays_moves [OF _ _ assms(5,1)])
    (use assms in \<open>auto simp: stays_def same_view_def silent_def upd_fib_def fib_def\<close>)

lemma moves_return_upd:
  assumes "fibers s f = Some b" "silent s s0" "fslot (g b) = fslot b" "state (g b) = state b"
  shows "moves f s (return_to f r (upd_fib f g s0))"
  by (rule moves_upd [where g = g, OF assms])
    (rule moves_return; use assms in \<open>simp add: upd_fib_def silent_fibers\<close>)

lemma resume_moves:
  assumes b: "fibers s f = Some b" and k: "cont b \<noteq> K_entry" "cont b \<noteq> K_app"
  shows "moves f s (resume f kn s)"
proof -
  have fib: "fib s f = b" using b by (simp add: fib_def)
  show ?thesis
  proof (cases "cont b")
    case (K_poll ev)
    then show ?thesis
      by (auto simp: resume_def fib Let_def intro!: moves_return_upd [OF b])
  next
    case (K_poll_inf ev)
    then show ?thesis
      by (auto simp: resume_def fib Let_def intro!: moves_return_upd [OF b])
  next
    case (K_cond c m t)
    let ?s = "upd_fib f (\<lambda>b. b\<lparr>has_deadline := False\<rparr>) s"
    have "moves f ?s (mutex_lock f m (K_cond_lock m t x) y ?s)" for x y
      by (rule moves_mutex_lock [where b = "b\<lparr>has_deadline := False\<rparr>"]) (simp_all add: upd_fib_def b)
    from moves_upd [OF b _ _ _ this] have "moves f s (mutex_lock f m (K_cond_lock m t x) y ?s)" for x y
      by simp
    with K_cond show ?thesis by (simp add: resume_def fib Let_def)
  qed (use k in \<open>auto simp: resume_def fib Let_def intro!: moves_io_try [OF _ b] moves_hl [OF _ b]
      moves_mutex_lock [OF _ b] moves_rdlock [OF _ b] moves_wrlock [OF _ b] moves_return [OF _ b]
      moves_block [OF _ b]\<close>)
qed

section \<open>Preservation\<close>

lemma moves_inv: "rt_inv s \<Longrightarrow> running f s \<Longrightarrow> moves f s s' \<Longrightarrow> rt_inv s'"
  by (auto simp: moves_def intro: inv_stays inv_parks)

text \<open>
  The carrier's loops change one waiting fiber at a time: they make it runnable and leave everything
  else that is the fiber's own as it is.
\<close>

definition bystander :: "fiber \<Rightarrow> fiber \<Rightarrow> bool" where
  "bystander b b' \<longleftrightarrow> fslot b' = fslot b \<and> cont b' = cont b \<and> farea b' = farea b \<and> ftls b' = ftls b \<and>
     off_id b' = off_id b \<and> ffd b' = ffd b \<and> fn b' = fn b \<and> ret b' = ret b \<and> fstack b' = fstack b \<and>
     has_deadline b' = has_deadline b \<and> fdeadline b' = fdeadline b \<and>
     (state b' = state b \<and> waitcond b' = waitcond b \<and> timed_out b' = timed_out b \<or>
      (state b = F_WAIT_IO \<or> state b = F_WAIT_OFF \<or> state b = F_WAIT_COND) \<and> state b' = F_RUN)"

lemma bystander_refl [simp]: "bystander b b"
  by (simp add: bystander_def)

lemma bystander_trans: "bystander a b \<Longrightarrow> bystander b c \<Longrightarrow> bystander a c"
  by (auto simp: bystander_def)

definition wakes :: "nat \<Rightarrow> fiber \<Rightarrow> ('q, 'd) rt \<Rightarrow> ('q, 'd) rt \<Rightarrow> bool" where
  "wakes f b s s' \<longleftrightarrow>
     fibs s' = fibs s \<and> newq s' = newq s \<and> next_fib s' = next_fib s \<and> cur_fib s' = cur_fib s \<and>
     phase s' = phase s \<and> conf s' = conf s \<and> hlock_owner s' = hlock_owner s \<and> libs s' = libs s \<and> pollable s' = pollable s \<and>
     (fibers s' = fibers s \<and> epoll s' = epoll s \<or>
      (state b = F_WAIT_IO \<or> state b = F_WAIT_OFF \<or> state b = F_WAIT_COND) \<and>
      fibers s' = (fibers s)(f \<mapsto> fib s' f) \<and>
      state (fib s' f) = F_RUN \<and> bystander b (fib s' f) \<and>
      (\<forall>fd y ev. epoll s' fd = Some (y, ev, True) \<longrightarrow> epoll s fd = Some (y, ev, True)) \<and>
      (\<forall>fd. state b \<noteq> F_WAIT_IO \<or> fd \<noteq> ffd b \<longrightarrow> epoll s' fd = epoll s fd) \<and>
      (state b = F_WAIT_IO \<longrightarrow> epoll s' (ffd b) = None \<or> (\<exists>y ev. epoll s' (ffd b) = Some (y, ev, False))))"

lemma own_wakes_fiber:
  assumes b: "fibers s f = Some b" and w: "wakes f b s s'" and c: "fibers s h = Some c"
  shows "\<exists>b'. fibers s' h = Some b' \<and> bystander c b'"
proof -
  consider "fibers s' = fibers s" | "fibers s' = (fibers s)(f \<mapsto> fib s' f)" "bystander b (fib s' f)"
    using w unfolding wakes_def by blast
  then show ?thesis
  proof cases
    case 1
    with c show ?thesis by (intro exI [of _ c]) simp
  next
    case 2
    show ?thesis
    proof (cases "h = f")
      case True
      have "fibers s' f = Some (fib s' f)" by (subst 2(1)) simp
      with True b c 2(2) show ?thesis by simp
    next
      case False
      have "fibers s' h = Some c" by (subst 2(1)) (simp add: False c)
      then show ?thesis by simp
    qed
  qed
qed

lemma inv_wakes:
  assumes inv: "rt_inv s" and f: "Some f \<in> set (fibs s)" "fibers s f = Some b" and w: "wakes f b s s'"
  shows "rt_inv s'"
proof (cases "fibers s' = fibers s \<and> epoll s' = epoll s")
  case True
  with w have "same_view s s'" "fibers s' = fibers s" "phase s' = phase s"
    by (auto simp: wakes_def same_view_def)
  from rt_inv_cong [OF this] inv show ?thesis by simp
next
  case False
  define b' where "b' = fib s' f"
  have w': "fibs s' = fibs s" "newq s' = newq s" "next_fib s' = next_fib s" "cur_fib s' = cur_fib s"
    "phase s' = phase s" "fibers s' = (fibers s)(f \<mapsto> b')" "state b' = F_RUN" "fslot b' = fslot b"
    "cont b' = cont b" and
    e: "\<And>fd y ev. epoll s' fd = Some (y, ev, True) \<Longrightarrow> epoll s fd = Some (y, ev, True)" and
    io: "state b = F_WAIT_IO \<Longrightarrow> epoll s' (ffd b) = None \<or> (\<exists>y ev. epoll s' (ffd b) = Some (y, ev, False))" and
    st: "state b = F_WAIT_IO \<or> state b = F_WAIT_OFF \<or> state b = F_WAIT_COND"
    using w False by (auto simp: wakes_def b'_def bystander_def)
  note heap = inv_heap [OF inv f(2)]
  have cur: "cur_fib s \<noteq> Some f" using heap st by (auto simp: fib_ok_def)
  with heap have ok: "fib_ok False b'" using w'(7,9) st by (auto simp: fib_ok_def)
  have nn: "f \<notin> set (newq s)" using inv_new [OF inv] f(1) by blast
  have arm: "Some g \<in> set (fibs s') \<and> (\<exists>c. fibers s' g = Some c \<and> state c = F_WAIT_IO \<and> ffd c = fd)"
    if "epoll s' fd = Some (g, ev, True)" for fd g ev
  proof -
    from inv_armed [OF inv e [OF that]] obtain c where
      c: "Some g \<in> set (fibs s)" "fibers s g = Some c" "state c = F_WAIT_IO" "ffd c = fd" by blast
    have "g \<noteq> f" using c f(2) io that by auto
    with c show ?thesis by (simp add: w')
  qed
  have "slots_inv s'" "new_inv s'"
    using slots_upd [of s s' f b' b] new_upd [of s s' f] inv w' f(2) nn by (simp_all add: rt_inv_def)
  moreover have "armed_inv s'" unfolding armed_inv_def using arm by blast
  moreover have "heap_inv s'"
    by (rule heap_upd [OF inv w'(6)]) (use heap ok cur in \<open>auto simp: w'\<close>)
  moreover have "phase_inv s'" using inv by (simp add: rt_inv_def phase_inv_def w')
  ultimately show ?thesis by (simp add: rt_inv_def)
qed

lemma wakes_wake_one: "fibers s f = Some b \<Longrightarrow> wakes f b s (wake_one c f b s)"
  by (auto simp: wakes_def wake_one_def upd_fib_def fib_def bystander_def)

lemma wakes_off_one: "fibers s f = Some b \<Longrightarrow> wakes f b s (off_one f b s)"
  by (auto simp: wakes_def off_one_def upd_fib_def fib_def bystander_def Let_def split: option.splits)

lemma wakes_deadline_one: "fibers s f = Some b \<Longrightarrow> wakes f b s (deadline_one now f b s)"
  by (auto simp: wakes_def deadline_one_def upd_fib_def fib_def bystander_def split: if_splits)

text \<open>A step of the carrier's own phases: it may wake fibers, and moves none.\<close>

definition was_served :: "int \<Rightarrow> ('q, 'd) rt \<Rightarrow> ('q, 'd) rt \<Rightarrow> bool" where
  "was_served fd s s' \<longleftrightarrow> (\<exists>g c c'. fibers s g = Some c \<and> state c = F_WAIT_IO \<and> ffd c = fd \<and>
     fibers s' g = Some c' \<and> state c' = F_RUN)"

definition own_step :: "('q, 'd) rt \<Rightarrow> ('q, 'd) rt \<Rightarrow> bool" where
  "own_step s s' \<longleftrightarrow> rt_inv s' \<and> fibs s' = fibs s \<and> phase s' = phase s \<and> cur_fib s' = cur_fib s \<and>
     newq s' = newq s \<and> conf s' = conf s \<and> hlock_owner s' = hlock_owner s \<and> libs s' = libs s \<and>
     pollable s' = pollable s \<and>
     (\<forall>h. fibers s h = None \<longrightarrow> fibers s' h = None) \<and>
     (\<forall>h b. fibers s h = Some b \<longrightarrow> (\<exists>b'. fibers s' h = Some b' \<and> bystander b b')) \<and>
     (\<forall>fd f ev. epoll s fd = Some (f, ev, True) \<longrightarrow> epoll s' fd = Some (f, ev, True) \<or> was_served fd s s') \<and>
     (\<forall>fd y ev. epoll s' fd = Some (y, ev, True) \<longrightarrow> epoll s fd = Some (y, ev, True))"

lemma own_refl: "rt_inv s \<Longrightarrow> own_step s s"
  by (auto simp: own_step_def)

lemma own_trans:
  assumes ab: "own_step a b" and bc: "own_step b c"
  shows "own_step a c"
proof -
  have by1: "\<exists>x'. fibers b h = Some x' \<and> bystander x x'" if "fibers a h = Some x" for h x
    using ab that by (auto simp: own_step_def)
  have by2: "\<exists>x'. fibers c h = Some x' \<and> bystander x x'" if "fibers b h = Some x" for h x
    using bc that by (auto simp: own_step_def)
  have by3: "\<exists>x'. fibers c h = Some x' \<and> bystander x x'" if "fibers a h = Some x" for h x
    using by1 [OF that] by2 bystander_trans by blast
  have s1: "was_served fd a c" if sv: "was_served fd a b" for fd
  proof -
    from sv obtain g x x' where x: "fibers a g = Some x" "state x = F_WAIT_IO" "ffd x = fd"
      "fibers b g = Some x'" "state x' = F_RUN" by (auto simp: was_served_def)
    from by2 [OF x(4)] obtain y where "fibers c g = Some y" "bystander x' y" by blast
    with x show ?thesis by (auto simp: was_served_def bystander_def)
  qed
  have s2: "was_served fd a c" if sv: "was_served fd b c" "\<exists>f ev. epoll a fd = Some (f, ev, True)" for fd
  proof (cases "was_served fd a b")
    case False
    from sv(1) obtain g x x' where x: "fibers b g = Some x" "state x = F_WAIT_IO" "ffd x = fd"
      "fibers c g = Some x'" "state x' = F_RUN" by (auto simp: was_served_def)
    from ab x(1) obtain y where y: "fibers a g = Some y"
      by (cases "fibers a g") (auto simp: own_step_def)
    with by1 [OF y] x(1) have "bystander y x" by simp
    then have "state y = F_WAIT_IO" "ffd y = fd" using x by (auto simp: bystander_def)
    with x(4,5) y show ?thesis unfolding was_served_def by blast
  qed (rule s1)
  have reg: "epoll c fd = Some (f, ev, True) \<or> was_served fd a c" if e: "epoll a fd = Some (f, ev, True)" for fd f ev
  proof (cases "epoll b fd = Some (f, ev, True)")
    case True
    with bc have "epoll c fd = Some (f, ev, True) \<or> was_served fd b c" by (simp add: own_step_def)
    with s2 e show ?thesis by blast
  next
    case False
    with ab e have "was_served fd a b" unfolding own_step_def by blast
    with s1 show ?thesis by blast
  qed
  have older: "epoll a fd = Some (y, ev, True)" if "epoll c fd = Some (y, ev, True)" for fd y ev
    using ab bc that by (simp add: own_step_def)
  show ?thesis using ab bc by3 reg older by (simp add: own_step_def)
qed

lemma own_wakes:
  assumes "rt_inv s" "Some f \<in> set (fibs s)" "fibers s f = Some b" "wakes f b s s'"
  shows "own_step s s'"
proof -
  have by1: "\<exists>b'. fibers s' h = Some b' \<and> bystander c b'" if "fibers s h = Some c" for h c
    using own_wakes_fiber [OF assms(3,4) that] .
  have none: "fibers s' h = None" if "fibers s h = None" for h
  proof -
    have "h \<noteq> f" using that assms(3) by auto
    with that assms(4) show ?thesis unfolding wakes_def by (metis fun_upd_other)
  qed
  have reg: "epoll s' fd = Some (y, ev, True) \<or> was_served fd s s'" if e: "epoll s fd = Some (y, ev, True)" for fd y ev
  proof (cases "epoll s' fd = epoll s fd")
    case False
    with assms(4) have w: "state b = F_WAIT_IO" "fd = ffd b" "fibers s' = (fibers s)(f \<mapsto> fib s' f)"
      "state (fib s' f) = F_RUN" unfolding wakes_def by metis+
    then have "fibers s' f = Some (fib s' f)" by (metis fun_upd_same)
    with w assms(3) show ?thesis by (auto simp: was_served_def)
  next
    case True
    with e show ?thesis by simp
  qed
  have older: "epoll s fd = Some (y, ev, True)" if "epoll s' fd = Some (y, ev, True)" for fd y ev
    using assms(4) that by (auto simp: wakes_def)
  have "fibs s' = fibs s" "phase s' = phase s" "cur_fib s' = cur_fib s" "newq s' = newq s"
    "conf s' = conf s" "hlock_owner s' = hlock_owner s" "libs s' = libs s" "pollable s' = pollable s"
    using assms(4) by (simp_all add: wakes_def)
  with by1 none reg older inv_wakes [OF assms] show ?thesis by (simp add: own_step_def)
qed

lemma own_scan_list:
  assumes g: "\<And>f b s. rt_inv s \<Longrightarrow> Some f \<in> set (fibs s) \<Longrightarrow> fibers s f = Some b \<Longrightarrow> wakes f b s (g f b s)"
    and inv: "rt_inv s" and sub: "set xs \<subseteq> set (fibs s)"
  shows "\<exists>s'. scan g xs s = Some s' \<and> own_step s s'"
  using inv sub
proof (induction xs arbitrary: s)
  case (Cons x xs)
  show ?case
  proof (cases x)
    case None
    with Cons show ?thesis by simp
  next
    case (Some f)
    with Cons.prems have f: "Some f \<in> set (fibs s)" by simp
    from inv_member [OF Cons.prems(1) f] obtain b where b: "fibers s f = Some b" ..
    from own_wakes [OF Cons.prems(1) f b g [OF Cons.prems(1) f b]] have o: "own_step s (g f b s)" .
    with Cons.IH [of "g f b s"] Cons.prems(2) obtain s' where "scan g xs (g f b s) = Some s'" "own_step (g f b s) s'"
      by (auto simp: own_step_def)
    with Some b own_trans [OF o] show ?thesis by auto
  qed
qed (auto intro: own_refl)

lemma own_scan:
  assumes "\<And>f b s. rt_inv s \<Longrightarrow> Some f \<in> set (fibs s) \<Longrightarrow> fibers s f = Some b \<Longrightarrow> wakes f b s (g f b s)"
    and "rt_inv s"
  shows "\<exists>s'. scan g (fibs s) s = Some s' \<and> own_step s s'"
  by (rule own_scan_list [OF _ assms(2) subset_refl]) (rule assms(1))

lemma own_wake_fibers: "rt_inv s \<Longrightarrow> \<exists>s'. wake_fibers c s = Some s' \<and> own_step s s'"
  unfolding wake_fibers_def by (rule own_scan) (auto intro: wakes_wake_one)

lemma own_drain_wakes: "rt_inv s \<Longrightarrow> \<exists>s'. drain_wakes n s = Some s' \<and> own_step s s'"
proof (induction n arbitrary: s)
  case 0
  then show ?case by (auto simp: own_step_def)
next
  case (Suc n)
  show ?case
  proof (cases "ring_get PENDN (pend s)")
    case None
    with Suc.prems show ?thesis by (auto simp: own_step_def)
  next
    case (Some p)
    obtain c r where p: "p = (c, r)" by (cases p)
    have "rt_inv (s\<lparr>pend := r\<rparr>)" using Suc.prems by (subst rt_inv_cong [of s]) (auto simp: same_view_def)
    then have o: "own_step s (s\<lparr>pend := r\<rparr>)" by (auto simp: own_step_def)
    from own_wake_fibers [of "s\<lparr>pend := r\<rparr>" c] o obtain s1 where
      s1: "wake_fibers c (s\<lparr>pend := r\<rparr>) = Some s1" "own_step (s\<lparr>pend := r\<rparr>) s1" by (auto simp: own_step_def)
    from Suc.IH [of s1] s1(2) obtain s2 where "drain_wakes n s1 = Some s2" "own_step s1 s2"
      by (auto simp: own_step_def)
    with Some p s1 own_trans [OF own_trans [OF o s1(2)]] show ?thesis by auto
  qed
qed

lemma own_io_ready: "rt_inv s \<Longrightarrow> \<exists>s'. io_ready fds s = Some s' \<and> own_step s s'"
proof (induction fds arbitrary: s)
  case Nil
  then show ?case by (auto simp: own_step_def)
next
  case (Cons fd fds)
  show ?case
  proof (cases "\<exists>f ev. epoll s fd = Some (f, ev, True)")
    case False
    then have "io_ready (fd # fds) s = io_ready fds s"
      by (auto split: option.splits prod.splits bool.splits)
    with Cons show ?thesis by simp
  next
    case True
    then obtain f ev where a: "epoll s fd = Some (f, ev, True)" by blast
    from inv_armed [OF Cons.prems a] obtain b where
      b: "Some f \<in> set (fibs s)" "fibers s f = Some b" "state b = F_WAIT_IO" "ffd b = fd" by blast
    define s1 where "s1 = upd_fib f (\<lambda>b. b\<lparr>state := F_RUN\<rparr>) (s\<lparr>epoll := (epoll s)(fd \<mapsto> (f, ev, False))\<rparr>)"
    have "wakes f b s s1"
      using a b by (auto simp: wakes_def s1_def upd_fib_def fib_def bystander_def split: if_splits)
    from own_wakes [OF Cons.prems b(1,2) this] have o: "own_step s s1" .
    then obtain s2 where "io_ready fds s1 = Some s2" "own_step s1 s2"
      using Cons.IH [of s1] by (auto simp: own_step_def)
    moreover have "io_ready (fd # fds) s = io_ready fds s1" using a b by (simp add: s1_def Let_def)
    ultimately show ?thesis using own_trans [OF o] by auto
  qed
qed

lemma inv_take_new:
  assumes "rt_inv (s\<lparr>newq := []\<rparr>)" "distinct fs" "cur_fib s = None"
    and "\<forall>f\<in>set fs. Some f \<notin> set (fibs s) \<and> (\<exists>b. fibers s f = Some b \<and> state b = F_NEW)"
    and "take_new fs s = Some s'"
  shows "rt_inv (s'\<lparr>newq := []\<rparr>) \<and> phase s' = phase s \<and> cur_fib s' = None \<and> conf s' = conf s \<and>
    fibs s' = fibs s @ map Some fs \<and> (\<forall>h. h \<notin> set fs \<longrightarrow> fibers s' h = fibers s h) \<and>
    (\<forall>h b. fibers s h = Some b \<longrightarrow> (\<exists>i. fibers s' h = Some (b\<lparr>fslot := i\<rparr>)))"
  using assms
proof (induction fs arbitrary: s)
  case (Cons f fs)
  let ?n = "length (fibs s)"
  define s1 where "s1 = (upd_fib f (\<lambda>b. b\<lparr>fslot := ?n\<rparr>) s)\<lparr>fibs := fibs s @ [Some f]\<rparr>"
  from Cons.prems(4) obtain b where b: "fibers s f = Some b" "state b = F_NEW" "Some f \<notin> set (fibs s)" by auto
  have v: "fibs s1 = fibs s @ [Some f]" "fibers s1 = (fibers s)(f \<mapsto> b\<lparr>fslot := ?n\<rparr>)"
    "phase s1 = phase s" "cur_fib s1 = None" "epoll s1 = epoll s" "next_fib s1 = next_fib s"
    using Cons.prems(3) b by (simp_all add: s1_def upd_fib_def)
  have inv: "slots_inv s" "armed_inv s" "heap_inv s" "phase_inv s"
    using Cons.prems(1) by (simp_all add: rt_inv_defs)
  have "slots_inv s1"
    unfolding slots_inv_def v
  proof (intro allI impI)
    fix i g assume i: "i < length (fibs s @ [Some f])" "(fibs s @ [Some f]) ! i = Some g"
    show "\<exists>c. ((fibers s)(f \<mapsto> b\<lparr>fslot := ?n\<rparr>)) g = Some c \<and> fslot c = i"
    proof (cases "i = ?n")
      case True
      with i show ?thesis by simp
    next
      case False
      with i have "i < ?n" "fibs s ! i = Some g" by (simp_all add: nth_append)
      with inv(1) b(3) show ?thesis by (metis fun_upd_other nth_mem slots_inv_def)
    qed
  qed
  moreover have "armed_inv s1"
    using inv(2) b unfolding armed_inv_def v by (metis Un_iff fun_upd_other set_append)
  moreover have "heap_inv s1"
  proof -
    have "f < next_fib s \<and> fib_ok False b" using inv(3) b(1) Cons.prems(3) unfolding heap_inv_def by fastforce
    then have "fib_ok False (b\<lparr>fslot := ?n\<rparr>)" "f < next_fib s" by (simp_all add: fib_ok_def b(2))
    with inv(3) Cons.prems(3) show ?thesis by (auto simp: heap_inv_def v split: if_splits)
  qed
  moreover have "phase_inv s1"
    using inv(4) Cons.prems(3) by (auto simp: phase_inv_def v)
  ultimately have i1: "rt_inv (s1\<lparr>newq := []\<rparr>)" by (simp add: rt_inv_defs)
  have n1: "\<forall>g\<in>set fs. Some g \<notin> set (fibs s1) \<and> (\<exists>b. fibers s1 g = Some b \<and> state b = F_NEW)"
    using Cons.prems(2,4) by (auto simp: v)
  have t1: "take_new fs s1 = Some s'"
    using Cons.prems(5) by (simp add: s1_def split: if_splits)
  note ih = Cons.IH [OF i1 _ v(4) n1 t1]
  have "\<exists>i. fibers s' h = Some (c\<lparr>fslot := i\<rparr>)" if "fibers s h = Some c" for h c
  proof (cases "h = f")
    case True
    with that ih Cons.prems(2) b(1) have "fibers s' h = Some (c\<lparr>fslot := ?n\<rparr>)" by (simp add: v)
    then show ?thesis ..
  next
    case False
    with that ih Cons.prems(2) show ?thesis by (simp add: v)
  qed
  with ih Cons.prems(2) v show ?case by (simp add: s1_def upd_fib_def)
next
  case Nil
  then have "\<exists>i. b = b\<lparr>fslot := i\<rparr>" for b by (intro exI [of _ "fslot b"]) simp
  with Nil show ?case by (simp; blast)
qed

lemma inv_intake:
  assumes "rt_inv s" "cur_fib s = None" "intake s = Some s'"
  shows "rt_inv s' \<and> phase s' = phase s \<and> cur_fib s' = None \<and> conf s' = conf s \<and>
    fibs s' = fibs s @ map Some (newq s) \<and> (\<forall>h. h \<notin> set (newq s) \<longrightarrow> fibers s' h = fibers s h) \<and>
    (\<forall>h b. fibers s h = Some b \<longrightarrow> (\<exists>i. fibers s' h = Some (b\<lparr>fslot := i\<rparr>)))"
proof (cases "newq s = []")
  case False
  with assms(3) obtain s1 where s1: "take_new (newq s) s = Some s1" "s' = s1\<lparr>newq := []\<rparr>"
    by (auto simp: intake_def)
  have "rt_inv (s\<lparr>newq := []\<rparr>)" using assms(1) by (simp add: rt_inv_defs)
  from inv_take_new [OF this _ assms(2) _ s1(1)] assms(1) s1(2) show ?thesis
    by (simp add: rt_inv_def new_inv_def)
next
  case True
  have "\<exists>i. b = b\<lparr>fslot := i\<rparr>" for b by (intro exI [of _ "fslot b"]) simp
  with True assms show ?thesis by (simp add: intake_def; blast)
qed

text \<open>Changing the phase between the carrier's own phases.\<close>

definition idle_phase :: "phase \<Rightarrow> bool" where
  "idle_phase p \<longleftrightarrow> (\<forall>i. p \<noteq> In_fiber i \<and> (\<forall>bl. p \<noteq> Blocked i bl))"

lemma inv_set_phase:
  "rt_inv s \<Longrightarrow> idle_phase p \<Longrightarrow> cur_fib s = None \<Longrightarrow> rt_inv (s\<lparr>phase := p\<rparr>)"
  by (auto simp: rt_inv_defs idle_phase_def)

lemma idle_no_cur: "rt_inv s \<Longrightarrow> idle_phase (phase s) \<Longrightarrow> cur_fib s = None"
  by (auto simp: rt_inv_defs idle_phase_def)

lemma inv_run_slot:
  assumes inv: "rt_inv s" and ph: "phase s = P_run i"
  shows "\<exists>s'. run_slot i s = Some s' \<and> rt_inv s'"
proof -
  have cur: "cur_fib s = None" using idle_no_cur [OF inv] ph by (simp add: idle_phase_def)
  have move: "rt_inv (s\<lparr>phase := p\<rparr>)" if "idle_phase p" for p
    using inv_set_phase [OF inv that cur] .
  show ?thesis
  proof (cases "i < length (fibs s)")
    case False
    with move [of P_intake] show ?thesis by (simp add: run_slot_def idle_phase_def)
  next
    case True
    show ?thesis
    proof (cases "fibs s ! i")
      case None
      with True move [of "P_run (Suc i)"] show ?thesis by (simp add: run_slot_def idle_phase_def)
    next
      case (Some f)
      from inv_slot [OF inv True Some] obtain b where b: "fibers s f = Some b" by blast
      show ?thesis
      proof (cases "state b = F_NEW \<or> state b = F_RUN")
        case False
        with True Some b move [of "P_run (Suc i)"] show ?thesis by (simp add: run_slot_def idle_phase_def)
      next
        case run: True
        have "rt_inv (enter_fiber i f s)"
          using inv cur True Some b run
          by (auto simp: rt_inv_def slots_inv_def new_inv_def armed_inv_def heap_inv_def phase_inv_def
              enter_fiber_def fib_ok_def)
        with True Some b run show ?thesis by (simp add: run_slot_def)
      qed
    qed
  qed
qed

lemma inv_exit:
  assumes inv: "rt_inv s" and run: "running f s"
  shows "rt_inv (fib_exit f s)"
proof -
  from running_fib [OF inv run] obtain i b where
    b: "phase s = In_fiber i" "i < length (fibs s)" "fibs s ! i = Some f" "fibers s f = Some b"
       "fib s f = b" "fslot b = i" "state b = F_NEW \<or> state b = F_RUN" "f \<notin> set (newq s)" "f < next_fib s" .
  define s' where "s' = fib_exit f s"
  have v: "fibs s' = (fibs s)[i := None]" "fibers s' = (fibers s)(f := None)" "cur_fib s' = None"
    "phase s' = P_run (Suc i)" "epoll s' = epoll s" "next_fib s' = next_fib s" "newq s' = newq s"
    by (simp_all add: s'_def fib_exit_def b(1) run_index_def)
  have cur: "cur_fib s = Some f" using run by (simp add: running_def)
  have only: "j = i" if "j < length (fibs s)" "fibs s ! j = Some f" for j
    using inv_slot [OF inv that] b(4,6) by simp
  have in_new: "Some g \<in> set (fibs s')" if g: "Some g \<in> set (fibs s)" "g \<noteq> f" for g
  proof -
    from g(1) obtain j where "j < length (fibs s)" "fibs s ! j = Some g" by (metis in_set_conv_nth)
    moreover from this g(2) b(3) have "j \<noteq> i" by auto
    ultimately show ?thesis unfolding v by (metis length_list_update nth_list_update_neq nth_mem)
  qed
  have "slots_inv s'"
    unfolding slots_inv_def v
  proof (intro allI impI)
    fix j g assume j: "j < length ((fibs s)[i := None])" "(fibs s)[i := None] ! j = Some g"
    then have "j \<noteq> i" "fibs s ! j = Some g" "j < length (fibs s)"
      using b(2) by (cases "j = i"; simp)+
    moreover from this only [of j] have "g \<noteq> f" by auto
    ultimately show "\<exists>c. ((fibers s)(f := None)) g = Some c \<and> fslot c = j"
      using inv_slot [OF inv, of j g] by simp
  qed
  moreover have "new_inv s'"
    using inv b(8) unfolding rt_inv_def new_inv_def v
    by (metis fun_upd_other insertE option.distinct(1) set_update_subset_insert subset_iff)
  moreover have "armed_inv s'"
    unfolding armed_inv_def v(2,5)
    using inv_armed [OF inv] not_armed [OF inv run] in_new by (metis fun_upd_other)
  moreover have "heap_inv s'"
    unfolding heap_inv_def
  proof (intro allI impI)
    fix g c assume "fibers s' g = Some c"
    then have "g \<noteq> f" "fibers s g = Some c" by (auto simp: v split: if_splits)
    with inv_heap [OF inv] cur show "g < next_fib s' \<and> fib_ok (cur_fib s' = Some g) c" by (fastforce simp: v)
  qed
  moreover have "phase_inv s'" by (simp add: phase_inv_def v)
  ultimately show ?thesis by (simp add: rt_inv_def s'_def)
qed

lemma inv_resume:
  assumes inv: "rt_inv s" and run: "running f s" and k: "cont (fib s f) \<noteq> K_app"
  shows "rt_inv (resume f kn s)"
proof -
  from running_fib [OF inv run] obtain b where b: "fibers s f = Some b" "fib s f = b" by metis
  show ?thesis
  proof (cases "cont b = K_entry")
    case False
    with moves_inv [OF inv run resume_moves [OF b(1)]] k b(2) show ?thesis by simp
  next
    case True
    have "stays f s (upd_fib f (\<lambda>b. b\<lparr>cont := K_app\<rparr>) s)" using b by (auto simp: step_defs)
    with True b inv_exit [OF inv run] inv_stays [OF inv run] show ?thesis by (simp add: resume_def)
  qed
qed

lemma inv_call:
  assumes inv: "rt_inv s" and run: "running f s" and call: "fib_call f c kn s = Some s'"
  shows "rt_inv s'"
proof (cases "\<exists>cv. c = C_cond_signal cv")
  case False
  from running_fib [OF inv run] obtain b where "fibers s f = Some b" by metis
  with False call_moves moves_inv [OF inv run] call show ?thesis by blast
next
  case True
  then obtain cv where c: "c = C_cond_signal cv" by blast
  have ret: "rt_inv (return_to f 0 s1)" if "rt_inv s1" "running f s1" for s1
  proof -
    from running_fib [OF that] obtain b where "fibers s1 f = Some b" by metis
    from inv_stays [OF that stays_return [OF this]] show ?thesis .
  qed
  show ?thesis
  proof (cases "g_nocond (conf s)")
    case True
    with c call ret [OF inv run] show ?thesis by (simp add: fib_call_def cond_signal_def)
  next
    case False
    from own_wake_fibers [OF inv, of cv] obtain s1 where
      s1: "wake_fibers cv s = Some s1" "rt_inv s1" "phase s1 = phase s" "cur_fib s1 = cur_fib s"
      by (auto simp: own_step_def)
    then have "running f s1" using run by (simp add: running_def)
    from ret [OF s1(2) this] False c call s1(1) show ?thesis by (simp add: fib_call_def cond_signal_def)
  qed
qed

lemma inv_unblock:
  assumes inv: "rt_inv s" and ph: "phase s = Blocked i bl" and cur: "cur_fib s = Some f"
  shows "rt_inv (unblock i f bl s)"
proof -
  let ?s = "s\<lparr>phase := In_fiber i\<rparr>"
  have i1: "rt_inv ?s" using inv ph cur by (auto simp: rt_inv_defs)
  have run: "running f ?s" using cur by (simp add: running_def)
  from running_fib [OF i1 run] obtain b where b: "fibers ?s f = Some b" by metis
  have ret: "rt_inv (return_to f r s0)" if "silent ?s s0" for r s0
    by (rule moves_inv [OF i1 run moves_return [OF that b]])
  show ?thesis
    using inv ret by (auto simp: unblock_def Let_def split: block.splits)
qed

lemma inv_create:
  assumes inv: "rt_inv s"
  shows "rt_inv (snd (pthread_create cf entry a s))"
proof (cases "makes_fiber cf s")
  case True
  let ?f = "next_fib s"
  define s1 where "s1 = s\<lparr>fibers := (fibers s)(?f \<mapsto> new_fiber entry a), next_fib := Suc ?f,
      g_conn_fibers := g_conn_fibers s + 1\<rparr>"
  define s' where "s' = snd (pthread_create cf entry a s)"
  have s': "s' = (if length (newq s) < MAXFIB then s1\<lparr>newq := newq s @ [?f]\<rparr> else s1)"
    using True by (simp add: s'_def pthread_create_def s1_def Let_def)
  have new: "fibers s ?f = None" using inv_heap [OF inv, of ?f] by fastforce
  have nf: "Some ?f \<notin> set (fibs s)" "?f \<notin> set (newq s)"
    using inv_member [OF inv, of ?f] inv_new [OF inv, of ?f] new by auto
  have v: "fibs s' = fibs s" "fibers s' = (fibers s)(?f \<mapsto> new_fiber entry a)" "epoll s' = epoll s"
    "cur_fib s' = cur_fib s" "phase s' = phase s" "next_fib s' = Suc ?f"
    "newq s' = newq s \<or> newq s' = newq s @ [?f]"
    by (simp_all add: s' s1_def)
  have cur: "cur_fib s \<noteq> Some ?f"
    using inv nf(1) nth_mem unfolding rt_inv_def phase_inv_def by (metis option.distinct(1))
  have "slots_inv s'"
    using inv nf(1) nth_mem unfolding rt_inv_def slots_inv_def v by (metis fun_upd_other)
  moreover have "new_inv s'"
    using inv nf v(7) by (auto simp: rt_inv_def new_inv_def v(1,2) new_fiber_def)
  moreover have "armed_inv s'"
    unfolding armed_inv_def v using inv_armed [OF inv] nf(1) by (metis fun_upd_other)
  moreover have "heap_inv s'"
    using inv cur by (auto simp: rt_inv_def heap_inv_def v(2,4,6) fib_ok_def new_fiber_def less_SucI)
  moreover have "phase_inv s'" using inv by (simp add: rt_inv_def phase_inv_def v(1,4,5))
  ultimately show ?thesis by (simp add: rt_inv_def s'_def)
qed (use inv in \<open>simp add: pthread_create_def\<close>)

lemma inv_frame:
  fixes s s' :: "('q, 'd) rt"
  assumes "rt_inv s" "fibers s' = fibers s" "fibs s' = fibs s" "newq s' = newq s" "next_fib s' = next_fib s"
    "epoll s' = epoll s" "cur_fib s' = cur_fib s" "phase s' = phase s"
  shows "rt_inv s'"
  using assms by (simp add: rt_inv_defs)

text \<open>What can go wrong in a step: the intake overflows, or the accelerator is missing.\<close>

definition step_fits :: "'d event \<Rightarrow> ('q, 'd) rt \<Rightarrow> bool" where
  "step_fits e s \<longleftrightarrow>
     (case e of
        E_intake \<Rightarrow> length (fibs s) + length (newq s) \<le> MAXFIB
      | E_call c kn \<Rightarrow> (\<exists>buf n. c = C_accel buf n) \<longrightarrow> accel_submit_f (libs s) \<noteq> None
      | _ \<Rightarrow> True)"

lemma take_new_some:
  "length (fibs s) + length fs \<le> MAXFIB \<Longrightarrow> \<exists>s'. take_new fs s = Some s'"
  by (induction fs arbitrary: s) auto

lemma call_some:
  "rt_inv s \<Longrightarrow> (\<exists>buf n. c = C_accel buf n) \<longrightarrow> accel_submit_f (libs s) \<noteq> None \<Longrightarrow>
     \<exists>s'. fib_call f c kn s = Some s'"
proof (cases c)
  case (C_cond_signal cv)
  assume "rt_inv s"
  from own_wake_fibers [OF this, of cv] obtain s' where "wake_fibers cv s = Some s'" by blast
  with C_cond_signal show ?thesis by (simp add: fib_call_def cond_signal_def)
qed (auto simp: fib_call_def fib_accel_def split: prod.splits)

lemma step_outcome:
  fixes s :: "('q, 'd) rt"
  assumes inv: "rt_inv s"
  shows "case rt_step e s of None \<Rightarrow> \<not> step_fits e s | Some s' \<Rightarrow> rt_inv s'"
proof -
  have idle: "cur_fib s = None" if "at_phase p s" "idle_phase p" for p
    using that idle_no_cur [OF inv] by (simp add: at_phase_def)
  have frame: "rt_inv t"
    if "fibers t = fibers s" "fibs t = fibs s" "newq t = newq s" "next_fib t = next_fib s"
       "epoll t = epoll s" "cur_fib t = cur_fib s" "phase t = phase s" for t :: "('q, 'd) rt"
    using inv_frame [OF inv that] .
  note idle_phase_def [simp]
  show ?thesis
  proof (cases e)
    case E_intake
    show ?thesis
    proof (cases "at_phase P_intake s")
      case True
      then have cur: "cur_fib s = None" using idle by simp
      show ?thesis
      proof (cases "intake s")
        case None
        then have "\<not> step_fits e s"
          using take_new_some [of s "newq s"] E_intake
          by (cases "newq s = []") (auto simp: intake_def step_fits_def)
        with None True E_intake show ?thesis by simp
      next
        case (Some s1)
        from inv_intake [OF inv cur this] inv_set_phase [of s1 P_epoll] True E_intake Some show ?thesis by simp
      qed
    qed (use E_intake inv in simp)
  next
    case (E_epoll fds)
    show ?thesis
    proof (cases "at_phase P_epoll s")
      case True
      then have cur: "cur_fib s = None" using idle by simp
      from own_io_ready [OF inv, of fds] obtain s1 where
        "io_ready fds s = Some s1" "rt_inv s1" "cur_fib s1 = cur_fib s" by (auto simp: own_step_def)
      with inv_set_phase [of s1 P_off] cur True E_epoll show ?thesis by simp
    qed (use E_epoll inv in simp)
  next
    case E_off
    show ?thesis
    proof (cases "at_phase P_off s")
      case True
      then have cur: "cur_fib s = None" using idle by simp
      have "\<exists>s1. scan off_one (fibs s) s = Some s1 \<and> own_step s s1"
        by (rule own_scan [OF _ inv]) (rule wakes_off_one)
      then obtain s1 where
        "scan off_one (fibs s) s = Some s1" "rt_inv s1" "cur_fib s1 = cur_fib s"
        by (auto simp: own_step_def)
      with cur inv_set_phase [of s1 P_wakes] True E_off show ?thesis by simp
    qed (use E_off inv in simp)
  next
    case E_wakes
    show ?thesis
    proof (cases "at_phase P_wakes s")
      case True
      then have cur: "cur_fib s = None" using idle by simp
      from own_drain_wakes [OF inv, of "rhead (pend s) - rtail (pend s)"] obtain s1 where
        "drain_wakes (rhead (pend s) - rtail (pend s)) s = Some s1" "rt_inv s1" "cur_fib s1 = cur_fib s"
        by (auto simp: own_step_def)
      with inv_set_phase [of s1 P_deadlines] cur True E_wakes show ?thesis by simp
    qed (use E_wakes inv in simp)
  next
    case (E_deadlines now)
    show ?thesis
    proof (cases "at_phase P_deadlines s")
      case True
      then have cur: "cur_fib s = None" using idle by simp
      have "\<exists>s1. scan (deadline_one now) (fibs s) s = Some s1 \<and> own_step s s1"
        by (rule own_scan [OF _ inv]) (rule wakes_deadline_one)
      then obtain s1 where
        "scan (deadline_one now) (fibs s) s = Some s1" "rt_inv s1" "cur_fib s1 = cur_fib s"
        by (auto simp: own_step_def)
      with cur inv_set_phase [of s1 "P_run 0"] True E_deadlines show ?thesis by simp
    qed (use E_deadlines inv in simp)
  next
    case E_next
    with inv inv_run_slot [OF inv] show ?thesis by (cases "phase s") auto
  next
    case (E_resume kn)
    with inv inv_resume [OF inv] show ?thesis
      by (cases "phase s"; cases "cur_fib s") (auto simp: running_def)
  next
    case (E_call c kn)
    show ?thesis
    proof (cases "\<exists>i f. phase s = In_fiber i \<and> cur_fib s = Some f \<and> cont (fib s f) = K_app")
      case True
      then obtain i f where f: "phase s = In_fiber i" "cur_fib s = Some f" "cont (fib s f) = K_app" by blast
      then have run: "running f s" by (simp add: running_def)
      show ?thesis
      proof (cases "fib_call f c kn s")
        case None
        then have "\<not> ((\<exists>buf n. c = C_accel buf n) \<longrightarrow> accel_submit_f (libs s) \<noteq> None)"
          using call_some [OF inv] by (metis option.distinct(1))
        then have "\<not> step_fits e s" using E_call by (simp add: step_fits_def)
        with None f E_call show ?thesis by simp
      next
        case (Some s')
        with inv_call [OF inv run] f E_call show ?thesis by simp
      qed
    next
      case False
      with inv E_call show ?thesis by (cases "phase s"; cases "cur_fib s") auto
    qed
  next
    case E_exit
    with inv inv_exit [OF inv] show ?thesis
      by (cases "phase s"; cases "cur_fib s") (auto simp: running_def)
  next
    case E_unblock
    with inv inv_unblock [OF inv] show ?thesis by (cases "phase s"; cases "cur_fib s") auto
  next
    case (T_create entry a)
    with inv_create [OF inv, of None entry a] show ?thesis by simp
  next
    case (K_close fd)
    have "rt_inv (s\<lparr>epoll := (epoll s)(fd := None)\<rparr>)" using inv by (auto simp: rt_inv_defs)
    with K_close show ?thesis by simp
  qed (use inv in \<open>auto intro!: frame simp: thread_reserve_def thread_store_def take_mutex_def drop_mutex_def
      take_rd_def take_wr_def drop_rw_def set_specific_def Let_def split: if_splits\<close>)
qed

theorem inv_step: "rt_inv s \<Longrightarrow> rt_step e s = Some s' \<Longrightarrow> rt_inv s'"
  using step_outcome [of s e] by simp

theorem step_defined: "rt_inv s \<Longrightarrow> step_fits e s \<Longrightarrow> rt_step e s \<noteq> None"
  using step_outcome [of s e] by (cases "rt_step e s") auto

section \<open>Reachable states\<close>

lemma inv_init: "rt_inv (init env so can_poll mx q0 d0 pg exe maps)"
  by (simp add: rt_inv_defs init_def start_carrier_def Let_def)

inductive reachable :: "('q, 'd) rt \<Rightarrow> bool" where
  boot: "reachable (init env so can_poll mx q0 d0 pg exe maps)"
| step: "reachable s \<Longrightarrow> rt_step e s = Some s' \<Longrightarrow> reachable s'"

inductive_cases reachable_elim: "reachable s"

lemma reachable_inv: "reachable s \<Longrightarrow> rt_inv s"
  by (induction rule: reachable.induct) (auto intro: inv_init inv_step)

lemma reachable_run: "reachable s \<Longrightarrow> rt_run es s = Some s' \<Longrightarrow> reachable s'"
  by (induction es arbitrary: s) (auto split: option.splits intro: reachable.step)

section \<open>What a step can be\<close>

text \<open>
  The ways in which a step changes the state, for the properties that follow one fiber: nothing, a
  carrier phase, the intake, a pass over a slot, the entry of a fiber, a call, a resumption, an exit, the
  end of a block, a new fiber, or something beside the fibers.
\<close>

definition beside :: "('q, 'd) rt \<Rightarrow> ('q, 'd) rt \<Rightarrow> bool" where
  "beside s s' \<longleftrightarrow> fibers s' = fibers s \<and> fibs s' = fibs s \<and> newq s' = newq s \<and> next_fib s' = next_fib s \<and>
     cur_fib s' = cur_fib s \<and> phase s' = phase s \<and> conf s' = conf s \<and> hlock_owner s' = hlock_owner s \<and>
     libs s' = libs s \<and> pollable s' = pollable s \<and> errno s' = errno s \<and> (\<forall>fd x. epoll s' fd = Some x \<longrightarrow> epoll s fd = Some x)"

lemma step_cases [consumes 2, case_names same own intake pass enter call resume exit unblock create beside]:
  fixes s s' :: "('q, 'd) rt"
  assumes inv: "rt_inv s" and st: "rt_step e s = Some s'"
  obtains "s' = s"
  | s1 p where "cur_fib s = None" "own_step s s1" "s' = s1\<lparr>phase := p\<rparr>" "idle_phase p" "idle_phase (phase s)"
      "(\<exists>fds. e = E_epoll fds \<and> at_phase P_epoll s \<and> io_ready fds s = Some s1) \<or>
       (e = E_off \<and> at_phase P_off s \<and> scan off_one (fibs s) s = Some s1) \<or>
       (e = E_wakes \<and> at_phase P_wakes s \<and> drain_wakes (rhead (pend s) - rtail (pend s)) s = Some s1) \<or>
       (\<exists>now. e = E_deadlines now \<and> at_phase P_deadlines s \<and> scan (deadline_one now) (fibs s) s = Some s1)"
  | s1 where "e = E_intake" "cur_fib s = None" "intake s = Some s1" "s' = s1\<lparr>phase := P_epoll\<rparr>"
      "phase s = P_intake"
  | p i where "e = E_next" "cur_fib s = None" "s' = s\<lparr>phase := p\<rparr>" "idle_phase p" "phase s = P_run i"
      "p = (if i < length (fibs s) then P_run (Suc i) else P_intake)"
      "i < length (fibs s) \<Longrightarrow> fibs s ! i = None \<or>
         (\<exists>f b. fibs s ! i = Some f \<and> fibers s f = Some b \<and> state b \<noteq> F_NEW \<and> state b \<noteq> F_RUN)"
  | i f b where "e = E_next" "cur_fib s = None" "phase s = P_run i" "i < length (fibs s)" "fibs s ! i = Some f"
      "fibers s f = Some b" "state b = F_NEW \<or> state b = F_RUN" "s' = enter_fiber i f s"
  | f c kn where "e = E_call c kn" "running f s" "cont (fib s f) = K_app" "fib_call f c kn s = Some s'"
  | f kn where "e = E_resume kn" "running f s" "cont (fib s f) \<noteq> K_app" "s' = resume f kn s"
  | f where "e = E_exit" "running f s" "cont (fib s f) = K_app" "s' = fib_exit f s"
  | i f bl where "e = E_unblock" "cur_fib s = Some f" "phase s = Blocked i bl" "s' = unblock i f bl s"
  | en a where "e = T_create en a" "s' = snd (pthread_create None en a s)"
  | "beside s s'" "\<forall>fd. e = K_close fd \<longrightarrow> epoll s' = (epoll s)(fd := None)"
      "(\<forall>fd. e \<noteq> K_close fd) \<longrightarrow> epoll s' = epoll s"
proof -
  note T = that
  have aside: thesis if "beside s s' \<and> (\<forall>fd. e = K_close fd \<longrightarrow> epoll s' = (epoll s)(fd := None)) \<and>
      ((\<forall>fd. e \<noteq> K_close fd) \<longrightarrow> epoll s' = epoll s)"
    using that T(11) by blast
  show ?thesis
  proof (cases e)
  case E_intake
  with st inv idle_no_cur [OF inv] show ?thesis
    by (cases "at_phase P_intake s") (auto simp: at_phase_def idle_phase_def intro: that(1,3))
next
  case (E_epoll fds)
  show ?thesis
  proof (cases "at_phase P_epoll s")
    case True
    with own_io_ready [OF inv, of fds] st E_epoll idle_no_cur [OF inv] show ?thesis
      by (auto simp: idle_phase_def at_phase_def intro!: that(2))
  qed (use st E_epoll that(1) in auto)
next
  case E_off
  show ?thesis
  proof (cases "at_phase P_off s")
    case True
    have "\<exists>s1. scan off_one (fibs s) s = Some s1 \<and> own_step s s1"
      by (rule own_scan [OF _ inv]) (auto intro: wakes_off_one)
    with True st E_off idle_no_cur [OF inv] show ?thesis
      by (auto simp: idle_phase_def at_phase_def intro!: that(2))
  qed (use st E_off that(1) in auto)
next
  case E_wakes
  show ?thesis
  proof (cases "at_phase P_wakes s")
    case True
    with own_drain_wakes [OF inv, of "rhead (pend s) - rtail (pend s)"] st E_wakes idle_no_cur [OF inv] show ?thesis
      by (auto simp: idle_phase_def at_phase_def intro!: that(2))
  qed (use st E_wakes that(1) in auto)
next
  case (E_deadlines now)
  show ?thesis
  proof (cases "at_phase P_deadlines s")
    case True
    have "\<exists>s1. scan (deadline_one now) (fibs s) s = Some s1 \<and> own_step s s1"
      by (rule own_scan [OF _ inv]) (auto intro: wakes_deadline_one)
    with True st E_deadlines idle_no_cur [OF inv] show ?thesis
      by (auto simp: idle_phase_def at_phase_def intro!: that(2))
  qed (use st E_deadlines that(1) in auto)
next
  case E_next
  show ?thesis
  proof (cases "\<exists>i. phase s = P_run i \<and> carrier_running s")
    case True
    then obtain i where i: "phase s = P_run i" "carrier_running s" by blast
    then have cur: "cur_fib s = None" using idle_no_cur [OF inv] by (simp add: idle_phase_def)
    have run: "run_slot i s = Some s'" using st E_next i by simp
    show ?thesis
    proof (cases "i < length (fibs s)")
      case False
      with run i cur E_next show ?thesis
        by (intro that(4) [of P_intake i]) (auto simp: run_slot_def idle_phase_def)
    next
      case len: True
      show ?thesis
      proof (cases "fibs s ! i")
        case None
        with len run i cur E_next show ?thesis
          by (intro that(4) [of "P_run (Suc i)" i]) (auto simp: run_slot_def idle_phase_def)
      next
        case (Some f)
        from inv_slot [OF inv len Some] obtain b where b: "fibers s f = Some b" by blast
        show ?thesis
        proof (cases "state b = F_NEW \<or> state b = F_RUN")
          case True
          with len Some b run i cur E_next show ?thesis
            by (intro that(5) [of i f b]) (auto simp: run_slot_def)
        next
          case False
          with len Some b run i cur E_next show ?thesis
            by (intro that(4) [of "P_run (Suc i)" i]) (auto simp: run_slot_def idle_phase_def)
        qed
      qed
    qed
  next
    case False
    with st E_next have "s' = s" by (cases "phase s") (auto split: if_splits)
    then show ?thesis by (rule that(1))
  qed
next
  case (E_resume kn)
  show ?thesis
  proof (cases "\<exists>f. running f s \<and> cont (fib s f) \<noteq> K_app")
    case True
    then obtain f where "running f s" "cont (fib s f) \<noteq> K_app" by blast
    with st E_resume show ?thesis by (intro that(7) [of kn f]) (auto simp: running_def)
  next
    case False
    with st E_resume have "s' = s"
      by (cases "phase s"; cases "cur_fib s") (auto simp: running_def split: if_splits)
    then show ?thesis by (rule that(1))
  qed
next
  case (E_call c kn)
  show ?thesis
  proof (cases "\<exists>f. running f s \<and> cont (fib s f) = K_app")
    case True
    then obtain f where "running f s" "cont (fib s f) = K_app" by blast
    with st E_call show ?thesis by (intro that(6) [of c kn f]) (auto simp: running_def)
  next
    case False
    with st E_call have "s' = s"
      by (cases "phase s"; cases "cur_fib s") (auto simp: running_def split: if_splits)
    then show ?thesis by (rule that(1))
  qed
next
  case E_exit
  show ?thesis
  proof (cases "\<exists>f. running f s \<and> cont (fib s f) = K_app")
    case True
    then obtain f where "running f s" "cont (fib s f) = K_app" by blast
    with st E_exit show ?thesis by (intro that(8) [of f]) (auto simp: running_def)
  next
    case False
    with st E_exit have "s' = s"
      by (cases "phase s"; cases "cur_fib s") (auto simp: running_def split: if_splits)
    then show ?thesis by (rule that(1))
  qed
next
  case E_unblock
  show ?thesis
  proof (cases "\<exists>i bl f. phase s = Blocked i bl \<and> cur_fib s = Some f")
    case True
    then obtain i bl f where "phase s = Blocked i bl" "cur_fib s = Some f" by blast
    with st E_unblock show ?thesis by (intro that(9) [of f i bl]) auto
  next
    case False
    with st E_unblock have "s' = s" by (cases "phase s"; cases "cur_fib s") auto
    then show ?thesis by (rule that(1))
  qed
next
  case (T_create en a)
  with st show ?thesis by (intro that(10) [of en a]) auto
qed (rule aside, use st in \<open>auto simp: beside_def thread_reserve_def thread_store_def take_mutex_def
    drop_mutex_def take_rd_def take_wr_def drop_rw_def set_specific_def Let_def split: if_splits\<close>)+
qed

section \<open>A fiber that is not running\<close>

lemma moves_other: "moves f s s' \<Longrightarrow> h \<noteq> f \<Longrightarrow> fibers s' h = fibers s h"
  unfolding moves_def stays_def parks_def by (metis fun_upd_other)

lemma moves_frame: "moves f s s' \<Longrightarrow> fibs s' = fibs s \<and> conf s' = conf s \<and> newq s' = newq s"
  by (auto simp: moves_def stays_def parks_def same_view_def)

lemma running_not_entry:
  assumes "rt_inv s" "running f s" "cont (fib s f) \<noteq> K_app" "cont (fib s f) \<noteq> K_entry"
  shows "moves f s (resume f kn s)"
proof -
  from running_fib [OF assms(1,2)] obtain b where "fibers s f = Some b" "fib s f = b" by metis
  with resume_moves assms show ?thesis by metis
qed

text \<open>A call is a move of the caller, or a signal: a wake and a return.\<close>

lemma call_cases:
  assumes "rt_inv s" "running f s" "fib_call f c kn s = Some s'"
  shows "moves f s s' \<or> (\<exists>cv s1. c = C_cond_signal cv \<and> wake_fibers cv s = Some s1 \<and> own_step s s1 \<and>
    s' = return_to f 0 s1)"
proof (cases "\<exists>cv. c = C_cond_signal cv")
  case False
  from running_fib [OF assms(1,2)] obtain b where "fibers s f = Some b" by metis
  with call_moves assms(3) False show ?thesis by blast
next
  case True
  then obtain cv where c: "c = C_cond_signal cv" ..
  from running_fib [OF assms(1,2)] obtain b where b: "fibers s f = Some b" by metis
  show ?thesis
  proof (cases "g_nocond (conf s)")
    case True
    with assms(3) c b stays_return [OF b] show ?thesis
      by (auto simp: fib_call_def cond_signal_def moves_def)
  next
    case False
    with own_wake_fibers [OF assms(1), of cv] assms(3) c show ?thesis
      by (auto simp: fib_call_def cond_signal_def)
  qed
qed

lemma step_other:
  assumes inv: "rt_inv s" and st: "rt_step e s = Some s'"
    and b: "fibers s h = Some b" and h: "Some h \<in> set (fibs s)" and cur: "cur_fib s \<noteq> Some h"
  shows "(\<exists>b'. fibers s' h = Some b' \<and> bystander b b') \<and> Some h \<in> set (fibs s')"
proof -
  have same: ?thesis if "fibers s' h = fibers s h" "fibs s' = fibs s"
    using that b h by (auto intro: exI [of _ b])
  have neq: "h \<noteq> f" if "running f s" for f using that cur by (auto simp: running_def)
  from inv st show ?thesis
  proof (cases rule: step_cases)
    case (own s1 p)
    with b h show ?thesis by (simp add: own_step_def)
  next
    case (intake s1)
    note i = inv_intake [OF inv intake(2,3)]
    have "h \<notin> set (newq s)" using inv_new [OF inv] h by blast
    with i intake(4) b h show ?thesis by (auto intro: exI [of _ b])
  next
    case (enter i f b')
    with same show ?thesis by (simp add: enter_fiber_def)
  next
    case (call f c kn)
    from call_cases [OF inv call(2,4)] show ?thesis
    proof
      assume "moves f s s'"
      with same moves_other [OF _ neq [OF call(2)]] moves_frame show ?thesis by metis
    next
      assume "\<exists>cv s1. c = C_cond_signal cv \<and> wake_fibers cv s = Some s1 \<and> own_step s s1 \<and> s' = return_to f 0 s1"
      then obtain s1 where "own_step s s1" "s' = return_to f 0 s1" by blast
      with b h neq [OF call(2)] show ?thesis
        by (auto simp: own_step_def return_to_def upd_fib_def)
    qed
  next
    case (resume f kn)
    show ?thesis
    proof (cases "cont (fib s f) = K_entry")
      case False
      from running_not_entry [OF inv resume(2,3) False, of kn] resume(4) have "moves f s s'" by simp
      with same moves_other [OF _ neq [OF resume(2)]] moves_frame show ?thesis by metis
    next
      case True
      have k: "s' = fib_exit f s \<or> s' = upd_fib f (\<lambda>b. b\<lparr>cont := K_app\<rparr>) s"
        using True resume(4) by (simp add: resume_def split: if_splits)
      show ?thesis
      proof (cases "s' = fib_exit f s")
        case ex: True
        from running_fib [OF inv resume(2)] obtain i where i: "phase s = In_fiber i" "fibs s ! i = Some f" by metis
        have "Some h \<in> set ((fibs s)[i := None])"
          using h i(2) neq [OF resume(2)] by (metis in_set_conv_nth length_list_update nth_list_update_neq option.inject)
        with ex b i neq [OF resume(2)] show ?thesis by (auto simp: fib_exit_def run_index_def intro: exI [of _ b])
      next
        case False
        with k neq [OF resume(2)] same show ?thesis by (simp add: upd_fib_def)
      qed
    qed
  next
    case (exit f)
    from running_fib [OF inv exit(2)] obtain i where i: "phase s = In_fiber i" "fibs s ! i = Some f" by metis
    have "Some h \<in> set ((fibs s)[i := None])"
      using h i(2) neq [OF exit(2)] by (metis in_set_conv_nth length_list_update nth_list_update_neq option.inject)
    with exit b i neq [OF exit(2)] show ?thesis by (auto simp: fib_exit_def run_index_def intro: exI [of _ b])
  next
    case (unblock i f bl)
    have "h \<noteq> f" using unblock cur by auto
    with unblock same show ?thesis
      by (auto simp: unblock_def return_to_def upd_fib_def take_mutex_def take_rd_def take_wr_def Let_def
          split: block.splits)
  next
    case (create en a)
    have "h \<noteq> next_fib s" using inv_heap [OF inv b] by auto
    with create same show ?thesis by (auto simp: pthread_create_def Let_def)
  qed (use same in \<open>auto simp: beside_def\<close>)
qed

lemma step_conf:
  assumes inv: "rt_inv s" and st: "rt_step e s = Some s'"
  shows "conf s' = conf s"
  using inv st
proof (cases rule: step_cases)
  case (call f c kn)
  from call_cases [OF inv call(2,4)] show ?thesis
    by (auto simp: own_step_def return_to_def upd_fib_def dest: moves_frame)
next
  case (resume f kn)
  show ?thesis
  proof (cases "cont (fib s f) = K_entry")
    case False
    from running_not_entry [OF inv resume(2,3) False, of kn] resume(4) show ?thesis by (auto dest: moves_frame)
  qed (use resume(4) in \<open>auto simp: resume_def fib_exit_def upd_fib_def Let_def split: if_splits\<close>)
next
  case (intake s1)
  from inv_intake [OF inv intake(2,3)] intake(4) show ?thesis by simp
qed (auto simp: own_step_def enter_fiber_def fib_exit_def unblock_def return_to_def upd_fib_def take_mutex_def
    take_rd_def take_wr_def pthread_create_def beside_def Let_def split: block.splits)

lemma run_inv: "rt_inv s \<Longrightarrow> rt_run es s = Some s' \<Longrightarrow> rt_inv s' \<and> conf s' = conf s"
proof (induction es arbitrary: s)
  case (Cons e es)
  then obtain s1 where s1: "rt_step e s = Some s1" "rt_run es s1 = Some s'"
    by (auto split: option.splits)
  from Cons.IH [OF inv_step [OF Cons.prems(1) s1(1)] s1(2)] step_conf [OF Cons.prems(1) s1(1)]
  show ?case by simp
qed simp

text \<open>A fiber that no step of a run finds running keeps its own data through the run.\<close>

fun never_runs :: "nat \<Rightarrow> 'd event list \<Rightarrow> ('q, 'd) rt \<Rightarrow> bool" where
  "never_runs h [] s \<longleftrightarrow> True"
| "never_runs h (e # es) s \<longleftrightarrow> cur_fib s \<noteq> Some h \<and>
     (case rt_step e s of None \<Rightarrow> True | Some s' \<Rightarrow> never_runs h es s')"

lemma run_other:
  assumes "rt_inv s" "rt_run es s = Some s'" "never_runs h es s" "fibers s h = Some b" "Some h \<in> set (fibs s)"
  shows "(\<exists>b'. fibers s' h = Some b' \<and> bystander b b') \<and> Some h \<in> set (fibs s')"
  using assms
proof (induction es arbitrary: s b)
  case Nil
  then show ?case by (auto intro: exI [of _ b])
next
  case (Cons e es)
  from Cons.prems(2) obtain s1 where s1: "rt_step e s = Some s1" "rt_run es s1 = Some s'"
    by (auto split: option.splits)
  with Cons.prems(3) have nr: "cur_fib s \<noteq> Some h" "never_runs h es s1" by auto
  from step_other [OF Cons.prems(1) s1(1) Cons.prems(4,5) nr(1)] obtain b1 where
    b1: "fibers s1 h = Some b1" "bystander b b1" "Some h \<in> set (fibs s1)" by blast
  from Cons.IH [OF inv_step [OF Cons.prems(1) s1(1)] s1(2) nr(2) b1(1,3)] b1(2) show ?case
    using bystander_trans by blast
qed

end
