(* ===== verification/RuntimeSafe.thy ===== *)
theory RuntimeSafe
  imports RuntimeInv
begin

text \<open>
  What the runtime of \<open>Runtime\<close> guarantees in every reachable state, whatever the program, the real
  threads and the kernel do: the carrier never uses freed memory and never blocks, and a fiber finds
  its own \<open>errno\<close> and its own thread-specific data when it goes on.
\<close>

section \<open>Memory safety\<close>

definition live :: "('q, 'd) rt \<Rightarrow> nat \<Rightarrow> bool" where
  "live s f \<longleftrightarrow> fibers s f \<noteq> None"

text \<open>C1: The carrier never touches a freed fiber. In every reachable state each entry of \<open>fibs\<close> and
  \<open>newq\<close>, each armed registration and the running fiber is live, and every further step is defined as
  long as the intake finds a free slot and an offload finds its accelerator.\<close>

theorem carrier_memory_safe:
  assumes "reachable s" "step_fits e s"
  shows "rt_step e s \<noteq> None \<and>
    (\<forall>f. (Some f \<in> set (fibs s) \<or> f \<in> set (newq s) \<or> (\<exists>fd ev. epoll s fd = Some (f, ev, True)) \<or>
          cur_fib s = Some f) \<longrightarrow> live s f)"
proof -
  have inv: "rt_inv s" using assms(1) by (rule reachable_inv)
  have "live s f" if "cur_fib s = Some f" for f
  proof -
    have "\<exists>i. i < length (fibs s) \<and> fibs s ! i = Some f"
      using that inv unfolding rt_inv_def phase_inv_def by (metis option.distinct(1))
    then obtain i where "i < length (fibs s)" "fibs s ! i = Some f" by blast
    from inv_slot [OF inv this] show ?thesis by (auto simp: live_def)
  qed
  moreover have "live s f" if "Some f \<in> set (fibs s)" for f
    using inv_member [OF inv that] by (auto simp: live_def)
  moreover have "live s f" if "f \<in> set (newq s)" for f
    using inv_new [OF inv that] by (auto simp: live_def)
  moreover have "live s f" if "epoll s fd = Some (f, ev, True)" for f fd ev
    using inv_armed [OF inv that] by (auto simp: live_def)
  ultimately show ?thesis using step_defined [OF inv assms(2)] by blast
qed

text \<open>A small program for the instances: a server that accepts and makes two connection fibers.\<close>

definition boot0 :: "environ \<Rightarrow> (unit, unit) rt" where
  "boot0 env = init env \<lparr>ssl_f = \<lparr>ssl_err_get = None, ssl_err_clear = None, ssl_err_put = None\<rparr>,
       accel_submit_f = Some (\<lambda>b n d. (0, d)), accel_done_f = Some (\<lambda>k d. True),
       accel_release_f = Some (\<lambda>k d. d)\<rparr>
     (\<lambda>_. True) (\<lambda>_. \<lparr>mrec = False, mowner = None, mcount = 0\<rparr>) () () 4096 None None"

definition kern0 :: kern where
  "kern0 = \<lparr>kres = Val 0, now_rt = \<lparr>tv_sec = 0, tv_nsec = 0\<rparr>, now_other = \<lparr>tv_sec = 0, tv_nsec = 0\<rparr>\<rparr>"

definition eagain :: kern where
  "eagain = kern0\<lparr>kres := Err EAGAIN\<rparr>"

definition poll_phases :: "unit event list" where
  "poll_phases = [E_epoll [], E_off, E_wakes, E_deadlines \<lparr>tv_sec = 0, tv_nsec = 0\<rparr>]"

definition two_conns :: "unit event list" where
  "two_conns = [T_accept, T_create (Some 7) 1, T_create (Some 7) 2, E_intake] @ poll_phases @ [E_next, E_resume kern0]"

lemma rt_run_append:
  "rt_run (xs @ ys) s = (case rt_run xs s of None \<Rightarrow> None | Some s' \<Rightarrow> rt_run ys s')"
  by (induction xs arbitrary: s) (auto split: option.splits)

lemmas rt_eval = boot0_def kern0_def eagain_def poll_phases_def two_conns_def init_def start_carrier_def
  init_conf_def resolve_def det_init_def det0_def ring_empty_def Let_def at_phase_def intake_def MAXFIB_def
  makes_fiber_def pthread_create_def new_fiber_def upd_fib_def fib_def wake_fibers_def drain_wakes.simps
  off_one_def deadline_one_def wake_one_def run_slot_def enter_fiber_def det_reprotect_def set_active_def
  det_set_fiber_def resume_def fib_call_def return_to_def io_try_def EAGAIN_def yield_io_def arm_def
  switch_out_def count_switch_def save_tls_def tls_save_def restore_tls_def tls_restore_def run_index_def
  fib_read_def fib_write_def fib_sock_def setnb_def enforcing_def real_call_def io_ev_def
  hl_acquire_read_def hl_release_def yield_run_def mutex_lock_def mutex_free_def take_mutex_def
  drop_mutex_def cond_wait_def fiber_cond_wait_def cond_signal_def cond_result_def fib_exit_def
  yield_off_def fib_accel_def det_park_def thread_reserve_def thread_store_def ring_get_def

lemma two_conns_ok:
  "\<exists>s. rt_run two_conns (boot0 (\<lambda>_. None)) = Some s \<and> phase s = In_fiber 0 \<and> cur_fib s = Some 1 \<and>
     fibs s = [Some 1, Some 2] \<and> cont (fib s 1) = K_app \<and>
     \<not> may_block (conf s)"
  by (simp add: rt_eval may_block_def)

lemma boot0_reachable: "rt_run es (boot0 env) = Some s \<Longrightarrow> reachable s"
  by (rule reachable_run [OF reachable.boot]) (simp add: boot0_def)

theorem carrier_memory_safe_witness:
  "\<exists>s. rt_run two_conns (boot0 (\<lambda>_. None)) = Some s \<and> live s 1 \<and> live s 2 \<and> rt_step E_exit s \<noteq> None"
proof -
  obtain s where s: "rt_run two_conns (boot0 (\<lambda>_. None)) = Some s" "cur_fib s = Some 1" "fibs s = [Some 1, Some 2]"
    using two_conns_ok by blast
  have "step_fits E_exit s" by (simp add: step_fits_def)
  note safe = carrier_memory_safe [OF boot0_reachable [OF s(1)] this]
  with s(3) have "live s 1" "live s 2" by auto
  with s(1) conjunct1 [OF safe] show ?thesis by blast
qed

lemma moves_phase:
  "moves f s s' \<Longrightarrow> \<not> may_block (conf s) \<Longrightarrow> phase s = In_fiber j \<Longrightarrow> phase s' \<noteq> Blocked i bl"
  by (auto simp: moves_def stays_def parks_def)



section \<open>What a parked fiber finds when it goes on\<close>

lemma park_step:
  assumes inv: "rt_inv s" and st: "rt_step e s = Some s1" and cur: "cur_fib s = Some f"
    and out: "cur_fib s1 = None" and b: "fibers s1 f = Some b"
  shows "parks f s s1 \<and> running f s"
  using inv st
proof (cases rule: step_cases)
  case (call g c kn)
  then have [simp]: "g = f" using cur by (simp add: running_def)
  from call_cases [OF inv call(2,4)] out cur call(2) show ?thesis
    by (auto simp: moves_def stays_def same_view_def own_step_def return_to_def upd_fib_def)
next
  case (resume g kn)
  then have [simp]: "g = f" using cur by (simp add: running_def)
  show ?thesis
  proof (cases "cont (fib s f) = K_entry")
    case False
    from running_not_entry [OF inv resume(2,3), of kn] False resume(2,4) cur out show ?thesis
      by (auto simp: moves_def stays_def same_view_def)
  next
    case True
    with resume(4) out b cur show ?thesis
      by (auto simp: resume_def fib_exit_def upd_fib_def Let_def split: if_splits)
  qed
next
  case (exit g)
  then have "g = f" using cur by (simp add: running_def)
  with exit(4) b show ?thesis by (simp add: fib_exit_def Let_def)
qed (use cur out in \<open>auto simp: own_step_def enter_fiber_def unblock_def return_to_def upd_fib_def take_mutex_def
    take_rd_def take_wr_def pthread_create_def beside_def Let_def split: block.splits if_splits\<close>)

lemma entered:
  assumes inv: "rt_inv s" and st: "rt_step E_next s = Some s'" and cur: "cur_fib s \<noteq> Some f" "cur_fib s' = Some f"
  shows "fibers s' = fibers s \<and> running f s'"
  using inv st cur
  by (cases rule: step_cases) (auto simp: enter_fiber_def running_def own_step_def fib_exit_def beside_def)

text \<open>The places in the code behind a yield that go on without a further system call.\<close>

definition yielded :: "cont \<Rightarrow> bool" where
  "yielded k \<longleftrightarrow> (case k of K_off \<Rightarrow> True | K_poll ev \<Rightarrow> True | K_poll_inf ev \<Rightarrow> True | K_mutex m \<Rightarrow> True
     | K_cond_lock m t o' \<Rightarrow> True | K_rd l \<Rightarrow> True | K_wr l \<Rightarrow> True | _ \<Rightarrow> False)"

lemma restore_errno [simp]: "errno (restore_tls f s) = serr (farea (fib s f))"
  by (simp add: restore_tls_view tls_restore_def split: option.splits)

lemma errno_frames [simp]:
  "errno (upd_fib f g s) = errno s" "errno (return_to f r s) = errno s" "errno (take_mutex t m s) = errno s"
  "errno (take_rd l s) = errno s" "errno (take_wr l s) = errno s" "errno (block_on bl s) = errno s"
  "errno (yield_run f k s) = errno s"
  by (simp_all add: upd_fib_def return_to_def take_mutex_def take_rd_def take_wr_def block_on_def yield_run_def
      switch_out_def count_switch_def save_tls_view)

lemma resume_errno:
  "yielded (cont (fib s f)) \<Longrightarrow> errno (resume f kn s) = serr (farea (fib s f))"
  by (auto simp: resume_def yielded_def mutex_lock_def rwlock_rdlock_def rwlock_wrlock_def Let_def split: cont.splits)


text \<open>A run in which the first connection fails a read with \<open>errno\<close> 5 and then offloads, and the second
  fails a read with \<open>errno\<close> 9 and ends.\<close>

definition after_park :: "unit event list" where
  "after_park = [E_next, E_resume kern0, E_call (C_io Read 6) (kern0\<lparr>kres := Err 9\<rparr>), E_exit, E_next, E_intake] @
     poll_phases"

definition until_park :: "unit event list" where
  "until_park = two_conns @ [E_call (C_io Read 5) (kern0\<lparr>kres := Err 5\<rparr>)]"

lemma park_run:
  "\<exists>s s1 s2 s3. rt_run until_park (boot0 (\<lambda>_. None)) = Some s \<and> cur_fib s = Some 1 \<and>
     rt_step (E_call (C_accel 0 16) kern0) s = Some s1 \<and> cur_fib s1 = None \<and>
     (\<exists>b. fibers s1 1 = Some b \<and> cont b = K_off) \<and> errno s1 = 5 \<and>
     rt_run after_park s1 = Some s2 \<and> never_runs 1 after_park s1 \<and> cur_fib s2 \<noteq> Some 1 \<and> errno s2 = 9 \<and>
     rt_step E_next s2 = Some s3 \<and> cur_fib s3 = Some 1"
  by (simp add: until_park_def after_park_def rt_eval)


definition cond_run :: "unit event list" where
  "cond_run = two_conns @
     [E_call (C_mutex_lock 3) kern0, E_call (C_io Read 5) (kern0\<lparr>kres := Err 5\<rparr>)]"

definition cond_rest :: "unit event list" where
  "cond_rest = [E_next, E_resume kern0, E_call (C_io Read 6) (kern0\<lparr>kres := Err 9\<rparr>), E_call (C_cond_signal 4) kern0,
      E_exit, E_next, E_intake] @ poll_phases @ [E_next, E_resume kern0]"

text \<open>The condition wait is the exception: \<open>fiber_cond_wait\<close> switches without saving or restoring the
  thread-local state. In this run the first connection waits on a condition with \<open>errno\<close> 5, the second
  fails a read with \<open>errno\<close> 9 and signals, and the first one's wait returns 0 with \<open>errno\<close> 9.\<close>

theorem cond_wait_leaks_errno:
  "\<exists>s s1 s2. rt_run cond_run (boot0 (\<lambda>_. None)) = Some s \<and> cur_fib s = Some 1 \<and> errno s = 5 \<and>
     rt_step (E_call (C_cond_wait 4 3 None) kern0) s = Some s1 \<and> cur_fib s1 = None \<and>
     rt_run cond_rest s1 = Some s2 \<and> cur_fib s2 = Some 1 \<and> cont (fib s2 1) = K_app \<and>
     ret (fib s2 1) = 0 \<and> errno s2 = 9"
  by (simp add: cond_run_def cond_rest_def rt_eval)

section \<open>Thread-specific data\<close>

text \<open>The thread-specific data of a fiber, as the operations change it.\<close>

definition tls_of :: "('q, 'd) rt \<Rightarrow> nat \<Rightarrow> (nat \<Rightarrow> nat) option" where
  "tls_of s f = map_option ftls (fibers s f)"

lemma tls_of_upd: "(\<And>b. ftls (g b) = ftls b) \<Longrightarrow> tls_of (upd_fib h g s) = tls_of s"
proof -
  assume g: "\<And>b. ftls (g b) = ftls b"
  show ?thesis by (rule ext) (simp add: tls_of_def upd_fib_def g option.map_comp comp_def)
qed

lemma tls_of_frames [simp]:
  "tls_of (s\<lparr>errno := a1\<rparr>) = tls_of s" "tls_of (s\<lparr>errq := a2\<rparr>) = tls_of s" "tls_of (s\<lparr>cur_fib := a3\<rparr>) = tls_of s"
  "tls_of (s\<lparr>phase := a4\<rparr>) = tls_of s" "tls_of (s\<lparr>g_switches := a5\<rparr>) = tls_of s" "tls_of (s\<lparr>epoll := a6\<rparr>) = tls_of s"
  "tls_of (s\<lparr>dt := a7\<rparr>) = tls_of s" "tls_of (s\<lparr>dev := a8\<rparr>) = tls_of s" "tls_of (s\<lparr>mutexes := a9\<rparr>) = tls_of s"
  "tls_of (s\<lparr>rwlocks := b1\<rparr>) = tls_of s" "tls_of (s\<lparr>nonblock := b2\<rparr>) = tls_of s"
  "tls_of (s\<lparr>hlock_owner := b3\<rparr>) = tls_of s" "tls_of (s\<lparr>g_serving := b4\<rparr>) = tls_of s"
  "tls_of (s\<lparr>real_tls := b5\<rparr>) = tls_of s"
  by (simp_all add: tls_of_def fun_eq_iff)

lemma tls_of_ops [simp]:
  "tls_of (save_tls f s) = tls_of s" "tls_of (restore_tls f s) = tls_of s" "tls_of (switch_out f k s) = tls_of s"
  "tls_of (count_switch s) = tls_of s" "tls_of (arm fd ev f s) = tls_of s" "tls_of (return_to f r s) = tls_of s"
  "tls_of (take_mutex t m s) = tls_of s" "tls_of (drop_mutex m s) = tls_of s" "tls_of (take_rd l s) = tls_of s"
  "tls_of (take_wr l s) = tls_of s" "tls_of (drop_rw l s) = tls_of s" "tls_of (block_on bl s) = tls_of s"
  "tls_of (setnb fd s) = tls_of s" "tls_of (hl_release f s) = tls_of s"
  by (simp_all add: save_tls_view restore_tls_view switch_out_def count_switch_def arm_def return_to_def
      take_mutex_def drop_mutex_def take_rd_def take_wr_def drop_rw_def block_on_def setnb_def hl_release_def
      tls_of_upd Let_def)

lemma tls_of_yields [simp]:
  "tls_of (yield_io f fd ev k s) = tls_of s" "tls_of (yield_io_to f fd ev es ms now s) = tls_of s"
  "tls_of (yield_off f oid s) = tls_of s" "tls_of (yield_run f k s) = tls_of s"
  by (simp_all add: yield_io_def yield_io_to_def yield_off_def yield_run_def tls_of_upd Let_def)

lemma tls_of_calls [simp]:
  "tls_of (real_call f r s) = tls_of s" "tls_of (io_try f kd fd r s) = tls_of s"
  "tls_of (mutex_lock f m k r' s) = tls_of s" "tls_of (rwlock_rdlock f l s) = tls_of s"
  "tls_of (rwlock_wrlock f l s) = tls_of s" "tls_of (fiber_cond_wait f c m ab kn s) = tls_of s"
  by (auto simp: real_call_def io_try_def mutex_lock_def rwlock_rdlock_def rwlock_wrlock_def fiber_cond_wait_def
      tls_of_upd Let_def split: sysres.splits option.splits)

lemma tls_of_calls2 [simp]:
  "tls_of (hl_acquire_read f fd r s) = tls_of s" "tls_of (fib_read f fd r s) = tls_of s"
  "tls_of (fib_write f fd r s) = tls_of s" "tls_of (fib_sock f kd fd r s) = tls_of s"
  "tls_of (fib_poll f fd ev n t kn s) = tls_of s" "tls_of (cond_wait f c m ab kn s) = tls_of s"
  by (simp_all add: hl_acquire_read_def fib_read_def fib_write_def fib_sock_def fib_poll_def cond_wait_def Let_def)

lemma call_tls:
  assumes "fib_call f c kn s = Some s'" "\<forall>cv. c \<noteq> C_cond_signal cv" "\<forall>k v. c \<noteq> C_setspecific k v"
  shows "tls_of s' = tls_of s"
  using assms
  by (cases c) (auto simp: fib_call_def fib_accel_def pthread_create_def makes_fiber_def Let_def
      split: if_splits iok.splits option.splits prod.splits sysres.splits)

lemma resume_tls:
  "cont (fib s f) \<noteq> K_entry \<Longrightarrow> tls_of (resume f kn s) = tls_of s"
  by (auto simp: resume_def tls_of_upd Let_def split: cont.splits)

definition sets_key :: "nat \<Rightarrow> nat \<Rightarrow> 'd event \<Rightarrow> ('q, 'd) rt \<Rightarrow> bool" where
  "sets_key f k e s \<longleftrightarrow> cur_fib s = Some f \<and> (case e of E_call c kn \<Rightarrow> (case c of C_setspecific k' v \<Rightarrow> k' = k | _ \<Rightarrow> False) | _ \<Rightarrow> False)"

lemma own_tls: "own_step s s1 \<Longrightarrow> fibers s f = Some b \<Longrightarrow> \<exists>b'. fibers s1 f = Some b' \<and> ftls b' = ftls b"
  unfolding own_step_def bystander_def by blast

lemma step_tls:
  assumes inv: "rt_inv s" and st: "rt_step e s = Some s'" and b: "fibers s f = Some b" and b': "fibers s' f = Some b'"
    and k: "\<not> sets_key f k e s" and f: "Some f \<in> set (fibs s)"
  shows "ftls b' k = ftls b k \<and> Some f \<in> set (fibs s')"
proof (cases "cur_fib s = Some f")
  case False
  from step_other [OF inv st b f False] b' show ?thesis by (auto simp: bystander_def)
next
  case cur: True
  have eq: ?thesis if "tls_of s' = tls_of s" "fibs s' = fibs s"
    using that(1) [THEN fun_cong, of f] that(2) b b' f by (simp add: tls_of_def)
  from inv st show ?thesis
  proof (cases rule: step_cases)
    case (call g c kn)
    then have [simp]: "g = f" using cur by (simp add: running_def)
    from call_cases [OF inv call(2,4)] show ?thesis
    proof
      assume m: "moves g s s'"
      consider (set) k' v where "c = C_setspecific k' v" | (sig) cv where "c = C_cond_signal cv"
        | (other) "\<forall>cv. c \<noteq> C_cond_signal cv" "\<forall>k v. c \<noteq> C_setspecific k v" by blast
      then show ?thesis
      proof cases
        case set
        with k call(1) cur have "k' \<noteq> k" by (simp add: sets_key_def)
        with call(4) set b b' f show ?thesis
          by (auto simp: fib_call_def set_specific_def return_to_def upd_fib_def split: if_splits)
      next
        case sig
        with call(4) m b b' f show ?thesis
        proof (cases "g_nocond (conf s)")
          case True
          with sig call(4) b b' f show ?thesis by (auto simp: fib_call_def cond_signal_def return_to_def upd_fib_def)
        next
          case False
          from own_wake_fibers [OF inv, of cv] obtain s1 where
            s1: "wake_fibers cv s = Some s1" "own_step s s1" by blast
          from own_tls [OF s1(2) b] obtain b1 where "fibers s1 f = Some b1" "ftls b1 = ftls b" by blast
          with s1 sig call(4) False b' f show ?thesis
            by (auto simp: fib_call_def cond_signal_def return_to_def upd_fib_def own_step_def)
        qed
      next
        case other
        from call_tls [OF call(4) other] moves_frame [OF m] show ?thesis by (intro eq) simp_all
      qed
    next
      assume "\<exists>cv s1. c = C_cond_signal cv \<and> wake_fibers cv s = Some s1 \<and> own_step s s1 \<and> s' = return_to g 0 s1"
      then obtain s1 where s1: "own_step s s1" "s' = return_to f 0 s1" by auto
      from own_tls [OF s1(1) b] obtain b1 where "fibers s1 f = Some b1" "ftls b1 = ftls b" by blast
      with s1 b' f show ?thesis by (auto simp: return_to_def upd_fib_def own_step_def)
    qed
  next
    case (resume g kn)
    then have [simp]: "g = f" using cur by (simp add: running_def)
    show ?thesis
    proof (cases "cont (fib s f) = K_entry")
      case False
      with resume_tls [of s f kn] resume running_not_entry [OF inv resume(2,3), of kn] show ?thesis
        by (intro eq) (auto dest: moves_frame)
    next
      case True
      with resume(4) b b' f show ?thesis
        by (auto simp: resume_def fib_exit_def upd_fib_def Let_def split: if_splits)
    qed
  next
    case (exit g)
    then have "g = f" using cur by (simp add: running_def)
    with exit(4) b' show ?thesis by (simp add: fib_exit_def Let_def)
  next
    case (unblock i g bl)
    have "tls_of s' = tls_of s" "fibs s' = fibs s"
      unfolding unblock(4) by (auto simp: unblock_def return_to_def upd_fib_def take_mutex_def take_rd_def
          take_wr_def tls_of_def fun_eq_iff option.map_comp comp_def Let_def split: block.splits)
    then show ?thesis by (rule eq)
  next
    case (create en a)
    have "f \<noteq> next_fib s" using inv_heap [OF inv b] by simp
    with create(2) b b' f show ?thesis by (auto simp: pthread_create_def Let_def split: if_splits)
  qed (use cur b b' f in \<open>auto simp: enter_fiber_def beside_def\<close>)
qed

text \<open>A run through which the fiber lives and in which it does not set the key.\<close>

fun keeps_key :: "nat \<Rightarrow> nat \<Rightarrow> 'd event list \<Rightarrow> ('q, 'd) rt \<Rightarrow> bool" where
  "keeps_key f k [] s \<longleftrightarrow> fibers s f \<noteq> None"
| "keeps_key f k (e # es) s \<longleftrightarrow> fibers s f \<noteq> None \<and> \<not> sets_key f k e s \<and>
     (case rt_step e s of None \<Rightarrow> True | Some s' \<Rightarrow> keeps_key f k es s')"

lemma keeps_key_alive: "keeps_key f k es s \<Longrightarrow> fibers s f \<noteq> None"
  by (cases es) auto

lemma run_tls:
  assumes "rt_inv s" "rt_run es s = Some s'" "keeps_key f k es s" "fibers s f = Some b" "Some f \<in> set (fibs s)"
  shows "\<exists>b'. fibers s' f = Some b' \<and> ftls b' k = ftls b k"
  using assms
proof (induction es arbitrary: s b)
  case (Cons e es)
  from Cons.prems(2) obtain s1 where s1: "rt_step e s = Some s1" "rt_run es s1 = Some s'"
    by (auto split: option.splits)
  with Cons.prems(3) have kk: "keeps_key f k es s1" "\<not> sets_key f k e s" by auto
  from keeps_key_alive [OF kk(1)] obtain b1 where b1: "fibers s1 f = Some b1" by auto
  from step_tls [OF Cons.prems(1) s1(1) Cons.prems(4) b1 kk(2) Cons.prems(5)]
    Cons.IH [OF inv_step [OF Cons.prems(1) s1(1)] s1(2) kk(1) b1] show ?case by auto
qed auto

text \<open>Thread-specific data is the fiber's own. What a fiber stores under a key with
  \<open>pthread_setspecific\<close> is what \<open>pthread_getspecific\<close> returns to it later, whatever the other fibers and
  the real threads store under the same key meanwhile, as long as it does not store there again itself.\<close>

theorem tls_private:
  assumes "reachable s" "running f s" "cont (fib s f) = K_app" "\<not> g_notls (conf s)" "k < 128"
    and "rt_step (E_call (C_setspecific k v) kn) s = Some s1"
    and "rt_run es s1 = Some s2" "keeps_key f k es s1" "running f s2" "cont (fib s2 f) = K_app"
  shows "\<exists>s3. rt_step (E_call (C_getspecific k) kn') s2 = Some s3 \<and> ret (fib s3 f) = int v"
proof -
  have inv: "rt_inv s" using assms(1) by (rule reachable_inv)
  from running_fib [OF inv assms(2)] obtain b i where b: "fibers s f = Some b" "phase s = In_fiber i"
    "i < length (fibs s)" "fibs s ! i = Some f" by metis
  have inv1: "rt_inv s1" using inv_step [OF inv assms(6)] .
  have s1: "fibers s1 f = Some (b\<lparr>ftls := (ftls b)(k := v), ret := 0, cont := K_app\<rparr>)" "fibs s1 = fibs s"
    using assms(2-6) b by (auto simp: running_def fib_call_def set_specific_def return_to_def upd_fib_def)
  have "Some f \<in> set (fibs s1)" using b(3,4) s1(2) nth_mem by metis
  from run_tls [OF inv1 assms(7,8) s1(1) this] obtain b2 where b2: "fibers s2 f = Some b2" "ftls b2 k = v" by auto
  have "conf s2 = conf s" using run_inv [OF inv1 assms(7)] step_conf [OF inv assms(6)] by simp
  with assms(4,5,9,10) b2 show ?thesis
    by (auto simp: running_def fib_call_def get_specific_def return_to_def upd_fib_def fib_def)
qed

definition tls_rest :: "unit event list" where
  "tls_rest = [E_call (C_accel 0 16) kern0, E_next, E_resume kern0, E_call (C_setspecific 2 99) kern0, E_exit,
     T_setspecific 3 2 98, E_next, E_intake] @ poll_phases @ [E_next, E_resume kern0]"

lemma tls_prog:
  "\<exists>s s1 s2. rt_run two_conns (boot0 (\<lambda>_. None)) = Some s \<and> running 1 s \<and> cont (fib s 1) = K_app \<and>
     \<not> g_notls (conf s) \<and> rt_step (E_call (C_setspecific 2 7) kern0) s = Some s1 \<and>
     rt_run tls_rest s1 = Some s2 \<and> keeps_key 1 2 tls_rest s1 \<and> running 1 s2 \<and> cont (fib s2 1) = K_app"
  by (simp add: tls_rest_def rt_eval running_def sets_key_def set_specific_def)

theorem tls_private_witness:
  "\<exists>s2 s3. rt_step (E_call (C_getspecific 2) kern0) (s2 :: (unit, unit) rt) = Some s3 \<and> ret (fib s3 1) = 7"
proof -
  obtain s s1 s2 where r: "rt_run two_conns (boot0 (\<lambda>_. None)) = Some s" "running 1 s" "cont (fib s 1) = K_app"
    "\<not> g_notls (conf s)" "rt_step (E_call (C_setspecific 2 7) kern0) s = Some s1"
    "rt_run tls_rest s1 = Some s2" "keeps_key 1 2 tls_rest s1" "running 1 s2" "cont (fib s2 1) = K_app"
    using tls_prog by blast
  have "(2::nat) < 128" by simp
  from tls_private [OF boot0_reachable [OF r(1)] r(2,3,4) this r(5-9), of kern0] show ?thesis by auto
qed

end
