(* ===== verification/RuntimeIO.thy ===== *)
theory RuntimeIO
  imports RuntimeSafe
begin

text \<open>
  Waiting for a descriptor in the runtime of \<open>Runtime\<close>: a fiber that waits alone on a descriptor is woken
  when the descriptor is ready, and every runnable fiber is entered once in each pass of the carrier. A
  second fiber that waits on the same descriptor takes the registration over, and the first one is
  never woken again.
\<close>

section \<open>The registration of a waiting fiber\<close>

definition waits_io :: "('q, 'd) rt \<Rightarrow> nat \<Rightarrow> int \<Rightarrow> bool" where
  "waits_io s f fd \<longleftrightarrow> (\<exists>b. fibers s f = Some b \<and> state b = F_WAIT_IO \<and> ffd b = fd)"

definition fd_exclusive :: "('q, 'd) rt \<Rightarrow> bool" where
  "fd_exclusive s \<longleftrightarrow> (\<forall>f g fd. waits_io s f fd \<longrightarrow> waits_io s g fd \<longrightarrow> f = g)"

definition io_armed :: "('q, 'd) rt \<Rightarrow> bool" where
  "io_armed s \<longleftrightarrow> (\<forall>f fd. waits_io s f fd \<longrightarrow> pollable s fd \<longrightarrow> (\<exists>ev. epoll s fd = Some (f, ev, True)))"

lemma waits_not_running: "rt_inv s \<Longrightarrow> running f s \<Longrightarrow> \<not> waits_io s f fd"
  by (metis running_fib waits_io_def fstate.distinct(3) fstate.distinct(13) option.inject fstate.simps)

lemma own_bystander:
  "own_step s s' \<Longrightarrow> fibers s f = Some b \<Longrightarrow> fibers s' f = Some b' \<Longrightarrow> bystander b b'"
  unfolding own_step_def by (metis option.inject)

lemma own_forward:
  "own_step s s' \<Longrightarrow> fibers s f = Some b \<Longrightarrow> \<exists>b'. fibers s' f = Some b' \<and> bystander b b'"
  unfolding own_step_def by blast

lemma waits_back:
  assumes "own_step s s'" "waits_io s' f fd"
  shows "waits_io s f fd"
proof -
  from assms(2) obtain b' where b': "fibers s' f = Some b'" "state b' = F_WAIT_IO" "ffd b' = fd"
    by (auto simp: waits_io_def)
  with assms(1) obtain b where b: "fibers s f = Some b"
    by (cases "fibers s f") (auto simp: own_step_def)
  from own_bystander [OF assms(1) b b'(1)] have "bystander b b'" .
  with b b' show ?thesis by (auto simp: bystander_def waits_io_def)
qed

lemma own_armed:
  assumes own: "own_step s s'" and "io_armed s" "fd_exclusive s"
  shows "io_armed s'"
  unfolding io_armed_def
proof (intro allI impI)
  fix f fd assume w: "waits_io s' f fd" "pollable s' fd"
  note ws = waits_back [OF own w(1)]
  have "pollable s fd" using w(2) own by (simp add: own_step_def)
  with assms(2) ws obtain ev where e: "epoll s fd = Some (f, ev, True)" by (auto simp: io_armed_def)
  have "\<not> was_served fd s s'"
  proof
    assume "was_served fd s s'"
    then obtain g c c' where g: "fibers s g = Some c" "state c = F_WAIT_IO" "ffd c = fd"
      "fibers s' g = Some c'" "state c' = F_RUN" by (auto simp: was_served_def)
    then have "g = f" using assms(3) ws unfolding fd_exclusive_def waits_io_def by blast
    with g w(1) show False by (simp add: waits_io_def)
  qed
  with own e show "\<exists>ev. epoll s' fd = Some (f, ev, True)" unfolding own_step_def by blast
qed

lemma moves_armed:
  assumes inv: "rt_inv s" and run: "running g s" and m: "moves g s s'" and "io_armed s" "fd_exclusive s'"
  shows "io_armed s'"
  unfolding io_armed_def
proof (intro allI impI)
  fix f fd assume w: "waits_io s' f fd" "pollable s' fd"
  have pl: "pollable s' = pollable s" using m by (auto simp: moves_def stays_def parks_def same_view_def)
  from running_fib [OF inv run] obtain b where b: "fibers s g = Some b" "fib s g = b" "state b = F_NEW \<or> state b = F_RUN"
    by metis
  show "\<exists>ev. epoll s' fd = Some (f, ev, True)"
  proof (cases "f = g")
    case True
    from w(1) True have g: "fibers s' g = Some (fib s' g)" "state (fib s' g) = F_WAIT_IO" "ffd (fib s' g) = fd"
      by (auto simp: waits_io_def fib_def)
    then have "\<not> stays g s s'" using b by (auto simp: stays_def)
    with m have "parks g s s'" by (simp add: moves_def)
    with g w(2) pl True show ?thesis by (simp add: parks_def)
  next
    case False
    with w(1) moves_other [OF m False] have ws: "waits_io s f fd" by (simp add: waits_io_def)
    with assms(4) w(2) pl obtain ev where e: "epoll s fd = Some (f, ev, True)" by (auto simp: io_armed_def)
    have "epoll s' fd = epoll s fd"
    proof (rule ccontr)
      assume n: "epoll s' fd \<noteq> epoll s fd"
      with m have "parks g s s'" by (auto simp: moves_def stays_def same_view_def)
      with n have "state (fib s' g) = F_WAIT_IO" "ffd (fib s' g) = fd" "fibers s' = (fibers s)(g \<mapsto> fib s' g)"
        by (auto simp: parks_def split: if_splits)
      then have "waits_io s' g fd" by (simp add: waits_io_def)
      with assms(5) w(1) False show False by (auto simp: fd_exclusive_def)
    qed
    with e show ?thesis by simp
  qed
qed

lemma armed_cong:
  "io_armed s \<Longrightarrow> pollable s' = pollable s \<Longrightarrow> epoll s' = epoll s \<Longrightarrow>
     (\<And>f fd. waits_io s' f fd \<Longrightarrow> waits_io s f fd) \<Longrightarrow> io_armed s'"
  by (simp add: io_armed_def)

text \<open>Steps that close no descriptor a fiber waits on.\<close>

definition closes_none :: "'d event \<Rightarrow> ('q, 'd) rt \<Rightarrow> bool" where
  "closes_none e s \<longleftrightarrow> (case e of K_close fd \<Rightarrow> (\<forall>f. \<not> waits_io s f fd) | _ \<Rightarrow> True)"

lemma take_new_epoll: "take_new fs s = Some s' \<Longrightarrow> epoll s' = epoll s \<and> pollable s' = pollable s"
  by (induction fs s rule: take_new.induct) (auto simp: upd_fib_def split: if_splits)

lemma step_armed:
  assumes inv: "rt_inv s" and st: "rt_step e s = Some s'" and arm: "io_armed s"
    and ex: "fd_exclusive s" "fd_exclusive s'" and cl: "closes_none e s"
  shows "io_armed s'"
  using inv st
proof (cases rule: step_cases)
  case (own s1 p)
  from own_armed [OF own(2) arm ex(1)] show ?thesis
    by (rule armed_cong) (simp_all add: own(3) waits_io_def)
next
  case (intake s1)
  note i = inv_intake [OF inv intake(2,3)]
  have ep: "epoll s1 = epoll s" "pollable s1 = pollable s"
    using intake(3) take_new_epoll [of "newq s" s] by (auto simp: intake_def split: if_splits)
  show ?thesis
  proof (rule armed_cong [OF arm])
    fix f fd assume "waits_io s' f fd"
    then obtain b' where b': "fibers s1 f = Some b'" "state b' = F_WAIT_IO" "ffd b' = fd"
      by (auto simp: waits_io_def intake(4))
    show "waits_io s f fd"
    proof (cases "f \<in> set (newq s)")
      case True
      with inv_new [OF inv True] i obtain b j where "state b = F_NEW" "fibers s1 f = Some (b\<lparr>fslot := j\<rparr>)" by blast
      with b' show ?thesis by auto
    qed (use b' i in \<open>simp add: waits_io_def\<close>)
  qed (simp_all add: intake(4) ep)
next
  case (call f c kn)
  from call_cases [OF inv call(2,4)] show ?thesis
  proof
    assume "moves f s s'"
    from moves_armed [OF inv call(2) this arm ex(2)] show ?thesis .
  next
    assume "\<exists>cv s1. c = C_cond_signal cv \<and> wake_fibers cv s = Some s1 \<and> own_step s s1 \<and> s' = return_to f 0 s1"
    then obtain s1 where s1: "own_step s s1" "s' = return_to f 0 s1" by blast
    from own_armed [OF s1(1) arm ex(1)] show ?thesis
      by (rule armed_cong) (auto simp: s1(2) return_to_def upd_fib_def waits_io_def split: if_splits)
  qed
next
  case (resume f kn)
  show ?thesis
  proof (cases "cont (fib s f) = K_entry")
    case False
    from moves_armed [OF inv resume(2) running_not_entry [OF inv resume(2,3) False] arm, of kn] ex(2) resume(4)
    show ?thesis by simp
  next
    case True
    show ?thesis
      by (rule armed_cong [OF arm])
        (auto simp: resume(4) resume_def True fib_exit_def upd_fib_def waits_io_def Let_def split: if_splits)
  qed
next
  case (exit f)
  show ?thesis
    by (rule armed_cong [OF arm]) (auto simp: exit(4) fib_exit_def waits_io_def Let_def split: if_splits)
next
  case (unblock i f bl)
  show ?thesis
    by (rule armed_cong [OF arm]) (auto simp: unblock(4) unblock_def return_to_def upd_fib_def take_mutex_def take_rd_def
        take_wr_def waits_io_def Let_def split: block.splits if_splits)
next
  case (create en a)
  show ?thesis
    by (rule armed_cong [OF arm]) (auto simp: create(2) pthread_create_def new_fiber_def waits_io_def Let_def split: if_splits)
next
  case beside
  have w: "waits_io s' f fd = waits_io s f fd" for f fd using beside(1) by (simp add: beside_def waits_io_def)
  show ?thesis
  proof (cases "\<exists>fd. e = K_close fd")
    case True
    then obtain fd where fd: "e = K_close fd" ..
    with cl have nw: "\<not> waits_io s f fd" for f by (simp add: closes_none_def)
    from beside(2) fd have ep: "epoll s' = (epoll s)(fd := None)" by simp
    have pl: "pollable s' = pollable s" using beside(1) by (simp add: beside_def)
    show ?thesis
      unfolding io_armed_def w ep pl
    proof (intro allI impI)
      fix f fd' assume a: "waits_io s f fd'" "pollable s fd'"
      with nw have "fd' \<noteq> fd" by auto
      with arm a show "\<exists>ev. ((epoll s)(fd := None)) fd' = Some (f, ev, True)" by (simp add: io_armed_def)
    qed
  next
    case False
    with beside(3) have ep: "epoll s' = epoll s" by simp
    have pl: "pollable s' = pollable s" using beside(1) by (simp add: beside_def)
    show ?thesis by (rule armed_cong [OF arm pl ep]) (simp add: w)
  qed
next
  case same
  with arm show ?thesis by simp
next
  case (pass p i)
  show ?thesis by (rule armed_cong [OF arm]) (simp_all add: pass(3) waits_io_def)
next
  case (enter i f b)
  show ?thesis by (rule armed_cong [OF arm]) (simp_all add: enter(8) enter_fiber_def waits_io_def)
qed

fun tidy :: "'d event list \<Rightarrow> ('q, 'd) rt \<Rightarrow> bool" where
  "tidy [] s \<longleftrightarrow> fd_exclusive s"
| "tidy (e # es) s \<longleftrightarrow> fd_exclusive s \<and> closes_none e s \<and>
     (case rt_step e s of None \<Rightarrow> True | Some s' \<Rightarrow> tidy es s')"

lemma tidy_exclusive: "tidy es s \<Longrightarrow> fd_exclusive s"
  by (cases es) auto

lemma run_armed:
  "rt_inv s \<Longrightarrow> io_armed s \<Longrightarrow> tidy es s \<Longrightarrow> rt_run es s = Some s' \<Longrightarrow> io_armed s'"
proof (induction es arbitrary: s)
  case (Cons e es)
  from Cons.prems(4) obtain s1 where s1: "rt_step e s = Some s1" "rt_run es s1 = Some s'"
    by (auto split: option.splits)
  with Cons.prems(3) have t: "tidy es s1" "fd_exclusive s" "closes_none e s" by auto
  from step_armed [OF Cons.prems(1) s1(1) Cons.prems(2) t(2) tidy_exclusive [OF t(1)] t(3)]
    inv_step [OF Cons.prems(1) s1(1)] Cons.IH t(1) s1(2) show ?case by blast
qed simp

lemma init_armed: "io_armed (init env so can_poll mx q0 d0 pg exe maps)"
  by (simp add: io_armed_def waits_io_def init_def start_carrier_def Let_def)

lemma ready_step:
  assumes inv: "rt_inv s" and e: "epoll s fd = Some (f, ev, True)"
  obtains b s1 where "io_ready (fd # fds) s = io_ready fds s1" "own_step s s1" "state (fib s1 f) = F_RUN"
    "fibers s f = Some b" "fibers s1 f \<noteq> None" "\<And>fd'. fd' \<noteq> fd \<Longrightarrow> epoll s1 fd' = epoll s fd'"
proof -
  from inv_armed [OF inv e] obtain b where
    b: "Some f \<in> set (fibs s)" "fibers s f = Some b" "state b = F_WAIT_IO" "ffd b = fd" by blast
  define s1 where "s1 = upd_fib f (\<lambda>b. b\<lparr>state := F_RUN\<rparr>) (s\<lparr>epoll := (epoll s)(fd \<mapsto> (f, ev, False))\<rparr>)"
  have "wakes f b s s1"
    using e b by (auto simp: wakes_def s1_def upd_fib_def fib_def bystander_def split: if_splits)
  from own_wakes [OF inv b(1,2) this] have "own_step s s1" .
  moreover have "io_ready (fd # fds) s = io_ready fds s1" using e b by (simp add: s1_def Let_def)
  moreover have "state (fib s1 f) = F_RUN" "fibers s1 f \<noteq> None" "\<And>fd'. fd' \<noteq> fd \<Longrightarrow> epoll s1 fd' = epoll s fd'"
    using b by (simp_all add: s1_def upd_fib_def fib_def)
  ultimately show ?thesis using that b(2) by blast
qed

lemma ready_wakes:
  assumes "rt_inv s" "epoll s fd = Some (f, ev, True)" "fd \<in> set fds" "io_ready fds s = Some s'"
  shows "\<exists>b. fibers s' f = Some b \<and> state b = F_RUN"
  using assms
proof (induction fds arbitrary: s)
  case (Cons x fds)
  show ?case
  proof (cases "x = fd")
    case True
    obtain b s1 where s1: "io_ready (fd # fds) s = io_ready fds s1" "own_step s s1" "state (fib s1 f) = F_RUN"
      "fibers s1 f \<noteq> None" by (rule ready_step [OF Cons.prems(1,2)])
    from s1(2) have "rt_inv s1" by (simp add: own_step_def)
    from own_io_ready [OF this, of fds] s1(1) Cons.prems(4) True have o: "own_step s1 s'" by auto
    from s1(3,4) obtain b1 where b1: "fibers s1 f = Some b1" "state b1 = F_RUN" by (auto simp: fib_def)
    from own_forward [OF o b1(1)] b1(2) show ?thesis by (auto simp: bystander_def)
  next
    case False
    with Cons.prems(3) have m: "fd \<in> set fds" by simp
    show ?thesis
    proof (cases "\<exists>g ev'. epoll s x = Some (g, ev', True)")
      case True
      then obtain g ev' where g: "epoll s x = Some (g, ev', True)" by blast
      obtain s1 where s1: "io_ready (x # fds) s = io_ready fds s1" "own_step s s1"
        "\<And>fd'. fd' \<noteq> x \<Longrightarrow> epoll s1 fd' = epoll s fd'" by (rule ready_step [OF Cons.prems(1) g]) auto
      from s1(2) have "rt_inv s1" by (simp add: own_step_def)
      from Cons.IH [OF this _ m] s1(1,3) False Cons.prems(2,4) show ?thesis by simp
    next
      case no: False
      then have "io_ready (x # fds) s = io_ready fds s"
        by (auto split: option.splits prod.splits bool.splits)
      with Cons.IH [OF Cons.prems(1,2) m] Cons.prems(4) show ?thesis by simp
    qed
  qed
qed simp

text \<open>C13: No I/O wake-up is lost. In a run in which no two fibers wait on the same descriptor at the same
  time and no descriptor is closed under a waiting fiber, every fiber that waits on a pollable descriptor
  is woken by the \<open>epoll_wait\<close> that reports the descriptor, whatever else happened since it began to wait.\<close>

theorem no_lost_io_wakeup:
  assumes "rt_run es (init env so can_poll mx q0 d0 pg exe maps) = Some s"
    and "tidy es (init env so can_poll mx q0 d0 pg exe maps)"
    and "waits_io s f fd" "pollable s fd" "at_phase P_epoll s" "fd \<in> set fds"
  shows "\<exists>s' b. rt_step (E_epoll fds) s = Some s' \<and> fibers s' f = Some b \<and> state b = F_RUN"
proof -
  have inv: "rt_inv s" using run_inv [OF inv_init assms(1)] by simp
  from run_armed [OF inv_init init_armed assms(2,1)] assms(3,4) obtain ev where
    ev: "epoll s fd = Some (f, ev, True)" by (auto simp: io_armed_def)
  from own_io_ready [OF inv, of fds] obtain s1 where s1: "io_ready fds s = Some s1" by blast
  from ready_wakes [OF inv ev assms(6) s1] s1 assms(5) show ?thesis by (auto)
qed

text \<open>Both connections wait, each on its own descriptor, and the carrier is about to poll.\<close>

definition both_wait :: "unit event list" where
  "both_wait = two_conns @ [E_call (C_io Read 5) eagain, E_next, E_resume kern0, E_call (C_io Read 6) eagain,
     E_next, E_intake]"

lemma both_wait_ok:
  "\<exists>s. rt_run both_wait (boot0 (\<lambda>_. None)) = Some s \<and> waits_io s 1 5 \<and> waits_io s 2 6 \<and> pollable s 5 \<and>
     at_phase P_epoll s"
  by (simp add: both_wait_def waits_io_def rt_eval)

lemma both_wait_tidy: "tidy both_wait (boot0 (\<lambda>_. None))"
  by (simp add: both_wait_def fd_exclusive_def closes_none_def waits_io_def rt_eval)

theorem no_lost_io_wakeup_witness:
  "\<exists>s s' b. rt_run both_wait (boot0 (\<lambda>_. None)) = Some s \<and> waits_io s 1 5 \<and>
     rt_step (E_epoll [5]) s = Some s' \<and> fibers s' 1 = Some b \<and> state b = F_RUN"
proof -
  obtain s where s: "rt_run both_wait (boot0 (\<lambda>_. None)) = Some s" "waits_io s 1 5" "pollable s 5"
    "at_phase P_epoll s" using both_wait_ok by blast
  have m: "(5::int) \<in> set [5]" by simp
  from no_lost_io_wakeup [OF s(1)[unfolded boot0_def] both_wait_tidy[unfolded boot0_def] s(2-4) m] s(1,2)
  show ?thesis by blast
qed

section \<open>Every runnable fiber has its turn\<close>

definition on_turn :: "nat \<Rightarrow> nat \<Rightarrow> ('q, 'd) rt \<Rightarrow> bool" where
  "on_turn f i s \<longleftrightarrow> (\<exists>b. fibers s f = Some b \<and> (state b = F_NEW \<or> state b = F_RUN) \<and> fslot b = i) \<and>
     Some f \<in> set (fibs s) \<and>
     (\<exists>k. phase s = P_run k \<and> k \<le> i \<or> (phase s = In_fiber k \<or> (\<exists>bl. phase s = Blocked k bl)) \<and> k < i)"

lemma moves_turn:
  "moves g s s' \<Longrightarrow> phase s = In_fiber k \<Longrightarrow>
     phase s' = P_run (Suc k) \<or> phase s' = In_fiber k \<or> (\<exists>bl. phase s' = Blocked k bl)"
  by (auto simp: moves_def stays_def parks_def run_index_def)

lemma step_turn:
  assumes inv: "rt_inv s" and st: "rt_step e s = Some s'" and t: "on_turn f i s" and cur: "cur_fib s \<noteq> Some f"
  shows "on_turn f i s' \<or> cur_fib s' = Some f"
proof -
  from t obtain b k where b: "fibers s f = Some b" "state b = F_NEW \<or> state b = F_RUN" "fslot b = i"
    "Some f \<in> set (fibs s)"
    and k: "phase s = P_run k \<and> k \<le> i \<or> (phase s = In_fiber k \<or> (\<exists>bl. phase s = Blocked k bl)) \<and> k < i"
    by (auto simp: on_turn_def)
  from step_other [OF inv st b(1,4) cur] b(2,3) have f: "\<exists>b'. fibers s' f = Some b' \<and>
      (state b' = F_NEW \<or> state b' = F_RUN) \<and> fslot b' = i" "Some f \<in> set (fibs s')"
    by (auto simp: bystander_def)
  have done': ?thesis if "\<exists>k. phase s' = P_run k \<and> k \<le> i \<or> (phase s' = In_fiber k \<or> (\<exists>bl. phase s' = Blocked k bl)) \<and> k < i"
    using f that by (auto simp: on_turn_def)
  have same_phase: ?thesis if "phase s' = phase s" using k that by (intro done') auto
  obtain j where j: "j < length (fibs s)" "fibs s ! j = Some f" using b(4) by (metis in_set_conv_nth)
  with inv_slot [OF inv j] b(1,3) have slot: "i < length (fibs s)" "fibs s ! i = Some f" by auto
  have after: ?thesis if "running g s" "\<And>j. phase s = In_fiber j \<Longrightarrow> phase s' = P_run (Suc j) \<or> phase s' = In_fiber j \<or>
      (\<exists>bl. phase s' = Blocked j bl)" for g
  proof -
    from that(1) k have p: "phase s = In_fiber k" "k < i" by (auto simp: running_def)
    from that(2) [OF p(1)] p(2) show ?thesis by (intro done') auto
  qed
  from inv st show ?thesis
  proof (cases rule: step_cases)
    case (own s1 p)
    with k show ?thesis by (auto simp: at_phase_def)
  next
    case (intake s1)
    with k show ?thesis by auto
  next
    case (pass p j)
    with k have "j \<le> i" by auto
    with slot b(1,2) pass(7) have "j < i" by (cases "j = i") auto
    with pass(3,6) slot(1) show ?thesis by (intro done') auto
  next
    case (enter j g c)
    with k have "j \<le> i" by auto
    have ph: "phase s' = In_fiber j" "cur_fib s' = Some g" by (simp_all add: enter(8) enter_fiber_def)
    show ?thesis
    proof (cases "j = i")
      case True
      with enter(5) slot(2) ph(2) show ?thesis by simp
    next
      case False
      with \<open>j \<le> i\<close> ph(1) show ?thesis by (intro done') auto
    qed
  next
    case (call g c kn)
    from call_cases [OF inv call(2,4)] show ?thesis
    proof
      assume m: "moves g s s'"
      show ?thesis by (rule after [OF call(2)]) (rule moves_turn [OF m])
    next
      assume "\<exists>cv s1. c = C_cond_signal cv \<and> wake_fibers cv s = Some s1 \<and> own_step s s1 \<and> s' = return_to g 0 s1"
      then show ?thesis by (intro same_phase) (auto simp: own_step_def return_to_def upd_fib_def)
    qed
  next
    case (resume g kn)
    show ?thesis
    proof (cases "cont (fib s g) = K_entry")
      case False
      from running_not_entry [OF inv resume(2,3) False, of kn] resume(4) have m: "moves g s s'" by simp
      show ?thesis by (rule after [OF resume(2)]) (rule moves_turn [OF m])
    next
      case True
      show ?thesis
        by (rule after [OF resume(2)])
          (auto simp: resume(4) resume_def True fib_exit_def upd_fib_def run_index_def Let_def)
    qed
  next
    case (exit g)
    show ?thesis by (rule after [OF exit(2)]) (simp add: exit(4) fib_exit_def run_index_def Let_def)
  next
    case (unblock j g bl)
    with k show ?thesis
      by (intro done') (auto simp: unblock_def return_to_def upd_fib_def take_mutex_def take_rd_def take_wr_def Let_def
          split: block.splits)
  next
    case (create en a)
    then show ?thesis by (intro same_phase) (simp add: pthread_create_def Let_def)
  next
    case beside
    then show ?thesis by (intro same_phase) (simp add: beside_def)
  qed (use same_phase in auto)
qed

lemma run_turn:
  "rt_inv s \<Longrightarrow> on_turn f i s \<Longrightarrow> rt_run es s = Some s' \<Longrightarrow> never_runs f es s \<Longrightarrow>
     cur_fib s' \<noteq> Some f \<Longrightarrow> on_turn f i s'"
proof (induction es arbitrary: s)
  case (Cons e es)
  from Cons.prems(3) obtain s1 where s1: "rt_step e s = Some s1" "rt_run es s1 = Some s'"
    by (auto split: option.splits)
  with Cons.prems(4) have nr: "cur_fib s \<noteq> Some f" "never_runs f es s1" by auto
  have "cur_fib s1 \<noteq> Some f" using nr(2) s1(2) Cons.prems(5) by (cases es) auto
  with step_turn [OF Cons.prems(1) s1(1) Cons.prems(2) nr(1)] have "on_turn f i s1" by simp
  from Cons.IH [OF inv_step [OF Cons.prems(1) s1(1)] this s1(2) nr(2) Cons.prems(5)] show ?case .
qed simp

text \<open>No fiber starves in the run loop. A fiber that is new or runnable when the carrier's pass over
  \<open>fibs\<close> has not yet reached its slot is switched to before the pass ends, whatever the fibers before it and
  the real threads do.\<close>

theorem pass_enters_runnable:
  assumes "reachable s" "phase s = P_run j" "Some f \<in> set (fibs s)" "j \<le> fslot (fib s f)"
    and "in_state s f F_NEW \<or> in_state s f F_RUN"
    and "rt_run es s = Some s'" "phase s' = P_intake"
  shows "\<not> never_runs f es s"
proof
  assume nr: "never_runs f es s"
  have inv: "rt_inv s" using assms(1) by (rule reachable_inv)
  have t: "on_turn f (fslot (fib s f)) s"
    using assms(2-5) by (auto simp: on_turn_def in_state_def fib_def split: option.splits)
  have "rt_inv s'" using run_inv [OF inv assms(6)] by simp
  then have "cur_fib s' = None" using assms(7) by (intro idle_no_cur) (simp_all add: idle_phase_def)
  with run_turn [OF inv t assms(6) nr] assms(7) show False by (simp add: on_turn_def)
qed

definition to_pass :: "unit event list" where
  "to_pass = [T_accept, T_create (Some 7) 1, T_create (Some 7) 2, E_intake] @ poll_phases"

definition whole_pass :: "unit event list" where
  "whole_pass = [E_next, E_resume kern0, E_call (C_accel 0 16) kern0, E_next, E_resume kern0, E_exit, E_next]"

lemma to_pass_ok:
  "\<exists>s s'. rt_run to_pass (boot0 (\<lambda>_. None)) = Some s \<and> phase s = P_run 0 \<and> Some 2 \<in> set (fibs s) \<and>
     in_state s 2 F_NEW \<and> rt_run whole_pass s = Some s' \<and> phase s' = P_intake"
  by (simp add: to_pass_def whole_pass_def in_state_def rt_eval)

theorem pass_enters_runnable_witness:
  "\<exists>s. rt_run to_pass (boot0 (\<lambda>_. None)) = Some s \<and> \<not> never_runs 2 whole_pass s"
proof -
  obtain s s' where s: "rt_run to_pass (boot0 (\<lambda>_. None)) = Some s" "phase s = P_run 0" "Some 2 \<in> set (fibs s)"
    "in_state s 2 F_NEW" "rt_run whole_pass s = Some s'" "phase s' = P_intake"
    using to_pass_ok by blast
  have z: "0 \<le> fslot (fib s 2)" by simp
  have n: "in_state s 2 F_NEW \<or> in_state s 2 F_RUN" using s(4) by simp
  from pass_enters_runnable [OF boot0_reachable [OF s(1)] s(2,3) z n s(5,6)] s(1) show ?thesis by blast
qed

section \<open>Stranded fibers\<close>

text \<open>A fiber that waits for I/O without a deadline while no armed registration names it.\<close>

definition stranded :: "nat \<Rightarrow> ('q, 'd) rt \<Rightarrow> bool" where
  "stranded f s \<longleftrightarrow> Some f \<in> set (fibs s) \<and>
     (\<exists>b. fibers s f = Some b \<and> state b = F_WAIT_IO \<and> \<not> has_deadline b) \<and>
     (\<forall>fd ev. epoll s fd \<noteq> Some (f, ev, True))"

lemma scan_keeps:
  assumes "\<And>h b s. h \<noteq> f \<Longrightarrow> fibers (g h b s) f = fibers s f"
    and "\<And>s. fibers s f = Some c \<Longrightarrow> fibers (g f c s) f = Some c"
  shows "scan g xs s = Some s' \<Longrightarrow> fibers s f = Some c \<Longrightarrow> fibers s' f = Some c"
proof (induction xs arbitrary: s)
  case (Cons x xs)
  show ?case
  proof (cases x)
    case (Some h)
    with Cons.prems(1) obtain b where b: "fibers s h = Some b" "scan g xs (g h b s) = Some s'"
      by (auto split: option.splits)
    have "fibers (g h b s) f = Some c" using assms Cons.prems(2) b(1) by (cases "h = f") auto
    with Cons.IH b(2) show ?thesis by blast
  qed (use Cons in simp)
qed simp

lemma scans_keep:
  assumes "fibers s f = Some c" "state c = F_WAIT_IO"
  shows "scan off_one xs s = Some s' \<Longrightarrow> fibers s' f = Some c"
    and "wake_fibers cv s = Some s' \<Longrightarrow> fibers s' f = Some c"
    and "\<not> has_deadline c \<Longrightarrow> scan (deadline_one now) xs s = Some s' \<Longrightarrow> fibers s' f = Some c"
proof -
  show "scan off_one xs s = Some s' \<Longrightarrow> fibers s' f = Some c"
    by (rule scan_keeps [where g = off_one, OF _ _ _ assms(1)])
      (auto simp: off_one_def upd_fib_def assms Let_def split: option.splits)
  show "wake_fibers cv s = Some s' \<Longrightarrow> fibers s' f = Some c"
    unfolding wake_fibers_def
    by (rule scan_keeps [where g = "wake_one cv", OF _ _ _ assms(1)]) (auto simp: wake_one_def upd_fib_def assms)
  show "\<not> has_deadline c \<Longrightarrow> scan (deadline_one now) xs s = Some s' \<Longrightarrow> fibers s' f = Some c"
    by (rule scan_keeps [where g = "deadline_one now", OF _ _ _ assms(1)])
      (auto simp: deadline_one_def upd_fib_def assms)
qed

lemma drain_keeps:
  "drain_wakes n s = Some s' \<Longrightarrow> fibers s f = Some c \<Longrightarrow> state c = F_WAIT_IO \<Longrightarrow> fibers s' f = Some c"
proof (induction n arbitrary: s)
  case (Suc n)
  show ?case
  proof (cases "ring_get PENDN (pend s)")
    case (Some p)
    obtain v r where p: "p = (v, r)" by (cases p)
    with Some Suc.prems(1) obtain s1 where s1: "wake_fibers v (s\<lparr>pend := r\<rparr>) = Some s1" "drain_wakes n s1 = Some s'"
      by (auto split: option.splits)
    have "fibers s1 f = Some c" using scans_keep(2) [OF _ Suc.prems(3) s1(1)] Suc.prems(2) by simp
    from Suc.IH [OF s1(2) this Suc.prems(3)] show ?thesis .
  qed (use Suc.prems in simp)
qed simp

lemma ready_keeps:
  "io_ready fds s = Some s' \<Longrightarrow> fibers s f = Some c \<Longrightarrow> \<forall>fd ev. epoll s fd \<noteq> Some (f, ev, True) \<Longrightarrow>
     fibers s' f = Some c"
proof (induction fds arbitrary: s)
  case (Cons fd fds)
  show ?case
  proof (cases "\<exists>g ev. epoll s fd = Some (g, ev, True)")
    case False
    then have "io_ready (fd # fds) s = io_ready fds s"
      by (auto split: option.splits prod.splits bool.splits)
    with Cons show ?thesis by simp
  next
    case True
    then obtain g ev where g: "epoll s fd = Some (g, ev, True)" by blast
    with Cons.prems(3) have "g \<noteq> f" by auto
    from g Cons.prems(1) obtain b where b: "fibers s g = Some b" by (auto split: option.splits)
    define s1 where "s1 = s\<lparr>epoll := (epoll s)(fd \<mapsto> (g, ev, False))\<rparr>"
    define s2 where "s2 = (if state b = F_WAIT_IO then upd_fib g (\<lambda>b. b\<lparr>state := F_RUN\<rparr>) s1 else s1)"
    have "io_ready fds s2 = Some s'"
      using Cons.prems(1) g b by (cases "state b = F_WAIT_IO") (simp_all add: s2_def s1_def Let_def)
    moreover have "fibers s2 f = Some c" using \<open>g \<noteq> f\<close> Cons.prems(2) by (simp add: s2_def s1_def upd_fib_def)
    moreover have "epoll s2 = (epoll s)(fd \<mapsto> (g, ev, False))" by (simp add: s2_def s1_def upd_fib_def)
    then have "\<forall>fd ev. epoll s2 fd \<noteq> Some (f, ev, True)" using Cons.prems(3) by simp
    ultimately show ?thesis by (rule Cons.IH)
  qed
qed simp

lemma stranded_moves:
  assumes "stranded f s" "moves g s s'" "f \<noteq> g"
  shows "stranded f s'"
proof -
  have "fibs s' = fibs s" using moves_frame [OF assms(2)] by simp
  moreover have "fibers s' f = fibers s f" using moves_other [OF assms(2,3)] .
  moreover have "epoll s' fd \<noteq> Some (f, ev, True)" for fd ev
  proof -
    from assms(2) consider "epoll s' = epoll s" | x where "epoll s' = (epoll s)(ffd (fib s' g) \<mapsto> (g, x, True))"
      by (auto simp: moves_def stays_def parks_def same_view_def)
    then show ?thesis using assms(1,3) by cases (auto simp: stranded_def)
  qed
  ultimately show ?thesis using assms(1) by (simp add: stranded_def)
qed

lemma stranded_step:
  assumes inv: "rt_inv s" and st: "rt_step e s = Some s'" and str: "stranded f s"
  shows "stranded f s'"
proof -
  from str obtain c where c: "fibers s f = Some c" "state c = F_WAIT_IO" "\<not> has_deadline c" "Some f \<in> set (fibs s)"
    and no: "\<forall>fd ev. epoll s fd \<noteq> Some (f, ev, True)" by (auto simp: stranded_def)
  have cur: "cur_fib s \<noteq> Some f" using inv_heap [OF inv c(1)] c(2) by (auto simp: fib_ok_def)
  have mem: "Some f \<in> set (fibs s')" using step_other [OF inv st c(1,4) cur] by simp
  have keep: ?thesis if "fibers s' f = Some c" "\<forall>fd ev. epoll s' fd \<noteq> Some (f, ev, True)"
    using that mem c by (simp add: stranded_def)
  have neq: "f \<noteq> g" if "running g s" for g using that cur by (auto simp: running_def)
  from inv st show ?thesis
  proof (cases rule: step_cases)
    case (own s1 p)
    have "\<forall>fd ev. epoll s1 fd \<noteq> Some (f, ev, True)" using own(2) no unfolding own_step_def by blast
    moreover from own(6) have "fibers s1 f = Some c"
      using ready_keeps [OF _ c(1) no] scans_keep(1) [OF c(1,2)] drain_keeps [OF _ c(1,2)] scans_keep(3) [OF c(1-3)]
      by blast
    ultimately show ?thesis by (intro keep) (simp_all add: own(3))
  next
    case (intake s1)
    have "epoll s1 = epoll s"
      using intake(3) take_new_epoll [of "newq s" s] by (auto simp: intake_def split: if_splits)
    moreover have "f \<notin> set (newq s)" using inv_new [OF inv] c(4) by blast
    with inv_intake [OF inv intake(2,3)] c(1) have "fibers s1 f = Some c" by simp
    ultimately show ?thesis using no by (intro keep) (simp_all add: intake(4))
  next
    case (enter i g b)
    with no c show ?thesis by (intro keep) (simp_all add: enter_fiber_def)
  next
    case (call g cc kn)
    from call_cases [OF inv call(2,4)] show ?thesis
    proof
      assume "moves g s s'"
      from stranded_moves [OF str this neq [OF call(2)]] show ?thesis .
    next
      assume "\<exists>cv s1. cc = C_cond_signal cv \<and> wake_fibers cv s = Some s1 \<and> own_step s s1 \<and> s' = return_to g 0 s1"
      then obtain cv s1 where s1: "wake_fibers cv s = Some s1" "own_step s s1" "s' = return_to g 0 s1" by blast
      have "\<forall>fd ev. epoll s1 fd \<noteq> Some (f, ev, True)" using s1(2) no unfolding own_step_def by blast
      with scans_keep(2) [OF c(1,2) s1(1)] neq [OF call(2)] show ?thesis
        by (intro keep) (simp_all add: s1(3) return_to_def upd_fib_def)
    qed
  next
    case (resume g kn)
    show ?thesis
    proof (cases "cont (fib s g) = K_entry")
      case False
      from running_not_entry [OF inv resume(2,3) False, of kn] resume(4) have m: "moves g s s'" by simp
      from stranded_moves [OF str m neq [OF resume(2)]] show ?thesis .
    next
      case True
      with resume(4) no c neq [OF resume(2)] show ?thesis
        by (intro keep) (auto simp: resume_def fib_exit_def upd_fib_def Let_def split: if_splits)
    qed
  next
    case (exit g)
    with no c neq [OF exit(2)] show ?thesis by (intro keep) (simp_all add: fib_exit_def Let_def)
  next
    case (unblock i g bl)
    with no c cur show ?thesis
      by (intro keep) (auto simp: unblock_def return_to_def upd_fib_def take_mutex_def take_rd_def take_wr_def Let_def
          split: block.splits)
  next
    case (create en a)
    have "f \<noteq> next_fib s" using inv_heap [OF inv c(1)] by simp
    with create no c show ?thesis by (intro keep) (simp_all add: pthread_create_def Let_def)
  next
    case (pass p i)
    with no c show ?thesis by (intro keep) simp_all
  next
    case beside
    have "\<forall>fd ev. epoll s' fd \<noteq> Some (f, ev, True)"
      using beside(1) no unfolding beside_def by (metis)
    with beside(1) c show ?thesis by (intro keep) (simp_all add: beside_def)
  qed (use str in simp)
qed

lemma stranded_run:
  "rt_inv s \<Longrightarrow> stranded f s \<Longrightarrow> rt_run es s = Some s' \<Longrightarrow> stranded f s'"
proof (induction es arbitrary: s)
  case (Cons e es)
  from Cons.prems(3) obtain s1 where s1: "rt_step e s = Some s1" "rt_run es s1 = Some s'"
    by (auto split: option.splits)
  from Cons.IH [OF inv_step [OF Cons.prems(1) s1(1)] stranded_step [OF Cons.prems(1) s1(1) Cons.prems(2)] s1(2)]
  show ?case .
qed simp

text \<open>Two fibers on one descriptor. When a running fiber has to wait on a pollable descriptor on which
  another fiber already waits without a deadline, it takes the one registration over, and the first fiber
  stays blocked for ever: no later event of the kernel, the carrier, the threads or the other fibers makes
  it runnable again.\<close>

theorem second_waiter_strands_first:
  assumes "reachable s" "running g s" "cont (fib s g) = K_app" "\<not> g_noio (conf s)"
    and "kind \<noteq> Read" "kind \<noteq> Write" "kres kn = Err EAGAIN" "pollable s fd"
    and "Some f \<in> set (fibs s)" "waits_io s f fd" "\<not> has_deadline (fib s f)"
    and "rt_step (E_call (C_io kind fd) kn) s = Some s1" "rt_run es s1 = Some s2"
  shows "in_state s2 f F_WAIT_IO"
proof -
  have inv: "rt_inv s" using assms(1) by (rule reachable_inv)
  from assms(10,11) obtain c where c: "fibers s f = Some c" "state c = F_WAIT_IO" "ffd c = fd" "\<not> has_deadline c"
    by (auto simp: waits_io_def fib_def)
  from running_fib [OF inv assms(2)] obtain i b where b: "phase s = In_fiber i" "fibers s g = Some b"
    "state b = F_NEW \<or> state b = F_RUN" by metis
  have neq: "g \<noteq> f" using b c by auto
  have "s1 = yield_io g fd (io_ev kind) (K_io kind fd) ((setnb fd s)\<lparr>errno := EAGAIN\<rparr>)"
    using assms(2-7,12) b(1)
    by (cases kind) (auto simp: running_def fib_call_def fib_sock_def io_try_def)
  then have s1: "fibers s1 f = Some c" "fibs s1 = fibs s" "epoll s1 = (epoll s)(fd \<mapsto> (g, io_ev kind, True))"
    using assms(8) c(1) neq
    by (simp_all add: yield_io_def arm_def setnb_def switch_out_def count_switch_def save_tls_view upd_fib_def Let_def)
  have other: "fd' = fd" if "epoll s fd' = Some (f, ev, True)" for fd' ev
    using inv_armed [OF inv that] c by auto
  then have "stranded f s1" using s1 assms(9) c neq by (auto simp: stranded_def)
  from stranded_run [OF inv_step [OF inv assms(12)] this assms(13)] show ?thesis
    by (auto simp: stranded_def in_state_def)
qed

definition first_waits :: "unit event list" where
  "first_waits = two_conns @ [E_call (C_io Recv 5) eagain, E_next, E_resume kern0]"

lemma first_waits_ok:
  "\<exists>s s1 s2. rt_run first_waits (boot0 (\<lambda>_. None)) = Some s \<and> running 2 s \<and> cont (fib s 2) = K_app \<and>
     \<not> g_noio (conf s) \<and> pollable s 5 \<and> Some 1 \<in> set (fibs s) \<and> waits_io s 1 5 \<and> \<not> has_deadline (fib s 1) \<and>
     rt_step (E_call (C_io Recv 5) eagain) s = Some s1 \<and>
     rt_run [E_next, E_intake, E_epoll [5]] s1 = Some s2"
  by (simp add: first_waits_def rt_eval running_def waits_io_def)

theorem second_waiter_strands_first_witness:
  "\<exists>s s1 s2. rt_run first_waits (boot0 (\<lambda>_. None)) = Some s \<and>
     rt_step (E_call (C_io Recv 5) eagain) s = Some s1 \<and> rt_run [E_next, E_intake, E_epoll [5]] s1 = Some s2 \<and>
     in_state s2 1 F_WAIT_IO"
proof -
  obtain s s1 s2 where r: "rt_run first_waits (boot0 (\<lambda>_. None)) = Some s" "running 2 s" "cont (fib s 2) = K_app"
    "\<not> g_noio (conf s)" "pollable s 5" "Some 1 \<in> set (fibs s)" "waits_io s 1 5" "\<not> has_deadline (fib s 1)"
    "rt_step (E_call (C_io Recv 5) eagain) s = Some s1" "rt_run [E_next, E_intake, E_epoll [5]] s1 = Some s2"
    using first_waits_ok by blast
  have k: "Recv \<noteq> Read" "Recv \<noteq> Write" "kres eagain = Err EAGAIN" by (simp_all add: eagain_def kern0_def)
  from second_waiter_strands_first [OF boot0_reachable [OF r(1)] r(2-4) k r(5-10)] r(1,9,10) show ?thesis by blast
qed

end
