(* ===== verification/RuntimeLocks.thy ===== *)
theory RuntimeLocks
  imports RuntimeSafe
begin

text \<open>
  The locks of the runtime of \<open>Runtime\<close>: the handler lock that serialises handlers under enforcement and
  what becomes of it when its owner ends, the wake-ups of condition variables from other threads, and the
  mutexes that the fibers of the carrier share as one thread.
\<close>

section \<open>The handler lock\<close>

lemma hlock_ops [simp]:
  "hlock_owner (upd_fib f g s) = hlock_owner s" "hlock_owner (save_tls f s) = hlock_owner s"
  "hlock_owner (restore_tls f s) = hlock_owner s" "hlock_owner (switch_out f k s) = hlock_owner s"
  "hlock_owner (count_switch s) = hlock_owner s" "hlock_owner (arm fd ev f s) = hlock_owner s"
  "hlock_owner (return_to f r s) = hlock_owner s" "hlock_owner (take_mutex t m s) = hlock_owner s"
  "hlock_owner (drop_mutex m s) = hlock_owner s" "hlock_owner (take_rd l s) = hlock_owner s"
  "hlock_owner (take_wr l s) = hlock_owner s" "hlock_owner (drop_rw l s) = hlock_owner s"
  "hlock_owner (block_on bl s) = hlock_owner s" "hlock_owner (setnb fd s) = hlock_owner s"
  "hlock_owner (set_specific cf t k2 v s) = hlock_owner s" "hlock_owner (fib_exit f s) = hlock_owner s"
  by (simp_all add: upd_fib_def save_tls_view restore_tls_view switch_out_def count_switch_def arm_def return_to_def
      take_mutex_def drop_mutex_def take_rd_def take_wr_def drop_rw_def block_on_def setnb_def set_specific_def
      fib_exit_def Let_def split: option.splits)

lemma hlock_yields [simp]:
  "hlock_owner (yield_io f fd ev k s) = hlock_owner s" "hlock_owner (yield_io_to f fd ev es ms now s) = hlock_owner s"
  "hlock_owner (yield_off f oid s) = hlock_owner s" "hlock_owner (yield_run f k s) = hlock_owner s"
  by (simp_all add: yield_io_def yield_io_to_def yield_off_def yield_run_def Let_def)

lemma hlock_calls [simp]:
  "hlock_owner (real_call f r s) = hlock_owner s" "hlock_owner (io_try f kd fd r s) = hlock_owner s"
  "hlock_owner (mutex_lock f m k r' s) = hlock_owner s" "hlock_owner (rwlock_rdlock f l s) = hlock_owner s"
  "hlock_owner (rwlock_wrlock f l s) = hlock_owner s" "hlock_owner (fiber_cond_wait f c m ab kn s) = hlock_owner s"
  "hlock_owner (fib_sock f kd fd r s) = hlock_owner s" "hlock_owner (fib_poll f fd ev n t kn s) = hlock_owner s"
  "hlock_owner (cond_wait f c m ab kn s) = hlock_owner s" "hlock_owner (snd (pthread_create cf en a s)) = hlock_owner s"
  by (auto simp: real_call_def io_try_def mutex_lock_def rwlock_rdlock_def rwlock_wrlock_def fiber_cond_wait_def
      fib_sock_def fib_poll_def cond_wait_def pthread_create_def Let_def split: sysres.splits option.splits)

lemma hlock_acquire:
  "hlock_owner s = Some i \<Longrightarrow> hlock_owner (hl_acquire_read f fd r s) = Some i"
  by (simp add: hl_acquire_read_def Let_def)

text \<open>A step in which the fiber of slot \<open>i\<close> calls \<open>write\<close>.\<close>

definition slot_writes :: "nat \<Rightarrow> 'd event \<Rightarrow> ('q, 'd) rt \<Rightarrow> bool" where
  "slot_writes i e s \<longleftrightarrow> (\<exists>f. cur_fib s = Some f \<and> fslot (fib s f) = i) \<and>
     (case e of E_call c kn \<Rightarrow> (case c of C_io kind fd \<Rightarrow> kind = Write | _ \<Rightarrow> False) | _ \<Rightarrow> False)"

lemma call_hlock:
  assumes "fib_call f c kn s = Some s'" "\<forall>cv. c \<noteq> C_cond_signal cv" "hlock_owner s = Some i"
    and "(\<exists>fd. c = C_io Write fd) \<longrightarrow> fslot (fib s f) \<noteq> i"
  shows "hlock_owner s' = Some i"
  using assms
  by (cases c) (auto simp: fib_call_def fib_accel_def fib_read_def fib_write_def hl_release_def hlock_acquire
      setnb_def Let_def split: if_splits iok.splits option.splits prod.splits sysres.splits)

lemma resume_hlock:
  "hlock_owner s = Some i \<Longrightarrow> hlock_owner (resume f kn s) = Some i"
  by (auto simp: resume_def hlock_acquire Let_def split: cont.splits)

lemma hlock_take_new: "take_new fs s = Some s' \<Longrightarrow> hlock_owner s' = hlock_owner s"
  by (induction fs s rule: take_new.induct) (auto split: if_splits)

lemma hlock_step:
  assumes inv: "rt_inv s" and st: "rt_step e s = Some s'" and h: "hlock_owner s = Some i"
    and w: "\<not> slot_writes i e s"
  shows "hlock_owner s' = Some i"
  using inv st
proof (cases rule: step_cases)
  case (own s1 p)
  with h show ?thesis by (simp add: own_step_def)
next
  case (intake s1)
  with h hlock_take_new [of "newq s" s] show ?thesis by (auto simp: intake_def split: if_splits)
next
  case (call f c kn)
  from w call(1,2) have nw: "(\<exists>fd. c = C_io Write fd) \<longrightarrow> fslot (fib s f) \<noteq> i"
    by (auto simp: slot_writes_def running_def)
  show ?thesis
  proof (cases "\<exists>cv. c = C_cond_signal cv")
    case True
    then obtain cv where c: "c = C_cond_signal cv" ..
    from own_wake_fibers [OF inv, of cv] obtain s1 where "wake_fibers cv s = Some s1" "own_step s s1" by blast
    with call(4) c h show ?thesis by (auto simp: fib_call_def cond_signal_def own_step_def split: if_splits)
  next
    case False
    with call_hlock [OF call(4) _ h nw] show ?thesis by blast
  qed
next
  case (resume f kn)
  with resume_hlock [OF h] show ?thesis by simp
next
  case (unblock j f bl)
  with h show ?thesis
    by (auto simp: unblock_def Let_def split: block.splits)
qed (use h in \<open>auto simp: enter_fiber_def beside_def\<close>)

fun never_writes :: "nat \<Rightarrow> 'd event list \<Rightarrow> ('q, 'd) rt \<Rightarrow> bool" where
  "never_writes i [] s \<longleftrightarrow> True"
| "never_writes i (e # es) s \<longleftrightarrow> \<not> slot_writes i e s \<and>
     (case rt_step e s of None \<Rightarrow> True | Some s' \<Rightarrow> never_writes i es s')"

lemma hlock_run:
  "rt_inv s \<Longrightarrow> rt_run es s = Some s' \<Longrightarrow> hlock_owner s = Some i \<Longrightarrow> never_writes i es s \<Longrightarrow>
     hlock_owner s' = Some i"
proof (induction es arbitrary: s)
  case (Cons e es)
  from Cons.prems(2) obtain s1 where s1: "rt_step e s = Some s1" "rt_run es s1 = Some s'"
    by (auto split: option.splits)
  with Cons.prems(4) have "\<not> slot_writes i e s" "never_writes i es s1" by auto
  with Cons.IH [OF inv_step [OF Cons.prems(1) s1(1)] s1(2)] hlock_step [OF Cons.prems(1) s1(1) Cons.prems(3)]
  show ?case by blast
qed simp

text \<open>What a fiber at a \<open>read\<close> does next: the call itself, or its next turn in the lock's loop.\<close>

definition at_read :: "nat \<Rightarrow> int \<Rightarrow> kern \<Rightarrow> 'd event \<Rightarrow> ('q, 'd) rt \<Rightarrow> bool" where
  "at_read f fd kn e s \<longleftrightarrow> running f s \<and>
     (cont (fib s f) = K_app \<and> e = E_call (C_io Read fd) kn \<or> cont (fib s f) = K_hl fd \<and> e = E_resume kn)"

definition waits_for_lock :: "nat \<Rightarrow> int \<Rightarrow> ('q, 'd) rt \<Rightarrow> bool" where
  "waits_for_lock f fd s \<longleftrightarrow> cur_fib s = None \<and> in_state s f F_RUN \<and> cont (fib s f) = K_hl fd"

lemma read_waits:
  assumes inv: "rt_inv s" and g: "g_enforce (conf s)" "\<not> g_noio (conf s)" and h: "hlock_owner s = Some i"
    and r: "at_read f fd kn e s" and n: "fslot (fib s f) \<noteq> i"
  shows "\<exists>s2. rt_step e s = Some s2 \<and> hlock_owner s2 = Some i \<and> waits_for_lock f fd s2"
proof -
  from r obtain j where p: "phase s = In_fiber j" "cur_fib s = Some f" and run: "running f s"
    by (auto simp: at_read_def running_def)
  from running_fib [OF inv run] obtain b where b: "fibers s f = Some b" by metis
  have y: "waits_for_lock f fd (yield_run f (K_hl fd) s0) \<and> hlock_owner (yield_run f (K_hl fd) s0) = hlock_owner s0"
    if "fibers s0 f \<noteq> None" for s0 :: "('a, 'b) rt"
    using that by (auto simp: waits_for_lock_def in_state_def yield_run_def switch_out_def count_switch_def save_tls_view
        upd_fib_def fib_def)
  have e: "rt_step e s = Some (yield_run f (K_hl fd) s) \<or> rt_step e s = Some (yield_run f (K_hl fd) (restore_tls f s))"
    using r p n h g by (auto simp: at_read_def fib_call_def fib_read_def enforcing_def hl_acquire_read_def resume_def
        restore_tls_view fib_def Let_def)
  have "fibers (restore_tls f s) f \<noteq> None" using b by (simp add: restore_tls_view)
  with e y [of s] y [of "restore_tls f s"] b h show ?thesis by auto
qed

text \<open>C14: Enforcement serialises the handlers. Once a fiber's slot holds the handler lock, then until that
  fiber writes no other fiber's \<open>read\<close> gets as far as the system call: it gives the carrier up and stays in the
  lock's loop, and the lock's owner does not change.\<close>

theorem handler_section_exclusive:
  assumes "reachable s" "g_enforce (conf s)" "\<not> g_noio (conf s)" "hlock_owner s = Some i"
    and "rt_run es s = Some s'" "never_writes i es s"
    and "at_read f fd kn e s'" "fslot (fib s' f) \<noteq> i"
  shows "\<exists>s2. rt_step e s' = Some s2 \<and> hlock_owner s2 = Some i \<and> waits_for_lock f fd s2"
proof -
  have inv: "rt_inv s" using assms(1) by (rule reachable_inv)
  note r = run_inv [OF inv assms(5)]
  with assms(2,3) have "rt_inv s'" "g_enforce (conf s')" "\<not> g_noio (conf s')" by simp_all
  from read_waits [OF this hlock_run [OF inv assms(5,4,6)] assms(7,8)] show ?thesis .
qed

definition enforce_env :: "environ" where
  "enforce_env = (\<lambda>v. if v = ''RT_ENFORCE'' then Some ''1'' else None)"

definition in_handler :: "unit event list" where
  "in_handler = two_conns @ [E_call (C_io Read 5) (kern0\<lparr>kres := Val 64\<rparr>)]"

definition offload_then_other :: "unit event list" where
  "offload_then_other = [E_call (C_accel 0 64) kern0, E_next, E_resume kern0]"

lemma in_handler_ok:
  "\<exists>s s'. rt_run in_handler (boot0 enforce_env) = Some s \<and> g_enforce (conf s) \<and> \<not> g_noio (conf s) \<and>
     hlock_owner s = Some 0 \<and> rt_run offload_then_other s = Some s' \<and> never_writes 0 offload_then_other s \<and>
     at_read 2 6 kern0 (E_call (C_io Read 6) kern0) s' \<and> fslot (fib s' 2) \<noteq> 0"
  by (simp add: in_handler_def offload_then_other_def enforce_env_def rt_eval slot_writes_def at_read_def running_def)

theorem handler_section_exclusive_witness:
  "\<exists>s s' s2. rt_run in_handler (boot0 enforce_env) = Some s \<and> rt_run offload_then_other s = Some s' \<and>
     rt_step (E_call (C_io Read 6) kern0) s' = Some s2 \<and> hlock_owner s2 = Some 0 \<and> waits_for_lock 2 6 s2"
proof -
  obtain s s' where r: "rt_run in_handler (boot0 enforce_env) = Some s" "g_enforce (conf s)" "\<not> g_noio (conf s)"
    "hlock_owner s = Some 0" "rt_run offload_then_other s = Some s'" "never_writes 0 offload_then_other s"
    "at_read 2 6 kern0 (E_call (C_io Read 6) kern0) s'" "fslot (fib s' 2) \<noteq> 0"
    using in_handler_ok by blast
  from handler_section_exclusive [OF boot0_reachable [OF r(1)] r(2-8)] r(1,5) show ?thesis by blast
qed

section \<open>The lock of a fiber that ended\<close>

lemma dead_slot_step:
  assumes inv: "rt_inv s" and st: "rt_step e s = Some s'" and i: "i < length (fibs s)" "fibs s ! i = None"
  shows "i < length (fibs s') \<and> fibs s' ! i = None"
proof -
  have u: "(fibs s)[j := None] ! i = None" for j using i by (cases "j = i") simp_all
  from inv st show ?thesis
proof (cases rule: step_cases)
  case (own s1 p)
  with i show ?thesis by (simp add: own_step_def)
next
  case (intake s1)
  with inv_intake [OF inv intake(2,3)] i show ?thesis by (simp add: nth_append)
next
  case (call f c kn)
  from call_cases [OF inv call(2,4)] i show ?thesis
    by (auto simp: own_step_def return_to_def upd_fib_def dest: moves_frame)
next
  case (resume f kn)
  show ?thesis
  proof (cases "cont (fib s f) = K_entry")
    case False
    from running_not_entry [OF inv resume(2,3) False, of kn] resume(4) i show ?thesis by (auto dest: moves_frame)
  next
    case True
    with resume(4) i u show ?thesis
      by (auto simp: resume_def fib_exit_def upd_fib_def Let_def split: if_splits)
  qed
next
  case (exit f)
  with i u show ?thesis by (auto simp: fib_exit_def Let_def)
next
  case (unblock j f bl)
  with i show ?thesis
    by (auto simp: unblock_def return_to_def upd_fib_def take_mutex_def take_rd_def take_wr_def Let_def split: block.splits)
next
  case (create en a)
  with i show ?thesis by (simp add: pthread_create_def Let_def)
qed (use i in \<open>auto simp: enter_fiber_def beside_def\<close>)
qed

lemma dead_never_writes:
  "rt_inv s \<Longrightarrow> i < length (fibs s) \<Longrightarrow> fibs s ! i = None \<Longrightarrow> rt_run es s = Some s' \<Longrightarrow>
     never_writes i es s \<and> i < length (fibs s') \<and> fibs s' ! i = None"
proof (induction es arbitrary: s)
  case (Cons e es)
  from Cons.prems(4) obtain s1 where s1: "rt_step e s = Some s1" "rt_run es s1 = Some s'"
    by (auto split: option.splits)
  have "\<not> slot_writes i e s"
  proof
    assume "slot_writes i e s"
    then obtain f where f: "cur_fib s = Some f" "fslot (fib s f) = i" by (auto simp: slot_writes_def)
    then obtain j where j: "j < length (fibs s)" "fibs s ! j = Some f"
      using Cons.prems(1) unfolding rt_inv_def phase_inv_def by (metis option.distinct(1))
    from inv_slot [OF Cons.prems(1) j] f have "j = i" by (auto simp: fib_def)
    with j Cons.prems(3) show False by simp
  qed
  with Cons.IH [OF inv_step [OF Cons.prems(1) s1(1)] _ _ s1(2)] dead_slot_step [OF Cons.prems(1) s1(1) Cons.prems(2,3)] s1
  show ?case by simp
qed simp

text \<open>The handler lock outlives its owner. When a fiber ends while its slot holds the handler lock, which
  \<open>fib_exit\<close> does not release, then under enforcement no other fiber ever completes a \<open>read\<close> again: in every later
  state each of them only goes round the lock's loop.\<close>

theorem dead_owner_blocks_readers:
  assumes "reachable s" "g_enforce (conf s)" "\<not> g_noio (conf s)" "hlock_owner s = Some i"
    and "i < length (fibs s)" "fibs s ! i = None" "rt_run es s = Some s'" "at_read f fd kn e s'"
  shows "\<exists>s2. rt_step e s' = Some s2 \<and> hlock_owner s2 = Some i \<and> waits_for_lock f fd s2"
proof -
  have inv: "rt_inv s" using assms(1) by (rule reachable_inv)
  note d = dead_never_writes [OF inv assms(5-7)]
  note r = run_inv [OF inv assms(7)]
  with assms(2,3) have g: "rt_inv s'" "g_enforce (conf s')" "\<not> g_noio (conf s')" by simp_all
  from assms(8) have run: "running f s'" by (simp add: at_read_def)
  from running_fib [OF g(1) this] obtain j where "j < length (fibs s')" "fibs s' ! j = Some f" "fslot (fib s' f) = j"
    by metis
  with d have "fslot (fib s' f) \<noteq> i" by auto
  from read_waits [OF g hlock_run [OF inv assms(7,4)] assms(8) this] d show ?thesis by blast
qed

definition eof_then_exit :: "unit event list" where
  "eof_then_exit = two_conns @ [E_call (C_io Read 5) kern0, E_exit]"

lemma eof_ok:
  "\<exists>s s'. rt_run eof_then_exit (boot0 enforce_env) = Some s \<and> g_enforce (conf s) \<and> \<not> g_noio (conf s) \<and>
     hlock_owner s = Some 0 \<and> 0 < length (fibs s) \<and> fibs s ! 0 = None \<and>
     rt_run [E_next, E_resume kern0] s = Some s' \<and> at_read 2 6 kern0 (E_call (C_io Read 6) kern0) s'"
  by (simp add: eof_then_exit_def enforce_env_def rt_eval at_read_def running_def)

theorem dead_owner_blocks_readers_witness:
  "\<exists>s s' s2. rt_run eof_then_exit (boot0 enforce_env) = Some s \<and> rt_run [E_next, E_resume kern0] s = Some s' \<and>
     rt_step (E_call (C_io Read 6) kern0) s' = Some s2 \<and> waits_for_lock 2 6 s2"
proof -
  obtain s s' where r: "rt_run eof_then_exit (boot0 enforce_env) = Some s" "g_enforce (conf s)" "\<not> g_noio (conf s)"
    "hlock_owner s = Some 0" "0 < length (fibs s)" "fibs s ! 0 = None"
    "rt_run [E_next, E_resume kern0] s = Some s'" "at_read 2 6 kern0 (E_call (C_io Read 6) kern0) s'"
    using eof_ok by blast
  from dead_owner_blocks_readers [OF boot0_reachable [OF r(1)] r(2-8)] r(1,7) show ?thesis by blast
qed

section \<open>Condition variables\<close>

definition waits_cond :: "('q, 'd) rt \<Rightarrow> nat \<Rightarrow> nat \<Rightarrow> bool" where
  "waits_cond s f c \<longleftrightarrow> (\<exists>b. fibers s f = Some b \<and> state b = F_WAIT_COND \<and> waitcond b = Some c)"

lemma wake_one_done:
  "fibers s f = Some b \<Longrightarrow> waits_cond s f c \<Longrightarrow> in_state (wake_one c f b s) f F_RUN"
  by (auto simp: wake_one_def waits_cond_def in_state_def upd_fib_def)

lemma run_kept: "own_step s s' \<Longrightarrow> in_state s f F_RUN \<Longrightarrow> in_state s' f F_RUN"
proof -
  assume o: "own_step s s'" and i: "in_state s f F_RUN"
  from i obtain b where b: "fibers s f = Some b" "state b = F_RUN" by (auto simp: in_state_def split: option.splits)
  from o b(1) obtain b' where "fibers s' f = Some b'" "bystander b b'" unfolding own_step_def by blast
  with b(2) show ?thesis by (auto simp: in_state_def bystander_def)
qed

lemma wait_or_run:
  assumes "own_step s s'" "waits_cond s f c"
  shows "waits_cond s' f c \<or> in_state s' f F_RUN"
proof -
  from assms(2) obtain b where b: "fibers s f = Some b" "state b = F_WAIT_COND" "waitcond b = Some c"
    by (auto simp: waits_cond_def)
  from assms(1) b(1) obtain b' where "fibers s' f = Some b'" "bystander b b'" unfolding own_step_def by blast
  with b show ?thesis by (auto simp: in_state_def bystander_def waits_cond_def)
qed

lemma wake_scan:
  "rt_inv s \<Longrightarrow> set xs \<subseteq> set (fibs s) \<Longrightarrow> scan (wake_one c) xs s = Some s' \<Longrightarrow>
     Some f \<in> set xs \<Longrightarrow> waits_cond s f c \<Longrightarrow> in_state s' f F_RUN"
proof (induction xs arbitrary: s)
  case (Cons x xs)
  show ?case
  proof (cases x)
    case None
    with Cons show ?thesis by simp
  next
    case (Some g)
    with Cons.prems(2) have g: "Some g \<in> set (fibs s)" by simp
    from inv_member [OF Cons.prems(1) this] obtain b where b: "fibers s g = Some b" ..
    define s1 where "s1 = wake_one c g b s"
    have o: "own_step s s1" unfolding s1_def by (rule own_wakes [OF Cons.prems(1) g b wakes_wake_one [OF b]])
    then have i1: "rt_inv s1" "fibs s1 = fibs s" by (simp_all add: own_step_def)
    have sc: "scan (wake_one c) xs s1 = Some s'" using Cons.prems(3) Some b by (simp add: s1_def)
    have sub: "set xs \<subseteq> set (fibs s1)" using Cons.prems(2) i1(2) by simp
    have o2: "own_step s1 s'"
      using own_scan_list [of "wake_one c", OF _ i1(1) sub] sc wakes_wake_one by fastforce
    show ?thesis
    proof (cases "f = g")
      case True
      with wake_one_done [OF b] Cons.prems(5) have "in_state s1 f F_RUN" by (simp add: s1_def)
      with run_kept [OF o2] show ?thesis .
    next
      case False
      with Some Cons.prems(4) have m: "Some f \<in> set xs" by simp
      from wait_or_run [OF o Cons.prems(5)] show ?thesis
      proof
        assume "waits_cond s1 f c"
        from Cons.IH [OF i1(1) sub sc m this] show ?thesis .
      next
        assume "in_state s1 f F_RUN"
        with run_kept [OF o2] show ?thesis .
      qed
    qed
  qed
qed simp

lemma wake_fibers_wakes:
  "rt_inv s \<Longrightarrow> wake_fibers c s = Some s' \<Longrightarrow> Some f \<in> set (fibs s) \<Longrightarrow> waits_cond s f c \<Longrightarrow> in_state s' f F_RUN"
  unfolding wake_fibers_def by (rule wake_scan) auto

lemma wake_one_pend [simp]: "pend (wake_one c f b s) = pend s"
  by (simp add: wake_one_def upd_fib_def)

lemma scan_pend: "scan (wake_one c) xs s = Some s' \<Longrightarrow> pend s' = pend s"
proof (induction xs arbitrary: s)
  case (Cons x xs)
  show ?case
  proof (cases x)
    case None
    with Cons show ?thesis by simp
  next
    case (Some g)
    with Cons.prems obtain b where "scan (wake_one c) xs (wake_one c g b s) = Some s'"
      by (auto split: option.splits)
    from Cons.IH [OF this] show ?thesis by simp
  qed
qed simp

lemma drain_wakes_all:
  "rt_inv s \<Longrightarrow> drain_wakes n s = Some s' \<Longrightarrow> n = rhead (pend s) - rtail (pend s) \<Longrightarrow>
     c \<in> set (ring_items PENDN (pend s)) \<Longrightarrow> Some f \<in> set (fibs s) \<Longrightarrow> waits_cond s f c \<Longrightarrow> in_state s' f F_RUN"
proof (induction n arbitrary: s)
  case 0
  then show ?case by (simp add: ring_items_def)
next
  case (Suc n)
  then have lt: "rtail (pend s) < rhead (pend s)" by simp
  define x where "x = rbuf (pend s) (rtail (pend s) mod PENDN)"
  define s0 where "s0 = s\<lparr>pend := (pend s)\<lparr>rtail := Suc (rtail (pend s))\<rparr>\<rparr>"
  have get: "ring_get PENDN (pend s) = Some (x, pend s0)" using lt by (simp add: ring_get_def x_def s0_def)
  have i0: "rt_inv s0" using Suc.prems(1) by (subst rt_inv_cong [of s]) (auto simp: s0_def same_view_def)
  from get Suc.prems(2) obtain s1 where s1: "wake_fibers x s0 = Some s1" "drain_wakes n s1 = Some s'"
    by (auto simp: s0_def split: option.splits)
  from own_wake_fibers [OF i0, of x] s1(1) have o: "own_step s0 s1" by auto
  then have i1: "rt_inv s1" "fibs s1 = fibs s" by (simp_all add: own_step_def s0_def)
  have p1: "pend s1 = pend s0" using scan_pend s1(1) by (simp add: wake_fibers_def)
  have items: "ring_items PENDN (pend s) = x # ring_items PENDN (pend s1)"
    using lt by (simp add: p1 s0_def ring_items_def x_def upt_conv_Cons)
  have w0: "waits_cond s0 f c" "Some f \<in> set (fibs s0)" using Suc.prems(5,6) by (simp_all add: s0_def waits_cond_def)
  have o2: "own_step s1 s'" using own_drain_wakes [OF i1(1), of n] s1(2) by auto
  have fin: ?case if "in_state s1 f F_RUN" using run_kept [OF o2 that] .
  show ?case
  proof (cases "x = c")
    case True
    with wake_fibers_wakes [OF i0 s1(1) w0(2)] w0(1) show ?thesis by (intro fin) simp
  next
    case False
    have m: "c \<in> set (ring_items PENDN (pend s1))" using Suc.prems(4) items False by simp
    have n: "n = rhead (pend s1) - rtail (pend s1)" using Suc.prems(3) by (simp add: p1 s0_def)
    have fi: "Some f \<in> set (fibs s1)" using Suc.prems(5) i1(2) by simp
    from wait_or_run [OF o w0(1)] fin Suc.IH [OF i1(1) s1(2) n m fi] show ?thesis by blast
  qed
qed


definition cond_wait_run :: "unit event list" where
  "cond_wait_run = two_conns @ [E_call (C_mutex_lock 3) kern0, E_call (C_cond_wait 4 3 None) kern0, E_next, E_resume kern0,
     E_exit, E_next, E_intake, E_epoll [], E_off]"

lemma cond_wait_ok:
  "\<exists>s. rt_run cond_wait_run (boot0 (\<lambda>_. None)) = Some s \<and> at_phase P_wakes s \<and> \<not> g_nocond (conf s) \<and>
     ring_wf PENDN (pend s) \<and> ring_room PENDN (pend s) \<and> Some 1 \<in> set (fibs s) \<and> waits_cond s 1 4"
  by (simp add: cond_wait_run_def rt_eval ring_wf_def ring_room_def waits_cond_def PENDN_def)


text \<open>The reservation and the store of a thread's signal are two steps, and the carrier may drain between
  them: it then reads the entry before it is written. In this run the thread reserves, the carrier drains, the
  thread stores condition 4, and the ring is empty while the first connection still waits on 4.\<close>

theorem wake_store_race:
  "\<exists>s. rt_run (cond_wait_run @ [T_reserve, E_wakes, T_store 0 4]) (boot0 (\<lambda>_. None)) = Some s \<and>
     ring_items PENDN (pend s) = [] \<and> reserved s = [] \<and> waits_cond s 1 4"
  by (simp add: cond_wait_run_def rt_eval ring_items_def waits_cond_def PENDN_def)

section \<open>Mutexes\<close>

text \<open>Mutual exclusion among fibers holds for plain mutexes and fails for recursive ones. The C library knows
  the carrier as one thread: while a mutex is locked by the carrier, a fiber that locks a plain mutex parks until
  it is unlocked, and a fiber that locks a recursive one is let in at once beside the fiber that holds it.\<close>

theorem mutex_between_fibers:
  assumes "reachable s" "running f s" "cont (fib s f) = K_app" "\<not> may_block (conf s)"
    and "mowner (mutexes s m) = Some 0"
  shows "\<exists>s'. rt_step (E_call (C_mutex_lock m) kn) s = Some s' \<and>
    (if mrec (mutexes s m)
     then running f s' \<and> cont (fib s' f) = K_app \<and> ret (fib s' f) = 0 \<and>
       mcount (mutexes s' m) = mcount (mutexes s m) + 1
     else cur_fib s' = None \<and> cont (fib s' f) = K_mutex m \<and> mutexes s' m = mutexes s m)"
proof -
  have inv: "rt_inv s" using assms(1) by (rule reachable_inv)
  from running_fib [OF inv assms(2)] obtain b i where b: "fibers s f = Some b" "phase s = In_fiber i" by metis
  have nb: "\<not> (g_nomutex (conf s) \<or> g_realmutex (conf s))" using assms(4) by (auto simp: may_block_def)
  have cur: "cur_fib s = Some f" using assms(2) by (simp add: running_def)
  show ?thesis
  proof (cases "mrec (mutexes s m)")
    case True
    with assms(3,5) b cur show ?thesis
      by (simp add: running_def fib_call_def mutex_lock_def mutex_free_def return_to_def take_mutex_def upd_fib_def fib_def)
  next
    case False
    with assms(3,5) b cur nb show ?thesis
      by (simp add: fib_call_def mutex_lock_def mutex_free_def yield_run_def switch_out_def count_switch_def
          save_tls_view upd_fib_def fib_def)
  qed
qed

theorem mutex_between_fibers_witness:
  "\<exists>s s'. rt_run (two_conns @ [E_call (C_mutex_lock 3) kern0, E_call (C_accel 0 16) kern0, E_next, E_resume kern0])
      (boot0 (\<lambda>_. None)) = Some s \<and>
     rt_step (E_call (C_mutex_lock 3) kern0) s = Some s' \<and> cur_fib s' = None \<and> cont (fib s' 2) = K_mutex 3"
proof -
  have "\<exists>s. rt_run (two_conns @ [E_call (C_mutex_lock 3) kern0, E_call (C_accel 0 16) kern0, E_next, E_resume kern0])
      (boot0 (\<lambda>_. None)) = Some s \<and> running 2 s \<and> cont (fib s 2) = K_app \<and> \<not> may_block (conf s) \<and>
      mowner (mutexes s 3) = Some 0 \<and> \<not> mrec (mutexes s 3)"
    by (simp add: rt_eval running_def may_block_def)
  then obtain s where s: "rt_run (two_conns @ [E_call (C_mutex_lock 3) kern0, E_call (C_accel 0 16) kern0, E_next,
      E_resume kern0]) (boot0 (\<lambda>_. None)) = Some s" "running 2 s" "cont (fib s 2) = K_app" "\<not> may_block (conf s)"
    "mowner (mutexes s 3) = Some 0" "\<not> mrec (mutexes s 3)" by blast
  from mutex_between_fibers [OF boot0_reachable [OF s(1)] s(2-5), of kern0] s(1,6) show ?thesis by auto
qed

end
