(* ===== verification/RuntimeLimits.thy ===== *)
theory RuntimeLimits
  imports RuntimeSafe
begin

text \<open>
  The tables of the runtime of \<open>Runtime\<close> at their limits: \<open>fibs\<close> holds \<open>MAXFIB\<close> slots that are never used
  twice, so the carrier writes past the array at the connection after the last slot even when every earlier
  connection has ended; \<open>newq\<close> holds \<open>MAXFIB\<close> fibers, and one that finds it full is reported as created
  and never runs.
\<close>

section \<open>A connection that comes and goes\<close>

text \<open>The carrier is idle, and \<open>n\<close> slots were used by fibers that have ended.\<close>

definition idle_after :: "nat \<Rightarrow> ('q, 'd) rt \<Rightarrow> bool" where
  "idle_after n s \<longleftrightarrow> carrier_running s \<and> phase s = P_intake \<and> cur_fib s = None \<and> newq s = [] \<and>
     fibs s = replicate n None \<and> rhead (pend s) = rtail (pend s) \<and> makes_fiber None s"

definition one_conn :: "nat \<Rightarrow> 'd event list" where
  "one_conn n = [T_create (Some 7) 1, E_intake, E_epoll [], E_off, E_wakes, E_deadlines \<lparr>tv_sec = 0, tv_nsec = 0\<rparr>] @
     replicate n E_next @ [E_next, E_resume kern0, E_exit, E_next]"

lemma scan_append:
  "scan g (xs @ ys) s = (case scan g xs s of None \<Rightarrow> None | Some s' \<Rightarrow> scan g ys s')"
  by (induction g xs s rule: scan.induct) (auto split: option.splits)

lemma scan_nones [simp]: "scan g (replicate n None) s = Some s"
  by (induction n) auto

lemma pass_nones:
  "carrier_running s \<Longrightarrow> k + n \<le> length (fibs s) \<Longrightarrow> \<forall>i < k + n. fibs s ! i = None \<Longrightarrow> phase s = P_run k \<Longrightarrow>
     rt_run (replicate n E_next) s = Some (s\<lparr>phase := P_run (k + n)\<rparr>)"
proof (induction n arbitrary: k s)
  case (Suc n)
  have "rt_step E_next s = Some (s\<lparr>phase := P_run (Suc k)\<rparr>)" using Suc.prems by (simp add: run_slot_def)
  with Suc.IH [of "s\<lparr>phase := P_run (Suc k)\<rparr>" "Suc k"] Suc.prems show ?case by simp
next
  case 0
  then show ?case by simp
qed

text \<open>The state at the run loop, with the new fiber behind the \<open>n\<close> empty slots.\<close>

lemma conn_polled:
  assumes "idle_after n s" "n < MAXFIB"
  obtains s1 f b where
    "rt_run [T_create (Some 7) 1, E_intake, E_epoll [], E_off, E_wakes, E_deadlines \<lparr>tv_sec = 0, tv_nsec = 0\<rparr>] s = Some s1"
    "carrier_running s1" "phase s1 = P_run 0" "cur_fib s1 = None" "newq s1 = []" "fibs s1 = replicate n None @ [Some f]"
    "rhead (pend s1) = rtail (pend s1)" "makes_fiber None s1" "fibers s1 f = Some b" "state b = F_NEW" "cont b = K_entry"
    "fn b \<noteq> None"
proof -
  let ?f = "next_fib s"
  define s1 where "s1 = (s\<lparr>fibers := (fibers s)(?f \<mapsto> (new_fiber (Some 7) 1)\<lparr>fslot := n\<rparr>), next_fib := Suc ?f,
      g_conn_fibers := g_conn_fibers s + 1, newq := [], fibs := replicate n None @ [Some ?f], phase := P_run 0\<rparr>)"
  have "rt_run [T_create (Some 7) 1, E_intake, E_epoll [], E_off, E_wakes, E_deadlines \<lparr>tv_sec = 0, tv_nsec = 0\<rparr>] s = Some s1"
    using assms by (simp add: idle_after_def pthread_create_def intake_def at_phase_def upd_fib_def scan_append off_one_def
        deadline_one_def new_fiber_def s1_def Let_def MAXFIB_def)
  moreover have "makes_fiber None s1" using assms(1) by (simp add: s1_def idle_after_def makes_fiber_def)
  ultimately show ?thesis
    using assms(1) by (intro that [of s1 ?f "(new_fiber (Some 7) 1)\<lparr>fslot := n\<rparr>"]) (simp_all add: s1_def idle_after_def new_fiber_def)
qed

lemma nones_update: "(replicate n None @ [Some f])[n := None] = None # replicate n None"
  by (simp add: list_update_append replicate_append_same)

lemma conn_step:
  assumes "idle_after n s" "n < MAXFIB"
  shows "\<exists>s'. rt_run (one_conn n) s = Some s' \<and> idle_after (Suc n) s'"
proof -
  obtain s1 f b where s1:
    "rt_run [T_create (Some 7) 1, E_intake, E_epoll [], E_off, E_wakes, E_deadlines \<lparr>tv_sec = 0, tv_nsec = 0\<rparr>] s = Some s1"
    "carrier_running s1" "phase s1 = P_run 0" "cur_fib s1 = None" "newq s1 = []" "fibs s1 = replicate n None @ [Some f]"
    "rhead (pend s1) = rtail (pend s1)" "makes_fiber None s1" "fibers s1 f = Some b" "state b = F_NEW" "cont b = K_entry"
    "fn b \<noteq> None" by (rule conn_polled [OF assms])
  define s2 where "s2 = s1\<lparr>phase := P_run n\<rparr>"
  have s2: "rt_run (replicate n E_next) s1 = Some s2"
    using pass_nones [of s1 0 n] s1 by (simp add: s2_def nth_append)
  have run: "rt_run [E_next, E_resume kern0, E_exit, E_next] s2 \<noteq> None \<and>
      idle_after (Suc n) (the (rt_run [E_next, E_resume kern0, E_exit, E_next] s2))"
    using s1 by (simp add: s2_def run_slot_def nth_append enter_fiber_def resume_def upd_fib_def fib_def fib_exit_def
        run_index_def idle_after_def makes_fiber_def nones_update Let_def)
  then show ?thesis
    using s1(1) s2 unfolding one_conn_def rt_run_append by auto
qed

lemma conns:
  assumes "idle_after 0 s"
  shows "n \<le> MAXFIB \<Longrightarrow> \<exists>s'. rt_run (concat (map one_conn [0..<n])) s = Some s' \<and> idle_after n s'"
proof (induction n)
  case 0
  with assms show ?case by simp
next
  case (Suc n)
  then obtain s1 where s1: "rt_run (concat (map one_conn [0..<n])) s = Some s1" "idle_after n s1" by auto
  from conn_step [OF s1(2)] Suc.prems obtain s2 where "rt_run (one_conn n) s1 = Some s2" "idle_after (Suc n) s2"
    by auto
  with s1 show ?case by (simp add: rt_run_append)
qed

text \<open>Slots of ended fibers are never used again. A server that has served \<open>MAXFIB\<close> = 8192 connections, one
  after the other, each ended before the next arrived, is still in order; the intake of the next connection
  writes behind the end of \<open>fibs\<close>.\<close>

theorem connection_limit:
  "\<exists>s. rt_run (T_accept # concat (map one_conn [0..<MAXFIB])) (boot0 (\<lambda>_. None)) = Some s \<and>
     fibs s = replicate MAXFIB None \<and> newq s = [] \<and> rt_run [T_create (Some 7) 1, E_intake] s = None"
proof -
  define s0 where "s0 = (boot0 (\<lambda>_. None))\<lparr>g_serving := True\<rparr>"
  have step: "rt_step T_accept (boot0 (\<lambda>_. None)) = Some s0" by (simp add: s0_def)
  have "idle_after 0 s0" by (simp add: s0_def idle_after_def rt_eval)
  from conns [OF this, of MAXFIB] obtain s where
    s: "rt_run (concat (map one_conn [0..<MAXFIB])) s0 = Some s" "idle_after MAXFIB s" by auto
  from s(2) have "rt_run [T_create (Some 7) 1, E_intake] s = None"
    by (simp add: idle_after_def pthread_create_def intake_def at_phase_def MAXFIB_def Let_def)
  with s step show ?thesis by (simp add: idle_after_def)
qed

section \<open>A fiber for which \<open>newq\<close> has no room\<close>

definition orphan :: "nat \<Rightarrow> ('q, 'd) rt \<Rightarrow> bool" where
  "orphan f s \<longleftrightarrow> fibers s f \<noteq> None \<and> Some f \<notin> set (fibs s) \<and> f \<notin> set (newq s)"

lemma orphan_not_current: "rt_inv s \<Longrightarrow> orphan f s \<Longrightarrow> cur_fib s \<noteq> Some f"
  unfolding rt_inv_def phase_inv_def orphan_def by (metis nth_mem option.distinct(1))

lemma own_live: "own_step s s' \<Longrightarrow> fibers s f \<noteq> None \<Longrightarrow> fibers s' f \<noteq> None"
  unfolding own_step_def by (metis not_None_eq)

lemma orphan_step:
  assumes inv: "rt_inv s" and st: "rt_step e s = Some s'" and o: "orphan f s"
  shows "orphan f s'"
proof -
  note cur = orphan_not_current [OF inv o]
  have neq: "f \<noteq> g" if "running g s" for g using that cur by (auto simp: running_def)
  have sub: "Some f \<notin> set ((fibs s)[j := None])" for j
    using o set_update_subset_insert [of "fibs s" j None] by (auto simp: orphan_def)
  have mv: "orphan f s'" if "moves g s s'" "f \<noteq> g" for g
    using moves_frame [OF that(1)] moves_other [OF that] o by (simp add: orphan_def)
  from inv st show ?thesis
  proof (cases rule: step_cases)
    case (own s1 p)
    have "fibers s1 f \<noteq> None" using own_live [OF own(2)] o by (simp add: orphan_def)
    with own o show ?thesis by (auto simp: own_step_def orphan_def)
  next
    case (intake s1)
    have "newq s1 = []" using intake(3) by (auto simp: intake_def split: if_splits)
    with inv_intake [OF inv intake(2,3)] o intake(4) show ?thesis by (auto simp: orphan_def)
  next
    case (call g c kn)
    from call_cases [OF inv call(2,4)] show ?thesis
    proof
      assume "\<exists>cv s1. c = C_cond_signal cv \<and> wake_fibers cv s = Some s1 \<and> own_step s s1 \<and> s' = return_to g 0 s1"
      then obtain s1 where s1: "own_step s s1" "s' = return_to g 0 s1" by blast
      have "fibers s1 f \<noteq> None" using own_live [OF s1(1)] o by (simp add: orphan_def)
      with s1 o show ?thesis by (auto simp: own_step_def orphan_def return_to_def upd_fib_def)
    qed (rule mv [OF _ neq [OF call(2)]])
  next
    case (resume g kn)
    show ?thesis
    proof (cases "cont (fib s g) = K_entry")
      case False
      from running_not_entry [OF inv resume(2,3) False, of kn] resume(4) mv [OF _ neq [OF resume(2)]] show ?thesis by simp
    next
      case True
      with resume(4) o neq [OF resume(2)] sub show ?thesis
        by (auto simp: resume_def fib_exit_def upd_fib_def orphan_def Let_def split: if_splits)
    qed
  next
    case (exit g)
    with o neq [OF exit(2)] sub show ?thesis by (auto simp: fib_exit_def orphan_def Let_def)
  next
    case (unblock i g bl)
    with o show ?thesis
      by (auto simp: unblock_def return_to_def upd_fib_def take_mutex_def take_rd_def take_wr_def orphan_def Let_def
          split: block.splits)
  next
    case (create en a)
    have "f < next_fib s" using o inv_heap [OF inv, of f] by (auto simp: orphan_def)
    with create o show ?thesis by (auto simp: pthread_create_def orphan_def Let_def)
  qed (use o in \<open>auto simp: enter_fiber_def beside_def orphan_def\<close>)
qed

lemma orphan_run:
  "rt_inv s \<Longrightarrow> orphan f s \<Longrightarrow> rt_run es s = Some s' \<Longrightarrow> cur_fib s' \<noteq> Some f"
proof (induction es arbitrary: s)
  case Nil
  then show ?case using orphan_not_current by auto
next
  case (Cons e es)
  from Cons.prems(3) obtain s1 where s1: "rt_step e s = Some s1" "rt_run es s1 = Some s'"
    by (auto split: option.splits)
  from Cons.IH [OF inv_step [OF Cons.prems(1) s1(1)] orphan_step [OF Cons.prems(1) s1(1) Cons.prems(2)] s1(2)]
  show ?case .
qed

text \<open>A full \<open>newq\<close> loses the connection silently. When \<open>pthread_create\<close> makes a fiber while \<open>newq\<close> holds
  \<open>MAXFIB\<close> entries it reports success, and the fiber is never run, whatever happens afterwards.\<close>

theorem full_newq_drops_fiber:
  assumes "reachable s" "makes_fiber None s" "MAXFIB \<le> length (newq s)" "pthread_create None entry a s = (r, s1)"
    and "rt_run es s1 = Some s2"
  shows "r = Some (next_fib s) \<and> cur_fib s2 \<noteq> Some (next_fib s)"
proof -
  have inv: "rt_inv s" using assms(1) by (rule reachable_inv)
  have "rt_step (T_create entry a) s = Some s1" using assms(4) by simp
  from inv_step [OF inv this] have inv1: "rt_inv s1" .
  have none: "fibers s (next_fib s) = None" using inv_heap [OF inv, of "next_fib s"] by fastforce
  then have "Some (next_fib s) \<notin> set (fibs s)" "next_fib s \<notin> set (newq s)"
    using inv_member [OF inv] inv_new [OF inv] by fastforce+
  then have "orphan (next_fib s) s1"
    using assms(2-4) by (auto simp: pthread_create_def orphan_def Let_def)
  from orphan_run [OF inv1 this assms(5)] assms(2,4) show ?thesis by (auto simp: pthread_create_def Let_def)
qed

lemma creates:
  assumes "makes_fiber None s" "newq s = []"
  shows "n \<le> MAXFIB \<Longrightarrow> \<exists>s'. rt_run (replicate n (T_create (Some 7) 1)) s = Some s' \<and> makes_fiber None s' \<and>
     length (newq s') = n"
proof (induction n)
  case (Suc n)
  then obtain s1 where s1: "rt_run (replicate n (T_create (Some 7) 1)) s = Some s1" "makes_fiber None s1"
    "length (newq s1) = n" by auto
  have r: "replicate (Suc n) (T_create (Some 7) 1) = replicate n (T_create (Some 7) 1) @ [T_create (Some 7) 1]"
    by (simp add: replicate_append_same)
  from s1 Suc.prems show ?case
    unfolding r by (simp add: rt_run_append pthread_create_def makes_fiber_def Let_def)
qed (use assms in simp)

theorem full_newq_drops_fiber_witness:
  "\<exists>s s1. rt_run (T_accept # replicate MAXFIB (T_create (Some 7) 1)) (boot0 (\<lambda>_. None)) = Some s \<and>
     pthread_create None (Some 7) 1 s = (Some (next_fib s), s1) \<and>
     (\<forall>es s2. rt_run es s1 = Some s2 \<longrightarrow> cur_fib s2 \<noteq> Some (next_fib s))"
proof -
  define s0 where "s0 = (boot0 (\<lambda>_. None))\<lparr>g_serving := True\<rparr>"
  have "makes_fiber None s0" "newq s0 = []" by (simp_all add: s0_def rt_eval)
  from creates [OF this, of MAXFIB] obtain s where
    s: "rt_run (replicate MAXFIB (T_create (Some 7) 1)) s0 = Some s" "makes_fiber None s" "length (newq s) = MAXFIB" by auto
  have run: "rt_run (T_accept # replicate MAXFIB (T_create (Some 7) 1)) (boot0 (\<lambda>_. None)) = Some s"
    using s(1) by (simp add: s0_def)
  obtain r s1 where c: "pthread_create None (Some 7) 1 s = (r, s1)" by fastforce
  have len: "MAXFIB \<le> length (newq s)" using s(3) by simp
  note d = full_newq_drops_fiber [OF boot0_reachable [OF run] s(2) len c]
  from d [of "[]" s1] have "r = Some (next_fib s)" by simp
  with c run d show ?thesis by blast
qed

end
