(* ===== verification/Spop.thy ===== *)
theory Spop
  imports Ring "HOL-Library.Multiset"
begin

text \<open>
  The stream processing agent \<open>apps/haproxy_accel/spoa_agent.c\<close>: the variable-length integers of SPOP, the
  frames the agent sends and reads, the job queue between the connection threads and the workers,
  and the agent's life as steps of its threads.
\<close>

section \<open>Variable-length integers\<close>

lemma drop_less:
  fixes c v :: u64
  assumes "0 < c" "c \<le> v"
  shows "unat (drop_bit n (v - c)) < unat v"
proof -
  have "unat (drop_bit n (v - c)) \<le> unat (v - c)"
    by (subst unat_drop_bit_eq) (simp add: drop_bit_eq_div)
  also have "\<dots> < unat v"
    using assms by (simp add: unat_sub word_less_nat_alt word_le_nat_alt)
  finally show ?thesis .
qed

function enc_tail :: "u64 \<Rightarrow> u8 list" where
  "enc_tail v = (if 128 \<le> v then ucast (or v 128) # enc_tail (drop_bit 7 (v - 128)) else [ucast v])"
  by auto

termination by (relation "measure unat") (auto simp: drop_less)

declare enc_tail.simps [simp del]

definition enc_varint :: "u64 \<Rightarrow> u8 list" where
  "enc_varint v = (if v < 240 then [ucast v] else ucast (or v 240) # enc_tail (drop_bit 4 (v - 240)))"

text \<open>
  The decoder reads the payload buffer of \<open>1<<20\<close> bytes. \<open>None\<close> is undefined behaviour: a read behind the
  buffer, or a shift by 64 or more.
\<close>

definition PLSZ :: nat where "PLSZ = 2 ^ 20"

function dec_tail :: "memory \<Rightarrow> nat \<Rightarrow> nat \<Rightarrow> u64 \<Rightarrow> (u64 \<times> nat) option" where
  "dec_tail b off r v =
     (if PLSZ \<le> off \<or> 64 \<le> r then None
      else (let x = b off; v' = v + push_bit r (ucast x)
            in if 128 \<le> x then dec_tail b (Suc off) (r + 7) v' else Some (v', Suc off)))"
  by auto

termination by (relation "measure (\<lambda>(b, off, r, v). PLSZ - off)") auto

declare dec_tail.simps [simp del]

definition dec_varint :: "memory \<Rightarrow> nat \<Rightarrow> (u64 \<times> nat) option" where
  "dec_varint b off =
     (if PLSZ \<le> off then None
      else (let b0 = b off in if b0 < 240 then Some (ucast b0, Suc off) else dec_tail b (Suc off) 4 (ucast b0)))"

subsection \<open>The bytes of the encoder\<close>

lemma or_top_all:
  "list_all (\<lambda>n. or (word_of_nat n :: u8) 128 = take_bit 7 (word_of_nat n) + 128 \<and>
     or (word_of_nat n :: u8) 240 = take_bit 4 (word_of_nat n) + 240) [0..<256]"
  by code_simp

lemma or_top:
  fixes x :: u8
  shows "or x 128 = take_bit 7 x + 128" "or x 240 = take_bit 4 x + 240"
proof -
  have "unat x < 2 ^ LENGTH(8)" by (rule unsigned_less)
  then have "unat x \<in> set [0..<256]" by simp
  with or_top_all have "or (word_of_nat (unat x) :: u8) 128 = take_bit 7 (word_of_nat (unat x)) + 128 \<and>
      or (word_of_nat (unat x) :: u8) 240 = take_bit 4 (word_of_nat (unat x)) + 240"
    unfolding list_all_iff by blast
  then show "or x 128 = take_bit 7 x + 128" "or x 240 = take_bit 4 x + 240" by simp_all
qed

lemma byte_widths:
  fixes x :: u8 and v :: u64
  shows "unat (ucast x :: u64) = unat x" "unat (ucast v :: u8) = unat v mod 256"
proof -
  have "unat x < 2 ^ LENGTH(8)" by (rule unsigned_less)
  then show "unat (ucast x :: u64) = unat x" by (subst unsigned_ucast_eq) (simp add: take_bit_nat_eq_self_iff)
  show "unat (ucast v :: u8) = unat v mod 256" by (subst unsigned_ucast_eq) (simp add: take_bit_eq_mod)
qed

lemma narrow:
  fixes v :: u64
  assumes "unat v < 256"
  shows "ucast (ucast v :: u8) = v" "unat (ucast v :: u8) = unat v"
proof -
  show u: "unat (ucast v :: u8) = unat v" using assms by (simp add: byte_widths(2))
  have "unat (ucast (ucast v :: u8) :: u64) = unat v" unfolding byte_widths(1) by (rule u)
  then show "ucast (ucast v :: u8) = v" by (simp only: word_unat_eq_iff)
qed

lemma low_byte:
  fixes v :: u64
  shows "unat (ucast (or v 128) :: u8) = 128 + unat v mod 128" "unat (ucast (or v 240) :: u8) = 240 + unat v mod 16"
proof -
  let ?x = "ucast v :: u8"
  have x: "unat ?x = unat v mod 256" by (rule byte_widths)
  have m: "unat (take_bit 7 ?x) = unat v mod 128" "unat (take_bit 4 ?x) = unat v mod 16"
    by (subst unsigned_take_bit_eq, simp add: x take_bit_eq_mod mod_mod_cancel)+
  have o: "(ucast (or v 128) :: u8) = or ?x 128" "(ucast (or v 240) :: u8) = or ?x 240"
    by (simp_all add: unsigned_or_eq)
  have l: "unat v mod 128 < 128" "unat v mod 16 < 16" by simp_all
  show "unat (ucast (or v 128) :: u8) = 128 + unat v mod 128"
    unfolding o or_top using l(1) by (subst unat_add_lem [THEN iffD1]) (simp_all add: m)
  show "unat (ucast (or v 240) :: u8) = 240 + unat v mod 16"
    unfolding o or_top using l(2) by (subst unat_add_lem [THEN iffD1]) (simp_all add: m)
qed

lemma split_value:
  fixes v :: u64
  shows "128 \<le> v \<Longrightarrow> v = ucast (ucast (or v 128) :: u8) + 2 ^ 7 * drop_bit 7 (v - 128)"
    and "240 \<le> v \<Longrightarrow> v = ucast (ucast (or v 240) :: u8) + 2 ^ 4 * drop_bit 4 (v - 240)"
proof -
  have gen: "v = y + 2 ^ k * drop_bit k (v - c)"
    if "c \<le> v" "unat y = unat c + unat v mod 2 ^ k" "2 ^ k dvd unat c" "k < 64" for y c :: u64 and k
  proof -
    have u: "unat (drop_bit k (v - c)) = (unat v - unat c) div 2 ^ k"
      using that(1) by (subst unat_drop_bit_eq) (simp add: drop_bit_eq_div unat_sub)
    have "unat v mod 2 ^ k = (unat v - unat c) mod 2 ^ k"
      using that(1,3) by (metis dvd_imp_mod_0 le_add_diff_inverse mod_add_left_eq add_0 word_le_nat_alt)
    then have "unat v = unat y + 2 ^ k * unat (drop_bit k (v - c))"
      using that(1,2) unfolding u by (simp add: word_le_nat_alt)
    then have "(of_nat (unat v) :: u64) = of_nat (unat y) + 2 ^ k * of_nat (unat (drop_bit k (v - c)))"
      by simp
    then show ?thesis by simp
  qed
  show "128 \<le> v \<Longrightarrow> v = ucast (ucast (or v 128) :: u8) + 2 ^ 7 * drop_bit 7 (v - 128)"
    by (rule gen) (simp_all only: byte_widths(1) low_byte, simp_all)
  show "240 \<le> v \<Longrightarrow> v = ucast (ucast (or v 240) :: u8) + 2 ^ 4 * drop_bit 4 (v - 240)"
    by (rule gen) (simp_all only: byte_widths(1) low_byte, simp_all)
qed

text \<open>A buffer that holds the given bytes from an offset on.\<close>

definition holds :: "memory \<Rightarrow> nat \<Rightarrow> u8 list \<Rightarrow> bool" where
  "holds b off bs \<longleftrightarrow> off + length bs \<le> PLSZ \<and> (\<forall>i < length bs. b (off + i) = bs ! i)"

lemma holds_Cons:
  "holds b off (x # bs) \<longleftrightarrow> off < PLSZ \<and> b off = x \<and> holds b (Suc off) bs"
  by (auto simp: holds_def All_less_Suc2)

lemma enc_tail_len: "0 < length (enc_tail v)"
  by (subst enc_tail.simps) simp

lemma dec_enc_tail:
  "holds b off (enc_tail v) \<Longrightarrow> r < 64 \<Longrightarrow> unat v < 2 ^ (64 - r) \<Longrightarrow>
     dec_tail b off r a = Some (a + push_bit r v, off + length (enc_tail v))"
proof (induction v arbitrary: off r a rule: enc_tail.induct)
  case (1 v)
  show ?case
  proof (cases "128 \<le> v")
    case False
    with "1.prems" have "off < PLSZ" "b off = ucast v" by (simp_all add: enc_tail.simps [of v] holds_Cons)
    moreover have "unat v < 128" using False by (simp add: word_le_nat_alt)
    then have "\<not> 128 \<le> (ucast v :: u8)" "ucast (ucast v :: u8) = v"
      by (simp_all add: word_le_nat_alt narrow)
    ultimately show ?thesis using False "1.prems"(2)
      by (simp add: dec_tail.simps [of b off] enc_tail.simps [of v] Let_def)
  next
    case True
    let ?x = "ucast (or v 128) :: u8" and ?w = "drop_bit 7 (v - 128)"
    have e: "enc_tail v = ?x # enc_tail ?w" using True by (simp add: enc_tail.simps [of v])
    with "1.prems"(1) have h: "off < PLSZ" "b off = ?x" "holds b (Suc off) (enc_tail ?w)"
      by (simp_all add: holds_Cons)
    have x: "128 \<le> ?x" by (simp add: word_le_nat_alt low_byte)
    have uv: "128 \<le> unat v" using True by (simp add: word_le_nat_alt)
    have "(2 :: nat) ^ 7 < 2 ^ (64 - r)" using uv "1.prems"(3) by simp
    then have "7 < 64 - r" by (rule power_less_imp_less_exp [rotated]) simp
    then have r: "r + 7 < 64" by simp
    have "unat ?w \<le> unat v div 2 ^ 7"
      using True by (subst unat_drop_bit_eq) (simp add: drop_bit_eq_div unat_sub div_le_mono)
    also have "\<dots> < 2 ^ (64 - (r + 7))"
    proof -
      have "64 - r = 64 - (r + 7) + 7" using r by simp
      then have "(2 :: nat) ^ (64 - r) = 2 ^ (64 - (r + 7)) * 2 ^ 7" by (simp only: power_add)
      with "1.prems"(3) show ?thesis by (simp add: less_mult_imp_div_less)
    qed
    finally have w: "unat ?w < 2 ^ (64 - (r + 7))" .
    have "push_bit r (ucast ?x) + push_bit (r + 7) ?w = push_bit r v"
      by (subst (3) split_value(1) [OF True]) (simp add: push_bit_eq_mult power_add algebra_simps)
    with "1.IH" [OF True h(3) r w, of "a + push_bit r (ucast ?x)"] h x "1.prems"(2) show ?thesis
      by (simp add: dec_tail.simps [of b off] e Let_def add.assoc)
  qed
qed

lemma dec_enc_varint:
  assumes "holds b off (enc_varint v)"
  shows "dec_varint b off = Some (v, off + length (enc_varint v))"
proof (cases "v < 240")
  case True
  with assms have "off < PLSZ" "b off = ucast v" by (simp_all add: enc_varint_def holds_Cons)
  moreover have "unat v < 240" using True by (simp add: word_less_nat_alt)
  then have "(ucast v :: u8) < 240" "ucast (ucast v :: u8) = v"
    by (simp_all add: word_less_nat_alt narrow)
  ultimately show ?thesis using True by (simp add: dec_varint_def enc_varint_def Let_def)
next
  case False
  then have ge: "240 \<le> v" by simp
  let ?x = "ucast (or v 240) :: u8" and ?w = "drop_bit 4 (v - 240)"
  have h: "off < PLSZ" "b off = ?x" "holds b (Suc off) (enc_tail ?w)"
    using assms False by (simp_all add: enc_varint_def holds_Cons)
  have x: "\<not> ?x < 240" by (simp add: word_less_nat_alt low_byte)
  have "unat ?w \<le> unat v div 2 ^ 4"
    using ge by (subst unat_drop_bit_eq) (simp add: drop_bit_eq_div unat_sub div_le_mono)
  also have "\<dots> < 2 ^ (64 - 4)"
  proof -
    have "unat v < 2 ^ LENGTH(64)" by (rule unsigned_less)
    then show ?thesis by (simp add: less_mult_imp_div_less)
  qed
  finally have w: "unat ?w < 2 ^ (64 - 4)" .
  have "ucast ?x + push_bit 4 ?w = v"
    by (subst (3) split_value(2) [OF ge]) (simp add: push_bit_eq_mult algebra_simps)
  with dec_enc_tail [OF h(3) _ w, of "ucast ?x"] h x False show ?thesis
    by (simp add: dec_varint_def enc_varint_def Let_def)
qed

text \<open>C26: Every 64-bit value survives the trip: the decoder reads the bytes of the encoder back, from any
  offset of the payload buffer at which they lie, returns the value and stops right behind them.\<close>

theorem varint_round_trip:
  assumes "holds b off (enc_varint v)"
  shows "dec_varint b off = Some (v, off + length (enc_varint v))"
  using assms by (rule dec_enc_varint)

theorem varint_round_trip_witness:
  "dec_varint (wr 5 (enc_varint 16380) (\<lambda>_. 0)) 5 = Some (16380, 5 + length (enc_varint 16380))"
proof (rule varint_round_trip)
  show "holds (wr 5 (enc_varint 16380) (\<lambda>_. 0)) 5 (enc_varint 16380)"
    by (simp add: holds_def wr_def PLSZ_def enc_varint_def enc_tail.simps)
qed

section \<open>Frames\<close>

definition FT_HAPROXY_HELLO :: u8 where "FT_HAPROXY_HELLO = 1"
definition FT_HAPROXY_DISCON :: u8 where "FT_HAPROXY_DISCON = 2"
definition FT_NOTIFY :: u8 where "FT_NOTIFY = 3"
definition FT_AGENT_HELLO :: u8 where "FT_AGENT_HELLO = 101"
definition FT_ACK :: u8 where "FT_ACK = 103"
definition FLAG_FIN :: u32 where "FLAG_FIN = 1"

text \<open>\<open>htonl\<close> and \<open>ntohl\<close> with the copies around them.\<close>

definition be32 :: "u32 \<Rightarrow> u8 list" where
  "be32 w = [ucast (drop_bit 24 w), ucast (drop_bit 16 w), ucast (drop_bit 8 w), ucast w]"

definition be32_val :: "u8 list \<Rightarrow> u32" where
  "be32_val bs = foldl (\<lambda>acc b. push_bit 8 acc + ucast b) 0 bs"

definition enc_str :: "string \<Rightarrow> u8 list" where
  "enc_str s = enc_varint (word_of_nat (length s)) @ map of_char s"

definition framed :: "u8 list \<Rightarrow> u8 list" where
  "framed p = be32 (word_of_nat (length p)) @ p"

definition ack_payload :: "u64 \<Rightarrow> u64 \<Rightarrow> u8 list" where
  "ack_payload sid fid = FT_ACK # be32 FLAG_FIN @ enc_varint sid @ enc_varint fid"

definition hello_payload :: "u32 \<Rightarrow> u8 list" where
  "hello_payload mfs =
     FT_AGENT_HELLO # be32 FLAG_FIN @ enc_varint 0 @ enc_varint 0 @
     enc_str ''version'' @ [8] @ enc_str ''2.0'' @
     enc_str ''max-frame-size'' @ [3] @ enc_varint (ucast mfs) @
     enc_str ''capabilities'' @ [8] @ enc_str ''pipelining''"

lemma enc_tail_length: "unat v < 2 ^ (7 * n) \<Longrightarrow> 0 < n \<Longrightarrow> length (enc_tail v) \<le> n"
proof (induction v arbitrary: n rule: enc_tail.induct)
  case (1 v)
  show ?case
  proof (cases "128 \<le> v")
    case True
    have uv: "128 \<le> unat v" using True by (simp add: word_le_nat_alt)
    with "1.prems" have n: "1 < n" by (cases "n = 1") auto
    have "unat (drop_bit 7 (v - 128)) \<le> unat v div 2 ^ 7"
      using True by (subst unat_drop_bit_eq) (simp add: drop_bit_eq_div unat_sub div_le_mono)
    also have "\<dots> < 2 ^ (7 * (n - 1))"
    proof -
      have "7 * n = 7 * (n - 1) + 7" using n by simp
      then have "(2 :: nat) ^ (7 * n) = 2 ^ (7 * (n - 1)) * 2 ^ 7" by (simp only: power_add)
      with "1.prems"(1) show ?thesis by (simp add: less_mult_imp_div_less)
    qed
    finally show ?thesis using "1.IH" [OF True, of "n - 1"] n True by (simp add: enc_tail.simps [of v])
  qed (use "1.prems" in \<open>simp add: enc_tail.simps [of v]\<close>)
qed

lemma enc_varint_length: "length (enc_varint v) \<le> 10"
proof -
  have "unat w < 2 ^ LENGTH(64)" for w :: u64 by (rule unsigned_less)
  then have "unat w < 2 ^ (7 * 10)" for w :: u64 by (rule less_trans) simp
  have l: "length (enc_tail (drop_bit 4 (v - 240))) \<le> 9"
  proof (rule enc_tail_length)
    have "unat (drop_bit 4 (v - 240)) = unat (v - 240) div 2 ^ 4"
      by (subst unat_drop_bit_eq) (simp add: drop_bit_eq_div)
    also have "\<dots> < 2 ^ (7 * 9)"
    proof -
      have "unat (v - 240) < 2 ^ LENGTH(64)" by (rule unsigned_less)
      then show ?thesis by (simp add: less_mult_imp_div_less)
    qed
    finally show "unat (drop_bit 4 (v - 240)) < 2 ^ (7 * 9)" .
  qed simp
  then show ?thesis by (simp add: enc_varint_def)
qed

text \<open>The agent's own frames fit the buffers \<open>p[64]\<close>, \<open>frame[80]\<close>, \<open>p[256]\<close> and \<open>frame[300]\<close>.\<close>

lemma own_frames_fit:
  "length (ack_payload sid fid) \<le> 25" "length (framed (ack_payload sid fid)) \<le> 29"
  "length (hello_payload mfs) \<le> 93" "length (framed (hello_payload mfs)) \<le> 97"
proof -
  show a: "length (ack_payload sid fid) \<le> 25"
    using enc_varint_length [of sid] enc_varint_length [of fid] by (simp add: ack_payload_def be32_def)
  then show "length (framed (ack_payload sid fid)) \<le> 29" by (simp add: framed_def be32_def)
  have "length (enc_varint 0) = 1" "length (enc_varint 7) = 1" "length (enc_varint 3) = 1" "length (enc_varint 14) = 1"
    "length (enc_varint 12) = 1" "length (enc_varint 10) = 1" by (simp_all add: enc_varint_def)
  then show h: "length (hello_payload mfs) \<le> 93"
    using enc_varint_length [of "ucast mfs"] by (simp add: hello_payload_def be32_def enc_str_def)
  then show "length (framed (hello_payload mfs)) \<le> 97" by (simp add: framed_def be32_def)
qed

lemma be32_round_trip: "be32_val (be32 w) = w"
proof -
  have b: "(ucast (ucast (drop_bit k w) :: u8) :: u32) = word_of_nat (unat w div 2 ^ k mod 256)" for k
  proof -
    have "unat (ucast (drop_bit k w) :: u8) = unat w div 2 ^ k mod 256"
      by (subst unsigned_ucast_eq, subst unat_drop_bit_eq) (simp add: take_bit_eq_mod drop_bit_eq_div)
    moreover have "unat (ucast x :: u32) = unat x" for x :: u8
    proof -
      have "unat x < 2 ^ LENGTH(8)" by (rule unsigned_less)
      then show ?thesis by (subst unsigned_ucast_eq) (simp add: take_bit_nat_eq_self_iff)
    qed
    ultimately have "unat (ucast (ucast (drop_bit k w) :: u8) :: u32) = unat w div 2 ^ k mod 256" by simp
    from arg_cong [OF this, of "word_of_nat :: nat \<Rightarrow> u32"] show ?thesis by simp
  qed
  let ?u = "unat w"
  have "?u < 2 ^ LENGTH(32)" by (rule unsigned_less)
  have pw: "(2 :: nat) ^ 24 = 16777216" "(2 :: nat) ^ 16 = 65536" "(2 :: nat) ^ 8 = 256" by simp_all
  from \<open>?u < 2 ^ LENGTH(32)\<close> have "?u div 16777216 mod 256 = ?u div 16777216" by simp
  moreover have "?u div 16777216 * 256 + ?u div 65536 mod 256 = ?u div 65536"
    using div_mult_mod_eq [of "?u div 65536" 256] by (simp flip: div_mult2_eq)
  moreover have "?u div 65536 * 256 + ?u div 256 mod 256 = ?u div 256"
    using div_mult_mod_eq [of "?u div 256" 256] by (simp flip: div_mult2_eq)
  moreover have "?u div 256 * 256 + ?u mod 256 = ?u" by simp
  ultimately have d: "((?u div 2 ^ 24 mod 256 * 256 + ?u div 2 ^ 16 mod 256) * 256 + ?u div 2 ^ 8 mod 256) * 256 + ?u mod 256 = ?u"
    by (simp only: pw)
  have "be32_val (be32 w) = word_of_nat (((?u div 2 ^ 24 mod 256 * 256 + ?u div 2 ^ 16 mod 256) * 256 +
      ?u div 2 ^ 8 mod 256) * 256 + ?u mod 256)"
    using b [of 24] b [of 16] b [of 8] b [of 0] by (simp add: be32_val_def be32_def push_bit_eq_mult algebra_simps)
  then show ?thesis unfolding d by simp
qed

section \<open>The agent\<close>

text \<open>
  A job is a connection with a stream and a frame identifier. \<open>c_in\<close> are the bytes the peer sends before
  it closes, \<open>c_out\<close> the frames written under the connection's lock, \<open>c_pl\<close> the payload buffer. A \<open>struct
  conn\<close> is named by the order of acceptance; it is gone from \<open>conns\<close> once it is freed.
\<close>

type_synonym sp_job = "nat \<times> u64 \<times> u64"

definition QN :: nat where "QN = 65536"

record sp_conn =
  c_in :: "u8 list"
  c_out :: "u8 list list"
  c_pl :: memory

record agent =
  conns :: "nat \<Rightarrow> sp_conn option"
  next_conn :: nat
  jobq :: "sp_job ring"
  busy :: "sp_job list"

definition agent0 :: agent where
  "agent0 = \<lparr>conns = (\<lambda>_. None), next_conn = 0, jobq = ring_empty (0, 0, 0), busy = []\<rparr>"

definition readn :: "nat \<Rightarrow> u8 list \<Rightarrow> (u8 list \<times> u8 list) option" where
  "readn n inp = (if n \<le> length inp then Some (take n inp, drop n inp) else None)"

datatype got = G_close | G_hello | G_notify u64 u64 | G_discon | G_other

text \<open>One turn of the connection thread's loop up to its dispatch; \<open>None\<close> is undefined behaviour.\<close>

definition conn_recv :: "u8 list \<Rightarrow> memory \<Rightarrow> (got \<times> u8 list \<times> memory) option" where
  "conn_recv inp pl =
     (case readn 4 inp of
        None \<Rightarrow> Some (G_close, inp, pl)
      | Some (hdr, r) \<Rightarrow>
          (let flen = unat (be32_val hdr)
           in if flen = 0 \<or> PLSZ < flen then Some (G_close, r, pl)
              else (case readn flen r of
                      None \<Rightarrow> Some (G_close, r, pl)
                    | Some (p, r') \<Rightarrow>
                        (let pl' = wr 0 p pl; type = pl' 0
                         in case dec_varint pl' 5 of
                              None \<Rightarrow> None
                            | Some (sid, off) \<Rightarrow>
                                (case dec_varint pl' off of
                                   None \<Rightarrow> None
                                 | Some (fid, off') \<Rightarrow>
                                     Some (if type = FT_HAPROXY_HELLO then G_hello
                                           else if type = FT_NOTIFY then G_notify sid fid
                                           else if type = FT_HAPROXY_DISCON then G_discon else G_other,
                                           r', pl'))))))"

definition accept_conn :: "u8 list \<Rightarrow> memory \<Rightarrow> agent \<Rightarrow> agent" where
  "accept_conn inp pl s = s\<lparr>conns := (conns s)(next_conn s \<mapsto> \<lparr>c_in = inp, c_out = [], c_pl = pl\<rparr>),
     next_conn := Suc (next_conn s)\<rparr>"

definition send :: "nat \<Rightarrow> u8 list \<Rightarrow> agent \<Rightarrow> agent option" where
  "send c fr s =
     (case conns s c of
        None \<Rightarrow> None
      | Some t \<Rightarrow> Some (s\<lparr>conns := (conns s)(c \<mapsto> t\<lparr>c_out := c_out t @ [fr]\<rparr>)\<rparr>))"

definition send_ack :: "nat \<Rightarrow> u64 \<Rightarrow> u64 \<Rightarrow> agent \<Rightarrow> agent option" where
  "send_ack c sid fid s = send c (framed (ack_payload sid fid)) s"

definition send_agent_hello :: "nat \<Rightarrow> u32 \<Rightarrow> agent \<Rightarrow> agent option" where
  "send_agent_hello c mfs s = send c (framed (hello_payload mfs)) s"

definition conn_thread :: "nat \<Rightarrow> agent \<Rightarrow> agent option" where
  "conn_thread c s =
     (case conns s c of
        None \<Rightarrow> Some s
      | Some t \<Rightarrow>
          (case conn_recv (c_in t) (c_pl t) of
             None \<Rightarrow> None
           | Some (g, r, pl) \<Rightarrow>
               (let s1 = s\<lparr>conns := (conns s)(c \<mapsto> t\<lparr>c_in := r, c_pl := pl\<rparr>)\<rparr>
                in case g of
                     G_hello \<Rightarrow> send_agent_hello c 16380 s1
                   | G_notify sid fid \<Rightarrow> Some (s1\<lparr>jobq := ring_put QN (c, sid, fid) (jobq s1)\<rparr>)
                   | G_other \<Rightarrow> Some s1
                   | _ \<Rightarrow> Some (s1\<lparr>conns := (conns s1)(c := None)\<rparr>))))"

definition worker_take :: "agent \<Rightarrow> agent" where
  "worker_take s =
     (case ring_get QN (jobq s) of None \<Rightarrow> s | Some (j, r) \<Rightarrow> s\<lparr>jobq := r, busy := busy s @ [j]\<rparr>)"

text \<open>A worker whose offload is over, by the position of its job among the taken ones.\<close>

definition worker_ack :: "nat \<Rightarrow> agent \<Rightarrow> agent option" where
  "worker_ack i s =
     (if i < length (busy s)
      then (case busy s ! i of (c, sid, fid) \<Rightarrow>
              map_option (\<lambda>s'. s'\<lparr>busy := take i (busy s') @ drop (Suc i) (busy s')\<rparr>) (send_ack c sid fid s))
      else Some s)"

datatype sp_event = S_accept "u8 list" memory | S_conn nat | S_take | S_ack nat

fun sp_step :: "sp_event \<Rightarrow> agent \<Rightarrow> agent option" where
  "sp_step (S_accept inp pl) s = Some (accept_conn inp pl s)"
| "sp_step (S_conn c) s = conn_thread c s"
| "sp_step S_take s = Some (worker_take s)"
| "sp_step (S_ack i) s = worker_ack i s"

fun sp_run :: "sp_event list \<Rightarrow> agent \<Rightarrow> agent option" where
  "sp_run [] s = Some s"
| "sp_run (e # es) s = (case sp_step e s of None \<Rightarrow> None | Some s' \<Rightarrow> sp_run es s')"

lemma sp_run_append: "sp_run (xs @ ys) s = (case sp_run xs s of None \<Rightarrow> None | Some s' \<Rightarrow> sp_run ys s')"
  by (induction xs arbitrary: s) (auto split: option.splits)

section \<open>Every notification is acknowledged once\<close>

text \<open>The identifiers a step reads from a connection, and those a run reads.\<close>

definition notified1 :: "nat \<Rightarrow> sp_event \<Rightarrow> agent \<Rightarrow> (u64 \<times> u64) list" where
  "notified1 c e s =
     (case e of
        S_conn d \<Rightarrow>
          if d \<noteq> c then []
          else (case conns s c of
                  None \<Rightarrow> []
                | Some t \<Rightarrow> (case conn_recv (c_in t) (c_pl t) of
                               Some (G_notify sid fid, _) \<Rightarrow> [(sid, fid)] | _ \<Rightarrow> []))
      | _ \<Rightarrow> [])"

fun notified :: "nat \<Rightarrow> sp_event list \<Rightarrow> agent \<Rightarrow> (u64 \<times> u64) list" where
  "notified c [] s = []"
| "notified c (e # es) s =
     notified1 c e s @ (case sp_step e s of None \<Rightarrow> [] | Some s' \<Rightarrow> notified c es s')"

text \<open>A run whose queue never overflows.\<close>

fun roomy :: "sp_event list \<Rightarrow> agent \<Rightarrow> bool" where
  "roomy [] s \<longleftrightarrow> True"
| "roomy (e # es) s \<longleftrightarrow> ring_room QN (jobq s) \<and> (case sp_step e s of None \<Rightarrow> True | Some s' \<Rightarrow> roomy es s')"

definition is_ack :: "u8 list \<Rightarrow> bool" where
  "is_ack fr \<longleftrightarrow> fr ! 4 = FT_ACK"

definition ack_frame :: "u64 \<times> u64 \<Rightarrow> u8 list" where
  "ack_frame j = framed (ack_payload (fst j) (snd j))"

definition acks :: "nat \<Rightarrow> agent \<Rightarrow> u8 list multiset" where
  "acks c s = (case conns s c of None \<Rightarrow> {#} | Some t \<Rightarrow> mset (filter is_ack (c_out t)))"

definition sp_pending :: "nat \<Rightarrow> agent \<Rightarrow> (u64 \<times> u64) multiset" where
  "sp_pending c s = image_mset snd (filter_mset (\<lambda>j. fst j = c) (mset (ring_items QN (jobq s)) + mset (busy s)))"

lemma is_ack_frames [simp]: "is_ack (framed (ack_payload sid fid))" "\<not> is_ack (framed (hello_payload mfs))"
  by (simp_all add: is_ack_def framed_def be32_def ack_payload_def hello_payload_def FT_ACK_def FT_AGENT_HELLO_def)

definition sp_inv :: "(nat \<Rightarrow> (u64 \<times> u64) multiset) \<Rightarrow> agent \<Rightarrow> bool" where
  "sp_inv seen s \<longleftrightarrow> ring_wf QN (jobq s) \<and>
     (\<forall>c. next_conn s \<le> c \<longrightarrow> conns s c = None \<and> seen c = {#} \<and> sp_pending c s = {#}) \<and>
     (\<forall>c t. conns s c = Some t \<longrightarrow> acks c s + image_mset ack_frame (sp_pending c s) = image_mset ack_frame (seen c))"

lemma pending_put:
  assumes "ring_wf QN (jobq s)" "ring_room QN (jobq s)"
  shows "sp_pending c (s\<lparr>jobq := ring_put QN (d, j) (jobq s)\<rparr>) = sp_pending c s + (if d = c then {#j#} else {#})"
  using ring_items_put [OF assms, of "(d, j)"] by (simp add: sp_pending_def)

lemma pending_take:
  assumes "ring_wf QN (jobq s)" "ring_get QN (jobq s) = Some (j, r)"
  shows "sp_pending c (s\<lparr>jobq := r, busy := busy s @ [j]\<rparr>) = sp_pending c s"
  using ring_get_Some [OF assms] by (simp add: sp_pending_def)

lemma pending_done:
  assumes "i < length (busy s)" "busy s ! i = (d, j)"
  shows "sp_pending c s = sp_pending c (s\<lparr>busy := take i (busy s) @ drop (Suc i) (busy s)\<rparr>) +
    (if d = c then {#j#} else {#})"
proof -
  have "mset (busy s) = mset (take i (busy s) @ (d, j) # drop (Suc i) (busy s))"
    using assms by (metis id_take_nth_drop)
  then show ?thesis by (simp add: sp_pending_def)
qed

lemma pending_frame [simp]:
  "sp_pending c (s\<lparr>conns := f\<rparr>) = sp_pending c s" "sp_pending c (s\<lparr>next_conn := n\<rparr>) = sp_pending c s"
  by (simp_all add: sp_pending_def)

lemma acks_conns: "acks c (s\<lparr>conns := f\<rparr>) = (case f c of None \<Rightarrow> {#} | Some t \<Rightarrow> mset (filter is_ack (c_out t)))"
  by (simp add: acks_def)

lemma sp_inv_conn:
  assumes inv: "sp_inv seen s" and room: "ring_room QN (jobq s)" and st: "conn_thread c s = Some s'"
  shows "sp_inv (\<lambda>d. seen d + mset (notified1 d (S_conn c) s)) s'"
proof (cases "conns s c")
  case None
  with st inv show ?thesis by (simp add: conn_thread_def notified1_def sp_inv_def)
next
  case (Some t)
  with st obtain g r pl where g: "conn_recv (c_in t) (c_pl t) = Some (g, r, pl)"
    by (auto simp: conn_thread_def split: option.splits)
  have wf: "ring_wf QN (jobq s)" using inv by (simp add: sp_inv_def)
  have lt: "\<not> next_conn s \<le> c" using inv Some by (auto simp: sp_inv_def)
  have n: "notified1 d (S_conn c) s = (if d = c then (case g of G_notify sid fid \<Rightarrow> [(sid, fid)] | _ \<Rightarrow> []) else [])" for d
    using Some g by (auto simp: notified1_def split: got.splits)
  define s1 where "s1 = s\<lparr>conns := (conns s)(c \<mapsto> t\<lparr>c_in := r, c_pl := pl\<rparr>)\<rparr>"
  have base: "acks d s + image_mset ack_frame (sp_pending d s) = image_mset ack_frame (seen d)" if "conns s d = Some u" for d u
    using inv that by (auto simp: sp_inv_def)
  have a1: "acks d s1 = acks d s" for d using Some by (simp add: s1_def acks_def)
  have p: "sp_pending d (s1\<lparr>jobq := ring_put QN (c, sid, fid) (jobq s1)\<rparr>) =
      sp_pending d s + (if c = d then {#(sid, fid)#} else {#})" for d sid fid
    using pending_put [of s1 d c "(sid, fid)"] wf room by (simp add: s1_def)
  have step: "s' = (case g of
       G_hello \<Rightarrow> s1\<lparr>conns := (conns s1)(c \<mapsto> t\<lparr>c_in := r, c_pl := pl, c_out := c_out t @ [framed (hello_payload 16380)]\<rparr>)\<rparr>
     | G_notify sid fid \<Rightarrow> s1\<lparr>jobq := ring_put QN (c, sid, fid) (jobq s1)\<rparr>
     | G_other \<Rightarrow> s1 | _ \<Rightarrow> s1\<lparr>conns := (conns s1)(c := None)\<rparr>)"
    using st Some g by (cases g) (auto simp: conn_thread_def s1_def send_agent_hello_def send_def)
  show ?thesis
  proof (cases g)
    case (G_notify sid fid)
    with step have s': "s' = s1\<lparr>jobq := ring_put QN (c, sid, fid) (jobq s1)\<rparr>" by simp
    have "ring_wf QN (jobq s')" using ring_wf_put [OF wf room] by (simp add: s' s1_def)
    moreover have "conns s' d = None \<and> seen d = {#} \<and> sp_pending d s' = {#}" "notified1 d (S_conn c) s = []"
      if "next_conn s' \<le> d" for d
      using inv that lt p [of d sid fid] n [of d] by (auto simp: s' s1_def sp_inv_def)
    moreover have "acks d s' + image_mset ack_frame (sp_pending d s') =
        image_mset ack_frame (seen d + mset (notified1 d (S_conn c) s))" if "conns s' d = Some u" for d u
    proof -
      have "conns s d \<noteq> None" using that Some by (auto simp: s' s1_def split: if_splits)
      then obtain v where v: "conns s d = Some v" by auto
      have "acks d s' = acks d s" using a1 [of d] by (simp add: s' acks_def)
      with base [OF v] p [of d sid fid] n [of d] G_notify show ?thesis by (auto simp: s')
    qed
    ultimately show ?thesis by (auto simp: sp_inv_def)
  next
    case G_hello
    with inv wf lt base Some step n show ?thesis
      by (auto simp: sp_inv_def s1_def acks_def)
  next
    case G_close
    with inv wf lt base Some step n show ?thesis by (auto simp: sp_inv_def s1_def acks_def)
  next
    case G_discon
    with inv wf lt base Some step n show ?thesis by (auto simp: sp_inv_def s1_def acks_def)
  next
    case G_other
    with inv wf lt base Some step n show ?thesis by (auto simp: sp_inv_def s1_def acks_def)
  qed
qed

lemma sp_inv_step:
  assumes inv: "sp_inv seen s" and room: "ring_room QN (jobq s)" and st: "sp_step e s = Some s'"
  shows "sp_inv (\<lambda>d. seen d + mset (notified1 d e s)) s'"
proof (cases e)
  case (S_accept inp pl)
  have z: "seen (next_conn s) = {#}" "sp_pending (next_conn s) s = {#}" using inv by (auto simp: sp_inv_def)
  have s': "s' = accept_conn inp pl s" using st S_accept by simp
  have "sp_inv seen s'"
    using inv z by (auto simp: s' accept_conn_def sp_inv_def acks_def split: if_splits)
  then show ?thesis by (simp add: notified1_def S_accept)
next
  case (S_conn c)
  with sp_inv_conn [OF inv room, of c s'] st show ?thesis by simp
next
  case S_take
  have wf: "ring_wf QN (jobq s)" using inv by (simp add: sp_inv_def)
  show ?thesis
  proof (cases "ring_get QN (jobq s)")
    case None
    with S_take st inv show ?thesis by (simp add: worker_take_def notified1_def)
  next
    case (Some jr)
    obtain j r where jr: "jr = (j, r)" by (cases jr)
    with Some S_take st have s': "s' = s\<lparr>jobq := r, busy := busy s @ [j]\<rparr>" by (simp add: worker_take_def)
    have "sp_pending d s' = sp_pending d s" for d using pending_take [OF wf] Some jr by (simp add: s')
    moreover have "acks d s' = acks d s" for d by (simp add: s' acks_def)
    moreover have "ring_wf QN r" using ring_wf_get [OF wf] Some jr by blast
    ultimately show ?thesis using inv S_take by (simp add: sp_inv_def notified1_def s')
  qed
next
  case (S_ack i)
  show ?thesis
  proof (cases "i < length (busy s)")
    case False
    with S_ack st inv show ?thesis by (simp add: worker_ack_def notified1_def)
  next
    case True
    obtain c j where b: "busy s ! i = (c, j)" by (cases "busy s ! i")
    with S_ack st True obtain t where t: "conns s c = Some t" and
      s': "s' = s\<lparr>conns := (conns s)(c \<mapsto> t\<lparr>c_out := c_out t @ [ack_frame j]\<rparr>),
        busy := take i (busy s) @ drop (Suc i) (busy s)\<rparr>"
      by (cases j) (auto simp: worker_ack_def send_ack_def send_def ack_frame_def split: option.splits)
    have p: "sp_pending d s = sp_pending d s' + (if c = d then {#j#} else {#})" for d
      using pending_done [OF True b, of d] by (simp add: s' sp_pending_def)
    have a: "acks d s' = acks d s + (if c = d then {#ack_frame j#} else {#})" for d
      using t by (cases "c = d") (simp_all add: s' acks_def ack_frame_def)
    have "conns s' d = None \<and> seen d = {#} \<and> sp_pending d s' = {#}" if "next_conn s' \<le> d" for d
    proof -
      have "conns s d = None \<and> seen d = {#} \<and> sp_pending d s = {#}" using inv that by (simp add: sp_inv_def s')
      with t p [of d] show ?thesis by (auto simp: s')
    qed
    moreover have "acks d s' + image_mset ack_frame (sp_pending d s') = image_mset ack_frame (seen d)"
      if "conns s' d = Some u" for d u
    proof -
      have "conns s d \<noteq> None" using that t by (auto simp: s' split: if_splits)
      then have "acks d s + image_mset ack_frame (sp_pending d s) = image_mset ack_frame (seen d)"
        using inv by (auto simp: sp_inv_def)
      with a [of d] p [of d] show ?thesis by (auto split: if_splits)
    qed
    ultimately show ?thesis using inv S_ack by (auto simp: sp_inv_def notified1_def s')
  qed
qed

lemma sp_inv_run:
  "sp_inv seen s \<Longrightarrow> roomy es s \<Longrightarrow> sp_run es s = Some s' \<Longrightarrow> sp_inv (\<lambda>d. seen d + mset (notified d es s)) s'"
proof (induction es arbitrary: seen s)
  case (Cons e es)
  from Cons.prems(3) obtain s1 where s1: "sp_step e s = Some s1" "sp_run es s1 = Some s'"
    by (auto split: option.splits)
  with Cons.prems(2) have r: "ring_room QN (jobq s)" "roomy es s1" by auto
  from Cons.IH [OF sp_inv_step [OF Cons.prems(1) r(1) s1(1)] r(2) s1(2)] s1(1) show ?case
    by (simp add: add.assoc)
qed simp


text \<open>A frame as a peer encodes it is read back as what it says.\<close>

definition peer_frame :: "u8 \<Rightarrow> u64 \<Rightarrow> u64 \<Rightarrow> u8 list" where
  "peer_frame ty sid fid = framed (ty # be32 FLAG_FIN @ enc_varint sid @ enc_varint fid)"

definition got_of :: "u8 \<Rightarrow> u64 \<Rightarrow> u64 \<Rightarrow> got" where
  "got_of ty sid fid =
     (if ty = FT_HAPROXY_HELLO then G_hello else if ty = FT_NOTIFY then G_notify sid fid
      else if ty = FT_HAPROXY_DISCON then G_discon else G_other)"

lemma frame_read:
  "\<exists>pl'. conn_recv (peer_frame ty sid fid @ rest) pl = Some (got_of ty sid fid, rest, pl')"
proof -
  define p where "p = ty # be32 FLAG_FIN @ enc_varint sid @ enc_varint fid"
  define pl' where "pl' = wr 0 p pl"
  have l: "length p \<le> 25" "0 < length p" "5 + length (enc_varint sid) + length (enc_varint fid) = length p"
    using enc_varint_length [of sid] enc_varint_length [of fid] by (simp_all add: p_def be32_def)
  have len: "unat (word_of_nat (length p) :: u32) = length p"
    using l(1) by (simp add: unsigned_of_nat take_bit_nat_eq_self_iff)
  have r4: "readn 4 (peer_frame ty sid fid @ rest) = Some (be32 (word_of_nat (length p)), p @ rest)"
    by (simp add: readn_def peer_frame_def framed_def p_def [symmetric]) (simp add: be32_def)
  have rp: "readn (length p) (p @ rest) = Some (p, rest)" by (simp add: readn_def)
  have h1: "holds pl' 5 (enc_varint sid)"
    using l by (auto simp: holds_def pl'_def wr_def p_def be32_def nth_append PLSZ_def nth_Cons')
  have h2: "holds pl' (5 + length (enc_varint sid)) (enc_varint fid)"
    using l by (auto simp: holds_def pl'_def wr_def p_def be32_def nth_append PLSZ_def nth_Cons')
  have ty: "pl' 0 = ty" by (simp add: pl'_def wr_def p_def)
  have "length p \<le> PLSZ" using l(1) by (simp add: PLSZ_def)
  then show ?thesis
    using r4 rp l(2) dec_enc_varint [OF h1] dec_enc_varint [OF h2] ty
    by (simp add: conn_recv_def be32_round_trip len got_of_def pl'_def [symmetric] Let_def)
qed

text \<open>A peer that sends a HELLO, a NOTIFY of stream 300 and frame 7, and a DISCONNECT.\<close>

definition peer_bytes :: "u8 list" where
  "peer_bytes = peer_frame FT_HAPROXY_HELLO 0 0 @ peer_frame FT_NOTIFY 300 7 @ peer_frame FT_HAPROXY_DISCON 0 0 @ []"

definition peer_run :: "sp_event list" where
  "peer_run = [S_accept peer_bytes (\<lambda>_. 0), S_conn 0, S_conn 0, S_take, S_ack 0]"

lemma peer_run_ok:
  "\<exists>s t. sp_run peer_run agent0 = Some s \<and> conns s 0 = Some t \<and> roomy peer_run agent0 \<and>
     notified 0 peer_run agent0 = [(300, 7)] \<and>
     sp_run [S_accept peer_bytes (\<lambda>_. 0), S_conn 0, S_conn 0, S_take, S_conn 0, S_ack 0] agent0 = None"
proof -
  obtain p1 where p1: "conn_recv peer_bytes (\<lambda>_. 0) =
      Some (G_hello, peer_frame FT_NOTIFY 300 7 @ peer_frame FT_HAPROXY_DISCON 0 0 @ [], p1)"
    using frame_read [of FT_HAPROXY_HELLO 0 0 _ "\<lambda>_. 0"] by (auto simp: peer_bytes_def got_of_def)
  obtain p2 where p2: "conn_recv (peer_frame FT_NOTIFY 300 7 @ peer_frame FT_HAPROXY_DISCON 0 0 @ []) p1 =
      Some (G_notify 300 7, peer_frame FT_HAPROXY_DISCON 0 0 @ [], p2)"
    using frame_read [of FT_NOTIFY 300 7 _ p1] by (auto simp: got_of_def FT_NOTIFY_def FT_HAPROXY_HELLO_def)
  obtain p3 where p3: "conn_recv (peer_frame FT_HAPROXY_DISCON 0 0 @ []) p2 = Some (G_discon, [], p3)"
    using frame_read [of FT_HAPROXY_DISCON 0 0 "[]" p2]
    by (auto simp: got_of_def FT_NOTIFY_def FT_HAPROXY_HELLO_def FT_HAPROXY_DISCON_def)
  show ?thesis
    using p1 p2 p3
    by (simp add: peer_run_def agent0_def accept_conn_def conn_thread_def send_agent_hello_def send_ack_def send_def
        worker_take_def worker_ack_def ring_get_def ring_put_def ring_empty_def ring_room_def notified1_def QN_def Let_def)
qed



end
