(* ===== verification/AesGpu.thy ===== *)
theory AesGpu
  imports Prelude
begin

text \<open>
  The AES-128-CTR accelerator \<open>gpu/aes_gpu.cu\<close>: the key schedule that the host computes, the block function
  and the kernel that every GPU thread runs on its block, and the start-up check against OpenSSL. The
  reference it is compared with is the cipher of FIPS 197, written from the field arithmetic.
\<close>

section \<open>The code\<close>

definition SBOX :: "u8 list" where
  "SBOX = [
    99, 124, 119, 123, 242, 107, 111, 197, 48, 1, 103, 43, 254, 215, 171, 118,
    202, 130, 201, 125, 250, 89, 71, 240, 173, 212, 162, 175, 156, 164, 114, 192,
    183, 253, 147, 38, 54, 63, 247, 204, 52, 165, 229, 241, 113, 216, 49, 21,
    4, 199, 35, 195, 24, 150, 5, 154, 7, 18, 128, 226, 235, 39, 178, 117,
    9, 131, 44, 26, 27, 110, 90, 160, 82, 59, 214, 179, 41, 227, 47, 132,
    83, 209, 0, 237, 32, 252, 177, 91, 106, 203, 190, 57, 74, 76, 88, 207,
    208, 239, 170, 251, 67, 77, 51, 133, 69, 249, 2, 127, 80, 60, 159, 168,
    81, 163, 64, 143, 146, 157, 56, 245, 188, 182, 218, 33, 16, 255, 243, 210,
    205, 12, 19, 236, 95, 151, 68, 23, 196, 167, 126, 61, 100, 93, 25, 115,
    96, 129, 79, 220, 34, 42, 144, 136, 70, 238, 184, 20, 222, 94, 11, 219,
    224, 50, 58, 10, 73, 6, 36, 92, 194, 211, 172, 98, 145, 149, 228, 121,
    231, 200, 55, 109, 141, 213, 78, 169, 108, 86, 244, 234, 101, 122, 174, 8,
    186, 120, 37, 46, 28, 166, 180, 198, 232, 221, 116, 31, 75, 189, 139, 138,
    112, 62, 181, 102, 72, 3, 246, 14, 97, 53, 87, 185, 134, 193, 29, 158,
    225, 248, 152, 17, 105, 217, 142, 148, 155, 30, 135, 233, 206, 85, 40, 223,
    140, 161, 137, 13, 191, 230, 66, 104, 65, 153, 45, 15, 176, 84, 187, 22]"

definition rcon :: "u8 list" where
  "rcon = [1, 2, 4, 8, 16, 32, 64, 128, 27, 54]"

definition sbox :: "u8 \<Rightarrow> u8" where
  "sbox x = SBOX ! unat x"

text \<open>
  One turn \<open>i\<close> of the key schedule's loop: \<open>rk\<close> holds the \<open>4 * i\<close> bytes written so far.
\<close>

definition expand_step :: "nat \<Rightarrow> u8 list \<Rightarrow> u8 list" where
  "expand_step i rk =
     (let t = take 4 (drop ((i - 1) * 4) rk);
          t' = (if i mod 4 = 0
                then [xor (sbox (t ! 1)) (rcon ! (i div 4 - 1)), sbox (t ! 2), sbox (t ! 3), sbox (t ! 0)]
                else t)
      in rk @ map (\<lambda>j. xor (rk ! ((i - 4) * 4 + j)) (t' ! j)) [0..<4])"

definition key_expand :: "u8 list \<Rightarrow> u8 list" where
  "key_expand key = fold expand_step [4..<44] key"

definition xtime :: "u8 \<Rightarrow> u8" where
  "xtime x = xor (push_bit 1 x) (drop_bit 7 x * 27)"

definition add_round_key :: "u8 list \<Rightarrow> nat \<Rightarrow> u8 list \<Rightarrow> u8 list" where
  "add_round_key rk r s = map (\<lambda>i. xor (s ! i) (rk ! (r * 16 + i))) [0..<16]"

definition shift_rows :: "u8 list \<Rightarrow> u8 list" where
  "shift_rows s =
     (let t = s ! 1; s = s[1 := s ! 5]; s = s[5 := s ! 9]; s = s[9 := s ! 13]; s = s[13 := t];
          t = s ! 2; s = s[2 := s ! 10]; s = s[10 := t]; t = s ! 6; s = s[6 := s ! 14]; s = s[14 := t];
          t = s ! 15; s = s[15 := s ! 11]; s = s[11 := s ! 7]; s = s[7 := s ! 3]; s = s[3 := t]
      in s)"

definition mix_column :: "nat \<Rightarrow> u8 list \<Rightarrow> u8 list" where
  "mix_column c s =
     (let p = c * 4; a0 = s ! p; a1 = s ! (p + 1); a2 = s ! (p + 2); a3 = s ! (p + 3);
          h = xor (xor (xor a0 a1) a2) a3;
          s = s[p := xor (s ! p) (xor h (xtime (xor a0 a1)))];
          s = s[p + 1 := xor (s ! (p + 1)) (xor h (xtime (xor a1 a2)))];
          s = s[p + 2 := xor (s ! (p + 2)) (xor h (xtime (xor a2 a3)))];
          s = s[p + 3 := xor (s ! (p + 3)) (xor h (xtime (xor a3 a0)))]
      in s)"

definition aes_round :: "u8 list \<Rightarrow> nat \<Rightarrow> u8 list \<Rightarrow> u8 list" where
  "aes_round rk r s =
     (let s = shift_rows (map sbox s);
          s = (if r \<noteq> 10 then fold mix_column [0..<4] s else s)
      in add_round_key rk r s)"

definition aes_encrypt_block :: "u8 list \<Rightarrow> u8 list \<Rightarrow> u8 list" where
  "aes_encrypt_block rk s = fold (aes_round rk) [1..<11] (add_round_key rk 0 s)"

text \<open>The counter block: eight zero bytes and the 64-bit counter, big-endian.\<close>

definition ctr_block :: "u64 \<Rightarrow> u8 list" where
  "ctr_block c = replicate 8 0 @ map (\<lambda>i. ucast (drop_bit (8 * (7 - i)) c)) [0..<8]"

text \<open>
  The thread \<open>t\<close> of the block \<open>b\<close> of a grid whose blocks have \<open>tpb\<close> threads. \<open>data\<close> is the memory of the device, with
  the buffer at address 0.
\<close>

definition aes_ctr_kernel :: "u8 list \<Rightarrow> u64 \<Rightarrow> u64 \<Rightarrow> nat \<Rightarrow> nat \<times> nat \<Rightarrow> memory \<Rightarrow> memory" where
  "aes_ctr_kernel rk nblocks base tpb = (\<lambda>(b, t) data.
     let idx = of_nat b * of_nat tpb + of_nat t :: u64
     in if nblocks \<le> idx then data
        else (let ks = aes_encrypt_block rk (ctr_block (base + idx)); d = unat idx * 16
              in wr d (map2 xor (rd data d 16) ks) data))"

text \<open>A launch: the threads of the grid in the order in which the device happens to run them.\<close>

definition launch :: "u8 list \<Rightarrow> u64 \<Rightarrow> u64 \<Rightarrow> nat \<Rightarrow> (nat \<times> nat) list \<Rightarrow> memory \<Rightarrow> memory" where
  "launch rk nblocks base tpb order data = fold (aes_ctr_kernel rk nblocks base tpb) order data"

definition grid_blocks :: "nat \<Rightarrow> nat \<Rightarrow> nat" where
  "grid_blocks nb tpb = (nb + tpb - 1) div tpb"

text \<open>The start-up check: \<open>evp\<close> is OpenSSL's AES-128-ECB on one block.\<close>

definition demo_key :: "u8 list" where
  "demo_key = map (\<lambda>i. word_of_nat (i * 7 + 1)) [0..<16]"

definition self_check :: "(u8 list \<Rightarrow> u8 list \<Rightarrow> u8 list) \<Rightarrow> (nat \<times> nat) list \<Rightarrow> memory \<Rightarrow> bool" where
  "self_check evp order mem =
     (let buf = launch (key_expand demo_key) 4 0 4 order (wr 0 (replicate 64 0) mem)
      in list_all (\<lambda>b. evp demo_key (replicate 15 0 @ [word_of_nat b]) = rd buf (b * 16) 16) [0..<4])"

section \<open>The reference: FIPS 197\<close>

text \<open>Multiplication by \<open>x\<close> in the field, general multiplication, and the inverse as the power 254.\<close>

definition xt :: "u8 \<Rightarrow> u8" where
  "xt b = (if bit b 7 then xor (push_bit 1 b) 27 else push_bit 1 b)"

fun gmul_n :: "nat \<Rightarrow> u8 \<Rightarrow> u8 \<Rightarrow> u8" where
  "gmul_n 0 a b = 0"
| "gmul_n (Suc n) a b = xor (if bit b 0 then a else 0) (gmul_n n (xt a) (drop_bit 1 b))"

definition gmul :: "u8 \<Rightarrow> u8 \<Rightarrow> u8" where
  "gmul a b = gmul_n 8 a b"

definition ginv :: "u8 \<Rightarrow> u8" where
  "ginv a =
     (let a2 = gmul a a; a4 = gmul a2 a2; a8 = gmul a4 a4; a16 = gmul a8 a8; a32 = gmul a16 a16;
          a64 = gmul a32 a32; a128 = gmul a64 a64
      in gmul a2 (gmul a4 (gmul a8 (gmul a16 (gmul a32 (gmul a64 a128))))))"

definition rotl8 :: "nat \<Rightarrow> u8 \<Rightarrow> u8" where
  "rotl8 n b = or (push_bit n b) (drop_bit (8 - n) b)"

definition affine :: "u8 \<Rightarrow> u8" where
  "affine b = xor (xor (xor (xor (xor b (rotl8 1 b)) (rotl8 2 b)) (rotl8 3 b)) (rotl8 4 b)) 99"

definition fips_sbox :: "u8 \<Rightarrow> u8" where
  "fips_sbox a = affine (ginv a)"

text \<open>The state is a matrix by row and column; the round keys are the words of the key schedule.\<close>

type_synonym matrix = "nat \<Rightarrow> nat \<Rightarrow> u8"

definition sub_bytes :: "matrix \<Rightarrow> matrix" where
  "sub_bytes s = (\<lambda>r c. fips_sbox (s r c))"

definition rotate_rows :: "matrix \<Rightarrow> matrix" where
  "rotate_rows s = (\<lambda>r c. s r ((c + r) mod 4))"

definition mix_columns :: "matrix \<Rightarrow> matrix" where
  "mix_columns s = (\<lambda>r c. xor (xor (gmul (s r c) 2) (gmul (s ((r + 1) mod 4) c) 3))
     (xor (s ((r + 2) mod 4) c) (s ((r + 3) mod 4) c)))"

definition rcon_word :: "nat \<Rightarrow> u8 list" where
  "rcon_word j = [(xt ^^ (j - 1)) 1, 0, 0, 0]"

fun key_word :: "u8 list \<Rightarrow> nat \<Rightarrow> u8 list" where
  "key_word key i =
     (if i < 4 then take 4 (drop (4 * i) key)
      else (let t = key_word key (i - 1);
                t' = (if i mod 4 = 0 then map2 xor (map fips_sbox (tl t @ [hd t])) (rcon_word (i div 4)) else t)
            in map2 xor (key_word key (i - 4)) t'))"

declare key_word.simps [simp del]

definition add_key :: "u8 list \<Rightarrow> nat \<Rightarrow> matrix \<Rightarrow> matrix" where
  "add_key key k s = (\<lambda>r c. xor (s r c) (key_word key (4 * k + c) ! r))"

definition fips_cipher :: "u8 list \<Rightarrow> u8 list \<Rightarrow> u8 list" where
  "fips_cipher key b =
     (let s = add_key key 0 (\<lambda>r c. b ! (r + 4 * c));
          s = fold (\<lambda>k s. add_key key k (mix_columns (rotate_rows (sub_bytes s)))) [1..<10] s;
          s = add_key key 10 (rotate_rows (sub_bytes s))
      in map (\<lambda>i. s (i mod 4) (i div 4)) [0..<16])"

section \<open>The S-box table\<close>

text \<open>
  The element 3 generates the nonzero field elements: multiplication by it is \<open>m3\<close>, \<open>pw i\<close> is its \<open>i\<close>-th power. The
  table is compared with the powers listed in \<open>PW\<close>; \<open>LG\<close> lists the logarithms of 1 to 255.
\<close>

definition m3 :: "u8 \<Rightarrow> u8" where
  "m3 a = xor a (xt a)"

definition pw :: "nat \<Rightarrow> u8" where
  "pw i = (m3 ^^ i) 1"

definition PW :: "u8 list" where
  "PW = [
    1, 3, 5, 15, 17, 51, 85, 255, 26, 46, 114, 150, 161, 248, 19, 53, 95, 225, 56, 72,
    216, 115, 149, 164, 247, 2, 6, 10, 30, 34, 102, 170, 229, 52, 92, 228, 55, 89, 235, 38,
    106, 190, 217, 112, 144, 171, 230, 49, 83, 245, 4, 12, 20, 60, 68, 204, 79, 209, 104, 184,
    211, 110, 178, 205, 76, 212, 103, 169, 224, 59, 77, 215, 98, 166, 241, 8, 24, 40, 120, 136,
    131, 158, 185, 208, 107, 189, 220, 127, 129, 152, 179, 206, 73, 219, 118, 154, 181, 196, 87, 249,
    16, 48, 80, 240, 11, 29, 39, 105, 187, 214, 97, 163, 254, 25, 43, 125, 135, 146, 173, 236,
    47, 113, 147, 174, 233, 32, 96, 160, 251, 22, 58, 78, 210, 109, 183, 194, 93, 231, 50, 86,
    250, 21, 63, 65, 195, 94, 226, 61, 71, 201, 64, 192, 91, 237, 44, 116, 156, 191, 218, 117,
    159, 186, 213, 100, 172, 239, 42, 126, 130, 157, 188, 223, 122, 142, 137, 128, 155, 182, 193, 88,
    232, 35, 101, 175, 234, 37, 111, 177, 200, 67, 197, 84, 252, 31, 33, 99, 165, 244, 7, 9,
    27, 45, 119, 153, 176, 203, 70, 202, 69, 207, 74, 222, 121, 139, 134, 145, 168, 227, 62, 66,
    198, 81, 243, 14, 18, 54, 90, 238, 41, 123, 141, 140, 143, 138, 133, 148, 167, 242, 13, 23,
    57, 75, 221, 124, 132, 151, 162, 253, 28, 36, 108, 180, 199, 82, 246]"

definition LG :: "nat list" where
  "LG = [
    0, 25, 1, 50, 2, 26, 198, 75, 199, 27, 104, 51, 238, 223, 3, 100, 4, 224, 14, 52,
    141, 129, 239, 76, 113, 8, 200, 248, 105, 28, 193, 125, 194, 29, 181, 249, 185, 39, 106, 77,
    228, 166, 114, 154, 201, 9, 120, 101, 47, 138, 5, 33, 15, 225, 36, 18, 240, 130, 69, 53,
    147, 218, 142, 150, 143, 219, 189, 54, 208, 206, 148, 19, 92, 210, 241, 64, 70, 131, 56, 102,
    221, 253, 48, 191, 6, 139, 98, 179, 37, 226, 152, 34, 136, 145, 16, 126, 110, 72, 195, 163,
    182, 30, 66, 58, 107, 40, 84, 250, 133, 61, 186, 43, 121, 10, 21, 155, 159, 94, 202, 78,
    212, 172, 229, 243, 115, 167, 87, 175, 88, 168, 80, 244, 234, 214, 116, 79, 174, 233, 213, 231,
    230, 173, 232, 44, 215, 117, 122, 235, 22, 11, 245, 89, 203, 95, 176, 156, 169, 81, 160, 127,
    12, 246, 111, 23, 196, 73, 236, 216, 67, 31, 45, 164, 118, 123, 183, 204, 187, 62, 90, 251,
    96, 177, 134, 59, 82, 161, 108, 170, 85, 41, 157, 151, 178, 135, 144, 97, 190, 220, 252, 188,
    149, 207, 205, 55, 63, 91, 209, 83, 57, 132, 60, 65, 162, 109, 71, 20, 42, 158, 93, 86,
    242, 211, 171, 68, 17, 146, 217, 35, 32, 46, 137, 180, 124, 184, 38, 119, 153, 227, 165, 103,
    74, 237, 222, 197, 49, 254, 24, 13, 99, 140, 128, 192, 247, 112, 7]"

fun chain :: "('a \<Rightarrow> 'a) \<Rightarrow> 'a list \<Rightarrow> bool" where
  "chain f (x # y # ys) = (y = f x \<and> chain f (y # ys))"
| "chain f ys = True"

lemma chain_nth: "chain f xs \<Longrightarrow> i < length xs \<Longrightarrow> xs ! i = (f ^^ i) (xs ! 0)"
proof (induction f xs arbitrary: i rule: chain.induct)
  case (1 f x y ys)
  then show ?case
    by (cases i) (auto simp: funpow_swap1)
qed auto

lemma PW_chain: "chain m3 PW" and PW_last: "m3 (last PW) = 1" and PW_length: "length PW = 255"
  by code_simp+

lemma LG_1: "map (\<lambda>l. PW ! l) (take 64 LG) = map word_of_nat [1..<65]"
  by code_simp

lemma LG_2: "map (\<lambda>l. PW ! l) (take 64 (drop 64 LG)) = map word_of_nat [65..<129]"
  by code_simp

lemma LG_3: "map (\<lambda>l. PW ! l) (take 64 (drop 128 LG)) = map word_of_nat [129..<193]"
  by code_simp

lemma LG_4: "map (\<lambda>l. PW ! l) (drop 192 LG) = map word_of_nat [193..<256]"
  by code_simp

lemma SBOX_1: "map sbox (take 64 PW) = map affine (take 64 (1 # rev PW))"
  by code_simp

lemma SBOX_2: "map sbox (take 64 (drop 64 PW)) = map affine (take 64 (drop 64 (1 # rev PW)))"
  by code_simp

lemma SBOX_3: "map sbox (take 64 (drop 128 PW)) = map affine (take 64 (drop 128 (1 # rev PW)))"
  by code_simp

lemma SBOX_4: "map sbox (drop 192 PW) = map affine (take 63 (drop 192 (1 # rev PW)))"
  by code_simp

end
