(* ===== verification/AesEquiv.thy ===== *)
theory AesEquiv
  imports AesGpu
begin

text \<open>
  The block function of \<open>gpu/aes_gpu.cu\<close> is the cipher of FIPS 197, and a launch of its kernel is the counter
  mode of that cipher.
\<close>

section \<open>The field\<close>

lemma xor_cancel [simp]: "xor x (xor x y) = (y::u8)"
  by (simp flip: xor.assoc)

lemmas xor_ac = xor.assoc xor.commute xor.left_commute

lemma xt_alt: "xt b = xor (push_bit 1 b) (if bit b 7 then 27 else 0)"
  by (simp add: xt_def)

lemma xt_0 [simp]: "xt 0 = 0"
  by (simp add: xt_def)

lemma xt_xor: "xt (xor a b) = xor (xt a) (xt b)"
  by (auto simp: xt_alt bit_xor_iff push_bit_xor xor_ac)

lemma m3_xor: "m3 (xor a b) = xor (m3 a) (m3 b)"
  by (simp add: m3_def xt_xor xor_ac)

lemma m3_0 [simp]: "m3 0 = 0"
  by (simp add: m3_def)

lemma xt_m3: "xt (m3 a) = m3 (xt a)"
  by (simp add: m3_def xt_xor)

lemma gmul_n_m3: "gmul_n n (m3 a) b = m3 (gmul_n n a b)"
  by (induction n arbitrary: a b) (simp_all add: xt_m3 m3_xor)

lemma gmul_m3: "gmul ((m3 ^^ i) a) b = (m3 ^^ i) (gmul a b)"
  by (induction i) (simp_all add: gmul_def gmul_n_m3)

lemma bit_width: "bit (a::u8) n \<Longrightarrow> n < 8"
  using bit_imp_le_length [of a n] by simp

lemma gmul_n_1:
  "k + n \<le> 8 \<Longrightarrow> bit (gmul_n n (push_bit k 1) (drop_bit k b)) i \<longleftrightarrow> k \<le> i \<and> i < k + n \<and> bit b i"
proof (induction n arbitrary: k)
  case (Suc n)
  have one: "bit (if bit b k then push_bit k 1 else 0 :: u8) i \<longleftrightarrow> i = k \<and> bit b k"
    using Suc.prems by (auto simp: bit_simps)
  have rest: "bit (gmul_n n (xt (push_bit k 1)) (drop_bit 1 (drop_bit k b))) i
              \<longleftrightarrow> Suc k \<le> i \<and> i < Suc k + n \<and> bit b i"
  proof (cases n)
    case (Suc n')
    then have "xt (push_bit k 1) = push_bit (Suc k) 1"
      using Suc.prems \<open>k + Suc n \<le> 8\<close> by (auto simp: xt_def bit_simps push_bit_push_bit)
    then show ?thesis
      using Suc.IH [of "Suc k"] Suc.prems by simp
  qed simp
  have "k \<le> i \<longleftrightarrow> i = k \<or> Suc k \<le> i"
    by auto
  then show ?case
    using one rest by (auto simp: bit_xor_iff bit_drop_bit_eq)
qed simp

lemma gmul_1 [simp]: "gmul 1 b = b"
proof (rule bit_word_eqI)
  fix i
  assume "i < LENGTH(8)"
  then show "bit (gmul 1 b) i = bit b i"
    using gmul_n_1 [of 0 8 b i] by (simp add: gmul_def)
qed

lemma pw_add: "gmul (pw i) (pw j) = pw (i + j)"
  by (simp add: pw_def gmul_m3 funpow_add)

lemma PW_nth: "i < 255 \<Longrightarrow> PW ! i = pw i"
  using chain_nth [OF PW_chain, of i] by (simp add: PW_length pw_def) (simp add: PW_def)

lemma pw_Suc: "pw (Suc i) = m3 (pw i)"
  by (simp add: pw_def)

lemma pw_255: "pw 255 = 1"
proof -
  have "last PW = PW ! 254"
    using PW_length by (subst last_conv_nth) auto
  then have "last PW = pw 254"
    by (simp add: PW_nth)
  then show ?thesis
    using PW_last pw_Suc [of 254] by simp
qed

lemma pw_mod: "pw (255 * k + i) = pw i"
proof (induction k)
  case (Suc k)
  have "pw (255 * Suc k + i) = gmul (pw 255) (pw (255 * k + i))"
    unfolding pw_add by (simp add: algebra_simps)
  then show ?case
    using Suc by (simp add: pw_255)
qed simp

lemma ginv_pw: "ginv (pw i) = pw (254 * i)"
  unfolding ginv_def Let_def pw_add by (rule arg_cong [of _ _ pw]) simp

lemma ginv_pw_below: "0 < i \<Longrightarrow> i < 255 \<Longrightarrow> ginv (pw i) = pw (255 - i)"
  using pw_mod [of "i - 1" "255 - i"] by (simp add: ginv_pw algebra_simps)

lemma ginv_0: "ginv 0 = 0"
  by code_simp

lemma four_parts: "xs = take 64 xs @ take 64 (drop 64 xs) @ take 64 (drop 128 xs) @ drop 192 xs"
  using append_take_drop_id [of 64 xs] append_take_drop_id [of 64 "drop 64 xs"]
    append_take_drop_id [of 64 "drop 128 xs"] by simp

lemma LG_all: "map (\<lambda>l. PW ! l) LG = map word_of_nat [1..<256]"
proof -
  have "[1..<256] = [1..<65] @ [65..<129] @ [129..<193] @ [193..<(256::nat)]"
    by code_simp
  then show ?thesis
    using LG_1 LG_2 LG_3 LG_4 by (subst four_parts [of LG]) simp
qed
lemma PW_LG: "0 < n \<Longrightarrow> n < 256 \<Longrightarrow> \<exists>i < 255. word_of_nat n = pw i"
proof -
  assume n: "0 < n" "n < 256"
  have "length LG = 255" and small: "list_all (\<lambda>l. l < 255) LG"
    by code_simp+
  then have i: "n - 1 < length LG"
    using n by simp
  then have "PW ! (LG ! (n - 1)) = word_of_nat n"
    using arg_cong [OF LG_all, of "\<lambda>xs. xs ! (n - 1)"] n by simp
  moreover have "LG ! (n - 1) < 255"
    using small i by (simp add: list_all_length)
  ultimately show ?thesis
    using PW_nth by auto
qed

lemma pw_cases:
  fixes x :: u8
  obtains "x = 0" | i where "i < 255" "x = pw i"
proof (cases "x = 0")
  case False
  have "unat x < 2 ^ LENGTH(8)"
    by (rule unsigned_less)
  then show ?thesis
    using PW_LG [of "unat x"] False that(2) by (auto simp: unat_gt_0)
qed (rule that(1))

lemma SBOX_all: "map sbox PW = map affine (take 255 (1 # rev PW))"
proof -
  have "take 255 (1 # rev PW) = take 64 (1 # rev PW) @ take 64 (drop 64 (1 # rev PW)) @
      take 64 (drop 128 (1 # rev PW)) @ take 63 (drop 192 (1 # rev PW))"
    by code_simp
  then show ?thesis
    using SBOX_1 SBOX_2 SBOX_3 SBOX_4 by (subst four_parts [of PW]) (simp only: map_append)
qed

lemma sbox_fips [simp]: "sbox x = fips_sbox x"
proof (cases x rule: pw_cases)
  case 1
  have "sbox 0 = affine 0"
    by code_simp
  then show ?thesis
    using 1 by (simp add: fips_sbox_def ginv_0)
next
  case (2 i)
  have "sbox (PW ! i) = affine ((1 # rev PW) ! i)"
    using arg_cong [OF SBOX_all, of "\<lambda>xs. xs ! i"] 2 PW_length
    by (simp add: nth_map nth_take del: list.map take_Suc_Cons take_Cons_numeral)
  moreover have "(1 # rev PW) ! i = ginv (pw i)"
  proof (cases i)
    case 0
    then show ?thesis
      using ginv_pw [of 0] by (simp add: pw_def)
  next
    case (Suc j)
    then have "rev PW ! j = PW ! (255 - i)"
      using 2 by (subst rev_nth) (simp_all add: PW_length)
    then show ?thesis
      using Suc 2 by (simp add: ginv_pw_below PW_nth)
  qed
  ultimately show ?thesis
    using 2 by (simp add: fips_sbox_def PW_nth)
qed

section \<open>The cipher\<close>

definition rep :: "u8 list \<Rightarrow> matrix \<Rightarrow> bool" where
  "rep s m \<longleftrightarrow> length s = 16 \<and> (\<forall>r < 4. \<forall>c < 4. m r c = s ! (r + 4 * c))"

lemma all_4: "(\<forall>i < 4. P i) \<longleftrightarrow> P 0 \<and> P 1 \<and> P 2 \<and> P (3 :: nat)"
  by (simp add: numeral_eq_Suc All_less_Suc conj_ac)

lemma list_16:
  assumes "length s = 16"
  obtains s0 s1 s2 s3 s4 s5 s6 s7 s8 s9 sa sb sc sd se sf
  where "s = [s0, s1, s2, s3, s4, s5, s6, s7, s8, s9, sa, sb, sc, sd, se, sf]"
  using assms by (auto simp: numeral_eq_Suc length_Suc_conv)

lemma rep_sub: "rep s m \<Longrightarrow> rep (map sbox s) (sub_bytes m)"
  by (simp add: rep_def sub_bytes_def)

lemma rep_shift: "rep s m \<Longrightarrow> rep (shift_rows s) (rotate_rows m)"
  by (auto simp: rep_def all_4 rotate_rows_def shift_rows_def Let_def elim!: list_16; simp add: numeral_2_eq_2)

lemma gmul_2: "gmul a 2 = xt a" and gmul_3: "gmul a 3 = xor a (xt a)"
  by (simp_all add: gmul_def numeral_eq_Suc bit_simps)

lemma xtime_all: "list_all (\<lambda>n. xtime (word_of_nat n) = xt (word_of_nat n)) [0..<256]"
  by code_simp

lemma xtime_xt [simp]: "xtime a = xt a"
proof -
  have "unat a < 2 ^ LENGTH(8)"
    by (rule unsigned_less)
  then have "unat a < length [0..<256]"
    by simp
  then show ?thesis
    using xtime_all unfolding list_all_length by (auto simp: nth_upt)
qed

lemma rep_mix: "rep s m \<Longrightarrow> rep (fold mix_column [0..<4] s) (mix_columns m)"
  by (auto simp: rep_def all_4 mix_columns_def mix_column_def Let_def gmul_2 gmul_3 xt_xor xor_ac upt_rec
      elim!: list_16; simp add: numeral_2_eq_2 xor_ac)

lemma length_key_word: "length key = 16 \<Longrightarrow> length (key_word key i) = 4"
proof (induction i rule: less_induct)
  case (less i)
  show ?case
  proof (cases "i < 4")
    case False
    then have "length (key_word key (i - 1)) = 4" "length (key_word key (i - 4)) = 4"
      using less by auto
    then show ?thesis
      using False by (subst key_word.simps) (auto simp: Let_def rcon_word_def)
  qed (use less.prems in \<open>subst key_word.simps, auto\<close>)
qed

lemma rcon_xt: "i < 10 \<Longrightarrow> rcon ! i = (xt ^^ i) 1"
proof -
  have "list_all (\<lambda>i. rcon ! i = (xt ^^ i) 1) [0..<10]"
    by code_simp
  then show "i < 10 \<Longrightarrow> rcon ! i = (xt ^^ i) 1"
    by (simp add: list_all_length)
qed

lemma list_4: "length t = 4 \<Longrightarrow> t = [t ! 0, t ! 1, t ! 2, t ! 3]"
  by (auto simp: numeral_eq_Suc length_Suc_conv)

lemma key_schedule:
  assumes key: "length key = 16" and "4 \<le> n" "n \<le> 44"
  shows "length (fold expand_step [4..<n] key) = 4 * n
       \<and> (\<forall>i < n. \<forall>j < 4. fold expand_step [4..<n] key ! (4 * i + j) = key_word key i ! j)"
  using \<open>4 \<le> n\<close> \<open>n \<le> 44\<close>
proof (induction n rule: dec_induct)
  case base
  then show ?case
    using key by (auto simp: key_word.simps add.commute)
next
  case (step n)
  define rk where "rk = fold expand_step [4..<n] key"
  have len: "length rk = 4 * n"
    using step by (auto simp: rk_def)
  have rk: "rk ! (4 * i + j) = key_word key i ! j" if "i < n" "j < 4" for i j
    using step that by (auto simp: rk_def)
  define t where "t = take 4 (drop ((n - 1) * 4) rk)"
  have t: "t = key_word key (n - 1)"
  proof (rule nth_equalityI)
    show len_t: "length t = length (key_word key (n - 1))"
      using step len by (simp add: t_def length_key_word key)
    fix j
    assume "j < length t"
    then have "j < 4"
      using len_t by (simp add: length_key_word key)
    then show "t ! j = key_word key (n - 1) ! j"
      using rk [of "n - 1" j] step len by (simp add: t_def mult.commute)
  qed
  define t' where "t' = (if n mod 4 = 0
      then [xor (sbox (t ! 1)) (rcon ! (n div 4 - 1)), sbox (t ! 2), sbox (t ! 3), sbox (t ! 0)] else t)"
  have t4: "t = [t ! 0, t ! 1, t ! 2, t ! 3]"
    using t by (intro list_4) (simp add: length_key_word key)
  have "rcon_word (n div 4) = [rcon ! (n div 4 - 1), 0, 0, 0]"
    using step by (simp add: rcon_word_def rcon_xt)
  then have "map2 xor (map fips_sbox (tl t @ [hd t])) (rcon_word (n div 4))
      = [xor (sbox (t ! 1)) (rcon ! (n div 4 - 1)), sbox (t ! 2), sbox (t ! 3), sbox (t ! 0)]"
    by (subst (1 2) t4) simp
  then have word: "key_word key n = map2 xor (key_word key (n - 4)) t'"
    using step by (subst key_word.simps) (simp add: t'_def t Let_def)
  have "length t' = 4"
    using t by (simp add: t'_def length_key_word key)
  then have new: "key_word key n ! j = xor (rk ! ((n - 4) * 4 + j)) (t' ! j)" if "j < 4" for j
    using rk [of "n - 4" j] step that by (simp add: word length_key_word key mult.commute)
  have "fold expand_step [4..<Suc n] key = expand_step n rk"
    using step by (simp add: rk_def)
  also have "\<dots> = rk @ map (\<lambda>j. xor (rk ! ((n - 4) * 4 + j)) (t' ! j)) [0..<4]"
    by (simp only: expand_step_def Let_def t'_def t_def)
  finally have fold_Suc: "fold expand_step [4..<Suc n] key = \<dots>" .
  show ?case
    unfolding fold_Suc
  proof (intro conjI allI impI)
    fix i j
    assume "i < Suc n" "j < (4 :: nat)"
    then show "(rk @ map (\<lambda>j. xor (rk ! ((n - 4) * 4 + j)) (t' ! j)) [0..<4]) ! (4 * i + j) = key_word key i ! j"
      using len rk new by (cases "i = n") (auto simp: nth_append)
  qed (use len in simp)
qed

lemma rep_key:
  assumes "length key = 16" "k < 11" "rep s m"
  shows "rep (add_round_key (key_expand key) k s) (add_key key k m)"
proof -
  have w: "key_expand key ! (4 * i + j) = key_word key i ! j" if "i < 44" "j < 4" for i j
    using key_schedule [OF assms(1), of 44] that by (simp add: key_expand_def)
  have "key_expand key ! (k * 16 + (r + 4 * c)) = key_word key (4 * k + c) ! r" if "r < 4" "c < 4" for r c
    using w [of "4 * k + c" r] that assms(2) by (simp add: algebra_simps)
  then show ?thesis
    using assms(3) by (auto simp: rep_def add_round_key_def add_key_def)
qed

lemma rep_round:
  assumes "length key = 16" "k < 11" "rep s m"
  shows "rep (aes_round (key_expand key) k s)
     (add_key key k (if k \<noteq> 10 then mix_columns (rotate_rows (sub_bytes m)) else rotate_rows (sub_bytes m)))"
  unfolding aes_round_def Let_def using assms by (auto intro!: rep_key rep_mix rep_shift rep_sub)

lemma rep_rounds:
  assumes "length key = 16" "rep s m" "n \<le> 9"
  shows "rep (fold (aes_round (key_expand key)) [1..<Suc n] s)
     (fold (\<lambda>k s. add_key key k (mix_columns (rotate_rows (sub_bytes s)))) [1..<Suc n] m)"
  using assms(3)
proof (induction n)
  case (Suc n)
  then show ?case
    using rep_round [OF assms(1), of "Suc n"] by simp
qed (simp add: assms(2))

lemma rep_start: "length b = 16 \<Longrightarrow> rep b (\<lambda>r c. b ! (r + 4 * c))"
  by (simp add: rep_def)

lemma rep_out: "rep s m \<Longrightarrow> map (\<lambda>i. m (i mod 4) (i div 4)) [0..<16] = s"
  by (auto simp: rep_def intro!: nth_equalityI)

lemma block_is_fips:
  assumes "length key = 16" "length b = 16"
  shows "aes_encrypt_block (key_expand key) b = fips_cipher key b"
proof -
  define m0 where "m0 = add_key key 0 (\<lambda>r c. b ! (r + 4 * c))"
  have "rep (add_round_key (key_expand key) 0 b) m0"
    unfolding m0_def using assms by (intro rep_key rep_start) auto
  note nine = rep_rounds [OF assms(1) this, of 9]
  have "rep (aes_round (key_expand key) 10 (fold (aes_round (key_expand key)) [1..<Suc 9] (add_round_key (key_expand key) 0 b)))
     (add_key key 10 (rotate_rows (sub_bytes
       (fold (\<lambda>k s. add_key key k (mix_columns (rotate_rows (sub_bytes s)))) [1..<Suc 9] m0))))"
    using rep_round [OF assms(1), of 10] nine by simp
  moreover have "aes_encrypt_block (key_expand key) b = aes_round (key_expand key) 10
     (fold (aes_round (key_expand key)) [1..<Suc 9] (add_round_key (key_expand key) 0 b))"
  proof -
    have "[1..<11] = [1..<Suc 9] @ [10]"
      by code_simp
    then show ?thesis
      by (simp only: aes_encrypt_block_def fold_append fold_simps comp_apply)
  qed
  ultimately show ?thesis
    by (simp add: fips_cipher_def Let_def m0_def rep_out)
qed

text \<open>C7: The block function of the GPU code with the key schedule of the host is the AES-128 cipher of FIPS 197,
  written from the field arithmetic: for every key and every block the two give the same sixteen bytes.\<close>

theorem aes_is_fips197:
  assumes "length key = 16" "length b = 16"
  shows "aes_encrypt_block (key_expand key) b = fips_cipher key b"
  by (rule block_is_fips [OF assms])

text \<open>The example of FIPS 197, appendix C.1: the key schedule, checked word by word, and the block.\<close>

definition c1_key :: "u8 list" where
  "c1_key = map word_of_nat [0..<16]"

definition c1_schedule :: "u8 list" where
  "c1_schedule = [
    0, 1, 2, 3, 4, 5, 6, 7, 8, 9, 10, 11, 12, 13, 14, 15,
    214, 170, 116, 253, 210, 175, 114, 250, 218, 166, 120, 241, 214, 171, 118, 254,
    182, 146, 207, 11, 100, 61, 189, 241, 190, 155, 197, 0, 104, 48, 179, 254,
    182, 255, 116, 78, 210, 194, 201, 191, 108, 89, 12, 191, 4, 105, 191, 65,
    71, 247, 247, 188, 149, 53, 62, 3, 249, 108, 50, 188, 253, 5, 141, 253,
    60, 170, 163, 232, 169, 159, 157, 235, 80, 243, 175, 87, 173, 246, 34, 170,
    94, 57, 15, 125, 247, 166, 146, 150, 167, 85, 61, 193, 10, 163, 31, 107,
    20, 249, 112, 26, 227, 95, 226, 140, 68, 10, 223, 77, 78, 169, 192, 38,
    71, 67, 135, 53, 164, 28, 101, 185, 224, 22, 186, 244, 174, 191, 122, 210,
    84, 153, 50, 209, 240, 133, 87, 104, 16, 147, 237, 156, 190, 44, 151, 78,
    19, 17, 29, 127, 227, 148, 74, 23, 243, 7, 167, 139, 77, 43, 48, 197]"

definition next_word :: "nat \<Rightarrow> u8 list \<Rightarrow> u8 list \<Rightarrow> u8 list" where
  "next_word i t w =
     (if i mod 4 = 0
      then map2 xor w [xor (sbox (t ! 1)) (rcon ! (i div 4 - 1)), sbox (t ! 2), sbox (t ! 3), sbox (t ! 0)]
      else map2 xor w t)"

lemma c1_words:
  "list_all (\<lambda>i. next_word i (take 4 (drop ((i - 1) * 4) c1_schedule)) (take 4 (drop ((i - 4) * 4) c1_schedule))
      = take 4 (drop (4 * i) c1_schedule)) [4..<44]"
  by code_simp

lemma expand_next:
  assumes "4 \<le> i" "length rk = 4 * i"
  shows "expand_step i rk = rk @ next_word i (take 4 (drop ((i - 1) * 4) rk)) (take 4 (drop ((i - 4) * 4) rk))"
proof -
  have four: "[0..<4] = [0, 1, 2, 3 :: nat]"
    by code_simp
  have "take 4 (drop ((i - 4) * 4) rk) = map (\<lambda>j. rk ! ((i - 4) * 4 + j)) [0..<4]"
    using assms by (intro nth_equalityI) auto
  moreover have "length (take 4 (drop ((i - 1) * 4) rk)) = 4"
    using assms by auto
  ultimately show ?thesis
    using list_4 [of "take 4 (drop ((i - 1) * 4) rk)"]
    by (simp add: expand_step_def next_word_def Let_def four)
qed

lemma c1_expand: "key_expand c1_key = c1_schedule"
proof -
  have len: "length c1_schedule = 176"
    by code_simp
  have "4 \<le> n \<Longrightarrow> n \<le> 44 \<Longrightarrow> fold expand_step [4..<n] c1_key = take (4 * n) c1_schedule" for n
  proof (induction n rule: dec_induct)
    case base
    show ?case
      by (simp add: c1_key_def c1_schedule_def upt_rec)
  next
    case (step n)
    then have "n \<in> set [4..<44]"
      unfolding set_upt by simp
    then have word: "next_word n (take 4 (drop ((n - 1) * 4) c1_schedule)) (take 4 (drop ((n - 4) * 4) c1_schedule))
        = take 4 (drop (4 * n) c1_schedule)"
      by (rule c1_words [unfolded list_all_iff, THEN bspec])
    have prev: "take 4 (drop ((n - k) * 4) (take (4 * n) c1_schedule)) = take 4 (drop ((n - k) * 4) c1_schedule)"
      if "0 < k" "k \<le> 4" for k
      using step that by (simp add: drop_take min_def)
    have "fold expand_step [4..<Suc n] c1_key = expand_step n (take (4 * n) c1_schedule)"
      using step by simp
    also have "\<dots> = take (4 * n) c1_schedule @ next_word n (take 4 (drop ((n - 1) * 4) (take (4 * n) c1_schedule)))
        (take 4 (drop ((n - 4) * 4) (take (4 * n) c1_schedule)))"
      using step len by (intro expand_next) auto
    also have "\<dots> = take (4 * n) c1_schedule @ take 4 (drop (4 * n) c1_schedule)"
      by (simp only: prev word)
    finally have "fold expand_step [4..<Suc n] c1_key = take (4 * n) c1_schedule @ take 4 (drop (4 * n) c1_schedule)" .
    moreover have "4 * Suc n = 4 * n + 4"
      by simp
    ultimately show ?case
      by (simp only: take_add)
  qed
  from this [of 44] show ?thesis
    by (simp add: key_expand_def len)
qed

theorem aes_is_fips197_witness:
  "aes_encrypt_block (key_expand c1_key) (map (\<lambda>i. word_of_nat (17 * i)) [0..<16])
     = [105, 196, 224, 216, 106, 123, 4, 48, 216, 205, 183, 128, 112, 180, 197, 90]
   \<and> fips_cipher c1_key (map (\<lambda>i. word_of_nat (17 * i)) [0..<16])
     = [105, 196, 224, 216, 106, 123, 4, 48, 216, 205, 183, 128, 112, 180, 197, 90]"
proof -
  have "aes_encrypt_block c1_schedule (map (\<lambda>i. word_of_nat (17 * i)) [0..<16])
     = [105, 196, 224, 216, 106, 123, 4, 48, 216, 205, 183, 128, 112, 180, 197, 90]"
    by code_simp
  moreover have "length c1_key = 16"
    by (simp add: c1_key_def)
  ultimately show ?thesis
    using aes_is_fips197 [of c1_key "map (\<lambda>i. word_of_nat (17 * i)) [0..<16]"] by (simp add: c1_expand)
qed

section \<open>Counter mode on the grid\<close>

definition global_index :: "nat \<Rightarrow> nat \<times> nat \<Rightarrow> nat" where
  "global_index tpb = (\<lambda>(b, t). b * tpb + t)"

definition keystream :: "u8 list \<Rightarrow> u64 \<Rightarrow> nat \<Rightarrow> u8" where
  "keystream key base p = fips_cipher key (ctr_block (base + of_nat (p div 16))) ! (p mod 16)"

lemma length_ctr_block [simp]: "length (ctr_block c) = 16"
  by (simp add: ctr_block_def)

lemma length_fips [simp]: "length (fips_cipher key b) = 16"
  by (simp add: fips_cipher_def Let_def)

lemma kernel_effect:
  assumes key: "length key = 16" and g: "global_index tpb bt < 2 ^ 64"
  shows "aes_ctr_kernel (key_expand key) nb base tpb bt data p =
     (if global_index tpb bt < unat nb \<and> p div 16 = global_index tpb bt
      then xor (data p) (keystream key base p) else data p)"
proof -
  obtain b t where bt: "bt = (b, t)" by (cases bt)
  define i where "i = b * tpb + t"
  have i: "of_nat b * of_nat tpb + of_nat t = (of_nat i :: u64)"
    by (simp add: i_def)
  have un: "unat (of_nat i :: u64) = i"
    using g unfolding unsigned_of_nat by (simp add: i_def bt global_index_def take_bit_nat_eq_self_iff)
  have blk: "aes_encrypt_block (key_expand key) (ctr_block c) = fips_cipher key (ctr_block c)" for c
    by (rule block_is_fips) (simp_all add: key)
  have reach: "i * 16 \<le> p \<and> p < i * 16 + 16 \<longleftrightarrow> p div 16 = i"
    by auto
  have nth: "map2 xor (rd data (i * 16) 16) (fips_cipher key (ctr_block (base + of_nat i))) ! (p - i * 16)
     = xor (data p) (keystream key base p)" if "p div 16 = i"
  proof -
    have "p - i * 16 = p mod 16" "i * 16 + p mod 16 = p"
      using that by (auto simp: minus_div_mult_eq_mod)
    then show ?thesis
      using that by (simp add: rd_def keystream_def)
  qed
  show ?thesis
    using nth reach
    by (auto simp: aes_ctr_kernel_def bt i un blk Let_def word_le_nat_alt wr_def global_index_def i_def [symmetric])
qed

lemma launch_effect:
  assumes key: "length key = 16" and g: "\<forall>bt \<in> set order. global_index tpb bt < 2 ^ 64"
    and "distinct (map (global_index tpb) order)"
  shows "launch (key_expand key) nb base tpb order data p =
     (if p div 16 < unat nb \<and> p div 16 \<in> global_index tpb ` set order
      then xor (data p) (keystream key base p) else data p)"
  using assms(2,3)
proof (induction order arbitrary: data)
  case (Cons bt order)
  then show ?case
    by (auto simp: launch_def kernel_effect [OF key])
qed (simp add: launch_def)

lemma index_inj: "0 < tpb \<Longrightarrow> inj_on (global_index tpb) ({..<n} \<times> {..<tpb})"
proof (rule inj_onI, clarsimp simp: global_index_def)
  fix b t b' t'
  assume *: "t < tpb" "t' < tpb" "b * tpb + t = b' * tpb + (t'::nat)"
  have "b = (b * tpb + t) div tpb" "b' = (b' * tpb + t') div tpb"
    using *(1,2) by auto
  then have "b = b'"
    using *(3) by metis
  then show "b = b' \<and> t = t'"
    using *(3) by simp
qed

lemma index_covers:
  assumes "0 < tpb" "k < nb"
  shows "k \<in> global_index tpb ` ({..<grid_blocks nb tpb} \<times> {..<tpb})"
proof (rule image_eqI [where x = "(k div tpb, k mod tpb)"])
  have "k + tpb \<le> nb + tpb - 1"
    using assms by simp
  then have "(k + tpb) div tpb \<le> grid_blocks nb tpb"
    unfolding grid_blocks_def by (rule div_le_mono)
  then have "k div tpb + 1 \<le> grid_blocks nb tpb"
    using assms by (simp add: div_add_self2)
  then show "(k div tpb, k mod tpb) \<in> {..<grid_blocks nb tpb} \<times> {..<tpb}"
    using assms by simp
qed (simp add: global_index_def)

lemma index_bound:
  assumes "0 < tpb" "bt \<in> {..<grid_blocks nb tpb} \<times> {..<tpb}"
  shows "global_index tpb bt < nb + tpb"
proof -
  obtain b t where bt: "bt = (b, t)" "b + 1 \<le> grid_blocks nb tpb" "t < tpb"
    using assms(2) by (cases bt) auto
  have "(b + 1) * tpb \<le> grid_blocks nb tpb * tpb"
    using bt(2) by (rule mult_le_mono1)
  also have "\<dots> \<le> nb + tpb - 1"
    unfolding grid_blocks_def by (rule div_times_less_eq_dividend)
  finally show ?thesis
    using bt assms(1) by (simp add: global_index_def)
qed

text \<open>The threads of a grid have indices of their own, and these cover the blocks of the buffer.\<close>

lemma launch_grid:
  assumes "length key = 16" "0 < tpb" "unat nb + tpb \<le> 2 ^ 64"
    and "distinct order" "set order = {..<grid_blocks (unat nb) tpb} \<times> {..<tpb}"
  shows "launch (key_expand key) nb base tpb order data p =
     (if p < 16 * unat nb then xor (data p) (keystream key base p) else data p)"
proof -
  have "\<forall>bt \<in> set order. global_index tpb bt < 2 ^ 64"
    using index_bound [OF assms(2)] assms(3,5) by fastforce
  moreover have "distinct (map (global_index tpb) order)"
    using assms(4,5) index_inj [OF assms(2)] by (simp add: distinct_map)
  moreover have "p div 16 < unat nb \<longleftrightarrow> p < 16 * unat nb"
    by auto
  ultimately show ?thesis
    using launch_effect [OF assms(1)] index_covers [OF assms(2)] assms(5) by simp
qed

text \<open>C24: A launch over the grid of the benchmark XORs each of the blocks of the buffer with its own key stream block
  exactly once and leaves the rest of the memory alone, in whatever order the device runs the threads, also when
  the block count is no multiple of the block size.\<close>

theorem launch_is_ctr:
  assumes "length key = 16" "0 < tpb" "unat nb + tpb \<le> 2 ^ 64"
    and "distinct order" "set order = {..<grid_blocks (unat nb) tpb} \<times> {..<tpb}"
  shows "launch (key_expand key) nb base tpb order data p =
     (if p < 16 * unat nb then xor (data p) (fips_cipher key (ctr_block (base + of_nat (p div 16))) ! (p mod 16))
      else data p)"
  using launch_grid [OF assms] by (simp add: keystream_def)

text \<open>The check at start-up passes when OpenSSL computes AES.\<close>

lemma demo_counter: "b < 4 \<Longrightarrow> ctr_block (0 + of_nat b) = replicate 15 0 @ [word_of_nat b]"
proof -
  have "list_all (\<lambda>b. ctr_block (0 + of_nat b) = replicate 15 0 @ [word_of_nat b]) [0..<4]"
    by code_simp
  then show "b < 4 \<Longrightarrow> ctr_block (0 + of_nat b) = replicate 15 0 @ [word_of_nat b]"
    by (simp add: list_all_length)
qed

theorem launch_is_ctr_witness: "self_check fips_cipher [(0, 2), (0, 0), (0, 3), (0, 1)] (\<lambda>_. 170)"
proof -
  have order: "set [(0, 2), (0, 0), (0, 3), (0 :: nat, 1 :: nat)] = {..<grid_blocks (unat (4::u64)) 4} \<times> {..<4}"
  proof -
    have one: "grid_blocks (unat (4::u64)) 4 = 1"
      by (simp add: grid_blocks_def)
    have sets: "{..<1} = {0 :: nat}" "{..<4} = {3, 2, 1, 0 :: nat}"
      by (simp_all add: numeral_eq_Suc lessThan_Suc)
    have "{0 :: nat} \<times> {3, 2, 1, 0 :: nat} = {(0, 3), (0, 2), (0, 1), (0, 0)}"
      by auto
    then show ?thesis
      unfolding one sets by (simp only: list.set insert_commute)
  qed
  have run: "launch (key_expand demo_key) 4 0 4 [(0, 2), (0, 0), (0, 3), (0, 1)] data p =
     (if p < 16 * unat (4::u64) then xor (data p) (fips_cipher demo_key (ctr_block (0 + of_nat (p div 16))) ! (p mod 16)) else data p)"
    for data p
    by (rule launch_is_ctr [OF _ _ _ _ order]) (simp_all add: demo_key_def)
  have "rd (launch (key_expand demo_key) 4 0 4 [(0, 2), (0, 0), (0, 3), (0, 1)] (wr 0 (replicate 64 0) mem)) (b * 16) 16
     = fips_cipher demo_key (replicate 15 0 @ [word_of_nat b])" if "b < 4" for mem b
  proof (rule nth_equalityI)
    fix i
    assume "i < length (rd (launch (key_expand demo_key) 4 0 4 [(0, 2), (0, 0), (0, 3), (0, 1)]
      (wr 0 (replicate 64 0) mem)) (b * 16) 16)"
    then have i: "i < 16"
      by simp
    then have "b * 16 + i < 64" "(b * 16 + i) div 16 = b" "(b * 16 + i) mod 16 = i"
      using that by auto
    then show "rd (launch (key_expand demo_key) 4 0 4 [(0, 2), (0, 0), (0, 3), (0, 1)]
      (wr 0 (replicate 64 0) mem)) (b * 16) 16 ! i = fips_cipher demo_key (replicate 15 0 @ [word_of_nat b]) ! i"
      using i demo_counter [OF that] by (simp add: rd_def run wr_def del: One_nat_def)
  qed simp
  then show ?thesis
    by (simp add: self_check_def Let_def list_all_length del: One_nat_def)
qed

end
