(* ===== verification/GpuLib.thy ===== *)
theory GpuLib
  imports AesEquiv Accel
begin

text \<open>
  The GPU accelerator \<open>libaccel_gpu.cu\<close>, behind the same interface as the software accelerator: a pool of slots with a
  CUDA stream each, whose work the device does in order and beside the host. The kernel is that of \<open>AesGpu\<close>. CUDA is
  the state of the streams and the device's turns.
\<close>

section \<open>A stream\<close>

datatype gpu_op = H2D | Kernel | D2H | Record

text \<open>A stream's page-locked host buffer, its device buffer, and the work that is queued on it.\<close>

record gstream =
  host :: memory
  dev :: memory
  todo :: "gpu_op list"

text \<open>
  A turn of the device: the oldest operation of the stream. \<open>rk\<close> is the key schedule in constant memory, the
  kernel runs over \<open>nb\<close> blocks of 16 bytes in blocks of 256 threads, in some order.
\<close>

definition stream_turn :: "u8 list \<Rightarrow> nat \<Rightarrow> nat \<Rightarrow> (nat \<times> nat) list \<Rightarrow> gstream \<Rightarrow> gstream" where
  "stream_turn rk nb sz order g =
     (case todo g of
        [] \<Rightarrow> g
      | op # ops \<Rightarrow>
          (let g = g\<lparr>todo := ops\<rparr>
           in case op of
                H2D \<Rightarrow> g\<lparr>dev := wr 0 (rd (host g) 0 sz) (dev g)\<rparr>
              | Kernel \<Rightarrow> g\<lparr>dev := launch rk (of_nat nb) 0 256 order (dev g)\<rparr>
              | D2H \<Rightarrow> g\<lparr>host := wr 0 (rd (dev g) 0 sz) (host g)\<rparr>
              | Record \<Rightarrow> g))"

text \<open>An event is complete when no record of it is still queued.\<close>

definition event_query :: "gstream \<Rightarrow> bool" where
  "event_query g \<longleftrightarrow> Record \<notin> set (todo g)"

definition enqueue_work :: "gstream \<Rightarrow> gstream" where
  "enqueue_work g = g\<lparr>todo := todo g @ [H2D, Kernel, D2H, Record]\<rparr>"

definition stream_sync :: "u8 list \<Rightarrow> nat \<Rightarrow> nat \<Rightarrow> (nat \<times> nat) list \<Rightarrow> gstream \<Rightarrow> gstream" where
  "stream_sync rk nb sz order g = fold (\<lambda>_. stream_turn rk nb sz order) (todo g) g"

text \<open>An order in which the threads of the grid can run.\<close>

definition grid_order :: "nat \<Rightarrow> (nat \<times> nat) list \<Rightarrow> bool" where
  "grid_order nb order \<longleftrightarrow> distinct order \<and> set order = {..<grid_blocks nb 256} \<times> {..<256}"

text \<open>The bytes that a complete offload leaves.\<close>

definition ctr_bytes :: "u8 list \<Rightarrow> nat \<Rightarrow> memory \<Rightarrow> memory" where
  "ctr_bytes key nb h = (\<lambda>p. if p < 16 * nb then xor (h p) (keystream key 0 p) else h p)"

definition same_upto :: "nat \<Rightarrow> memory \<Rightarrow> memory \<Rightarrow> bool" where
  "same_upto n f g \<longleftrightarrow> (\<forall>p < n. f p = g p)"

text \<open>After \<open>c\<close> turns of an offload that started with \<open>h\<close> in the host buffer.\<close>

definition stage :: "u8 list \<Rightarrow> nat \<Rightarrow> nat \<Rightarrow> memory \<Rightarrow> nat \<Rightarrow> gstream \<Rightarrow> bool" where
  "stage key nb sz h c g \<longleftrightarrow>
     todo g = drop c [H2D, Kernel, D2H, Record]
   \<and> (c = 0 \<longrightarrow> same_upto sz (host g) h) \<and> (c = 1 \<longrightarrow> same_upto sz (dev g) h)
   \<and> (c = 2 \<longrightarrow> same_upto sz (dev g) (ctr_bytes key nb h)) \<and> (3 \<le> c \<longrightarrow> same_upto sz (host g) (ctr_bytes key nb h))"

lemma wr_rd_at: "p < n \<Longrightarrow> wr 0 (rd f 0 n) g p = f p"
  by (simp add: wr_def rd_def)

lemma launch_ctr:
  assumes "length key = 16" "nb + 256 \<le> 2 ^ 64" "grid_order nb order"
  shows "launch (key_expand key) (of_nat nb) 0 256 order data = ctr_bytes key nb data"
proof
  fix p
  have "unat (of_nat nb :: u64) = nb"
    using assms(2) by (simp add: unsigned_of_nat take_bit_nat_eq_self)
  then show "launch (key_expand key) (of_nat nb) 0 256 order data p = ctr_bytes key nb data p"
    using launch_grid [OF assms(1), of 256 "of_nat nb" order 0 data p] assms(2,3)
    by (simp add: grid_order_def ctr_bytes_def)
qed

lemma stage_turn:
  assumes "length key = 16" "nb + 256 \<le> 2 ^ 64" "grid_order nb order" "stage key nb sz h c g"
  shows "stage key nb sz h (Suc c) (stream_turn (key_expand key) nb sz order g)"
proof -
  consider "c = 0" | "c = 1" | "c = 2" | "c = 3" | "4 \<le> c"
    by linarith
  then show ?thesis
  proof cases
    case 3
    then show ?thesis
      using assms(4) by (simp add: stage_def stream_turn_def same_upto_def wr_rd_at Let_def)
  next
    case 2
    then show ?thesis
      using assms(4)
      by (simp add: stage_def stream_turn_def same_upto_def launch_ctr [OF assms(1-3)] Let_def) (simp add: ctr_bytes_def)
  qed (use assms(4) in \<open>simp_all add: stage_def stream_turn_def same_upto_def wr_rd_at Let_def\<close>)
qed

lemma stage_start: "todo g = [] \<Longrightarrow> same_upto sz (host g) h \<Longrightarrow> stage key nb sz h 0 (enqueue_work g)"
  by (simp add: stage_def enqueue_work_def)

lemma stage_query: "stage key nb sz h c g \<Longrightarrow> event_query g \<longleftrightarrow> 4 \<le> c"
proof -
  assume "stage key nb sz h c g"
  then have "todo g = drop c [H2D, Kernel, D2H, Record]"
    by (simp add: stage_def)
  moreover have "c = 0 \<or> c = 1 \<or> c = 2 \<or> c = 3 \<or> 4 \<le> c"
    by linarith
  ultimately show ?thesis
    by (auto simp: event_query_def)
qed

lemma turn_query: "event_query g \<Longrightarrow> event_query (stream_turn rk nb sz order g)"
  by (auto simp: event_query_def stream_turn_def Let_def split: list.split gpu_op.split)

section \<open>The library\<close>

definition NSLOT :: nat where "NSLOT = 256"

definition KEY :: "u8 list" where
  "KEY = [1, 8, 15, 22, 29, 36, 43, 50, 57, 64, 71, 78, 85, 92, 99, 106]"

record gslot =
  strm :: gstream
  ubuf :: nat
  gn :: nat
  inited :: bool

text \<open>\<open>hmem\<close> is the memory of the caller, \<open>d_rk\<close> the constant memory of the device.\<close>

record gpulib =
  SZ :: nat
  gslots :: "nat \<Rightarrow> gslot"
  gsub_head :: nat
  gstarted :: bool
  d_rk :: "u8 list"
  hmem :: memory

definition gpu0 :: "memory \<Rightarrow> memory \<Rightarrow> gpulib" where
  "gpu0 garbage m = \<lparr>SZ = 1048576,
     gslots = (\<lambda>_. \<lparr>strm = \<lparr>host = garbage, dev = garbage, todo = []\<rparr>, ubuf = 0, gn = 0, inited = False\<rparr>),
     gsub_head = 0, gstarted = False, d_rk = [], hmem = m\<rparr>"

definition ensure :: "environ \<Rightarrow> gpulib \<Rightarrow> gpulib" where
  "ensure env d =
     (if gstarted d then d
      else (let z = (case env ''ACCEL_AES_BYTES'' of
                        None \<Rightarrow> SZ d
                      | Some e \<Rightarrow> (let z = (if atoi e < 16 then 16 else nat (atoi e)) in z - z mod 16))
            in d\<lparr>SZ := z, d_rk := key_expand KEY, gstarted := True\<rparr>))"

definition init_slot :: "gslot \<Rightarrow> gslot" where
  "init_slot s = (if inited s then s else s\<lparr>inited := True\<rparr>)"

definition gpu_submit :: "environ \<Rightarrow> nat \<Rightarrow> nat \<Rightarrow> gpulib \<Rightarrow> nat \<times> gpulib" where
  "gpu_submit env b n d =
     (let d = ensure env d; rid = gsub_head d; i = rid mod NSLOT; s = init_slot (gslots d i);
          cp = min n (SZ d); g = (strm s)\<lparr>host := wr 0 (rd (hmem d) b cp) (host (strm s))\<rparr>
      in (rid, d\<lparr>gsub_head := rid + 1, gslots := (gslots d)(i := s\<lparr>strm := enqueue_work g, ubuf := b, gn := n\<rparr>)\<rparr>))"

definition gpu_done :: "nat \<Rightarrow> gpulib \<Rightarrow> bool \<times> gpulib" where
  "gpu_done rid d =
     (let s = gslots d (rid mod NSLOT)
      in if event_query (strm s)
         then (True, d\<lparr>hmem := wr (ubuf s) (rd (host (strm s)) 0 (min (gn s) (SZ d))) (hmem d)\<rparr>)
         else (False, d))"

definition gpu_release :: "nat \<Rightarrow> gpulib \<Rightarrow> gpulib" where
  "gpu_release rid d = d"

definition gpu_turn :: "nat \<Rightarrow> (nat \<times> nat) list \<Rightarrow> gpulib \<Rightarrow> gpulib" where
  "gpu_turn i order d =
     d\<lparr>gslots := (gslots d)(i := (gslots d i)\<lparr>strm := stream_turn (d_rk d) (SZ d div 16) (SZ d) order (strm (gslots d i))\<rparr>)\<rparr>"

definition gpu_encrypt :: "environ \<Rightarrow> (nat \<times> nat) list \<Rightarrow> nat \<Rightarrow> nat \<Rightarrow> gpulib \<Rightarrow> gpulib" where
  "gpu_encrypt env order b n d =
     (let (rid, d) = gpu_submit env b n d; i = rid mod NSLOT;
          g = stream_sync (d_rk d) (SZ d div 16) (SZ d) order (strm (gslots d i))
      in d\<lparr>gslots := (gslots d)(i := (gslots d i)\<lparr>strm := g\<rparr>),
           hmem := wr b (rd (host g) 0 (min n (SZ d))) (hmem d)\<rparr>)"

section \<open>The contract of the interface\<close>

text \<open>
  The library cannot know when a slot is free, since \<open>accel_release\<close> does nothing: it keeps the contract of an
  asynchronous device for its first \<open>NSLOT\<close> requests.
\<close>

definition gpu_ready :: "nat \<Rightarrow> gpulib \<Rightarrow> bool" where
  "gpu_ready rid d = fst (gpu_done rid d)"

lemma gpu_ready_query: "gpu_ready rid d = event_query (strm (gslots d (rid mod NSLOT)))"
  by (simp add: gpu_ready_def gpu_done_def Let_def)

lemma ensure_sel [simp]:
  "gslots (ensure env d) = gslots d" "gsub_head (ensure env d) = gsub_head d" "hmem (ensure env d) = hmem d"
  "gstarted (ensure env d)"
  by (simp_all add: ensure_def Let_def)

lemma init_slot_sel: "strm (init_slot s) = strm s" "ubuf (init_slot s) = ubuf s" "gn (init_slot s) = gn s"
  by (simp_all add: init_slot_def)

interpretation gpu: offload_device "gpu_submit env" gpu_ready gpu_release "gpu_turn i order"
    "\<lambda>k d. k < gsub_head d" "\<lambda>d. gsub_head d < NSLOT" for env i order
proof unfold_locales
  fix b n rid k :: nat and d d' :: gpulib
  assume room: "gsub_head d < NSLOT" and sub: "gpu_submit env b n d = (rid, d')"
  then show "rid < gsub_head d'"
    by (auto simp: gpu_submit_def Let_def)
  assume k: "k < gsub_head d"
  then have "k mod NSLOT \<noteq> gsub_head d mod NSLOT"
    using room by simp
  then show "k < gsub_head d' \<and> gpu_ready k d' = gpu_ready k d"
    using sub k by (auto simp: gpu_submit_def gpu_ready_query Let_def)
next
  fix k d
  show "k < gsub_head (gpu_turn i order d) \<and> (gpu_ready k d \<longrightarrow> gpu_ready k (gpu_turn i order d))" if "k < gsub_head d" for k d
    using that by (auto simp: gpu_turn_def gpu_ready_query turn_query)
qed (simp_all add: gpu_release_def)

section \<open>One offload among others\<close>

datatype gpu_event = G_submit nat nat | G_done nat | G_release nat | G_device nat "(nat \<times> nat) list"

fun gpu_step :: "environ \<Rightarrow> gpu_event \<Rightarrow> gpulib \<Rightarrow> gpulib" where
  "gpu_step env (G_submit b n) d = snd (gpu_submit env b n d)"
| "gpu_step env (G_done rid) d = snd (gpu_done rid d)"
| "gpu_step env (G_release rid) d = gpu_release rid d"
| "gpu_step env (G_device i order) d = gpu_turn i order d"

definition gpu_run :: "environ \<Rightarrow> gpu_event list \<Rightarrow> gpulib \<Rightarrow> gpulib" where
  "gpu_run env es d = fold (gpu_step env) es d"

definition turns :: "nat \<Rightarrow> gpu_event list \<Rightarrow> nat" where
  "turns i es = length (filter (\<lambda>e. case e of G_device j order \<Rightarrow> j = i | _ \<Rightarrow> False) es)"

definition submits :: "gpu_event list \<Rightarrow> nat" where
  "submits es = length (filter (\<lambda>e. case e of G_submit b n \<Rightarrow> True | _ \<Rightarrow> False) es)"

text \<open>The other callers keep their hands off the buffer, and the device runs whole grids.\<close>

definition fair_event :: "nat \<Rightarrow> nat \<Rightarrow> nat \<Rightarrow> gpu_event \<Rightarrow> bool" where
  "fair_event nb b n e =
     (case e of G_submit b' n' \<Rightarrow> apart b' n' b n | G_device i order \<Rightarrow> grid_order nb order | _ \<Rightarrow> True)"

text \<open>
  A request for \<open>b\<close>, \<open>n\<close> in slot \<open>i\<close>, after \<open>c\<close> turns of the device on its stream. \<open>h\<close> is what was copied to the host
  buffer, \<open>m\<close> the memory at the submission, and \<open>out\<close> says whether the result has been copied out.
\<close>

definition gpu_req :: "nat \<Rightarrow> nat \<Rightarrow> nat \<Rightarrow> nat \<Rightarrow> memory \<Rightarrow> memory \<Rightarrow> nat \<Rightarrow> bool \<Rightarrow> gpulib \<Rightarrow> bool" where
  "gpu_req z i b n h m c out d \<longleftrightarrow>
     stage KEY (z div 16) z h c (strm (gslots d i)) \<and> SZ d = z \<and> d_rk d = key_expand KEY \<and> gstarted d
   \<and> ubuf (gslots d i) = b \<and> gn (gslots d i) = n
   \<and> (\<forall>j. j \<noteq> i \<longrightarrow> apart (ubuf (gslots d j)) (gn (gslots d j)) b n)
   \<and> (\<forall>p < n. hmem d (b + p) = (if out \<and> p < z then ctr_bytes KEY (z div 16) h p else m (b + p)))
   \<and> (out \<longrightarrow> 4 \<le> c)"

lemma length_KEY: "length KEY = 16"
  by (simp add: KEY_def)

lemma wr_outside: "\<not> (a \<le> p \<and> p < a + length bs) \<Longrightarrow> wr a bs m p = m p"
  by (auto simp: wr_def)

lemma wr_rd_inside: "p < k \<Longrightarrow> wr b (rd f 0 k) m (b + p) = f p"
  by (simp add: wr_def rd_def)

lemma gpu_req_submit:
  assumes inv: "gpu_req z i b n h m c out d" and j: "gsub_head d mod NSLOT \<noteq> i" and ap: "apart b' n' b n"
  shows "gpu_req z i b n h m c out (snd (gpu_submit env b' n' d))"
proof -
  have e: "ensure env d = d"
    using inv by (simp add: gpu_req_def ensure_def)
  show ?thesis
    using inv j ap by (auto simp: gpu_req_def gpu_submit_def e Let_def)
qed

lemma gpu_req_turn:
  assumes inv: "gpu_req z i b n h m c out d" and o: "grid_order (z div 16) order" and z: "z div 16 + 256 \<le> 2 ^ 64"
  shows "gpu_req z i b n h m (if j = i then Suc c else c) out (gpu_turn j order d)"
proof -
  have st: "stage KEY (z div 16) z h c (strm (gslots d i))" "SZ d = z" "d_rk d = key_expand KEY"
    using inv by (simp_all add: gpu_req_def)
  show ?thesis
    using inv stage_turn [OF length_KEY z o st(1)] by (auto simp: gpu_req_def gpu_turn_def st)
qed

lemma gpu_req_done:
  assumes inv: "gpu_req z i b n h m c out d"
  shows "\<exists>out'. gpu_req z i b n h m c out' (snd (gpu_done rid d)) \<and>
     (rid mod NSLOT = i \<longrightarrow> (fst (gpu_done rid d) \<longleftrightarrow> 4 \<le> c) \<and> (4 \<le> c \<longrightarrow> out'))"
proof (cases "event_query (strm (gslots d (rid mod NSLOT)))")
  case q: True
  let ?s = "gslots d (rid mod NSLOT)"
  have st: "stage KEY (z div 16) z h c (strm (gslots d i))" and z: "SZ d = z"
    using inv by (simp_all add: gpu_req_def)
  have served: "gpu_done rid d = (True, d\<lparr>hmem := wr (ubuf ?s) (rd (host (strm ?s)) 0 (min (gn ?s) z)) (hmem d)\<rparr>)"
    using q by (simp add: gpu_done_def Let_def z)
  show ?thesis
  proof (cases "rid mod NSLOT = i")
    case True
    then have c: "4 \<le> c"
      using q stage_query [OF st] by simp
    then have host: "same_upto z (host (strm (gslots d i))) (ctr_bytes KEY (z div 16) h)"
      using st by (simp add: stage_def)
    have "hmem (snd (gpu_done rid d)) (b + p) = (if p < z then ctr_bytes KEY (z div 16) h p else m (b + p))" if "p < n" for p
    proof (cases "p < z")
      case True
      then show ?thesis
        using that inv host \<open>rid mod NSLOT = i\<close> by (simp add: served gpu_req_def wr_rd_inside same_upto_def)
    next
      case False
      then show ?thesis
        using that inv \<open>rid mod NSLOT = i\<close> by (simp add: served gpu_req_def wr_outside)
    qed
    then have "gpu_req z i b n h m c True (snd (gpu_done rid d))"
      using inv c by (simp add: gpu_req_def served)
    then show ?thesis
      using c by (auto simp: served)
  next
    case False
    then have "apart (ubuf ?s) (gn ?s) b n"
      using inv by (simp add: gpu_req_def)
    then have "hmem (snd (gpu_done rid d)) (b + p) = hmem d (b + p)" if "p < n" for p
      using that by (simp add: served) (intro wr_outside, auto simp: apart_def)
    then have "gpu_req z i b n h m c out (snd (gpu_done rid d))"
      using inv by (simp add: gpu_req_def served)
    then show ?thesis
      using False by blast
  qed
next
  case False
  then have "gpu_done rid d = (False, d)"
    by (simp add: gpu_done_def Let_def)
  moreover have "rid mod NSLOT = i \<Longrightarrow> \<not> 4 \<le> c"
    using inv False stage_query [of KEY "z div 16" z h c "strm (gslots d i)"] by (auto simp: gpu_req_def)
  ultimately show ?thesis
    using inv by auto
qed

lemma gpu_step_head: "gsub_head (gpu_step env e d) = gsub_head d + submits [e]"
  by (cases e) (auto simp: gpu_submit_def gpu_done_def gpu_release_def gpu_turn_def submits_def Let_def)

lemma gpu_req_run:
  assumes "gpu_req z (rid mod NSLOT) b n h m c out d" "z div 16 + 256 \<le> 2 ^ 64" "\<forall>e \<in> set es. fair_event (z div 16) b n e"
    and "rid < gsub_head d" "gsub_head d + submits es \<le> rid + NSLOT"
  shows "\<exists>out'. gpu_req z (rid mod NSLOT) b n h m (c + turns (rid mod NSLOT) es) out' (gpu_run env es d)"
  using assms(1,3-5)
proof (induction es arbitrary: c out d)
  case Nil
  then show ?case
    by (auto simp: gpu_run_def turns_def)
next
  case (Cons e es)
  let ?d = "gpu_step env e d"
  have head: "rid < gsub_head ?d" "gsub_head ?d + submits es \<le> rid + NSLOT"
    using Cons.prems(3,4) by (auto simp: gpu_step_head submits_def)
  have fair: "\<forall>e \<in> set es. fair_event (z div 16) b n e" "fair_event (z div 16) b n e"
    using Cons.prems(2) by simp_all
  have "\<exists>out'. gpu_req z (rid mod NSLOT) b n h m (c + turns (rid mod NSLOT) [e]) out' ?d"
  proof (cases e)
    case (G_submit b' n')
    have "gsub_head d + 1 + submits es \<le> rid + NSLOT"
      using Cons.prems(4) G_submit by (simp add: submits_def)
    then have "gsub_head d - rid < NSLOT"
      using Cons.prems(3) by linarith
    then have "gsub_head d mod NSLOT \<noteq> rid mod NSLOT"
      using mod_window_neq [OF Cons.prems(3), of NSLOT] by simp
    then show ?thesis
      using gpu_req_submit [OF Cons.prems(1)] fair(2) G_submit by (auto simp: fair_event_def turns_def)
  next
    case (G_done k)
    then show ?thesis
      using gpu_req_done [OF Cons.prems(1), of k] by (auto simp: turns_def)
  next
    case (G_release k)
    then show ?thesis
      using Cons.prems(1) by (auto simp: turns_def gpu_release_def)
  next
    case (G_device j order)
    then show ?thesis
      using gpu_req_turn [OF Cons.prems(1) _ assms(2), of order j] fair(2) by (auto simp: fair_event_def turns_def)
  qed
  then obtain out' where "gpu_req z (rid mod NSLOT) b n h m (c + turns (rid mod NSLOT) [e]) out' ?d"
    by blast
  from Cons.IH [OF this fair(1) head] show ?case
    by (simp add: gpu_run_def turns_def add.assoc split: if_splits)
qed

text \<open>The GPU accelerator serves a request exactly once, beside up to 255 other submissions, any polls and any device
  order: it is reported done when and only when the device has made four turns on its stream, and then the buffer holds
  the AES-128-CTR encryption of FIPS 197 in its first \<open>SZ\<close> bytes. Bytes behind \<open>SZ\<close> stay in the clear.\<close>

theorem gpu_offload_exact:
  assumes "gpu_submit env b n d = (rid, d1)" and idle: "todo (strm (gslots d (rid mod NSLOT))) = []"
    and others: "\<forall>j. j \<noteq> rid mod NSLOT \<longrightarrow> apart (ubuf (gslots d j)) (gn (gslots d j)) b n"
    and start: "gstarted d \<longrightarrow> d_rk d = key_expand KEY" "16 dvd SZ d1" "SZ d1 < 2 ^ 31"
    and run: "\<forall>e \<in> set es. fair_event (SZ d1 div 16) b n e" "submits es < NSLOT"
    and final: "gpu_done rid (gpu_run env es d1) = (fin, d2)"
  shows "(fin \<longleftrightarrow> 4 \<le> turns (rid mod NSLOT) es) \<and>
    (fin \<longrightarrow> (\<forall>p < n. hmem d2 (b + p) =
       (if p < SZ d1 then xor (hmem d (b + p)) (fips_cipher KEY (ctr_block (of_nat (p div 16))) ! (p mod 16))
        else hmem d (b + p))))"
proof -
  let ?i = "rid mod NSLOT" and ?z = "SZ d1"
  let ?h = "wr 0 (rd (hmem d) b (min n ?z)) (host (strm (gslots d ?i)))"
  have d1: "d1 = snd (gpu_submit env b n d)"
    by (simp add: assms(1))
  have sub: "rid = gsub_head d" "gsub_head d1 = rid + 1" "hmem d1 = hmem d" "SZ (ensure env d) = ?z"
    using assms(1) by (auto simp: gpu_submit_def Let_def)
  have slot: "strm (gslots d1 ?i) = enqueue_work ((strm (gslots d ?i))\<lparr>host := ?h\<rparr>)"
    "ubuf (gslots d1 ?i) = b" "gn (gslots d1 ?i) = n" "gstarted d1"
    "\<And>j. j \<noteq> ?i \<Longrightarrow> ubuf (gslots d1 j) = ubuf (gslots d j) \<and> gn (gslots d1 j) = gn (gslots d j)"
    using sub(4) by (simp_all add: d1 gpu_submit_def Let_def sub(1) init_slot_sel)
  have rk: "d_rk d1 = key_expand KEY"
    using assms(1) start(1) by (auto simp: gpu_submit_def ensure_def Let_def)
  have z: "?z div 16 + 256 \<le> 2 ^ 64" "16 * (?z div 16) = ?z"
    using start(2,3) by auto
  have "stage KEY (?z div 16) ?z ?h 0 (strm (gslots d1 ?i))"
    unfolding slot(1) by (rule stage_start) (use idle in \<open>simp_all add: same_upto_def\<close>)
  then have "gpu_req ?z ?i b n ?h (hmem d) 0 False d1"
    unfolding gpu_req_def slot(2,3) using others rk sub slot(4,5) by simp
  then obtain out where "gpu_req ?z ?i b n ?h (hmem d) (turns ?i es) out (gpu_run env es d1)"
    using gpu_req_run [OF _ z(1) run(1), of rid ?h "hmem d" 0 False d1 env] sub run(2) by auto
  from gpu_req_done [OF this, of rid] obtain out' where
    last: "gpu_req ?z ?i b n ?h (hmem d) (turns ?i es) out' d2" "fin \<longleftrightarrow> 4 \<le> turns ?i es" "fin \<longrightarrow> out'"
    using final by auto
  have "hmem d2 (b + p) = (if p < ?z then xor (hmem d (b + p)) (fips_cipher KEY (ctr_block (of_nat (p div 16))) ! (p mod 16))
      else hmem d (b + p))" if "fin" "p < n" for p
    using last that z(2) by (simp add: gpu_req_def ctr_bytes_def keystream_def wr_def rd_def)
  then show ?thesis
    using last(2) by blast
qed

lemma grid_order_all: "grid_order nb (List.product [0..<grid_blocks nb 256] [0..<256])"
  by (auto simp: grid_order_def distinct_product)

lemma gpu0_mem: "hmem (gpu0 g m) = m"
  by (simp add: gpu0_def)

definition gpu_env :: environ where
  "gpu_env = (\<lambda>_. Some ''16'')"

definition gpu_order :: "(nat \<times> nat) list" where
  "gpu_order = List.product [0..<grid_blocks 1 256] [0..<256]"

text \<open>With \<open>ACCEL_AES_BYTES\<close> 16, a request for 20 bytes is done after four turns, and its last four bytes are as they were.\<close>

theorem gpu_offload_exact_witness:
  "let (rid, d1) = gpu_submit gpu_env 0 20 (gpu0 (\<lambda>_. 0) (\<lambda>_. 7));
       (fin, d2) = gpu_done rid (gpu_run gpu_env (replicate 4 (G_device 0 gpu_order)) d1)
   in fin \<and> hmem d2 0 = xor 7 (fips_cipher KEY (ctr_block 0) ! 0) \<and> hmem d2 16 = 7"
proof -
  obtain rid d1 where sub: "gpu_submit gpu_env 0 20 (gpu0 (\<lambda>_. 0) (\<lambda>_. 7)) = (rid, d1)"
    by fastforce
  obtain fin d2 where final: "gpu_done rid (gpu_run gpu_env (replicate 4 (G_device 0 gpu_order)) d1) = (fin, d2)"
    by fastforce
  have rid: "rid = 0" "SZ d1 = 16"
    using sub by (auto simp: gpu_submit_def ensure_def gpu0_def gpu_env_def atoi_def isspace_def Let_def)
  have "grid_order 1 gpu_order"
    unfolding gpu_order_def by (rule grid_order_all)
  then have all: "(fin \<longleftrightarrow> 4 \<le> turns (rid mod NSLOT) (replicate 4 (G_device 0 gpu_order))) \<and>
    (fin \<longrightarrow> (\<forall>p < 20. hmem d2 (0 + p) =
       (if p < SZ d1 then xor (hmem (gpu0 (\<lambda>_. 0) (\<lambda>_. 7)) (0 + p)) (fips_cipher KEY (ctr_block (of_nat (p div 16))) ! (p mod 16))
        else hmem (gpu0 (\<lambda>_. 0) (\<lambda>_. 7)) (0 + p))))"
    by (intro gpu_offload_exact [OF sub _ _ _ _ _ _ _ final])
      (simp_all add: rid gpu0_def apart_def fair_event_def submits_def NSLOT_def)
  moreover have "turns (rid mod NSLOT) (replicate 4 (G_device 0 gpu_order)) = 4"
    by (simp add: turns_def rid)
  ultimately have fin: "fin"
    by simp
  have "hmem d2 0 = xor 7 (fips_cipher KEY (ctr_block 0) ! 0)" "hmem d2 16 = 7"
    using conjunct2 [OF all, rule_format, OF fin, of 0] conjunct2 [OF all, rule_format, OF fin, of 16]
    by (simp_all add: rid(2) gpu0_mem)
  then show ?thesis
    by (simp add: sub final fin)
qed

text \<open>The synchronous call: the same result at once.\<close>

lemma gpu_encrypt_exact:
  assumes idle: "todo (strm (gslots d (gsub_head d mod NSLOT))) = []"
    and start: "gstarted d" "d_rk d = key_expand KEY" "16 dvd SZ d" "SZ d < 2 ^ 31"
    and order: "grid_order (SZ d div 16) order" and p: "p < n"
  shows "hmem (gpu_encrypt env order b n d) (b + p) =
    (if p < SZ d then xor (hmem d (b + p)) (keystream KEY 0 p) else hmem d (b + p))"
proof -
  let ?i = "gsub_head d mod NSLOT" and ?z = "SZ d"
  let ?h = "wr 0 (rd (hmem d) b (min n ?z)) (host (strm (gslots d ?i)))"
  let ?g = "enqueue_work ((strm (gslots d ?i))\<lparr>host := ?h\<rparr>)"
  let ?t = "stream_turn (key_expand KEY) (?z div 16) ?z order"
  have z: "?z div 16 + 256 \<le> 2 ^ 64" "16 * (?z div 16) = ?z"
    using start(3,4) by auto
  have "stage KEY (?z div 16) ?z ?h 0 ?g"
    by (rule stage_start) (use idle in \<open>simp_all add: same_upto_def\<close>)
  note turn = stage_turn [OF length_KEY z(1) order]
  have "stage KEY (?z div 16) ?z ?h (Suc (Suc (Suc (Suc 0)))) (?t (?t (?t (?t ?g))))"
    by (intro turn) fact
  moreover have "stream_sync (key_expand KEY) (?z div 16) ?z order ?g = ?t (?t (?t (?t ?g)))"
    using idle by (simp add: stream_sync_def enqueue_work_def)
  ultimately have host: "same_upto ?z (host (stream_sync (key_expand KEY) (?z div 16) ?z order ?g)) (ctr_bytes KEY (?z div 16) ?h)"
    by (simp add: stage_def)
  have e: "ensure env d = d"
    using start(1) by (simp add: ensure_def)
  have "hmem (gpu_encrypt env order b n d) =
      wr b (rd (host (stream_sync (key_expand KEY) (?z div 16) ?z order ?g)) 0 (min n ?z)) (hmem d)"
    by (simp add: gpu_encrypt_def gpu_submit_def e Let_def init_slot_sel start(2))
  then show ?thesis
    using host p z(2) by (auto simp: wr_def rd_def same_upto_def ctr_bytes_def)
qed

text \<open>What the interface's contract gives: a request of the first \<open>NSLOT\<close> that is done stays done.\<close>

lemma gpu_done_stays:
  assumes "k < gsub_head d" "gpu_ready k d" "Release_op k \<notin> set ops"
    and "client_run (gpu_submit env) gpu_release (gpu_turn i order) (\<lambda>k d. k < gsub_head d) (\<lambda>d. gsub_head d < NSLOT) ops d = Some d'"
  shows "gpu_ready k d'"
  using gpu.stays_done [OF assms] by simp

end
