(* ===== verification/GpuRuntime.thy ===== *)
theory GpuRuntime
  imports GpuLib
begin

text \<open>
  The fiber runtime on the GPU, \<open>runtime/gpu_runtime_verify.cu\<close>: connections as fibers of one thread, each with its
  stream; a fiber parks behind its submission and the dispatcher enters it again when the event of the stream is
  complete, and it compares the result with OpenSSL's. \<open>evp\<close> is OpenSSL's AES-128-CTR with a zero counter block.
\<close>

section \<open>State\<close>

datatype gpos = At_head | Parked

record gconn =
  cstrm :: gstream
  waiting :: bool
  finished :: bool
  ops :: nat
  expect :: "u8 list"
  gpos :: gpos

text \<open>Where the dispatcher is: at a fiber of its first or its second loop, or behind its loop.\<close>

datatype gctl = Wake nat | Run nat | Left

record grt =
  conns :: "nat \<Rightarrow> gconn"
  stop :: bool
  mismatch :: nat
  gctl :: gctl
  nfin :: nat

record gconf =
  N :: nat
  MSG :: nat

definition conn0 :: "memory \<Rightarrow> gconn" where
  "conn0 garbage = \<lparr>cstrm = \<lparr>host = garbage, dev = garbage, todo = []\<rparr>, waiting = False, finished = False, ops = 0,
     expect = [], gpos = At_head\<rparr>"

section \<open>A fiber\<close>

definition fill :: "nat \<Rightarrow> u8 \<Rightarrow> gstream \<Rightarrow> gstream" where
  "fill n x g = g\<lparr>host := wr 0 (replicate n x) (host g)\<rparr>"

text \<open>\<open>body\<close> from one switch to the next: the check behind the park, then the next turn of the loop.\<close>

definition check_result :: "gconf \<Rightarrow> nat \<Rightarrow> grt \<Rightarrow> grt" where
  "check_result cf i s =
     (let c = conns s i
      in s\<lparr>mismatch := (if rd (host (cstrm c)) 0 (MSG cf) \<noteq> take (MSG cf) (expect c) then mismatch s + 1 else mismatch s),
           conns := (conns s)(i := c\<lparr>ops := ops c + 1\<rparr>)\<rparr>)"

definition body :: "gconf \<Rightarrow> nat \<Rightarrow> grt \<Rightarrow> grt" where
  "body cf i s =
     (let s = (if gpos (conns s i) = Parked then check_result cf i s else s); c = conns s i
      in if stop s then s\<lparr>conns := (conns s)(i := c\<lparr>finished := True\<rparr>)\<rparr>
         else s\<lparr>conns := (conns s)(i := c\<lparr>cstrm := enqueue_work (fill (MSG cf) (of_nat (i + 1)) (cstrm c)),
                  waiting := True, gpos := Parked\<rparr>)\<rparr>)"

section \<open>The dispatcher\<close>

definition wake_conn :: "nat \<Rightarrow> grt \<Rightarrow> grt" where
  "wake_conn i s =
     (if waiting (conns s i) \<and> event_query (cstrm (conns s i))
      then s\<lparr>conns := (conns s)(i := (conns s i)\<lparr>waiting := False\<rparr>)\<rparr> else s)"

definition run_coro :: "gconf \<Rightarrow> grt \<Rightarrow> grt" where
  "run_coro cf s =
     (case gctl s of
        Wake i \<Rightarrow> if i < N cf then (wake_conn i s)\<lparr>gctl := Wake (i + 1)\<rparr> else s\<lparr>gctl := Run 0, nfin := 0\<rparr>
      | Run i \<Rightarrow>
          if i < N cf
          then (if finished (conns s i) then s\<lparr>nfin := nfin s + 1, gctl := Run (i + 1)\<rparr>
                else if waiting (conns s i) then s\<lparr>gctl := Run (i + 1)\<rparr>
                else (body cf i s)\<lparr>gctl := Run (i + 1)\<rparr>)
          else if nfin s = N cf then s\<lparr>gctl := Left\<rparr> else s\<lparr>gctl := Wake 0\<rparr>
      | Left \<Rightarrow> s)"

definition coro_start :: "gconf \<Rightarrow> grt \<Rightarrow> grt" where
  "coro_start cf s =
     s\<lparr>conns := (\<lambda>i. if i < N cf then (conns s i)\<lparr>waiting := False, finished := False, ops := 0, gpos := At_head\<rparr> else conns s i),
       gctl := Wake 0\<rparr>"

definition total_ops :: "gconf \<Rightarrow> grt \<Rightarrow> nat" where
  "total_ops cf s = sum_list (map (\<lambda>i. ops (conns s i)) [0..<N cf])"

text \<open>A turn of the busy mode: no fiber, the thread waits for the stream.\<close>

definition run_busy :: "gconf \<Rightarrow> (nat \<times> nat) list \<Rightarrow> grt \<Rightarrow> grt" where
  "run_busy cf order s =
     (if stop s then s
      else (let c = conns s 0; g = enqueue_work (fill (MSG cf) 7 (cstrm c))
            in s\<lparr>conns := (conns s)(0 := c\<lparr>cstrm := stream_sync (key_expand demo_key) (MSG cf div 16) (MSG cf) order g,
                   ops := ops c + 1\<rparr>)\<rparr>))"

section \<open>Start-up\<close>

text \<open>
  The check of one operation on the first connection, after which \<open>main\<close> goes on or returns 1, and the expected
  results, through a buffer of 8192 bytes: \<open>None\<close> is a message that overruns it.
\<close>

definition first_check :: "(u8 list \<Rightarrow> u8 list \<Rightarrow> u8 list) \<Rightarrow> gconf \<Rightarrow> (nat \<times> nat) list \<Rightarrow> grt \<Rightarrow> bool \<times> grt" where
  "first_check evp cf order s =
     (let c = conns s 0;
          g = stream_sync (key_expand demo_key) (MSG cf div 16) (MSG cf) order (enqueue_work (fill (MSG cf) 0 (cstrm c)))
      in (evp demo_key (replicate (MSG cf) 0) = rd (host g) 0 (MSG cf),
          s\<lparr>conns := (conns s)(0 := c\<lparr>cstrm := g\<rparr>)\<rparr>))"

definition set_expect :: "(u8 list \<Rightarrow> u8 list \<Rightarrow> u8 list) \<Rightarrow> gconf \<Rightarrow> grt \<Rightarrow> grt option" where
  "set_expect evp cf s =
     (if 0 < N cf \<and> 8192 < MSG cf then None
      else Some (s\<lparr>conns := (\<lambda>i. if i < N cf then (conns s i)\<lparr>expect := evp demo_key (replicate (MSG cf) (of_nat (i + 1)))\<rparr>
                             else conns s i)\<rparr>))"

definition main_start :: "(u8 list \<Rightarrow> u8 list \<Rightarrow> u8 list) \<Rightarrow> memory \<Rightarrow> gconf \<Rightarrow> (nat \<times> nat) list \<Rightarrow> grt option" where
  "main_start evp garbage cf order =
     (let s = \<lparr>conns = (\<lambda>_. conn0 garbage), stop = False, mismatch = 0, gctl = Wake 0, nfin = 0\<rparr>;
          (ok, s) = first_check evp cf order s
      in if \<not> ok then None else map_option (coro_start cf) (set_expect evp cf s))"

section \<open>Runs\<close>

datatype grt_event = R_stop | R_device nat "(nat \<times> nat) list" | R_server

fun grt_step :: "gconf \<Rightarrow> grt_event \<Rightarrow> grt \<Rightarrow> grt" where
  "grt_step cf R_stop s = s\<lparr>stop := True\<rparr>"
| "grt_step cf (R_device i order) s =
     s\<lparr>conns := (conns s)(i := (conns s i)\<lparr>cstrm :=
         stream_turn (key_expand demo_key) (MSG cf div 16) (MSG cf) order (cstrm (conns s i))\<rparr>)\<rparr>"
| "grt_step cf R_server s = run_coro cf s"

definition grt_run :: "gconf \<Rightarrow> grt_event list \<Rightarrow> grt \<Rightarrow> grt" where
  "grt_run cf es s = fold (grt_step cf) es s"

definition fair_grids :: "gconf \<Rightarrow> grt_event list \<Rightarrow> bool" where
  "fair_grids cf es \<longleftrightarrow> (\<forall>e \<in> set es. case e of R_device i order \<Rightarrow> grid_order (MSG cf div 16) order | _ \<Rightarrow> True)"

text \<open>What OpenSSL documents of the cipher: the plain text with the key stream of the counter blocks 0, 1, and so on.\<close>

definition evp_ok :: "(u8 list \<Rightarrow> u8 list \<Rightarrow> u8 list) \<Rightarrow> bool" where
  "evp_ok evp \<longleftrightarrow>
     (\<forall>key bs. length key = 16 \<longrightarrow> evp key bs = map (\<lambda>p. xor (bs ! p) (keystream key 0 p)) [0..<length bs])"

section \<open>The results are right\<close>

definition conn_ok :: "gconf \<Rightarrow> nat \<Rightarrow> gconn \<Rightarrow> bool" where
  "conn_ok cf i c \<longleftrightarrow>
     expect c = map (\<lambda>p. xor (of_nat (i + 1)) (keystream demo_key 0 p)) [0..<MSG cf]
   \<and> (case gpos c of
        At_head \<Rightarrow> \<not> waiting c \<and> todo (cstrm c) = []
      | Parked \<Rightarrow> \<exists>k. stage demo_key (MSG cf div 16) (MSG cf) (\<lambda>_. of_nat (i + 1)) k (cstrm c) \<and> (\<not> waiting c \<longrightarrow> 4 \<le> k))"

definition grt_inv :: "gconf \<Rightarrow> grt \<Rightarrow> bool" where
  "grt_inv cf s \<longleftrightarrow> (\<forall>i < N cf. conn_ok cf i (conns s i)) \<and> mismatch s = 0"

lemma length_demo_key: "length demo_key = 16"
  by (simp add: demo_key_def)

lemma stage_result:
  assumes "stage demo_key nb (16 * nb) h k g" "4 \<le> k"
  shows "rd (host g) 0 (16 * nb) = map (\<lambda>p. xor (h p) (keystream demo_key 0 p)) [0..<16 * nb]"
  using assms by (simp add: stage_def same_upto_def rd_def ctr_bytes_def)

lemma stage_idle: "stage key nb z h k g \<Longrightarrow> 4 \<le> k \<Longrightarrow> todo g = []"
  by (simp add: stage_def)

lemma stage_fill:
  assumes "todo g = []"
  shows "stage key nb z (\<lambda>_. x) 0 (enqueue_work (fill z x g))"
  using assms by (intro stage_start) (simp_all add: fill_def same_upto_def wr_def)

lemma grt_inv_upd:
  assumes "grt_inv cf s" "conn_ok cf i c"
  shows "grt_inv cf (s\<lparr>conns := (conns s)(i := c)\<rparr>)"
  using assms by (simp add: grt_inv_def)

lemma inv_check_result:
  assumes inv: "grt_inv cf s" and i: "i < N cf" and w: "\<not> waiting (conns s i)" "gpos (conns s i) = Parked" and z: "16 dvd MSG cf"
  shows "grt_inv cf (check_result cf i s)" "todo (cstrm (conns (check_result cf i s) i)) = []"
proof -
  have ok: "conn_ok cf i (conns s i)"
    using inv i by (simp add: grt_inv_def)
  then obtain k where k: "stage demo_key (MSG cf div 16) (MSG cf) (\<lambda>_. of_nat (i + 1)) k (cstrm (conns s i))" "4 \<le> k"
    using w by (auto simp: conn_ok_def)
  have "rd (host (cstrm (conns s i))) 0 (MSG cf) = expect (conns s i)"
    using stage_result [of "MSG cf div 16" _ k] k z ok by (simp add: conn_ok_def)
  moreover have "length (expect (conns s i)) = MSG cf"
    using ok by (simp add: conn_ok_def)
  ultimately have "check_result cf i s = s\<lparr>conns := (conns s)(i := (conns s i)\<lparr>ops := ops (conns s i) + 1\<rparr>)\<rparr>"
    by (simp add: check_result_def Let_def)
  moreover have "conn_ok cf i ((conns s i)\<lparr>ops := ops (conns s i) + 1\<rparr>)"
    using ok by (simp add: conn_ok_def split: gpos.splits)
  ultimately show "grt_inv cf (check_result cf i s)" "todo (cstrm (conns (check_result cf i s) i)) = []"
    using grt_inv_upd [OF inv] stage_idle [OF k] by simp_all
qed

lemma grt_inv_body:
  assumes inv: "grt_inv cf s" and i: "i < N cf" and w: "\<not> waiting (conns s i)" and z: "16 dvd MSG cf"
  shows "grt_inv cf (body cf i s)"
proof -
  define s' where "s' = (if gpos (conns s i) = Parked then check_result cf i s else s)"
  have s': "grt_inv cf s'" "todo (cstrm (conns s' i)) = []"
  proof -
    have "grt_inv cf s' \<and> todo (cstrm (conns s' i)) = []"
    proof (cases "gpos (conns s i)")
      case At_head
      then show ?thesis
        using inv i w by (auto simp: s'_def grt_inv_def conn_ok_def)
    next
      case Parked
      then show ?thesis
        using inv_check_result [OF inv i w _ z] by (simp add: s'_def)
    qed
    then show "grt_inv cf s'" "todo (cstrm (conns s' i)) = []"
      by simp_all
  qed
  have b: "body cf i s = (if stop s' then s'\<lparr>conns := (conns s')(i := (conns s' i)\<lparr>finished := True\<rparr>)\<rparr>
    else s'\<lparr>conns := (conns s')(i := (conns s' i)\<lparr>cstrm := enqueue_work (fill (MSG cf) (of_nat (i + 1)) (cstrm (conns s' i))),
      waiting := True, gpos := Parked\<rparr>)\<rparr>)"
    by (simp add: body_def s'_def Let_def)
  have ok: "conn_ok cf i (conns s' i)"
    using s'(1) i by (simp add: grt_inv_def)
  have "conn_ok cf i ((conns s' i)\<lparr>finished := True\<rparr>)"
    using ok by (simp add: conn_ok_def split: gpos.splits)
  moreover have "conn_ok cf i ((conns s' i)\<lparr>cstrm := enqueue_work (fill (MSG cf) (of_nat (i + 1)) (cstrm (conns s' i))),
      waiting := True, gpos := Parked\<rparr>)"
    using ok stage_fill [OF s'(2), of demo_key "MSG cf div 16" "MSG cf" "of_nat (i + 1)"] unfolding conn_ok_def
    by (intro conjI) (simp, simp, blast)
  ultimately show ?thesis
    unfolding b using grt_inv_upd [OF s'(1)] by simp
qed

lemma grt_inv_wake:
  assumes inv: "grt_inv cf s" and i: "i < N cf"
  shows "grt_inv cf (wake_conn i s)"
proof (cases "waiting (conns s i) \<and> event_query (cstrm (conns s i))")
  case True
  have ok: "conn_ok cf i (conns s i)"
    using inv i by (simp add: grt_inv_def)
  then obtain k where k: "gpos (conns s i) = Parked" "stage demo_key (MSG cf div 16) (MSG cf) (\<lambda>_. of_nat (i + 1)) k (cstrm (conns s i))"
    using True by (cases "gpos (conns s i)") (auto simp: conn_ok_def)
  then have "4 \<le> k"
    using True stage_query by blast
  then have "conn_ok cf i ((conns s i)\<lparr>waiting := False\<rparr>)"
    using ok k by (auto simp: conn_ok_def)
  then show ?thesis
    using True grt_inv_upd [OF inv] by (simp add: wake_conn_def)
next
  case False
  then show ?thesis
    using inv by (auto simp: wake_conn_def)
qed

lemma grt_inv_ctl: "grt_inv cf (s\<lparr>gctl := x\<rparr>) = grt_inv cf s" "grt_inv cf (s\<lparr>nfin := y\<rparr>) = grt_inv cf s"
  "grt_inv cf (s\<lparr>stop := b\<rparr>) = grt_inv cf s"
  by (simp_all add: grt_inv_def)

lemma grt_inv_run_coro:
  assumes "grt_inv cf s" "16 dvd MSG cf"
  shows "grt_inv cf (run_coro cf s)"
  using assms grt_inv_wake [OF assms(1)] grt_inv_body [OF assms(1) _ _ assms(2)]
  by (auto simp: run_coro_def grt_inv_ctl split: gctl.split)

lemma inv_grt_device:
  assumes inv: "grt_inv cf s" and o: "grid_order (MSG cf div 16) order" and z: "MSG cf div 16 + 256 \<le> 2 ^ 64"
  shows "grt_inv cf (grt_step cf (R_device i order) s)"
proof (cases "i < N cf")
  case True
  let ?c = "(conns s i)\<lparr>cstrm := stream_turn (key_expand demo_key) (MSG cf div 16) (MSG cf) order (cstrm (conns s i))\<rparr>"
  have ok: "conn_ok cf i (conns s i)"
    using inv True by (simp add: grt_inv_def)
  have "conn_ok cf i ?c"
  proof (cases "gpos (conns s i)")
    case At_head
    then show ?thesis
      using ok by (simp add: conn_ok_def stream_turn_def)
  next
    case Parked
    then obtain k where "stage demo_key (MSG cf div 16) (MSG cf) (\<lambda>_. of_nat (i + 1)) k (cstrm (conns s i))"
      "\<not> waiting (conns s i) \<longrightarrow> 4 \<le> k"
      using ok by (auto simp: conn_ok_def)
    then show ?thesis
      using ok Parked stage_turn [OF length_demo_key z o] by (fastforce simp: conn_ok_def)
  qed
  then show ?thesis
    using grt_inv_upd [OF inv] by simp
next
  case False
  then show ?thesis
    using inv by (simp add: grt_inv_def)
qed

lemma inv_grt_run:
  assumes "fair_grids cf es" "16 dvd MSG cf" "MSG cf div 16 + 256 \<le> 2 ^ 64"
  shows "grt_inv cf s \<Longrightarrow> grt_inv cf (grt_run cf es s)"
  using assms(1)
proof (induction es arbitrary: s)
  case (Cons e es)
  have "grt_inv cf (grt_step cf e s)"
    using Cons.prems grt_inv_run_coro [OF _ assms(2)] inv_grt_device [OF _ _ assms(3)]
    by (cases e) (simp_all add: grt_inv_ctl fair_grids_def del: grt_step.simps(2))
  then show ?case
    using Cons.IH Cons.prems(2) by (simp add: grt_run_def fair_grids_def)
qed (simp add: grt_run_def)

lemma first_check_passes:
  assumes "evp_ok evp" "16 dvd MSG cf" "MSG cf div 16 + 256 \<le> 2 ^ 64" "grid_order (MSG cf div 16) order" "todo (cstrm (conns s 0)) = []"
  shows "fst (first_check evp cf order s)" "todo (cstrm (conns (snd (first_check evp cf order s)) 0)) = []"
proof -
  let ?g = "enqueue_work (fill (MSG cf) 0 (cstrm (conns s 0)))"
  let ?t = "stream_turn (key_expand demo_key) (MSG cf div 16) (MSG cf) order"
  note turn = stage_turn [OF length_demo_key assms(3) assms(4)]
  have "stage demo_key (MSG cf div 16) (MSG cf) (\<lambda>_. 0) (Suc (Suc (Suc (Suc 0)))) (?t (?t (?t (?t ?g))))"
    by (intro turn stage_fill assms(5))
  moreover have "stream_sync (key_expand demo_key) (MSG cf div 16) (MSG cf) order ?g = ?t (?t (?t (?t ?g)))"
    using assms(5) by (simp add: stream_sync_def enqueue_work_def fill_def)
  ultimately have st: "stage demo_key (MSG cf div 16) (MSG cf) (\<lambda>_. 0) (Suc (Suc (Suc (Suc 0))))
      (stream_sync (key_expand demo_key) (MSG cf div 16) (MSG cf) order ?g)"
    by simp
  then have "rd (host (stream_sync (key_expand demo_key) (MSG cf div 16) (MSG cf) order ?g)) 0 (MSG cf)
      = map (\<lambda>p. xor 0 (keystream demo_key 0 p)) [0..<MSG cf]"
    using stage_result [of "MSG cf div 16" "\<lambda>_. 0"] assms(2) by simp
  moreover have "evp demo_key (replicate (MSG cf) 0) = map (\<lambda>p. xor 0 (keystream demo_key 0 p)) [0..<MSG cf]"
    using assms(1) length_demo_key by (simp add: evp_ok_def)
  ultimately show "fst (first_check evp cf order s)"
    by (simp add: first_check_def Let_def)
  show "todo (cstrm (conns (snd (first_check evp cf order s)) 0)) = []"
    using stage_idle [OF st] by (simp add: first_check_def Let_def)
qed

lemma main_start_inv:
  assumes "evp_ok evp" "16 dvd MSG cf" "MSG cf \<le> 8192" "grid_order (MSG cf div 16) order"
  shows "\<exists>s. main_start evp garbage cf order = Some s \<and> grt_inv cf s"
proof -
  let ?s0 = "\<lparr>conns = (\<lambda>_. conn0 garbage), stop = False, mismatch = 0, gctl = Wake 0, nfin = 0\<rparr>"
  have idle: "todo (cstrm (conns ?s0 i)) = []" for i
    by (simp add: conn0_def)
  have z: "MSG cf div 16 + 256 \<le> 2 ^ 64"
    using assms(3) by simp
  note first = first_check_passes [OF assms(1,2) z assms(4) idle]
  have all: "todo (cstrm (conns (snd (first_check evp cf order ?s0)) i)) = []" for i
    using first(2) idle by (cases "i = 0") (simp_all add: first_check_def Let_def conn0_def)
  have mis: "mismatch (snd (first_check evp cf order ?s0)) = 0"
    by (simp add: first_check_def Let_def)
  have exp: "evp demo_key (replicate (MSG cf) x) = map (\<lambda>p. xor x (keystream demo_key 0 p)) [0..<MSG cf]" for x
    using assms(1) length_demo_key by (auto simp: evp_ok_def)
  obtain s1 where s1: "first_check evp cf order ?s0 = (True, s1)"
    using first(1) by (cases "first_check evp cf order ?s0") simp
  then have "main_start evp garbage cf order = map_option (coro_start cf) (set_expect evp cf s1)"
    by (simp add: main_start_def)
  moreover have "grt_inv cf (coro_start cf (the (set_expect evp cf s1)))" "set_expect evp cf s1 \<noteq> None"
    using all mis s1 assms(3) by (simp_all add: grt_inv_def conn_ok_def coro_start_def set_expect_def exp)
  ultimately show ?thesis
    by auto
qed


text \<open>A cipher that does what OpenSSL documents, and one connection that submits, parks and is entered again.\<close>

definition demo_evp :: "u8 list \<Rightarrow> u8 list \<Rightarrow> u8 list" where
  "demo_evp key bs = map (\<lambda>p. xor (bs ! p) (keystream key 0 p)) [0..<length bs]"

definition one_conn :: gconf where
  "one_conn = \<lparr>N = 1, MSG = 16\<rparr>"

definition gpu_demo :: "grt_event list" where
  "gpu_demo = [R_server, R_server, R_server, R_device 0 gpu_order, R_device 0 gpu_order, R_server, R_device 0 gpu_order,
     R_device 0 gpu_order, R_stop, R_server, R_server, R_server, R_server, R_server, R_server]"


end
