(* ===== verification/GpuHeavy.thy ===== *)
theory GpuHeavy
  imports Accel
begin

text \<open>
  The compute-heavy GPU accelerator \<open>libaccel_gpu_heavy.cu\<close>: the same interface, with a chain of matrix products on the
  slot's stream as the offload. The products' result is not used, so a stream is the work that is queued on it. A slot
  is set up by the first caller that needs it, without a lock.
\<close>

section \<open>State\<close>

definition NSLOT :: nat where "NSLOT = 256"

datatype hop = Gemm | Record

text \<open>A slot and its queued work; \<open>made\<close> counts the sets of resources that were created for it.\<close>

record hslot =
  queue :: "hop list"
  inited :: bool
  made :: nat

text \<open>A caller of \<open>accel_submit\<close>: its steps, with the request's number once it has one.\<close>

datatype hcaller = Idle | Reserved nat | Init nat | Ready nat | Submitted nat

record heavy =
  GEMM_N :: int
  GEMM_ITERS :: int
  hslots :: "nat \<Rightarrow> hslot"
  hsub_head :: nat
  hstarted :: bool
  callers :: "nat \<Rightarrow> hcaller"

definition heavy0 :: heavy where
  "heavy0 = \<lparr>GEMM_N = 1024, GEMM_ITERS = 1, hslots = (\<lambda>_. \<lparr>queue = [], inited = False, made = 0\<rparr>), hsub_head = 0,
     hstarted = False, callers = (\<lambda>_. Idle)\<rparr>"

section \<open>Operations\<close>

definition ensure :: "environ \<Rightarrow> heavy \<Rightarrow> heavy" where
  "ensure env d =
     (if hstarted d then d
      else (let n = (case env ''ACCEL_GEMM_N'' of None \<Rightarrow> GEMM_N d | Some x \<Rightarrow> atoi x);
                k = (case env ''ACCEL_GEMM_ITERS'' of None \<Rightarrow> GEMM_ITERS d | Some x \<Rightarrow> atoi x)
            in d\<lparr>GEMM_N := (if n < 16 then 16 else n), GEMM_ITERS := (if k < 1 then 1 else k), hstarted := True\<rparr>))"

text \<open>\<open>init_slot\<close> creates a stream without work and an event that has not been recorded.\<close>

definition init_slot :: "nat \<Rightarrow> heavy \<Rightarrow> heavy" where
  "init_slot i d = d\<lparr>hslots := (hslots d)(i := \<lparr>queue = [], inited = True, made = made (hslots d i) + 1\<rparr>)\<rparr>"

definition launch :: "nat \<Rightarrow> heavy \<Rightarrow> heavy" where
  "launch i d =
     d\<lparr>hslots := (hslots d)(i := (hslots d i)\<lparr>queue := queue (hslots d i) @ replicate (nat (GEMM_ITERS d)) Gemm @ [Record]\<rparr>)\<rparr>"

text \<open>\<open>accel_submit\<close> of a caller that no other one interrupts.\<close>

definition heavy_submit :: "environ \<Rightarrow> nat \<Rightarrow> nat \<Rightarrow> heavy \<Rightarrow> nat \<times> heavy" where
  "heavy_submit env b n d =
     (let d = ensure env d; rid = hsub_head d; i = rid mod NSLOT; d = d\<lparr>hsub_head := rid + 1\<rparr>;
          d = (if inited (hslots d i) then d else init_slot i d)
      in (rid, launch i d))"

definition heavy_done :: "nat \<Rightarrow> heavy \<Rightarrow> bool" where
  "heavy_done rid d \<longleftrightarrow> Record \<notin> set (queue (hslots d (rid mod NSLOT)))"

definition heavy_release :: "nat \<Rightarrow> heavy \<Rightarrow> heavy" where
  "heavy_release rid d = d"

definition heavy_turn :: "nat \<Rightarrow> heavy \<Rightarrow> heavy" where
  "heavy_turn i d = d\<lparr>hslots := (hslots d)(i := (hslots d i)\<lparr>queue := tl (queue (hslots d i))\<rparr>)\<rparr>"

text \<open>The synchronous call waits for all the work of its stream.\<close>

definition heavy_encrypt :: "environ \<Rightarrow> nat \<Rightarrow> nat \<Rightarrow> heavy \<Rightarrow> heavy" where
  "heavy_encrypt env b n d =
     (let (rid, d) = heavy_submit env b n d; i = rid mod NSLOT
      in (heavy_turn i ^^ length (queue (hslots d i))) d)"

section \<open>The contract of the interface\<close>

lemma hv_ensure_sel [simp]: "hslots (ensure env d) = hslots d" "hsub_head (ensure env d) = hsub_head d"
  "callers (ensure env d) = callers d"
  by (simp_all add: ensure_def Let_def)

lemma ensure_iters: "hstarted d \<longrightarrow> 1 \<le> GEMM_ITERS d \<Longrightarrow> 1 \<le> GEMM_ITERS (ensure env d)"
  by (simp add: ensure_def Let_def)

lemma hv_submit_sel:
  assumes "heavy_submit env b n d = (rid, d')"
  shows "rid = hsub_head d" "hsub_head d' = hsub_head d + 1" "j \<noteq> rid mod NSLOT \<Longrightarrow> hslots d' j = hslots d j"
    "inited (hslots d (rid mod NSLOT)) \<or> queue (hslots d (rid mod NSLOT)) = [] \<Longrightarrow>
       queue (hslots d' (rid mod NSLOT)) =
         queue (hslots d (rid mod NSLOT)) @ replicate (nat (GEMM_ITERS (ensure env d))) Gemm @ [Record]"
  using assms by (auto simp: heavy_submit_def launch_def init_slot_def Let_def split: if_splits)

interpretation heavy: offload_device "heavy_submit env" heavy_done heavy_release "heavy_turn i"
    "\<lambda>k d. k < hsub_head d" "\<lambda>d. hsub_head d < NSLOT" for env i
proof unfold_locales
  fix b n rid k :: nat and d d' :: heavy
  assume room: "hsub_head d < NSLOT" and sub: "heavy_submit env b n d = (rid, d')"
  show "rid < hsub_head d'"
    using hv_submit_sel [OF sub] by simp
  assume "k < hsub_head d"
  then show "k < hsub_head d' \<and> heavy_done k d' = heavy_done k d"
    using hv_submit_sel [OF sub] room by (simp add: heavy_done_def)
next
  show "k < hsub_head (heavy_turn i d) \<and> (heavy_done k d \<longrightarrow> heavy_done k (heavy_turn i d))" if "k < hsub_head d" for k d
    using that list.set_sel(2) [of "queue (hslots d i)"] by (cases "queue (hslots d i)") (auto simp: heavy_turn_def heavy_done_def)
qed (simp_all add: heavy_release_def)

section \<open>One offload\<close>

datatype h_event = H_submit nat nat | H_device nat

fun h_step :: "environ \<Rightarrow> h_event \<Rightarrow> heavy \<Rightarrow> heavy" where
  "h_step env (H_submit b n) d = snd (heavy_submit env b n d)"
| "h_step env (H_device i) d = heavy_turn i d"

definition h_run :: "environ \<Rightarrow> h_event list \<Rightarrow> heavy \<Rightarrow> heavy" where
  "h_run env es d = fold (h_step env) es d"

definition h_turns :: "nat \<Rightarrow> h_event list \<Rightarrow> nat" where
  "h_turns i es = length (filter (\<lambda>e. e = H_device i) es)"

definition h_submits :: "h_event list \<Rightarrow> nat" where
  "h_submits es = length (filter (\<lambda>e. case e of H_submit b n \<Rightarrow> True | _ \<Rightarrow> False) es)"

lemma h_run_queue:
  assumes "queue (hslots d (rid mod NSLOT)) = drop c w" "rid < hsub_head d" "hsub_head d + h_submits es \<le> rid + NSLOT"
  shows "queue (hslots (h_run env es d) (rid mod NSLOT)) = drop (c + h_turns (rid mod NSLOT) es) w"
  using assms
proof (induction es arbitrary: c d)
  case Nil
  then show ?case
    by (simp add: h_run_def h_turns_def)
next
  case (Cons e es)
  show ?case
  proof (cases e)
    case (H_submit b n)
    define d' where "d' = snd (heavy_submit env b n d)"
    have sub: "heavy_submit env b n d = (fst (heavy_submit env b n d), d')"
      by (simp add: d'_def)
    have le: "hsub_head d + 1 + h_submits es \<le> rid + NSLOT"
      using Cons.prems(3) H_submit by (simp add: h_submits_def)
    then have "hsub_head d mod NSLOT \<noteq> rid mod NSLOT"
      using mod_window_neq [OF Cons.prems(2), of NSLOT] Cons.prems(2) by linarith
    then have "queue (hslots d' (rid mod NSLOT)) = drop c w"
      using hv_submit_sel [OF sub] Cons.prems(1) by simp
    moreover have "rid < hsub_head d'" "hsub_head d' + h_submits es \<le> rid + NSLOT"
      using hv_submit_sel(2) [OF sub] Cons.prems(2) le by simp_all
    ultimately show ?thesis
      using Cons.IH [of d' c] H_submit by (simp add: h_run_def h_turns_def d'_def)
  next
    case (H_device j)
    have "queue (hslots (heavy_turn j d) (rid mod NSLOT)) = drop (c + (if j = rid mod NSLOT then 1 else 0)) w"
      using Cons.prems(1) by (auto simp: heavy_turn_def drop_Suc tl_drop)
    moreover have "rid < hsub_head (heavy_turn j d)" "hsub_head (heavy_turn j d) + h_submits es \<le> rid + NSLOT"
      using Cons.prems(2,3) H_device by (simp_all add: heavy_turn_def h_submits_def)
    ultimately show ?thesis
      using Cons.IH [of "heavy_turn j d" "c + (if j = rid mod NSLOT then 1 else 0)"] H_device
      by (auto simp: h_run_def h_turns_def)
  qed
qed

text \<open>A request of the compute-heavy accelerator that is submitted to an idle slot is reported done when and only when the
  device has made all its matrix products and the record behind them, beside up to 255 other submissions.\<close>

theorem heavy_offload_exact:
  assumes "heavy_submit env b n d = (rid, d1)" and "queue (hslots d (rid mod NSLOT)) = []"
    and "hstarted d \<longrightarrow> 1 \<le> GEMM_ITERS d" and "h_submits es < NSLOT"
  shows "heavy_done rid (h_run env es d1) \<longleftrightarrow> nat (GEMM_ITERS (ensure env d)) + 1 \<le> h_turns (rid mod NSLOT) es"
proof -
  let ?w = "replicate (nat (GEMM_ITERS (ensure env d))) Gemm @ [Record]"
  have "queue (hslots d1 (rid mod NSLOT)) = drop 0 ?w" "rid < hsub_head d1" "hsub_head d1 + h_submits es \<le> rid + NSLOT"
    using hv_submit_sel [OF assms(1)] assms(2,4) by simp_all
  then have "queue (hslots (h_run env es d1) (rid mod NSLOT)) = drop (h_turns (rid mod NSLOT) es) ?w"
    using h_run_queue [of d1 rid 0 ?w es env] by simp
  then show ?thesis
    by (auto simp: heavy_done_def drop_Cons' split: if_splits)
qed

theorem heavy_offload_exact_witness:
  "heavy_done 0 (h_run (\<lambda>_. None) [H_device 0, H_submit 0 1, H_device 0] (snd (heavy_submit (\<lambda>_. None) 0 1 heavy0)))"
  using heavy_offload_exact [of "\<lambda>_. None" 0 1 heavy0 0 "snd (heavy_submit (\<lambda>_. None) 0 1 heavy0)"
      "[H_device 0, H_submit 0 1, H_device 0]"]
  by (simp add: heavy_submit_def heavy0_def ensure_def h_submits_def h_turns_def NSLOT_def Let_def)

section \<open>Setting up a slot without a lock\<close>

text \<open>A step of caller \<open>a\<close> inside \<open>accel_submit\<close>, as the other callers see it.\<close>

definition caller_step :: "environ \<Rightarrow> nat \<Rightarrow> heavy \<Rightarrow> heavy" where
  "caller_step env a d =
     (case callers d a of
        Idle \<Rightarrow> (let d = ensure env d in d\<lparr>hsub_head := hsub_head d + 1, callers := (callers d)(a := Reserved (hsub_head d))\<rparr>)
      | Reserved rid \<Rightarrow>
          d\<lparr>callers := (callers d)(a := (if inited (hslots d (rid mod NSLOT)) then Ready rid else Init rid))\<rparr>
      | Init rid \<Rightarrow> (init_slot (rid mod NSLOT) d)\<lparr>callers := (callers d)(a := Ready rid)\<rparr>
      | Ready rid \<Rightarrow> (launch (rid mod NSLOT) d)\<lparr>callers := (callers d)(a := Submitted rid)\<rparr>
      | Submitted rid \<Rightarrow> d)"

text \<open>The heavy accelerator sets a slot up without the lock that its light sibling takes: of two callers that share a slot
  and have both found it not set up, the second replaces the stream and the event of the first, and the first is told
  that its request is done before the device has made a single product of it.\<close>

theorem heavy_init_race:
  assumes "callers d a = Reserved rid" "callers d c = Reserved (rid + NSLOT)" "a \<noteq> c"
    and "\<not> inited (hslots d (rid mod NSLOT))" "1 \<le> GEMM_ITERS d"
  shows "\<not> heavy_done rid (fold (caller_step env) [a, c, a, a] d) \<and> heavy_done rid (fold (caller_step env) [a, c, a, a, c] d)
     \<and> made (hslots (fold (caller_step env) [a, c, a, a, c] d) (rid mod NSLOT)) = made (hslots d (rid mod NSLOT)) + 2"
  using assms by (simp add: caller_step_def init_slot_def launch_def heavy_done_def Let_def)

text \<open>257 callers that have each reserved a number.\<close>

definition burst :: heavy where
  "burst = heavy0\<lparr>GEMM_ITERS := 1, hsub_head := 257, hstarted := True, callers := (\<lambda>a. if a < 257 then Reserved a else Idle)\<rparr>"

theorem heavy_init_race_witness: "heavy_done 0 (fold (caller_step (\<lambda>_. None)) [0, 256, 0, 0, 256] burst)"
  using heavy_init_race [of burst 0 0 256 "\<lambda>_. None"] by (simp add: burst_def heavy0_def NSLOT_def)

end
