(* ===== verification/ConflictDet.thy ===== *)
theory ConflictDet
  imports Prelude
begin

text \<open>
  The speculate-or-serialize experiment \<open>runtime/conflict_detector.c\<close>: coroutines that read an entry of a shared
  cache, park at an offload and commit a read-modify-write, in the four modes naive, detect, serial and lock,
  with the dispatcher that resumes them and the emulated accelerator that completes their offloads.
\<close>

section \<open>State\<close>

definition MAXKEY :: nat where "MAXKEY = 100000"
definition MAXSLOT :: nat where "MAXSLOT = 512"

record cd_slot =
  deadline :: u64
  active :: bool
  completed :: bool

record cd_entry =
  entry_val :: int
  ver :: u64

text \<open>
  Where a coroutine goes on when it is next entered: at the head of its loop, in the loop that tries to take the
  lock of its key, or behind the offload of one of the modes, with its local variables.
\<close>

datatype cd_pc = At_head | Trying nat | Held nat int | After_serial | Speculated nat int u64

record cd_coro =
  waiting :: bool
  finished :: bool
  iter :: nat
  at :: cd_pc

record cd =
  slots :: "nat \<Rightarrow> cd_slot"
  cache :: "nat \<Rightarrow> cd_entry"
  keylock :: "nat \<Rightarrow> bool"
  g_commits :: nat
  g_fallbacks :: nat
  g_lockwaits :: nat
  coros :: "nat \<Rightarrow> cd_coro"

text \<open>The command line: the mode, the number of keys, of coroutines and of iterations, and the latency.\<close>

datatype cd_mode = Naive | Detect | Serial | Lock

record cd_conf =
  MODE :: cd_mode
  NKEY :: nat
  C :: nat
  N_ITERS :: nat
  L_NS :: u64

definition parse_mode :: "string \<Rightarrow> cd_mode" where
  "parse_mode m = (if m = ''naive'' then Naive else if m = ''serial'' then Serial else if m = ''lock'' then Lock else Detect)"

definition main_conf :: "string list \<Rightarrow> cd_conf" where
  "main_conf args =
     (let m = (case args of [] \<Rightarrow> ''detect'' | m # _ \<Rightarrow> m);
          nkey = (if 1 < length args then nat (atoi (args ! 1)) else 64)
      in \<lparr> MODE = parse_mode m, NKEY = (if MAXKEY < nkey then MAXKEY else nkey),
           C = (if 2 < length args then nat (atoi (args ! 2)) else 64),
           N_ITERS = (if 3 < length args then nat (atoi (args ! 3)) else 20000), L_NS = 20000 \<rparr>)"

section \<open>The accelerator\<close>

definition device_slot :: "u64 \<Rightarrow> nat \<Rightarrow> cd \<Rightarrow> cd" where
  "device_slot t i s =
     (let x = slots s i
      in if active x \<and> \<not> completed x \<and> deadline x \<le> t then s\<lparr>slots := (slots s)(i := x\<lparr>completed := True\<rparr>)\<rparr> else s)"

definition device_pass :: "u64 \<Rightarrow> cd \<Rightarrow> cd" where
  "device_pass t s = fold (device_slot t) [0..<MAXSLOT] s"

definition submit :: "cd_conf \<Rightarrow> u64 \<Rightarrow> nat \<Rightarrow> cd \<Rightarrow> cd" where
  "submit cf now i s =
     s\<lparr>slots := (slots s)(i := \<lparr>deadline = now + L_NS cf, active = True, completed = False\<rparr>)\<rparr>"

section \<open>The coroutine\<close>

definition key_of :: "cd_conf \<Rightarrow> nat \<Rightarrow> nat \<Rightarrow> nat" where
  "key_of cf c i = unat (of_nat c * 2654435761 + of_nat i * 40503 :: u32) mod NKEY cf"

definition upd :: "nat \<Rightarrow> (cd_coro \<Rightarrow> cd_coro) \<Rightarrow> cd \<Rightarrow> cd" where
  "upd c f s = s\<lparr>coros := (coros s)(c := f (coros s c))\<rparr>"

definition coro_offload :: "cd_conf \<Rightarrow> u64 \<Rightarrow> nat \<Rightarrow> cd_pc \<Rightarrow> cd \<Rightarrow> cd" where
  "coro_offload cf now c p s = submit cf now c (upd c (\<lambda>x. x\<lparr>waiting := True, at := p\<rparr>) s)"

text \<open>\<open>cache[k].val = v + 1; cache[k].ver++\<close> and the count of the commit.\<close>

definition commit :: "nat \<Rightarrow> int \<Rightarrow> cd \<Rightarrow> cd" where
  "commit k v s = s\<lparr>cache := (cache s)(k := \<lparr>entry_val = v + 1, ver = ver (cache s k) + 1\<rparr>), g_commits := g_commits s + 1\<rparr>"

text \<open>The attempt to take the lock of the key: a coroutine that fails parks without waiting for an offload.\<close>

definition try_lock :: "cd_conf \<Rightarrow> u64 \<Rightarrow> nat \<Rightarrow> nat \<Rightarrow> cd \<Rightarrow> cd" where
  "try_lock cf now c k s =
     (if keylock s k then upd c (\<lambda>x. x\<lparr>at := Trying k\<rparr>) (s\<lparr>g_lockwaits := g_lockwaits s + 1\<rparr>)
      else coro_offload cf now c (Held k (entry_val (cache s k))) (s\<lparr>keylock := (keylock s)(k := True)\<rparr>))"

text \<open>From the head of the loop to the next switch to the dispatcher, or to the end.\<close>

definition loop_turn :: "cd_conf \<Rightarrow> u64 \<Rightarrow> nat \<Rightarrow> cd \<Rightarrow> cd" where
  "loop_turn cf now c s =
     (let i = iter (coros s c)
      in if i < N_ITERS cf
         then (let k = key_of cf c i
               in case MODE cf of
                    Lock \<Rightarrow> try_lock cf now c k s
                  | Serial \<Rightarrow> coro_offload cf now c After_serial (commit k (entry_val (cache s k)) s)
                  | _ \<Rightarrow> coro_offload cf now c (Speculated k (entry_val (cache s k)) (ver (cache s k))) s)
         else upd c (\<lambda>x. x\<lparr>finished := True, at := At_head\<rparr>) s)"

definition next_iter :: "nat \<Rightarrow> cd \<Rightarrow> cd" where
  "next_iter c = upd c (\<lambda>x. x\<lparr>iter := iter x + 1, at := At_head\<rparr>)"

text \<open>The code behind an offload in the modes naive and detect.\<close>

definition after_speculation :: "cd_conf \<Rightarrow> nat \<Rightarrow> int \<Rightarrow> u64 \<Rightarrow> cd \<Rightarrow> cd" where
  "after_speculation cf k v vr s =
     (if MODE cf = Detect \<and> ver (cache s k) \<noteq> vr
      then commit k (entry_val (cache s k)) (s\<lparr>g_fallbacks := g_fallbacks s + 1\<rparr>)
      else commit k v s)"

text \<open>What a coroutine does from the point at which it is entered to its next switch.\<close>

definition body :: "cd_conf \<Rightarrow> u64 \<Rightarrow> nat \<Rightarrow> cd \<Rightarrow> cd" where
  "body cf now c s =
     (case at (coros s c) of
        At_head \<Rightarrow> loop_turn cf now c s
      | Trying k \<Rightarrow> try_lock cf now c k s
      | Held k v \<Rightarrow> loop_turn cf now c (next_iter c ((commit k v s)\<lparr>keylock := (keylock s)(k := False)\<rparr>))
      | After_serial \<Rightarrow> loop_turn cf now c (next_iter c s)
      | Speculated k v vr \<Rightarrow> loop_turn cf now c (next_iter c (after_speculation cf k v vr s)))"

section \<open>The dispatcher\<close>

definition wake_one :: "nat \<Rightarrow> cd \<Rightarrow> cd" where
  "wake_one c s =
     (if waiting (coros s c) \<and> completed (slots s c)
      then upd c (\<lambda>x. x\<lparr>waiting := False\<rparr>) (s\<lparr>slots := (slots s)(c := (slots s c)\<lparr>active := False\<rparr>)\<rparr>) else s)"

definition run_one :: "cd_conf \<Rightarrow> u64 \<Rightarrow> nat \<Rightarrow> cd \<Rightarrow> cd" where
  "run_one cf now c s = (if finished (coros s c) \<or> waiting (coros s c) then s else body cf now c s)"

definition cd0 :: "cd_conf \<Rightarrow> cd" where
  "cd0 cf = \<lparr> slots = (\<lambda>_. \<lparr>deadline = 0, active = False, completed = False\<rparr>), cache = (\<lambda>_. \<lparr>entry_val = 0, ver = 0\<rparr>),
     keylock = (\<lambda>_. False), g_commits = 0, g_fallbacks = 0, g_lockwaits = 0,
     coros = (\<lambda>_. \<lparr>waiting = False, finished = False, iter = 0, at = At_head\<rparr>) \<rparr>"

text \<open>
  The accelerator runs on a core of its own, so its looks at the slots fall anywhere between the turns of the
  dispatcher: \<open>D_device t i\<close> is its look at slot \<open>i\<close> with the time \<open>t\<close>, \<open>D_wake c\<close> and \<open>D_run now c\<close> are the turns of the two
  loops of the dispatcher for coroutine \<open>c\<close>.
\<close>

datatype cd_event = D_device u64 nat | D_wake nat | D_run u64 nat

fun cd_step :: "cd_conf \<Rightarrow> cd_event \<Rightarrow> cd \<Rightarrow> cd" where
  "cd_step cf (D_device t i) s = (if i < MAXSLOT then device_slot t i s else s)"
| "cd_step cf (D_wake c) s = (if c < C cf then wake_one c s else s)"
| "cd_step cf (D_run now c) s = (if c < C cf then run_one cf now c s else s)"

definition cd_run :: "cd_conf \<Rightarrow> cd_event list \<Rightarrow> cd" where
  "cd_run cf es = fold (cd_step cf) es (cd0 cf)"

text \<open>The oracle of \<open>main\<close>: the commits that the sum of the cache misses.\<close>

definition lost :: "cd_conf \<Rightarrow> cd \<Rightarrow> int" where
  "lost cf s = int (g_commits s) - (\<Sum>k<NKEY cf. entry_val (cache s k))"

section \<open>The invariant\<close>

text \<open>The commits of a coroutine: in serial mode the commit comes before the offload of the same iteration.\<close>

definition coro_commits :: "cd_coro \<Rightarrow> nat" where
  "coro_commits x = iter x + (if at x = After_serial then 1 else 0)"

text \<open>The positions at which a coroutine can be in each mode, and what it knows of the cache there.\<close>

definition pc_ok :: "cd_conf \<Rightarrow> cd \<Rightarrow> cd_pc \<Rightarrow> bool" where
  "pc_ok cf s p =
     (case p of
        At_head \<Rightarrow> True
      | Trying k \<Rightarrow> MODE cf = Lock \<and> k < NKEY cf
      | Held k v \<Rightarrow> MODE cf = Lock \<and> k < NKEY cf \<and> keylock s k \<and> v = entry_val (cache s k)
      | After_serial \<Rightarrow> MODE cf = Serial
      | Speculated k v vr \<Rightarrow> MODE cf \<in> {Naive, Detect} \<and> k < NKEY cf \<and> unat vr \<le> unat (ver (cache s k))
          \<and> (vr = ver (cache s k) \<longrightarrow> v = entry_val (cache s k)))"

definition pcs_ok :: "cd_conf \<Rightarrow> cd \<Rightarrow> bool" where
  "pcs_ok cf s \<longleftrightarrow> (\<forall>c < C cf. pc_ok cf s (at (coros s c)))"

definition iters_ok :: "cd_conf \<Rightarrow> cd \<Rightarrow> bool" where
  "iters_ok cf s \<longleftrightarrow> (\<forall>c < C cf. iter (coros s c) \<le> N_ITERS cf
      \<and> (at (coros s c) \<noteq> At_head \<longrightarrow> iter (coros s c) < N_ITERS cf))"

definition one_holder :: "cd_conf \<Rightarrow> cd \<Rightarrow> bool" where
  "one_holder cf s \<longleftrightarrow>
     (\<forall>c < C cf. \<forall>d < C cf. \<forall>k v w. at (coros s c) = Held k v \<longrightarrow> at (coros s d) = Held k w \<longrightarrow> c = d)
   \<and> (\<forall>k. keylock s k \<longrightarrow> (\<exists>c < C cf. \<exists>v. at (coros s c) = Held k v))"

definition counts_ok :: "cd_conf \<Rightarrow> cd \<Rightarrow> bool" where
  "counts_ok cf s \<longleftrightarrow> (\<forall>k. unat (ver (cache s k)) \<le> g_commits s)
     \<and> g_commits s = (\<Sum>c<C cf. coro_commits (coros s c))"

definition cd_inv :: "cd_conf \<Rightarrow> cd \<Rightarrow> bool" where
  "cd_inv cf s \<longleftrightarrow> pcs_ok cf s \<and> iters_ok cf s \<and> one_holder cf s \<and> counts_ok cf s
     \<and> (MODE cf \<noteq> Naive \<longrightarrow> lost cf s = 0)"

definition conf_ok :: "cd_conf \<Rightarrow> bool" where
  "conf_ok cf \<longleftrightarrow> 0 < NKEY cf \<and> C cf \<le> MAXSLOT \<and> N_ITERS cf < 2 ^ 31"

lemma commits_small:
  assumes "conf_ok cf" "iters_ok cf s" "counts_ok cf s"
  shows "g_commits s < 2 ^ 63"
proof -
  have "coro_commits (coros s c) \<le> N_ITERS cf" if "c < C cf" for c
    using assms(2) that by (fastforce simp: iters_ok_def coro_commits_def)
  then have "g_commits s \<le> (\<Sum>c<C cf. N_ITERS cf)"
    using assms(3) unfolding counts_ok_def by (metis (no_types, lifting) lessThan_iff sum_mono)
  also have "\<dots> = C cf * N_ITERS cf"
    by simp
  also have "\<dots> \<le> 512 * 2 ^ 31"
    using assms(1) by (intro mult_mono) (auto simp: conf_ok_def MAXSLOT_def)
  finally show ?thesis
    by simp
qed

lemma unat_Suc_ver:
  assumes "unat (w :: u64) < 2 ^ 63"
  shows "unat (w + 1) = unat w + 1"
proof -
  have "unat w + unat (1 :: u64) < 2 ^ LENGTH(64)"
    using assms by simp
  then show ?thesis
    using unat_add_lem [where x = w and y = 1] by simp
qed

lemma upd_sel [simp]:
  "slots (upd c f s) = slots s" "cache (upd c f s) = cache s" "keylock (upd c f s) = keylock s"
  "g_commits (upd c f s) = g_commits s" "coros (upd c f s) = (coros s)(c := f (coros s c))"
  by (simp_all add: upd_def)

lemma submit_sel [simp]:
  "cache (submit cf now c s) = cache s" "keylock (submit cf now c s) = keylock s"
  "g_commits (submit cf now c s) = g_commits s" "coros (submit cf now c s) = coros s"
  by (simp_all add: submit_def)

lemma commit_sel [simp]:
  "slots (commit k v s) = slots s" "keylock (commit k v s) = keylock s" "coros (commit k v s) = coros s"
  "g_commits (commit k v s) = g_commits s + 1"
  "cache (commit k v s) = (cache s)(k := \<lparr>entry_val = v + 1, ver = ver (cache s k) + 1\<rparr>)"
  by (simp_all add: commit_def)

lemma lost_cong: "cache s' = cache s \<Longrightarrow> g_commits s' = g_commits s \<Longrightarrow> lost cf s' = lost cf s"
  by (simp add: lost_def)

lemma lost_commit:
  assumes "k < NKEY cf" "v = entry_val (cache s k)"
  shows "lost cf (commit k v s) = lost cf s"
proof -
  have "(\<lambda>j. entry_val (cache (commit k v s) j)) = (\<lambda>j. entry_val (cache s j))(k := v + 1)"
    by auto
  then have "(\<Sum>j<NKEY cf. entry_val (cache (commit k v s) j)) = (\<Sum>j<NKEY cf. entry_val (cache s j)) + (v + 1) - entry_val (cache s k)"
    by (simp only: sum_fun_upd [OF assms(1)])
  then show ?thesis
    using assms(2) by (simp add: lost_def)
qed

lemma key_of_less: "conf_ok cf \<Longrightarrow> key_of cf c i < NKEY cf"
  by (simp add: key_of_def conf_ok_def)

lemma commits_upd:
  fixes c n :: nat
  assumes "c < n"
  shows "(\<Sum>i<n. coro_commits ((f(c := x)) i)) + coro_commits (f c) = (\<Sum>i<n. coro_commits (f i)) + coro_commits x"
proof -
  have "(\<Sum>i\<in>{..<n} - {c}. coro_commits ((f(c := x)) i)) = (\<Sum>i\<in>{..<n} - {c}. coro_commits (f i))"
    by (intro sum.cong) auto
  moreover have "(\<Sum>i<n. coro_commits ((f(c := x)) i)) = coro_commits x + (\<Sum>i\<in>{..<n} - {c}. coro_commits ((f(c := x)) i))"
    using sum.remove [OF finite_lessThan, of c n "\<lambda>i. coro_commits ((f(c := x)) i)"] assms by simp
  moreover have "(\<Sum>i<n. coro_commits (f i)) = coro_commits (f c) + (\<Sum>i\<in>{..<n} - {c}. coro_commits (f i))"
    using sum.remove [OF finite_lessThan, of c n "\<lambda>i. coro_commits (f i)"] assms by simp
  ultimately show ?thesis
    by (simp only:)
qed

text \<open>
  One coroutine changes: the parts of the invariant that speak of the coroutines follow from the new coroutine
  and from what the others know of the cache.
\<close>

lemma pcs_upd:
  assumes "pcs_ok cf s" "coros s' = (coros s)(c := x)" "pc_ok cf s' (at x)"
    and "\<And>d. d < C cf \<Longrightarrow> d \<noteq> c \<Longrightarrow> pc_ok cf s (at (coros s d)) \<Longrightarrow> pc_ok cf s' (at (coros s d))"
  shows "pcs_ok cf s'"
  using assms by (simp add: pcs_ok_def)

lemma iters_upd:
  assumes "iters_ok cf s" "coros s' = (coros s)(c := x)"
    and "iter x \<le> N_ITERS cf" "at x \<noteq> At_head \<Longrightarrow> iter x < N_ITERS cf"
  shows "iters_ok cf s'"
  using assms by (simp add: iters_ok_def)

lemma pc_frame: "keylock s' = keylock s \<Longrightarrow> cache s' = cache s \<Longrightarrow> pc_ok cf s' p = pc_ok cf s p"
  by (simp add: pc_ok_def split: cd_pc.splits)

lemma holder_same:
  assumes "one_holder cf s" "coros s' = (coros s)(c := x)" "keylock s' = keylock s"
    and "\<And>k v. at (coros s c) \<noteq> Held k v" "\<And>k v. at x \<noteq> Held k v"
  shows "one_holder cf s'"
  unfolding one_holder_def
proof (intro conjI allI impI)
  fix a b k v w
  assume "a < C cf" "b < C cf" "at (coros s' a) = Held k v" "at (coros s' b) = Held k w"
  then show "a = b"
    using assms(1,2,5) unfolding one_holder_def by (metis fun_upd_apply)
next
  fix k
  assume "keylock s' k"
  then obtain a v where "a < C cf" "at (coros s a) = Held k v"
    using assms(1,3) unfolding one_holder_def by auto
  then show "\<exists>c < C cf. \<exists>v. at (coros s' c) = Held k v"
    using assms(2,4) by (metis fun_upd_apply)
qed

text \<open>A coroutine that goes on behind its offload and reaches the head of its loop.\<close>

definition settle :: "cd_conf \<Rightarrow> nat \<Rightarrow> cd \<Rightarrow> cd" where
  "settle cf c s =
     (case at (coros s c) of
        Held k v \<Rightarrow> next_iter c ((commit k v s)\<lparr>keylock := (keylock s)(k := False)\<rparr>)
      | After_serial \<Rightarrow> next_iter c s
      | Speculated k v vr \<Rightarrow> next_iter c (after_speculation cf k v vr s)
      | _ \<Rightarrow> s)"

lemma body_settle:
  "body cf now c s = (case at (coros s c) of Trying k \<Rightarrow> try_lock cf now c k s | _ \<Rightarrow> loop_turn cf now c (settle cf c s))"
  by (simp add: body_def settle_def split: cd_pc.splits)

lemma counts_upd:
  assumes "counts_ok cf s" "c < C cf" "coros s' = (coros s)(c := x)"
    and "coro_commits x + g_commits s = coro_commits (coros s c) + g_commits s'"
    and "\<And>k. unat (ver (cache s k)) \<le> g_commits s \<Longrightarrow> unat (ver (cache s' k)) \<le> g_commits s'"
  shows "counts_ok cf s'"
proof -
  have "g_commits s = (\<Sum>c<C cf. coro_commits (coros s c))" and ver: "\<And>k. unat (ver (cache s k)) \<le> g_commits s"
    using assms(1) by (auto simp: counts_ok_def)
  then have "g_commits s' = (\<Sum>c<C cf. coro_commits (coros s' c))"
    using assms(4) commits_upd [OF assms(2), of "coros s" x] unfolding assms(3) by linarith
  then show ?thesis
    using assms(5) [OF ver] by (simp add: counts_ok_def)
qed

lemma inv_settle_serial:
  assumes inv: "cd_inv cf s" and c: "c < C cf" and p: "at (coros s c) = After_serial"
  shows "cd_inv cf (next_iter c s)"
proof -
  define x where "x = (coros s c)\<lparr>iter := iter (coros s c) + 1, at := At_head\<rparr>"
  have upd: "coros (next_iter c s) = (coros s)(c := x)"
    by (simp add: next_iter_def x_def)
  have same: "keylock (next_iter c s) = keylock s" "cache (next_iter c s) = cache s"
    "g_commits (next_iter c s) = g_commits s"
    by (simp_all add: next_iter_def)
  have "iter (coros s c) < N_ITERS cf"
    using inv c p by (simp add: cd_inv_def iters_ok_def)
  then have "iters_ok cf (next_iter c s)"
    using inv by (intro iters_upd [OF _ upd]) (auto simp: cd_inv_def x_def)
  moreover have "pcs_ok cf (next_iter c s)"
    using inv by (intro pcs_upd [OF _ upd]) (auto simp: cd_inv_def x_def pc_ok_def [of _ _ At_head] pc_frame [OF same(1,2)])
  moreover have "one_holder cf (next_iter c s)"
    using inv p by (intro holder_same [OF _ upd same(1)]) (auto simp: cd_inv_def x_def)
  moreover have "counts_ok cf (next_iter c s)"
    using inv p by (intro counts_upd [OF _ c upd]) (auto simp: cd_inv_def x_def coro_commits_def same)
  ultimately show ?thesis
    using inv lost_cong [OF same(2,3)] by (simp add: cd_inv_def)
qed

text \<open>The commit at the end of an iteration of a mode whose commit is behind the offload.\<close>

lemma inv_settle_commit:
  assumes ok: "conf_ok cf" and inv: "cd_inv cf s" and c: "c < C cf"
    and p: "at (coros s c) \<noteq> At_head" "at (coros s c) \<noteq> After_serial"
    and k: "k < NKEY cf" "MODE cf \<noteq> Naive \<Longrightarrow> v = entry_val (cache s k)"
    and s': "coros s' = (coros s)(c := (coros s c)\<lparr>iter := iter (coros s c) + 1, at := At_head\<rparr>)"
      "cache s' = cache (commit k v s)" "g_commits s' = g_commits s + 1"
    and others: "\<And>d. d < C cf \<Longrightarrow> d \<noteq> c \<Longrightarrow> pc_ok cf s (at (coros s d)) \<Longrightarrow> pc_ok cf s' (at (coros s d))"
    and locks: "one_holder cf s'"
  shows "cd_inv cf s'"
proof -
  have "iter (coros s c) < N_ITERS cf"
    using inv c p by (simp add: cd_inv_def iters_ok_def)
  then have "iters_ok cf s'"
    using inv by (intro iters_upd [OF _ s'(1)]) (auto simp: cd_inv_def)
  moreover have "pcs_ok cf s'"
    using inv others by (intro pcs_upd [OF _ s'(1)]) (auto simp: cd_inv_def pc_ok_def [of _ _ At_head])
  moreover have "counts_ok cf s'"
  proof (rule counts_upd [OF _ c s'(1)])
    show "counts_ok cf s"
      using inv by (simp add: cd_inv_def)
    fix j
    assume "unat (ver (cache s j)) \<le> g_commits s"
    moreover have "g_commits s < 2 ^ 63"
      using ok inv by (intro commits_small) (auto simp: cd_inv_def)
    ultimately show "unat (ver (cache s' j)) \<le> g_commits s'"
      using unat_Suc_ver [of "ver (cache s j)"] by (auto simp: s')
  qed (use p s' in \<open>simp add: coro_commits_def\<close>)
  moreover have "lost cf s' = lost cf (commit k v s)"
    using s' by (intro lost_cong) simp_all
  ultimately show ?thesis
    using inv locks lost_commit [OF k] by (simp add: cd_inv_def)
qed

lemma inv_settle:
  assumes ok: "conf_ok cf" and inv: "cd_inv cf s" and c: "c < C cf"
  shows "cd_inv cf (settle cf c s)"
proof (cases "at (coros s c)")
  case At_head
  then show ?thesis
    using inv by (simp add: settle_def)
next
  case (Trying k)
  then show ?thesis
    using inv by (simp add: settle_def)
next
  case After_serial
  then show ?thesis
    using inv_settle_serial [OF inv c] by (simp add: settle_def)
next
  case (Held k v)
  define s' where "s' = settle cf c s"
  have s': "coros s' = (coros s)(c := (coros s c)\<lparr>iter := iter (coros s c) + 1, at := At_head\<rparr>)"
    "cache s' = cache (commit k v s)" "g_commits s' = g_commits s + 1" "keylock s' = (keylock s)(k := False)"
    by (simp_all add: s'_def settle_def Held next_iter_def)
  have "pc_ok cf s (at (coros s c))" and one: "one_holder cf s"
    using inv c by (auto simp: cd_inv_def pcs_ok_def)
  then have k: "k < NKEY cf" "v = entry_val (cache s k)" "MODE cf = Lock"
    by (simp_all add: Held pc_ok_def)
  have other: "j \<noteq> k" if "d < C cf" "d \<noteq> c" "at (coros s d) = Held j w" for d j w
    using one that c Held unfolding one_holder_def by metis
  have "cd_inv cf s'"
  proof (rule inv_settle_commit [OF ok inv c _ _ k(1,2) s'(1-3)])
    fix d
    assume "d < C cf" "d \<noteq> c" "pc_ok cf s (at (coros s d))"
    then show "pc_ok cf s' (at (coros s d))"
      using other k(3) by (auto simp: pc_ok_def s' split: cd_pc.splits)
  next
    show "one_holder cf s'"
      unfolding one_holder_def
    proof (intro conjI allI impI)
      fix a b j w1 w2
      assume "a < C cf" "b < C cf" "at (coros s' a) = Held j w1" "at (coros s' b) = Held j w2"
      then show "a = b"
        using one unfolding one_holder_def s' by (metis cd_coro.select_convs(4) cd_coro.surjective cd_coro.update_convs(4) cd_pc.distinct(3) fun_upd_apply)
    next
      fix j
      assume "keylock s' j"
      then obtain a w where "a < C cf" "at (coros s a) = Held j w" "j \<noteq> k"
        using one unfolding one_holder_def s' by (auto split: if_splits)
      moreover from this have "a \<noteq> c"
        using Held by auto
      ultimately show "\<exists>a < C cf. \<exists>w. at (coros s' a) = Held j w"
        by (intro exI [of _ a]) (simp add: s')
    qed
  qed (simp_all add: Held)
  then show ?thesis
    by (simp add: s'_def)
next
  case (Speculated k v vr)
  define s' where "s' = settle cf c s"
  have "pc_ok cf s (at (coros s c))" and one: "one_holder cf s"
    using inv c by (auto simp: cd_inv_def pcs_ok_def)
  then have k: "k < NKEY cf" "MODE cf \<in> {Naive, Detect}" and v: "vr = ver (cache s k) \<Longrightarrow> v = entry_val (cache s k)"
    by (simp_all add: Speculated pc_ok_def)
  define w where "w = (if MODE cf = Detect \<and> ver (cache s k) \<noteq> vr then entry_val (cache s k) else v)"
  have s': "coros s' = (coros s)(c := (coros s c)\<lparr>iter := iter (coros s c) + 1, at := At_head\<rparr>)"
    "cache s' = cache (commit k w s)" "g_commits s' = g_commits s + 1" "keylock s' = keylock s"
    by (simp_all add: s'_def settle_def Speculated next_iter_def after_speculation_def w_def)
  have small: "unat (ver (cache s k)) < 2 ^ 63"
    using commits_small [OF ok, of s] inv unfolding cd_inv_def counts_ok_def by (meson le_less_trans)
  have "cd_inv cf s'"
  proof (rule inv_settle_commit [OF ok inv c _ _ k(1) _ s'(1-3)])
    show "w = entry_val (cache s k)" if "MODE cf \<noteq> Naive"
      using that k(2) v by (auto simp: w_def)
    show "one_holder cf s'"
      using one by (intro holder_same [OF _ s'(1,4)]) (simp_all add: Speculated)
    fix d
    assume "d < C cf" "d \<noteq> c" "pc_ok cf s (at (coros s d))"
    then show "pc_ok cf s' (at (coros s d))"
      using k(2) unat_Suc_ver [OF small] by (auto simp: pc_ok_def s' split: cd_pc.splits)
  qed (simp_all add: Speculated)
  then show ?thesis
    by (simp add: s'_def)
qed

lemma coro_offload_sel:
  "coros (coro_offload cf now c p s) = (coros s)(c := (coros s c)\<lparr>waiting := True, at := p\<rparr>)"
  "cache (coro_offload cf now c p s) = cache s" "keylock (coro_offload cf now c p s) = keylock s"
  "g_commits (coro_offload cf now c p s) = g_commits s"
  by (simp_all add: coro_offload_def)

text \<open>A coroutine at the head of its loop moves to a position of the same iteration without a commit.\<close>

lemma inv_move:
  assumes inv: "cd_inv cf s" and c: "c < C cf" and i: "iter (coros s c) < N_ITERS cf"
    and p: "at (coros s c) \<in> {At_head, Trying j}" "p \<noteq> After_serial" "\<And>k v. p \<noteq> Held k v" "pc_ok cf s p"
    and s': "coros s' = (coros s)(c := (coros s c)\<lparr>waiting := w, at := p\<rparr>)" "cache s' = cache s"
      "keylock s' = keylock s" "g_commits s' = g_commits s"
  shows "cd_inv cf s'"
proof -
  have "iters_ok cf s'"
    using inv i by (intro iters_upd [OF _ s'(1)]) (auto simp: cd_inv_def)
  moreover have "pcs_ok cf s'"
    using inv p by (intro pcs_upd [OF _ s'(1)]) (auto simp: cd_inv_def pc_frame [OF s'(3,2)])
  moreover have "one_holder cf s'"
    using inv p by (intro holder_same [OF _ s'(1,3)]) (auto simp: cd_inv_def)
  moreover have "counts_ok cf s'"
    using inv p by (intro counts_upd [OF _ c s'(1)]) (auto simp: cd_inv_def coro_commits_def s')
  ultimately show ?thesis
    using inv lost_cong [OF s'(2,4)] by (simp add: cd_inv_def)
qed

lemma inv_take_lock:
  assumes inv: "cd_inv cf s" and c: "c < C cf" and i: "iter (coros s c) < N_ITERS cf"
    and p: "at (coros s c) \<in> {At_head, Trying j}" and k: "k < NKEY cf" "MODE cf = Lock" "\<not> keylock s k"
    and s': "coros s' = (coros s)(c := (coros s c)\<lparr>waiting := True, at := Held k (entry_val (cache s k))\<rparr>)"
      "cache s' = cache s" "keylock s' = (keylock s)(k := True)" "g_commits s' = g_commits s"
  shows "cd_inv cf s'"
proof -
  have "iters_ok cf s'"
    using inv i by (intro iters_upd [OF _ s'(1)]) (auto simp: cd_inv_def)
  moreover have "pcs_ok cf s'"
    using inv k by (intro pcs_upd [OF _ s'(1)]) (auto simp: cd_inv_def pc_ok_def s' split: cd_pc.splits)
  moreover have "counts_ok cf s'"
    using inv p by (intro counts_upd [OF _ c s'(1)]) (auto simp: cd_inv_def coro_commits_def s')
  moreover have "one_holder cf s'"
    unfolding one_holder_def
  proof (intro conjI allI impI)
    have one: "one_holder cf s" and pcs: "pcs_ok cf s"
      using inv by (simp_all add: cd_inv_def)
    have free: "at (coros s d) \<noteq> Held k v" if "d < C cf" for d v
    proof
      assume "at (coros s d) = Held k v"
      moreover have "pc_ok cf s (at (coros s d))"
        using pcs that by (simp add: pcs_ok_def)
      ultimately show False
        using k(3) by (simp add: pc_ok_def)
    qed
    {
      fix a b j w1 w2
      assume "a < C cf" "b < C cf" "at (coros s' a) = Held j w1" "at (coros s' b) = Held j w2"
      then show "a = b"
        using one free unfolding one_holder_def s' by (auto split: if_splits)
    next
      fix j'
      assume "keylock s' j'"
      show "\<exists>a < C cf. \<exists>w. at (coros s' a) = Held j' w"
      proof (cases "j' = k")
        case False
        then obtain a w where "a < C cf" "at (coros s a) = Held j' w"
          using one \<open>keylock s' j'\<close> unfolding one_holder_def s' by auto
        moreover from this have "a \<noteq> c"
          using p by auto
        ultimately show ?thesis
          by (intro exI [of _ a]) (simp add: s')
      qed (use c s' in auto)
    }
  qed
  ultimately show ?thesis
    using inv lost_cong [OF s'(2,4)] by (simp add: cd_inv_def)
qed

lemma inv_try_lock:
  assumes "cd_inv cf s" "c < C cf" "iter (coros s c) < N_ITERS cf" "at (coros s c) \<in> {At_head, Trying j}"
    and "k < NKEY cf" "MODE cf = Lock"
  shows "cd_inv cf (try_lock cf now c k s)"
proof (cases "keylock s k")
  case True
  show ?thesis
    by (rule inv_move [OF assms(1-4), where p = "Trying k" and w = "waiting (coros s c)"])
      (use True assms(5,6) in \<open>simp_all add: try_lock_def pc_ok_def\<close>)
next
  case False
  then show ?thesis
    by (intro inv_take_lock [OF assms]) (simp_all add: try_lock_def coro_offload_sel)
qed

lemma inv_serial_turn:
  assumes inv: "cd_inv cf s" and c: "c < C cf" and i: "iter (coros s c) < N_ITERS cf" and ok: "conf_ok cf"
    and p: "at (coros s c) = At_head" and k: "k < NKEY cf" "MODE cf = Serial"
  shows "cd_inv cf (coro_offload cf now c After_serial (commit k (entry_val (cache s k)) s))"
proof -
  define s' where "s' = coro_offload cf now c After_serial (commit k (entry_val (cache s k)) s)"
  have s': "coros s' = (coros s)(c := (coros s c)\<lparr>waiting := True, at := After_serial\<rparr>)"
    "cache s' = cache (commit k (entry_val (cache s k)) s)" "keylock s' = keylock s" "g_commits s' = g_commits s + 1"
    by (simp_all add: s'_def coro_offload_sel)
  have "iters_ok cf s'"
    using inv i by (intro iters_upd [OF _ s'(1)]) (auto simp: cd_inv_def)
  moreover have "pcs_ok cf s'"
    using inv k by (intro pcs_upd [OF _ s'(1)]) (auto simp: cd_inv_def pc_ok_def s' split: cd_pc.splits)
  moreover have "one_holder cf s'"
    using inv p by (intro holder_same [OF _ s'(1,3)]) (auto simp: cd_inv_def)
  moreover have "counts_ok cf s'"
  proof (rule counts_upd [OF _ c s'(1)])
    fix j
    assume "unat (ver (cache s j)) \<le> g_commits s"
    moreover have "g_commits s < 2 ^ 63"
      using ok inv by (intro commits_small) (auto simp: cd_inv_def)
    ultimately show "unat (ver (cache s' j)) \<le> g_commits s'"
      using unat_Suc_ver [of "ver (cache s j)"] by (auto simp: s')
  qed (use inv p s' in \<open>auto simp: cd_inv_def coro_commits_def\<close>)
  moreover have "lost cf s' = lost cf (commit k (entry_val (cache s k)) s)"
    using s' by (intro lost_cong) simp_all
  ultimately show ?thesis
    using inv lost_commit [OF k(1) refl] by (simp add: cd_inv_def s'_def)
qed

lemma cd_inv_cong:
  assumes "\<And>d. at (coros s' d) = at (coros s d)" "\<And>d. iter (coros s' d) = iter (coros s d)"
    and "keylock s' = keylock s" "cache s' = cache s" "g_commits s' = g_commits s"
  shows "cd_inv cf s' = cd_inv cf s"
  using lost_cong [OF assms(4,5)]
  by (simp add: cd_inv_def pcs_ok_def iters_ok_def one_holder_def counts_ok_def assms pc_frame [OF assms(3,4)] coro_commits_def)

lemma inv_loop_turn:
  assumes ok: "conf_ok cf" and inv: "cd_inv cf s" and c: "c < C cf" and p: "at (coros s c) = At_head"
  shows "cd_inv cf (loop_turn cf now c s)"
proof (cases "iter (coros s c) < N_ITERS cf")
  case True
  have k: "key_of cf c (iter (coros s c)) < NKEY cf"
    by (rule key_of_less [OF ok])
  have head: "at (coros s c) \<in> {At_head, Trying 0}"
    using p by simp
  note move = inv_move [OF inv c True head]
  show ?thesis
  proof (cases "MODE cf")
    case Lock
    then show ?thesis
      using inv_try_lock [OF inv c True head k] True by (simp add: loop_turn_def)
  next
    case Serial
    then show ?thesis
      using inv_serial_turn [OF inv c True ok p k] True by (simp add: loop_turn_def Let_def)
  next
    case Naive
    have "cd_inv cf (coro_offload cf now c (Speculated j (entry_val (cache s j)) (ver (cache s j))) s)" if "j < NKEY cf" for j
      using that Naive by (intro move [OF _ _ _ coro_offload_sel]) (auto simp: pc_ok_def)
    then show ?thesis
      using True Naive k by (simp add: loop_turn_def Let_def)
  next
    case Detect
    have "cd_inv cf (coro_offload cf now c (Speculated j (entry_val (cache s j)) (ver (cache s j))) s)" if "j < NKEY cf" for j
      using that Detect by (intro move [OF _ _ _ coro_offload_sel]) (auto simp: pc_ok_def)
    then show ?thesis
      using True Detect k by (simp add: loop_turn_def Let_def)
  qed
next
  case False
  have eq: "loop_turn cf now c s = upd c (\<lambda>x. x\<lparr>finished := True, at := At_head\<rparr>) s"
    using False by (simp add: loop_turn_def)
  have same: "at (coros (loop_turn cf now c s) d) = at (coros s d)" "iter (coros (loop_turn cf now c s) d) = iter (coros s d)" for d
    using p by (auto simp: eq)
  have rest: "keylock (loop_turn cf now c s) = keylock s" "cache (loop_turn cf now c s) = cache s"
    "g_commits (loop_turn cf now c s) = g_commits s"
    by (simp_all add: eq)
  show ?thesis
    using inv cd_inv_cong [OF same rest] by simp
qed

lemma settled: "at (coros (settle cf c s) c) \<noteq> At_head \<Longrightarrow> \<exists>k. at (coros s c) = Trying k"
  by (auto simp: settle_def next_iter_def split: cd_pc.splits)

lemma inv_body:
  assumes ok: "conf_ok cf" and inv: "cd_inv cf s" and c: "c < C cf"
  shows "cd_inv cf (body cf now c s)"
proof (cases "\<exists>k. at (coros s c) = Trying k")
  case True
  then obtain k where k: "at (coros s c) = Trying k"
    by auto
  moreover have "pc_ok cf s (Trying k)" "iter (coros s c) < N_ITERS cf"
    using inv c k by (auto simp: cd_inv_def pcs_ok_def iters_ok_def dest: spec [of _ c])
  ultimately show ?thesis
    using inv_try_lock [OF inv c, of k k now] by (simp add: body_settle pc_ok_def)
next
  case False
  then show ?thesis
    using inv_loop_turn [OF ok inv_settle [OF ok inv c] c] settled [of cf c s]
    by (auto simp: body_settle split: cd_pc.splits)
qed

lemma cd_inv_step:
  assumes ok: "conf_ok cf" and inv: "cd_inv cf s"
  shows "cd_inv cf (cd_step cf e s)"
proof (cases e)
  case (D_device t i)
  have "cd_inv cf (device_slot t i s) = cd_inv cf s"
    by (rule cd_inv_cong) (simp_all add: device_slot_def Let_def)
  then show ?thesis
    using D_device inv by simp
next
  case (D_wake c)
  have "cd_inv cf (wake_one c s) = cd_inv cf s"
    by (rule cd_inv_cong) (simp_all add: wake_one_def)
  then show ?thesis
    using D_wake inv by simp
next
  case (D_run now c)
  then show ?thesis
    using inv_body [OF ok inv] inv by (simp add: run_one_def)
qed

lemma inv_start: "cd_inv cf (cd0 cf)"
  by (simp add: cd_inv_def pcs_ok_def iters_ok_def one_holder_def counts_ok_def lost_def cd0_def pc_ok_def coro_commits_def)

lemma inv_run: "conf_ok cf \<Longrightarrow> cd_inv cf (cd_run cf es)"
proof -
  assume ok: "conf_ok cf"
  have "cd_inv cf s \<Longrightarrow> cd_inv cf (fold (cd_step cf) es s)" for s
    by (induction es arbitrary: s) (simp_all add: cd_inv_step [OF ok])
  then show ?thesis
    by (simp add: cd_run_def inv_start)
qed

text \<open>C6: In the modes detect, serial and lock no update is lost: after any interleaving of the coroutines, the
  dispatcher and the accelerator the sum of the cache is the number of commits, although entries are read before
  an offload and written behind it and the 64-bit versions may be equal by chance.\<close>

theorem no_lost_update:
  assumes "conf_ok cf" "MODE cf \<noteq> Naive"
  shows "lost cf (cd_run cf es) = 0"
  using inv_run [OF assms(1), of es] assms(2) by (simp add: cd_inv_def)

definition two_coros :: "cd_mode \<Rightarrow> cd_conf" where
  "two_coros m = \<lparr>MODE = m, NKEY = 1, C = 2, N_ITERS = 1, L_NS = 5\<rparr>"

definition cd_overlap :: "cd_event list" where
  "cd_overlap = [D_run 0 0, D_run 1 1, D_device 9 0, D_device 9 1, D_wake 0, D_wake 1, D_run 9 0, D_run 9 1]"

lemmas cd_eval = cd_run_def cd_overlap_def two_coros_def cd0_def run_one_def body_def loop_turn_def key_of_def try_lock_def
  coro_offload_def submit_def commit_def upd_def device_slot_def wake_one_def after_speculation_def next_iter_def
  MAXSLOT_def lost_def Let_def

theorem no_lost_update_witness:
  "lost (two_coros Detect) (cd_run (two_coros Detect) cd_overlap) = 0
   \<and> g_commits (cd_run (two_coros Detect) cd_overlap) = 2 \<and> g_fallbacks (cd_run (two_coros Detect) cd_overlap) = 1
   \<and> lost (two_coros Lock) (cd_run (two_coros Lock) cd_overlap) = 0
   \<and> g_lockwaits (cd_run (two_coros Lock) cd_overlap) = 1"
proof (intro conjI)
  show "lost (two_coros Detect) (cd_run (two_coros Detect) cd_overlap) = 0"
    by (rule no_lost_update) (simp_all add: conf_ok_def two_coros_def MAXSLOT_def)
  show "lost (two_coros Lock) (cd_run (two_coros Lock) cd_overlap) = 0"
    by (rule no_lost_update) (simp_all add: conf_ok_def two_coros_def MAXSLOT_def)
qed (simp_all add: cd_eval)

text \<open>The same interleaving in naive mode loses one of the two updates.\<close>

lemma naive_run_loses: "lost (two_coros Naive) (cd_run (two_coros Naive) cd_overlap) = 1"
  by (simp add: cd_eval)

section \<open>The dispatcher returns\<close>

text \<open>
  A turn of the dispatcher's loop with the accelerator's passes that fall before it: it breaks when all coroutines
  have been found finished. The list holds the times of the accelerator's pass and of the coroutines' offloads.
\<close>

definition wake_pass :: "cd_conf \<Rightarrow> cd \<Rightarrow> cd" where
  "wake_pass cf s = fold wake_one [0..<C cf] s"

definition run_pass :: "cd_conf \<Rightarrow> u64 \<Rightarrow> cd \<Rightarrow> cd" where
  "run_pass cf now s = fold (run_one cf now) [0..<C cf] s"

fun dispatcher :: "cd_conf \<Rightarrow> (u64 \<times> u64) list \<Rightarrow> cd \<Rightarrow> cd option" where
  "dispatcher cf [] s = None"
| "dispatcher cf ((t, now) # ts) s =
     (let s = wake_pass cf (device_pass t s)
      in if list_all (\<lambda>c. finished (coros s c)) [0..<C cf] then Some s else dispatcher cf ts (run_pass cf now s))"

text \<open>The accelerator looks at the slots after every offload of the turn before has become due.\<close>

fun timely :: "cd_conf \<Rightarrow> nat \<Rightarrow> (u64 \<times> u64) list \<Rightarrow> bool" where
  "timely cf due [] = True"
| "timely cf due ((t, now) # ts) \<longleftrightarrow>
     due \<le> unat t \<and> unat now + unat (L_NS cf) < 2 ^ 64 \<and> timely cf (unat now + unat (L_NS cf)) ts"

definition parked :: "cd_coro \<Rightarrow> bool" where
  "parked x \<longleftrightarrow> (case at x of At_head \<Rightarrow> False | Trying k \<Rightarrow> False | _ \<Rightarrow> True)"

definition rank :: "cd_conf \<Rightarrow> cd_coro \<Rightarrow> nat" where
  "rank cf x = (if finished x then 0 else 2 * (N_ITERS cf - iter x) + (if parked x then 1 else 2))"

definition ends_ok :: "cd_conf \<Rightarrow> cd \<Rightarrow> bool" where
  "ends_ok cf s \<longleftrightarrow> (\<forall>c. finished (coros s c) \<longrightarrow> at (coros s c) = At_head \<and> N_ITERS cf \<le> iter (coros s c))"

definition due_by :: "nat \<Rightarrow> cd \<Rightarrow> bool" where
  "due_by d s \<longleftrightarrow> (\<forall>c. waiting (coros s c) \<longrightarrow> active (slots s c) \<and> unat (deadline (slots s c)) \<le> d)"

lemma settle_sel:
  "coros (settle cf c s) c = (if parked (coros s c) then (coros s c)\<lparr>iter := iter (coros s c) + 1, at := At_head\<rparr> else coros s c)"
  "d \<noteq> c \<Longrightarrow> coros (settle cf c s) d = coros s d"
  "slots (settle cf c s) = slots s"
  by (auto simp: settle_def next_iter_def parked_def after_speculation_def split: cd_pc.splits)

lemma loop_turn_other: "d \<noteq> c \<Longrightarrow> coros (loop_turn cf now c s) d = coros s d"
  by (auto simp: loop_turn_def try_lock_def coro_offload_sel Let_def split: cd_mode.splits)

lemma body_other: "d \<noteq> c \<Longrightarrow> coros (body cf now c s) d = coros s d"
  by (auto simp: body_settle loop_turn_other settle_sel try_lock_def coro_offload_sel split: cd_pc.splits)

lemma run_one_other: "d \<noteq> c \<Longrightarrow> coros (run_one cf now c s) d = coros s d"
  by (simp add: run_one_def body_other)

text \<open>A coroutine that is entered from the head of its loop gets on unless it meets a held lock.\<close>

lemma loop_turn_rank:
  assumes "\<not> finished (coros s c)" "\<not> parked (coros s c)"
  shows "rank cf (coros (loop_turn cf now c s) c) \<le> rank cf (coros s c)"
    and "(\<forall>k. \<not> keylock s k) \<or> MODE cf \<noteq> Lock \<or> N_ITERS cf \<le> iter (coros s c)
         \<Longrightarrow> rank cf (coros (loop_turn cf now c s) c) < rank cf (coros s c)"
  using assms
  by (auto simp: rank_def loop_turn_def try_lock_def coro_offload_sel Let_def parked_def split: cd_mode.splits)

lemma settle_rank:
  assumes "\<not> finished (coros s c)" "parked (coros s c)" "iter (coros s c) < N_ITERS cf"
  shows "rank cf (coros (settle cf c s) c) < rank cf (coros s c)"
  using assms by (simp add: rank_def settle_sel parked_def)

lemma try_rank:
  assumes "\<not> finished (coros s c)" "at (coros s c) = Trying k"
  shows "rank cf (coros (try_lock cf now c k s) c) \<le> rank cf (coros s c)"
    and "\<not> keylock s k \<Longrightarrow> rank cf (coros (try_lock cf now c k s) c) < rank cf (coros s c)"
  using assms by (simp_all add: rank_def try_lock_def coro_offload_sel parked_def)

lemma body_rank:
  assumes inv: "cd_inv cf s" and c: "c < C cf" and f: "\<not> finished (coros s c)"
  shows "rank cf (coros (body cf now c s) c) \<le> rank cf (coros s c)"
    and "parked (coros s c) \<or> (\<forall>k. \<not> keylock s k) \<Longrightarrow> rank cf (coros (body cf now c s) c) < rank cf (coros s c)"
proof -
  have i: "iter (coros s c) < N_ITERS cf" if "at (coros s c) \<noteq> At_head"
    using inv c that by (simp add: cd_inv_def iters_ok_def)
  have f': "\<not> finished (coros (settle cf c s) c)" "\<not> parked (coros (settle cf c s) c)"
    using f by (auto simp: settle_sel parked_def)
  have *: "rank cf (coros (body cf now c s) c) \<le> rank cf (coros s c)
     \<and> (parked (coros s c) \<or> (\<forall>k. \<not> keylock s k) \<longrightarrow> rank cf (coros (body cf now c s) c) < rank cf (coros s c))"
  proof (cases "at (coros s c)")
    case At_head
    then have "settle cf c s = s"
      by (simp add: settle_def)
    then show ?thesis
      using At_head loop_turn_rank [OF f, of cf now] by (simp add: body_settle parked_def)
  next
    case (Trying k)
    then show ?thesis
      using try_rank [OF f Trying] by (simp add: body_settle parked_def)
  next
    case (Held k v)
    then show ?thesis
      using settle_rank [OF f _ i] loop_turn_rank(1) [OF f', of cf now] by (simp add: body_settle parked_def)
  next
    case After_serial
    then show ?thesis
      using settle_rank [OF f _ i] loop_turn_rank(1) [OF f', of cf now] by (simp add: body_settle parked_def)
  next
    case (Speculated k v vr)
    then show ?thesis
      using settle_rank [OF f _ i] loop_turn_rank(1) [OF f', of cf now] by (simp add: body_settle parked_def)
  qed
  then show "rank cf (coros (body cf now c s) c) \<le> rank cf (coros s c)"
    "parked (coros s c) \<or> (\<forall>k. \<not> keylock s k) \<Longrightarrow> rank cf (coros (body cf now c s) c) < rank cf (coros s c)"
    by auto
qed

lemma no_locks: "cd_inv cf s \<Longrightarrow> (\<And>c. c < C cf \<Longrightarrow> \<not> parked (coros s c)) \<Longrightarrow> \<not> keylock s k"
  unfolding cd_inv_def one_holder_def by (force simp: parked_def)

text \<open>One turn over the coroutines none of which waits: at least one of the unfinished gets on.\<close>

lemma run_prefix:
  assumes ok: "conf_ok cf" and inv: "cd_inv cf s" and idle: "\<And>c. c < C cf \<Longrightarrow> \<not> waiting (coros s c)"
    and n: "n \<le> C cf"
  shows "cd_inv cf (fold (run_one cf now) [0..<n] s)
   \<and> (\<forall>d. n \<le> d \<longrightarrow> coros (fold (run_one cf now) [0..<n] s) d = coros s d)
   \<and> (\<forall>d < n. rank cf (coros (fold (run_one cf now) [0..<n] s) d) \<le> rank cf (coros s d))
   \<and> ((\<exists>c < n. \<not> finished (coros s c) \<and> (parked (coros s c) \<or> (\<forall>c < C cf. \<not> parked (coros s c))))
        \<longrightarrow> (\<exists>d < n. rank cf (coros (fold (run_one cf now) [0..<n] s) d) < rank cf (coros s d)))
   \<and> ((\<forall>c < n. finished (coros s c)) \<longrightarrow> fold (run_one cf now) [0..<n] s = s)"
  using n
proof (induction n)
  case 0
  then show ?case
    using inv by simp
next
  case (Suc n)
  define r where "r = fold (run_one cf now) [0..<n] s"
  have IH: "cd_inv cf r" "\<And>d. n \<le> d \<Longrightarrow> coros r d = coros s d"
    "\<And>d. d < n \<Longrightarrow> rank cf (coros r d) \<le> rank cf (coros s d)"
    "(\<exists>c < n. \<not> finished (coros s c) \<and> (parked (coros s c) \<or> (\<forall>c < C cf. \<not> parked (coros s c))))
        \<Longrightarrow> (\<exists>d < n. rank cf (coros r d) < rank cf (coros s d))"
    "(\<forall>c < n. finished (coros s c)) \<Longrightarrow> r = s"
    using Suc by (auto simp: r_def)
  have n: "n < C cf"
    using Suc.prems by simp
  have step: "fold (run_one cf now) [0..<Suc n] s = run_one cf now n r"
    by (simp add: r_def)
  have here: "coros r n = coros s n"
    using IH(2) by simp
  have others: "d \<noteq> n \<Longrightarrow> coros (run_one cf now n r) d = coros r d" for d
    by (rule run_one_other)
  have own: "rank cf (coros (run_one cf now n r) n) \<le> rank cf (coros s n)"
    using body_rank(1) [OF IH(1) n, of now] by (simp add: run_one_def here)
  have strict: "rank cf (coros (run_one cf now n r) n) < rank cf (coros s n)"
    if "\<not> finished (coros s n)" "parked (coros s n) \<or> (\<forall>k. \<not> keylock r k)"
    using body_rank(2) [OF IH(1) n, of now] idle [OF n] that by (simp add: run_one_def here)
  have "cd_inv cf (run_one cf now n r)"
    using cd_inv_step [OF ok IH(1), of "D_run now n"] n by simp
  moreover have "\<forall>d. Suc n \<le> d \<longrightarrow> coros (run_one cf now n r) d = coros s d"
    using others IH(2) by simp
  moreover have "\<forall>d < Suc n. rank cf (coros (run_one cf now n r) d) \<le> rank cf (coros s d)"
  proof (intro allI impI)
    fix d
    assume "d < Suc n"
    then show "rank cf (coros (run_one cf now n r) d) \<le> rank cf (coros s d)"
      using own others [of d] IH(3) [of d] by (cases "d = n") auto
  qed
  moreover have "\<exists>d < Suc n. rank cf (coros (run_one cf now n r) d) < rank cf (coros s d)"
    if ex: "\<exists>c < Suc n. \<not> finished (coros s c) \<and> (parked (coros s c) \<or> (\<forall>c < C cf. \<not> parked (coros s c)))"
  proof (cases "\<exists>c < n. \<not> finished (coros s c) \<and> (parked (coros s c) \<or> (\<forall>c < C cf. \<not> parked (coros s c)))")
    case True
    then obtain d where "d < n" "rank cf (coros r d) < rank cf (coros s d)"
      using IH(4) by blast
    then show ?thesis
      using others [of d] by (intro exI [of _ d]) simp
  next
    case False
    then have unf: "\<not> finished (coros s n)" and why: "parked (coros s n) \<or> (\<forall>c < C cf. \<not> parked (coros s c))"
      using ex by (auto simp: less_Suc_eq)
    have "parked (coros s n) \<or> (\<forall>k. \<not> keylock r k)"
    proof (cases "parked (coros s n)")
      case no: False
      then have "\<forall>c < C cf. \<not> parked (coros s c)"
        using why by simp
      moreover from this have "r = s"
        using False by (intro IH(5)) blast
      ultimately show ?thesis
        using no_locks [OF inv] by simp
    qed simp
    then show ?thesis
      using strict [OF unf] by blast
  qed
  moreover have "run_one cf now n r = s" if "\<forall>c < Suc n. finished (coros s c)"
    using that IH(5) by (simp add: run_one_def)
  ultimately show ?case
    unfolding step by blast
qed

definition work :: "cd_conf \<Rightarrow> cd \<Rightarrow> nat" where
  "work cf s = (\<Sum>c<C cf. rank cf (coros s c))"

lemma run_pass_works:
  assumes "conf_ok cf" "cd_inv cf s" "\<And>c. c < C cf \<Longrightarrow> \<not> waiting (coros s c)"
    and "ends_ok cf s" "\<exists>c < C cf. \<not> finished (coros s c)"
  shows "work cf (run_pass cf now s) < work cf s"
proof -
  note P = run_prefix [OF assms(1-3) order.refl, of now, folded run_pass_def]
  obtain c where "c < C cf" "\<not> finished (coros s c)" "parked (coros s c) \<or> (\<forall>c < C cf. \<not> parked (coros s c))"
  proof (cases "\<exists>c < C cf. parked (coros s c) \<and> \<not> finished (coros s c)")
    case False
    then have "\<forall>c < C cf. \<not> parked (coros s c)"
      using assms(4) by (auto simp: ends_ok_def parked_def)
    then show thesis
      using that assms(5) by blast
  qed (use that in blast)
  then obtain d where "d < C cf" "rank cf (coros (run_pass cf now s) d) < rank cf (coros s d)"
    using P by blast
  then show ?thesis
    unfolding work_def using P by (intro sum_strict_mono_ex1) auto
qed

text \<open>What the passes keep: finished coroutines are through, and what waits has an offload that is due in time.\<close>

lemma ends_wake: "ends_ok cf s \<Longrightarrow> ends_ok cf (wake_one c s)"
  by (auto simp: ends_ok_def wake_one_def)

lemma ends_device: "ends_ok cf s \<Longrightarrow> ends_ok cf (device_slot t i s)"
  by (simp add: ends_ok_def device_slot_def Let_def)

lemma ends_loop_turn: "ends_ok cf s \<Longrightarrow> \<not> finished (coros s c) \<Longrightarrow> ends_ok cf (loop_turn cf now c s)"
  by (auto simp: ends_ok_def loop_turn_def try_lock_def coro_offload_sel Let_def split: cd_mode.splits)

lemma ends_run: "ends_ok cf s \<Longrightarrow> ends_ok cf (run_one cf now c s)"
proof (cases "finished (coros s c) \<or> waiting (coros s c)")
  case False
  assume ends: "ends_ok cf s"
  have "ends_ok cf (settle cf c s)"
    unfolding ends_ok_def
  proof (intro allI impI)
    fix d
    assume "finished (coros (settle cf c s) d)"
    then show "at (coros (settle cf c s) d) = At_head \<and> N_ITERS cf \<le> iter (coros (settle cf c s) d)"
      using ends False by (cases "d = c") (auto simp: ends_ok_def settle_sel split: if_splits)
  qed
  moreover have "\<not> finished (coros (settle cf c s) c)"
    using False by (simp add: settle_sel)
  moreover have "ends_ok cf (try_lock cf now c k s)" for k
    using ends False by (auto simp: ends_ok_def try_lock_def coro_offload_sel)
  ultimately show ?thesis
    using False by (auto simp: run_one_def body_settle ends_loop_turn split: cd_pc.splits)
qed (simp add: run_one_def)

lemma loop_turn_due:
  assumes "due_by d s" "\<not> waiting (coros s c)" "unat now + unat (L_NS cf) < 2 ^ 64" "unat now + unat (L_NS cf) \<le> d"
  shows "due_by d (loop_turn cf now c s)" and "due_by d (try_lock cf now c k s)"
proof -
  have "unat (now + L_NS cf) = unat now + unat (L_NS cf)"
    using assms(3) unat_add_lem [where x = now and y = "L_NS cf"] by simp
  then have park: "due_by d (coro_offload cf now c p s')" if "slots s' = slots s" "coros s' = coros s" for p s'
    using assms that by (auto simp: due_by_def coro_offload_def submit_def)
  show "due_by d (try_lock cf now c k s)"
    using assms(1,2) park by (auto simp: try_lock_def due_by_def)
  have "due_by d (try_lock cf now c k s)" for k
    using assms(1,2) park by (auto simp: try_lock_def due_by_def)
  then show "due_by d (loop_turn cf now c s)"
    using assms(1,2) park by (auto simp: loop_turn_def Let_def due_by_def split: cd_mode.splits)
qed

lemma run_due:
  assumes "due_by d s" "unat now + unat (L_NS cf) < 2 ^ 64" "unat now + unat (L_NS cf) \<le> d"
  shows "due_by d (run_one cf now c s)"
proof (cases "finished (coros s c) \<or> waiting (coros s c)")
  case False
  have "due_by d (settle cf c s)"
    unfolding due_by_def settle_sel(3)
  proof (intro allI impI)
    fix e
    assume "waiting (coros (settle cf c s) e)"
    then have "waiting (coros s e)"
      by (cases "e = c") (auto simp: settle_sel split: if_splits)
    then show "active (slots s e) \<and> unat (deadline (slots s e)) \<le> d"
      using assms(1) by (simp add: due_by_def)
  qed
  moreover have "\<not> waiting (coros (settle cf c s) c)"
    using False by (simp add: settle_sel)
  ultimately show ?thesis
    using False loop_turn_due [OF assms(1) _ assms(2,3), of c] loop_turn_due(1) [OF _ _ assms(2,3)]
    by (auto simp: run_one_def body_settle split: cd_pc.splits)
qed (use assms in \<open>simp add: run_one_def\<close>)

lemma fold_keeps: "P s \<Longrightarrow> (\<And>x s. x \<in> set xs \<Longrightarrow> P s \<Longrightarrow> P (f x s)) \<Longrightarrow> P (fold f xs s)"
  by (induction xs arbitrary: s) auto

text \<open>The pass of the accelerator and the wake-ups leave no coroutine waiting.\<close>

lemma device_pass_slot:
  "slots (device_pass t s) i = (let x = slots s i in
     if i < MAXSLOT \<and> active x \<and> \<not> completed x \<and> deadline x \<le> t then x\<lparr>completed := True\<rparr> else x)"
  "coros (device_pass t s) = coros s"
proof -
  have "slots (fold (device_slot t) [0..<n] s) i = (let x = slots s i in
      if i < n \<and> active x \<and> \<not> completed x \<and> deadline x \<le> t then x\<lparr>completed := True\<rparr> else x)
     \<and> coros (fold (device_slot t) [0..<n] s) = coros s" for n
    by (induction n) (auto simp: device_slot_def Let_def less_Suc_eq)
  then show "slots (device_pass t s) i = (let x = slots s i in
     if i < MAXSLOT \<and> active x \<and> \<not> completed x \<and> deadline x \<le> t then x\<lparr>completed := True\<rparr> else x)"
    "coros (device_pass t s) = coros s"
    by (simp_all add: device_pass_def)
qed

lemma wake_prefix:
  "coros (fold wake_one [0..<n] s) c = (if c < n \<and> waiting (coros s c) \<and> completed (slots s c)
     then (coros s c)\<lparr>waiting := False\<rparr> else coros s c)
   \<and> completed (slots (fold wake_one [0..<n] s) c) = completed (slots s c)"
  by (induction n arbitrary: c) (auto simp: wake_one_def less_Suc_eq)

lemma none_waits:
  assumes "due_by d s" "d \<le> unat t" "C cf \<le> MAXSLOT" "c < C cf"
  shows "\<not> waiting (coros (wake_pass cf (device_pass t s)) c)"
proof
  assume "waiting (coros (wake_pass cf (device_pass t s)) c)"
  then have w: "waiting (coros s c)" and nc: "\<not> completed (slots (device_pass t s) c)"
    using wake_prefix [of "C cf" "device_pass t s" c] assms(4) by (auto simp: wake_pass_def device_pass_slot split: if_splits)
  then have "active (slots s c)" "deadline (slots s c) \<le> t"
    using assms(1,2) by (auto simp: due_by_def word_le_nat_alt intro: order_trans)
  then show False
    using nc assms(3,4) by (auto simp: device_pass_slot Let_def split: if_splits)
qed

lemma device_keeps: "P s \<Longrightarrow> (\<And>i s. P s \<Longrightarrow> P (device_slot t i s)) \<Longrightarrow> P (device_pass t s)"
  unfolding device_pass_def by (rule fold_keeps)

lemma wake_keeps: "P s \<Longrightarrow> (\<And>c s. c < C cf \<Longrightarrow> P s \<Longrightarrow> P (wake_one c s)) \<Longrightarrow> P (wake_pass cf s)"
  unfolding wake_pass_def by (rule fold_keeps) auto

lemma run_keeps: "P s \<Longrightarrow> (\<And>c s. c < C cf \<Longrightarrow> P s \<Longrightarrow> P (run_one cf now c s)) \<Longrightarrow> P (run_pass cf now s)"
  unfolding run_pass_def by (rule fold_keeps) auto

lemma inv_passes:
  assumes "conf_ok cf" "cd_inv cf s"
  shows "cd_inv cf (wake_pass cf (device_pass t s))" and "cd_inv cf (run_pass cf now s)"
proof -
  have "cd_inv cf (device_slot t i s')" if "cd_inv cf s'" for i s'
    using that cd_inv_cong [of "device_slot t i s'" s' cf] by (simp add: device_slot_def Let_def)
  then have "cd_inv cf (device_pass t s)"
    by (rule device_keeps [where P = "cd_inv cf", OF assms(2)])
  then show "cd_inv cf (wake_pass cf (device_pass t s))"
    by (rule wake_keeps [where P = "cd_inv cf"]) (metis cd_step.simps(2) cd_inv_step [OF assms(1)])
  show "cd_inv cf (run_pass cf now s)"
    by (rule run_keeps [where P = "cd_inv cf", OF assms(2)]) (metis cd_step.simps(3) cd_inv_step [OF assms(1)])
qed

lemma ends_passes:
  assumes "ends_ok cf s"
  shows "ends_ok cf (wake_pass cf (device_pass t s))" and "ends_ok cf (run_pass cf now s)"
proof -
  have "ends_ok cf (device_pass t s)"
    by (rule device_keeps [where P = "ends_ok cf", OF assms]) (rule ends_device)
  then show "ends_ok cf (wake_pass cf (device_pass t s))"
    by (rule wake_keeps [where P = "ends_ok cf"]) (rule ends_wake)
  show "ends_ok cf (run_pass cf now s)"
    by (rule run_keeps [where P = "ends_ok cf", OF assms]) (rule ends_run)
qed

lemma rank_waiting [simp]: "rank cf (x\<lparr>waiting := w\<rparr>) = rank cf x"
  by (simp add: rank_def parked_def)

lemma work_passes: "work cf (wake_pass cf (device_pass t s)) = work cf s"
proof -
  have "rank cf (coros (wake_pass cf (device_pass t s)) c) = rank cf (coros s c)" for c
    using wake_prefix [of "C cf" "device_pass t s" c] by (simp add: wake_pass_def device_pass_slot)
  then show ?thesis
    by (simp add: work_def)
qed

lemma idle_due: "(\<And>c. \<not> waiting (coros s c)) \<Longrightarrow> due_by d s"
  by (simp add: due_by_def)

text \<open>Outside the coroutines of the run nothing is ever waiting.\<close>

definition quiet_outside :: "cd_conf \<Rightarrow> cd \<Rightarrow> bool" where
  "quiet_outside cf s \<longleftrightarrow> (\<forall>c. C cf \<le> c \<longrightarrow> \<not> waiting (coros s c))"

lemma quiet_passes:
  assumes "quiet_outside cf s"
  shows "quiet_outside cf (wake_pass cf (device_pass t s))" and "quiet_outside cf (run_pass cf now s)"
proof -
  show "quiet_outside cf (wake_pass cf (device_pass t s))"
    using assms wake_prefix [of "C cf" "device_pass t s"] by (simp add: quiet_outside_def wake_pass_def device_pass_slot)
  show "quiet_outside cf (run_pass cf now s)"
    by (rule run_keeps [where P = "quiet_outside cf", OF assms]) (auto simp: quiet_outside_def run_one_other)
qed

lemma dispatcher_returns_from:
  "conf_ok cf \<Longrightarrow> cd_inv cf s \<Longrightarrow> ends_ok cf s \<Longrightarrow> quiet_outside cf s \<Longrightarrow> due_by d s \<Longrightarrow> timely cf d ts
    \<Longrightarrow> work cf s < length ts
    \<Longrightarrow> \<exists>s'. dispatcher cf ts s = Some s' \<and> cd_inv cf s' \<and> ends_ok cf s' \<and> (\<forall>c < C cf. finished (coros s' c))"
proof (induction cf ts s arbitrary: d rule: dispatcher.induct)
  case (2 cf t now ts s)
  define s1 where "s1 = wake_pass cf (device_pass t s)"
  define s2 where "s2 = run_pass cf now s1"
  have ok: "conf_ok cf" and d: "d \<le> unat t" and now: "unat now + unat (L_NS cf) < 2 ^ 64"
    and rest: "timely cf (unat now + unat (L_NS cf)) ts"
    using "2.prems" by auto
  have inv1: "cd_inv cf s1" and ends1: "ends_ok cf s1" and quiet1: "quiet_outside cf s1"
    using inv_passes(1) [OF ok] ends_passes(1) quiet_passes(1) "2.prems" by (simp_all add: s1_def)
  have idle: "\<not> waiting (coros s1 c)" for c
    using none_waits [OF "2.prems"(5) d, of cf c] ok quiet1
    by (cases "c < C cf") (auto simp: s1_def conf_ok_def quiet_outside_def)
  show ?case
  proof (cases "\<forall>c < C cf. finished (coros s1 c)")
    case True
    then show ?thesis
      using inv1 ends1 by (simp add: Let_def list_all_length flip: s1_def)
  next
    case False
    then have "work cf s2 < work cf s1"
      unfolding s2_def using run_pass_works [OF ok inv1 idle ends1] by blast
    then have "work cf s2 < length ts"
      using "2.prems"(7) work_passes [of cf t s] by (simp add: s1_def)
    moreover have "cd_inv cf s2" "ends_ok cf s2" "quiet_outside cf s2"
      unfolding s2_def using inv_passes(2) [OF ok inv1] ends_passes(2) [OF ends1] quiet_passes(2) [OF quiet1] by auto
    moreover have "due_by (unat now + unat (L_NS cf)) s2"
      unfolding s2_def
      by (rule run_keeps [where P = "due_by (unat now + unat (L_NS cf))", OF idle_due [OF idle]])
        (rule run_due [OF _ now order.refl])
    ultimately have "\<exists>s'. dispatcher cf ts s2 = Some s' \<and> cd_inv cf s' \<and> ends_ok cf s' \<and> (\<forall>c < C cf. finished (coros s' c))"
      using "2.IH" [OF s1_def] False ok rest by (auto simp: list_all_length s2_def)
    moreover have "\<not> list_all (\<lambda>c. finished (coros s1 c)) [0..<C cf]"
      using False by (simp add: list_all_length)
    ultimately show ?thesis
      by (simp add: Let_def flip: s1_def s2_def)
  qed
qed simp

text \<open>C19: The dispatcher's loop returns: when the accelerator looks at its slots after each turn's offloads are due, at
  most \<open>C * (2 * N_ITERS + 2) + 1\<close> turns are needed in every mode, also when coroutines wait for the lock of a key, and
  then every coroutine has committed all its iterations.\<close>

theorem dispatcher_returns:
  assumes "conf_ok cf" "timely cf 0 ts" "C cf * (2 * N_ITERS cf + 2) < length ts"
  shows "\<exists>s. dispatcher cf ts (cd0 cf) = Some s \<and> (\<forall>c < C cf. finished (coros s c)) \<and> g_commits s = C cf * N_ITERS cf"
proof -
  have "work cf (cd0 cf) = C cf * (2 * N_ITERS cf + 2)"
    by (simp add: work_def rank_def cd0_def parked_def)
  moreover have "ends_ok cf (cd0 cf)" "quiet_outside cf (cd0 cf)" "due_by 0 (cd0 cf)"
    by (simp_all add: ends_ok_def quiet_outside_def due_by_def cd0_def)
  ultimately obtain s where s: "dispatcher cf ts (cd0 cf) = Some s" "cd_inv cf s" "ends_ok cf s"
      "\<forall>c < C cf. finished (coros s c)"
    using dispatcher_returns_from [OF assms(1) inv_start _ _ _ assms(2)] assms(3) by fastforce
  have "coro_commits (coros s c) = N_ITERS cf" if "c < C cf" for c
    using s that by (force simp: coro_commits_def ends_ok_def cd_inv_def iters_ok_def)
  then have "g_commits s = C cf * N_ITERS cf"
    using s(2) by (simp add: cd_inv_def counts_ok_def)
  then show ?thesis
    using s by blast
qed

theorem dispatcher_returns_witness:
  "\<exists>s. dispatcher (two_coros Lock) (map (\<lambda>i. (10 * word_of_nat i, 10 * word_of_nat i + 1)) [0..<9]) (cd0 (two_coros Lock)) = Some s
     \<and> (\<forall>c < 2. finished (coros s c)) \<and> g_commits s = 2"
proof -
  have "timely (two_coros Lock) 0 (map (\<lambda>i. (10 * word_of_nat i, 10 * word_of_nat i + 1)) [0..<9])"
    by (simp add: upt_rec two_coros_def)
  then show ?thesis
    using dispatcher_returns [of "two_coros Lock" "map (\<lambda>i. (10 * word_of_nat i, 10 * word_of_nat i + 1)) [0..<9]"]
    by (simp add: conf_ok_def two_coros_def MAXSLOT_def)
qed

end
