(* ===== verification/TcoServer.thy ===== *)
theory TcoServer
  imports Prelude "HOL-Library.Sublist"
begin

text \<open>
  The transparent-offload TCP server \<open>runtime/tco_server.c\<close>: a dispatcher on one core that runs the connections as
  fibers, each with the synchronous handler \<open>serve\<close>, over non-blocking sockets, an epoll instance with one-shot
  registrations and an emulated accelerator on a core of its own. The specification is the list of replies to the
  requests of a byte stream.
\<close>

section \<open>The work of the accelerator and the handler\<close>

definition REQ :: nat where "REQ = 256"
definition MAXCONN :: nat where "MAXCONN = 4096"

fun transform_from :: "u32 \<Rightarrow> u8 list \<Rightarrow> u8 list" where
  "transform_from k [] = []"
| "transform_from k (b # bs) =
     xor b (ucast (drop_bit 17 (k * 1664525 + 1013904223))) # transform_from (k * 1664525 + 1013904223) bs"

definition transform :: "u8 list \<Rightarrow> u8 list" where
  "transform b = transform_from 0x9e3779b9 b"

fun seqmask :: "u8 list \<Rightarrow> u32 \<Rightarrow> u8 list" where
  "seqmask [] s = []"
| "seqmask (b # bs) s = xor b (ucast (drop_bit 13 (s * 1664525 + 1013904223))) # seqmask bs (s * 1664525 + 1013904223)"

section \<open>State\<close>

text \<open>
  A socket with what the peer has delivered, what of it the server has read, what the server has written and the
  room in the send buffer. A descriptor number stands for the one socket it was opened for.
\<close>

record sock =
  arrived :: "u8 list"
  taken :: nat
  fin :: bool
  reset :: bool
  sent :: "u8 list"
  room :: nat

datatype io_ev = EV_IN | EV_OUT

datatype cstate = RUNNABLE | WAIT_IO io_ev | WAIT_OFF

text \<open>
  Where the handler of a connection goes on: in \<open>co_read_n\<close> with \<open>got\<close> bytes, behind the switch of \<open>co_offload\<close>, in
  \<open>co_write_n\<close> with \<open>put\<close> bytes written.
\<close>

datatype pc = Reading nat | Offloaded | Writing nat

record conn =
  fd :: nat
  state :: cstate
  buf :: "u8 list"
  seq :: u32
  at :: pc

record tslot =
  deadline :: u64
  active :: bool
  completed :: bool

text \<open>Where the dispatcher is: in its three loops, at the poll between them, or inside the fiber of a connection.\<close>

datatype ctl = Scan_off nat | Poll | Scan_run nat | Inside nat

record tco =
  slots :: "nat \<Rightarrow> tslot"
  conns :: "nat \<Rightarrow> conn option"
  nconns :: nat
  armed :: "nat \<Rightarrow> (io_ev \<times> nat) option"
  socks :: "nat \<Rightarrow> sock"
  backlog :: "nat list"
  next_fd :: nat
  g_done :: nat
  ctl :: ctl

record tconf =
  L_NS :: u64
  STATEFUL :: bool

definition sock0 :: sock where
  "sock0 = \<lparr>arrived = [], taken = 0, fin = False, reset = False, sent = [], room = 65536\<rparr>"

definition tco0 :: tco where
  "tco0 = \<lparr>slots = (\<lambda>_. \<lparr>deadline = 0, active = False, completed = False\<rparr>), conns = (\<lambda>_. None), nconns = 0,
     armed = (\<lambda>_. None), socks = (\<lambda>_. sock0), backlog = [], next_fd = 0, g_done = 0, ctl = Scan_off 0\<rparr>"

section \<open>The handler\<close>

definition set_conn :: "nat \<Rightarrow> conn \<Rightarrow> tco \<Rightarrow> tco" where
  "set_conn i c s = s\<lparr>conns := (conns s)(i := Some c)\<rparr>"

definition set_sock :: "nat \<Rightarrow> sock \<Rightarrow> tco \<Rightarrow> tco" where
  "set_sock f k s = s\<lparr>socks := (socks s)(f := k)\<rparr>"

text \<open>The switch to the dispatcher, which goes on with the next connection.\<close>

definition to_dispatcher :: "nat \<Rightarrow> tco \<Rightarrow> tco" where
  "to_dispatcher i s = s\<lparr>ctl := Scan_run (i + 1)\<rparr>"

definition co_yield_io :: "nat \<Rightarrow> conn \<Rightarrow> io_ev \<Rightarrow> tco \<Rightarrow> tco" where
  "co_yield_io i c ev s =
     to_dispatcher i (set_conn i (c\<lparr>state := WAIT_IO ev\<rparr>) (s\<lparr>armed := (armed s)(fd c := Some (ev, i))\<rparr>))"

text \<open>\<open>co_offload\<close> up to its switch.\<close>

definition co_offload :: "tconf \<Rightarrow> u64 \<Rightarrow> nat \<Rightarrow> conn \<Rightarrow> tco \<Rightarrow> tco" where
  "co_offload cf now i c s =
     to_dispatcher i (set_conn i (c\<lparr>state := WAIT_OFF, at := Offloaded\<rparr>)
       (s\<lparr>slots := (slots s)(i := \<lparr>deadline = now + L_NS cf, active = True, completed = False\<rparr>)\<rparr>))"

text \<open>The end of the handler: the dispatcher removes the registration, closes the socket and frees the connection.\<close>

definition serve_end :: "nat \<Rightarrow> conn \<Rightarrow> tco \<Rightarrow> tco" where
  "serve_end i c s = to_dispatcher i (s\<lparr>armed := (armed s)(fd c := None), conns := (conns s)(i := None)\<rparr>)"

text \<open>One \<open>read\<close> of \<open>co_read_n\<close> with what follows it up to the next system call.\<close>

definition co_read_step :: "tconf \<Rightarrow> u64 \<Rightarrow> nat \<Rightarrow> conn \<Rightarrow> nat \<Rightarrow> tco \<Rightarrow> tco" where
  "co_read_step cf now i c got s =
     (let k = socks s (fd c); inq = drop (taken k) (arrived k); r = min (length inq) (REQ - got)
      in if reset k then serve_end i c s
         else if inq = [] then (if fin k then serve_end i c s else co_yield_io i c EV_IN s)
         else (let c = c\<lparr>buf := take got (buf c) @ take r inq @ drop (got + r) (buf c)\<rparr>;
                   s = set_sock (fd c) (k\<lparr>taken := taken k + r\<rparr>) s
               in if got + r < REQ then set_conn i (c\<lparr>at := Reading (got + r)\<rparr>) s else co_offload cf now i c s))"

text \<open>\<open>co_offload\<close> behind its switch and the post-processing of \<open>serve\<close>.\<close>

definition serve_mid :: "tconf \<Rightarrow> nat \<Rightarrow> conn \<Rightarrow> tco \<Rightarrow> tco" where
  "serve_mid cf i c s =
     (let b = transform (buf c)
      in set_conn i (if STATEFUL cf then c\<lparr>buf := seqmask b (seq c), seq := seq c + 1, at := Writing 0\<rparr>
                     else c\<lparr>buf := b, at := Writing 0\<rparr>) s)"

text \<open>One \<open>write\<close> of \<open>co_write_n\<close> with what follows it up to the next system call.\<close>

definition co_write_step :: "nat \<Rightarrow> conn \<Rightarrow> nat \<Rightarrow> tco \<Rightarrow> tco" where
  "co_write_step i c put s =
     (let k = socks s (fd c); r = min (room k) (REQ - put)
      in if reset k then serve_end i c s
         else if room k = 0 then co_yield_io i c EV_OUT s
         else (let s = set_sock (fd c) (k\<lparr>sent := sent k @ take r (drop put (buf c)), room := room k - r\<rparr>) s
               in if put + r < REQ then set_conn i (c\<lparr>at := Writing (put + r)\<rparr>) s
                  else set_conn i (c\<lparr>at := Reading 0\<rparr>) (s\<lparr>g_done := g_done s + 1\<rparr>)))"

definition serve :: "tconf \<Rightarrow> u64 \<Rightarrow> nat \<Rightarrow> conn \<Rightarrow> tco \<Rightarrow> tco" where
  "serve cf now i c s =
     (case at c of Reading got \<Rightarrow> co_read_step cf now i c got s
      | Offloaded \<Rightarrow> serve_mid cf i c s
      | Writing put \<Rightarrow> co_write_step i c put s)"

section \<open>The dispatcher\<close>

definition conn_new :: "nat \<Rightarrow> tco \<Rightarrow> tco" where
  "conn_new f s =
     s\<lparr>armed := (armed s)(f := Some (EV_IN, nconns s)), nconns := nconns s + 1,
       conns := (conns s)(nconns s := Some \<lparr>fd = f, state = RUNNABLE, buf = replicate REQ 0, seq = 0, at = Reading 0\<rparr>)\<rparr>"

definition accept_one :: "nat \<Rightarrow> tco \<Rightarrow> tco" where
  "accept_one f s = (if nconns s < MAXCONN then conn_new f s else s)"

definition accept_all :: "tco \<Rightarrow> tco" where
  "accept_all s = fold accept_one (backlog s) (s\<lparr>backlog := []\<rparr>)"

text \<open>
  What \<open>epoll_wait\<close> reports: the listener, or a registered descriptor, whose one-shot registration it disarms. The
  report carries the pointer of the registration; the access through it is undefined when the connection is freed.
\<close>

datatype report = Listener | Ready nat

definition ready :: "io_ev \<Rightarrow> sock \<Rightarrow> bool" where
  "ready ev k \<longleftrightarrow> reset k \<or> (case ev of EV_IN \<Rightarrow> taken k < length (arrived k) \<or> fin k | EV_OUT \<Rightarrow> 0 < room k)"

definition on_ready :: "nat \<Rightarrow> tco \<Rightarrow> tco option" where
  "on_ready i s =
     (case conns s i of
        None \<Rightarrow> None
      | Some c \<Rightarrow> Some (case state c of WAIT_IO ev \<Rightarrow> set_conn i (c\<lparr>state := RUNNABLE\<rparr>) s | _ \<Rightarrow> s))"

fun on_report :: "report \<Rightarrow> tco \<Rightarrow> tco option" where
  "on_report Listener s = Some (accept_all s)"
| "on_report (Ready f) s =
     (case armed s f of
        Some (ev, i) \<Rightarrow> if ready ev (socks s f) then on_ready i (s\<lparr>armed := (armed s)(f := None)\<rparr>) else Some s
      | None \<Rightarrow> Some s)"

fun on_reports :: "report list \<Rightarrow> tco \<Rightarrow> tco option" where
  "on_reports [] s = Some s"
| "on_reports (r # rs) s = (case on_report r s of None \<Rightarrow> None | Some s' \<Rightarrow> on_reports rs s')"

definition offload_done :: "nat \<Rightarrow> tco \<Rightarrow> tco" where
  "offload_done i s =
     (case conns s i of
        Some c \<Rightarrow> if state c = WAIT_OFF \<and> completed (slots s i)
                  then set_conn i (c\<lparr>state := RUNNABLE\<rparr>) (s\<lparr>slots := (slots s)(i := (slots s i)\<lparr>active := False\<rparr>)\<rparr>)
                  else s
      | None \<Rightarrow> s)"

text \<open>The next step of the server thread, at time \<open>now\<close> and with the reports \<open>rs\<close> if it polls.\<close>

definition run_coro :: "tconf \<Rightarrow> u64 \<Rightarrow> report list \<Rightarrow> tco \<Rightarrow> tco option" where
  "run_coro cf now rs s =
     (case ctl s of
        Scan_off i \<Rightarrow> Some (if i < nconns s then (offload_done i s)\<lparr>ctl := Scan_off (i + 1)\<rparr> else s\<lparr>ctl := Poll\<rparr>)
      | Poll \<Rightarrow> (case on_reports (take 256 rs) s of None \<Rightarrow> None | Some s' \<Rightarrow> Some (s'\<lparr>ctl := Scan_run 0\<rparr>))
      | Scan_run i \<Rightarrow>
          Some (if i < nconns s
                then (case conns s i of
                        Some c \<Rightarrow> if state c = RUNNABLE then s\<lparr>ctl := Inside i\<rparr> else s\<lparr>ctl := Scan_run (i + 1)\<rparr>
                      | None \<Rightarrow> s\<lparr>ctl := Scan_run (i + 1)\<rparr>)
                else s\<lparr>ctl := Scan_off 0\<rparr>)
      | Inside i \<Rightarrow> (case conns s i of None \<Rightarrow> None | Some c \<Rightarrow> Some (serve cf now i c s)))"

section \<open>Block mode\<close>

text \<open>
  One thread per connection with blocking calls: the thread has its socket and its slot (\<open>fd % MAXCONN\<close>) for itself. A
  step in which it would block leaves the state as it is.
\<close>

record bconn =
  b_slot :: tslot
  b_sock :: sock
  b_conn :: conn
  b_open :: bool

definition block_conn0 :: bconn where
  "block_conn0 = \<lparr>b_slot = \<lparr>deadline = 0, active = False, completed = False\<rparr>, b_sock = sock0,
     b_conn = \<lparr>fd = 0, state = RUNNABLE, buf = replicate REQ 0, seq = 0, at = Reading 0\<rparr>, b_open = True\<rparr>"

definition block_read :: "tconf \<Rightarrow> u64 \<Rightarrow> nat \<Rightarrow> bconn \<Rightarrow> bconn" where
  "block_read cf now got b =
     (let k = b_sock b; c = b_conn b; inq = drop (taken k) (arrived k); r = min (length inq) (REQ - got);
          c' = c\<lparr>buf := take got (buf c) @ take r inq @ drop (got + r) (buf c)\<rparr>
      in if reset k \<or> inq = [] \<and> fin k then b\<lparr>b_open := False\<rparr>
         else if inq = [] then b
         else if got + r < REQ
         then b\<lparr>b_sock := k\<lparr>taken := taken k + r\<rparr>, b_conn := c'\<lparr>at := Reading (got + r)\<rparr>\<rparr>
         else b\<lparr>b_sock := k\<lparr>taken := taken k + r\<rparr>, b_conn := c'\<lparr>at := Offloaded\<rparr>,
                b_slot := \<lparr>deadline = now + L_NS cf, active = True, completed = False\<rparr>\<rparr>)"

definition block_work :: "tconf \<Rightarrow> bconn \<Rightarrow> bconn" where
  "block_work cf b =
     (let c = b_conn b; t = transform (buf c)
      in if completed (b_slot b)
         then b\<lparr>b_slot := (b_slot b)\<lparr>active := False\<rparr>,
                b_conn := (if STATEFUL cf then c\<lparr>buf := seqmask t (seq c), seq := seq c + 1, at := Writing 0\<rparr>
                           else c\<lparr>buf := t, at := Writing 0\<rparr>)\<rparr>
         else b)"

definition block_write :: "nat \<Rightarrow> bconn \<Rightarrow> bconn" where
  "block_write put b =
     (let k = b_sock b; c = b_conn b; r = min (room k) (REQ - put)
      in if reset k then b\<lparr>b_open := False\<rparr>
         else if room k = 0 then b
         else b\<lparr>b_sock := k\<lparr>sent := sent k @ take r (drop put (buf c)), room := room k - r\<rparr>,
                b_conn := c\<lparr>at := (if put + r < REQ then Writing (put + r) else Reading 0)\<rparr>\<rparr>)"

definition block_conn :: "tconf \<Rightarrow> u64 \<Rightarrow> bconn \<Rightarrow> bconn" where
  "block_conn cf now b =
     (case at (b_conn b) of Reading got \<Rightarrow> block_read cf now got b
      | Offloaded \<Rightarrow> block_work cf b
      | Writing put \<Rightarrow> block_write put b)"

datatype bevent = B_arrive "u8 list" | B_fin | B_reset | B_drain nat | B_device u64 | B_thread u64

fun block_step :: "tconf \<Rightarrow> bevent \<Rightarrow> bconn \<Rightarrow> bconn" where
  "block_step cf (B_arrive bs) b =
     (if fin (b_sock b) \<or> reset (b_sock b) then b
      else b\<lparr>b_sock := (b_sock b)\<lparr>arrived := arrived (b_sock b) @ bs\<rparr>\<rparr>)"
| "block_step cf B_fin b = b\<lparr>b_sock := (b_sock b)\<lparr>fin := True\<rparr>\<rparr>"
| "block_step cf B_reset b = b\<lparr>b_sock := (b_sock b)\<lparr>reset := True\<rparr>\<rparr>"
| "block_step cf (B_drain n) b = b\<lparr>b_sock := (b_sock b)\<lparr>room := room (b_sock b) + n\<rparr>\<rparr>"
| "block_step cf (B_device t) b =
     (let x = b_slot b
      in if active x \<and> \<not> completed x \<and> deadline x \<le> t then b\<lparr>b_slot := x\<lparr>completed := True\<rparr>\<rparr> else b)"
| "block_step cf (B_thread now) b = (if b_open b then block_conn cf now b else b)"

section \<open>The client\<close>

definition client_request :: "u32 \<Rightarrow> u8 list" where
  "client_request sq = (map (\<lambda>i. word_of_nat (i * 131 + 7)) [0..<REQ])[0 := ucast sq]"

text \<open>The requests of \<open>m\<close> rounds of the client's loop, \<open>pipe\<close> in a row.\<close>

definition client_burst :: "nat \<Rightarrow> u32 \<Rightarrow> u8 list" where
  "client_burst pipe sq = concat (map (\<lambda>k. client_request (sq + of_nat k)) [0..<pipe])"

fun client_sends :: "nat \<Rightarrow> nat \<Rightarrow> u32 \<Rightarrow> u8 list" where
  "client_sends pipe 0 sq = []"
| "client_sends pipe (Suc m) sq = client_burst pipe sq @ client_sends pipe m (sq + of_nat pipe)"

definition client_expects :: "tconf \<Rightarrow> u32 \<Rightarrow> u8 list" where
  "client_expects cf sq =
     (let e = transform (client_request sq) in if STATEFUL cf then seqmask e sq else e)"

text \<open>The client's counts of good and bad replies over the bytes it reads.\<close>

function client_checks :: "tconf \<Rightarrow> u32 \<Rightarrow> u8 list \<Rightarrow> nat \<times> nat" where
  "client_checks cf sq rsp =
     (if length rsp < REQ then (0, 0)
      else (let (cli_ok, cli_bad) = client_checks cf (sq + 1) (drop REQ rsp)
            in if take REQ rsp = client_expects cf sq then (cli_ok + 1, cli_bad) else (cli_ok, cli_bad + 1)))"
  by auto
termination
  by (relation "measure (\<lambda>(cf, sq, rsp). length rsp)") (auto simp: REQ_def)

declare client_checks.simps [simp del]

section \<open>The other threads\<close>

definition device_slot :: "u64 \<Rightarrow> nat \<Rightarrow> tco \<Rightarrow> tco" where
  "device_slot t i s =
     (let x = slots s i
      in if i < MAXCONN \<and> active x \<and> \<not> completed x \<and> deadline x \<le> t
         then s\<lparr>slots := (slots s)(i := x\<lparr>completed := True\<rparr>)\<rparr> else s)"

text \<open>
  The peers connect, deliver bytes until they close their side, reset the connection and take what was sent. \<open>T_server\<close>
  is a step of the server thread.
\<close>

datatype tevent = T_connect | T_arrive nat "u8 list" | T_fin nat | T_reset nat | T_drain nat nat | T_device u64 nat
  | T_server u64 "report list"

fun tco_step :: "tconf \<Rightarrow> tevent \<Rightarrow> tco \<Rightarrow> tco option" where
  "tco_step cf T_connect s = Some (s\<lparr>backlog := backlog s @ [next_fd s], next_fd := next_fd s + 1\<rparr>)"
| "tco_step cf (T_arrive f bs) s =
     Some (let k = socks s f in if fin k \<or> reset k then s else set_sock f (k\<lparr>arrived := arrived k @ bs\<rparr>) s)"
| "tco_step cf (T_fin f) s = Some (set_sock f ((socks s f)\<lparr>fin := True\<rparr>) s)"
| "tco_step cf (T_reset f) s = Some (set_sock f ((socks s f)\<lparr>reset := True\<rparr>) s)"
| "tco_step cf (T_drain f n) s = Some (set_sock f ((socks s f)\<lparr>room := room (socks s f) + n\<rparr>) s)"
| "tco_step cf (T_device t i) s = Some (device_slot t i s)"
| "tco_step cf (T_server now rs) s = run_coro cf now rs s"

fun tco_run :: "tconf \<Rightarrow> tevent list \<Rightarrow> tco \<Rightarrow> tco option" where
  "tco_run cf [] s = Some s"
| "tco_run cf (e # es) s = (case tco_step cf e s of None \<Rightarrow> None | Some s' \<Rightarrow> tco_run cf es s')"

section \<open>The specification\<close>

definition reply :: "tconf \<Rightarrow> nat \<Rightarrow> u8 list \<Rightarrow> u8 list" where
  "reply cf n req = (if STATEFUL cf then seqmask (transform req) (of_nat n) else transform req)"

function replies :: "tconf \<Rightarrow> nat \<Rightarrow> u8 list \<Rightarrow> u8 list" where
  "replies cf n bs = (if length bs < REQ then [] else reply cf n (take REQ bs) @ replies cf (n + 1) (drop REQ bs))"
  by auto
termination
  by (relation "measure (\<lambda>(cf, n, bs). length bs)") (auto simp: REQ_def)

declare replies.simps [simp del]

lemma REQ_pos [simp]: "0 < REQ"
  by (simp add: REQ_def)

lemma length_transform [simp]: "length (transform b) = length b"
proof -
  have "length (transform_from k b) = length b" for k
    by (induction b arbitrary: k) auto
  then show ?thesis
    by (simp add: transform_def)
qed

lemma length_seqmask [simp]: "length (seqmask b s) = length b"
  by (induction b arbitrary: s) auto

lemma length_reply [simp]: "length (reply cf n b) = length b"
  by (simp add: reply_def)

lemma replies_short [simp]: "length bs < REQ \<Longrightarrow> replies cf n bs = []"
  by (simp add: replies.simps)

lemma replies_Cons: "length a = REQ \<Longrightarrow> replies cf n (a @ bs) = reply cf n a @ replies cf (n + 1) bs"
  by (subst replies.simps) simp

lemma replies_append: "length a = REQ * m \<Longrightarrow> replies cf n (a @ bs) = replies cf n a @ replies cf (n + m) bs"
proof (induction m arbitrary: n a)
  case 0
  then show ?case
    by simp
next
  case (Suc m)
  then have a: "a = take REQ a @ drop REQ a" "length (take REQ a) = REQ" "length (drop REQ a) = REQ * m"
    by (simp_all add: algebra_simps)
  have "replies cf n (a @ bs) = replies cf n (take REQ a @ (drop REQ a @ bs))"
    using a(1) by (metis append.assoc)
  also have "\<dots> = reply cf n (take REQ a) @ replies cf (n + 1) (drop REQ a) @ replies cf (n + Suc m) bs"
    by (simp only: replies_Cons [OF a(2)] Suc.IH [OF a(3)]) simp
  also have "\<dots> = replies cf n a @ replies cf (n + Suc m) bs"
    using replies_Cons [OF a(2), of cf n "drop REQ a"] a(1) by simp
  finally show ?case .
qed

lemma replies_take:
  assumes "REQ * m \<le> length bs"
  shows "replies cf n bs = replies cf n (take (REQ * m) bs) @ replies cf (n + m) (drop (REQ * m) bs)"
  using replies_append [of "take (REQ * m) bs" m cf n "drop (REQ * m) bs"] assms by simp

lemma replies_next:
  assumes "REQ * m + REQ \<le> length bs"
  shows "replies cf 0 (take (REQ * m + REQ) bs) = replies cf 0 (take (REQ * m) bs) @ reply cf m (take REQ (drop (REQ * m) bs))"
proof -
  have "take (REQ * m + REQ) bs = take (REQ * m) bs @ take REQ (drop (REQ * m) bs)"
    by (rule take_add)
  moreover have "replies cf m (take REQ (drop (REQ * m) bs)) = reply cf m (take REQ (drop (REQ * m) bs))"
    using replies_Cons [of "take REQ (drop (REQ * m) bs)" cf m "[]"] assms by simp
  ultimately show ?thesis
    using replies_append [of "take (REQ * m) bs" m cf 0] assms by simp
qed

lemma replies_mono: "prefix (replies cf n as) (replies cf n (as @ bs))"
proof -
  define m where "m = length as div REQ"
  define a where "a = take (REQ * m) as"
  define r where "r = drop (REQ * m) as"
  have as: "as = a @ r"
    by (simp add: a_def r_def)
  have "length a = REQ * m" "length r < REQ"
    by (simp_all add: a_def r_def m_def minus_mult_div_eq_mod)
  then show ?thesis
    unfolding as append_assoc by (simp add: replies_append)
qed

section \<open>The invariant\<close>

text \<open>What a connection has done: \<open>n\<close> requests are served, and the handler is at a point of request \<open>n\<close>.\<close>

definition served :: "tconf \<Rightarrow> sock \<Rightarrow> conn \<Rightarrow> nat \<Rightarrow> bool" where
  "served cf k c n \<longleftrightarrow>
     (case at c of
        Reading got \<Rightarrow> got < REQ \<and> taken k = REQ * n + got \<and> take got (buf c) = take got (drop (REQ * n) (arrived k))
          \<and> sent k = replies cf 0 (take (REQ * n) (arrived k)) \<and> seq c = (if STATEFUL cf then of_nat n else 0)
      | Offloaded \<Rightarrow> taken k = REQ * n + REQ \<and> buf c = take REQ (drop (REQ * n) (arrived k))
          \<and> sent k = replies cf 0 (take (REQ * n) (arrived k)) \<and> seq c = (if STATEFUL cf then of_nat n else 0)
      | Writing put \<Rightarrow> put < REQ \<and> taken k = REQ * n + REQ \<and> buf c = reply cf n (take REQ (drop (REQ * n) (arrived k)))
          \<and> sent k = replies cf 0 (take (REQ * n) (arrived k)) @ take put (buf c)
          \<and> seq c = (if STATEFUL cf then of_nat (n + 1) else 0))"

definition conn_ok :: "tconf \<Rightarrow> sock \<Rightarrow> conn \<Rightarrow> bool" where
  "conn_ok cf k c \<longleftrightarrow> length (buf c) = REQ \<and> (\<exists>n. served cf k c n)
     \<and> (case state c of RUNNABLE \<Rightarrow> True
        | WAIT_IO EV_IN \<Rightarrow> (\<exists>got. at c = Reading got)
        | WAIT_IO EV_OUT \<Rightarrow> (\<exists>put. at c = Writing put)
        | WAIT_OFF \<Rightarrow> at c = Offloaded)"

definition sock_ok :: "tconf \<Rightarrow> sock \<Rightarrow> bool" where
  "sock_ok cf k \<longleftrightarrow> taken k \<le> length (arrived k) \<and> prefix (sent k) (replies cf 0 (arrived k))"

definition conns_ok :: "tconf \<Rightarrow> tco \<Rightarrow> bool" where
  "conns_ok cf s \<longleftrightarrow> (\<forall>i c. conns s i = Some c \<longrightarrow> i < nconns s \<and> fd c < next_fd s \<and> fd c \<notin> set (backlog s)
     \<and> conn_ok cf (socks s (fd c)) c
     \<and> (\<forall>ev. state c = WAIT_IO ev \<longrightarrow> armed s (fd c) = Some (ev, i)))"

definition own_fd :: "tco \<Rightarrow> bool" where
  "own_fd s \<longleftrightarrow> (\<forall>i j c d. conns s i = Some c \<longrightarrow> conns s j = Some d \<longrightarrow> fd c = fd d \<longrightarrow> i = j)"

definition socks_ok :: "tconf \<Rightarrow> tco \<Rightarrow> bool" where
  "socks_ok cf s \<longleftrightarrow> (\<forall>f. sock_ok cf (socks s f)) \<and> distinct (backlog s) \<and> (\<forall>f \<in> set (backlog s). f < next_fd s)
     \<and> (\<forall>f. f \<in> set (backlog s) \<or> next_fd s \<le> f \<longrightarrow> taken (socks s f) = 0 \<and> sent (socks s f) = [])"

definition armed_ok :: "tco \<Rightarrow> bool" where
  "armed_ok s \<longleftrightarrow> (\<forall>f ev i. armed s f = Some (ev, i) \<longrightarrow> (\<exists>c. conns s i = Some c \<and> fd c = f))"

definition ctl_ok :: "tco \<Rightarrow> bool" where
  "ctl_ok s \<longleftrightarrow> (\<forall>i. ctl s = Inside i \<longrightarrow> (\<exists>c. conns s i = Some c \<and> state c = RUNNABLE))"

definition tco_inv :: "tconf \<Rightarrow> tco \<Rightarrow> bool" where
  "tco_inv cf s \<longleftrightarrow> conns_ok cf s \<and> own_fd s \<and> socks_ok cf s \<and> armed_ok s \<and> ctl_ok s"

lemma tco_inv_start: "tco_inv cf tco0"
  by (simp add: tco_inv_def conns_ok_def own_fd_def socks_ok_def armed_ok_def ctl_ok_def sock_ok_def tco0_def sock0_def)

lemma conn_of:
  assumes "tco_inv cf s" "conns s i = Some c"
  shows "i < nconns s" "fd c < next_fd s" "fd c \<notin> set (backlog s)" "conn_ok cf (socks s (fd c)) c"
    "state c = WAIT_IO ev \<Longrightarrow> armed s (fd c) = Some (ev, i)"
  using assms unfolding tco_inv_def conns_ok_def by blast+

lemma armed_of:
  assumes "tco_inv cf s" "armed s f = Some (ev, i)"
  shows "\<exists>c. conns s i = Some c \<and> fd c = f"
  using assms unfolding tco_inv_def armed_ok_def by blast

text \<open>One connection, its socket and its registration change.\<close>

lemma inv_change:
  assumes inv: "tco_inv cf s" and c: "conns s i = Some c"
    and s': "conns s' = (conns s)(i := Some c')" "socks s' = (socks s)(fd c := k')" "armed s' = (armed s)(fd c := x)"
      "backlog s' = backlog s" "next_fd s' = next_fd s" "nconns s' = nconns s"
    and c': "fd c' = fd c" "conn_ok cf k' c'" "sock_ok cf k'"
    and x: "\<And>ev j. x = Some (ev, j) \<Longrightarrow> j = i" "\<And>ev. state c' = WAIT_IO ev \<Longrightarrow> x = Some (ev, i)"
    and ctl: "\<And>j. ctl s' = Inside j \<Longrightarrow> j = i \<and> state c' = RUNNABLE"
  shows "tco_inv cf s'"
proof -
  have own: "fd d \<noteq> fd c" if "conns s j = Some d" "j \<noteq> i" for j d
    using inv c that unfolding tco_inv_def own_fd_def by blast
  have fdc: "i < nconns s" "fd c < next_fd s" "fd c \<notin> set (backlog s)"
    by (rule conn_of [OF inv c])+
  have "conns_ok cf s'"
    unfolding conns_ok_def
  proof (intro allI impI)
    fix j d
    assume "conns s' j = Some d"
    then show "j < nconns s' \<and> fd d < next_fd s' \<and> fd d \<notin> set (backlog s') \<and> conn_ok cf (socks s' (fd d)) d
       \<and> (\<forall>ev. state d = WAIT_IO ev \<longrightarrow> armed s' (fd d) = Some (ev, j))"
    proof (cases "j = i")
      case True
      then have d: "d = c'"
        using \<open>conns s' j = Some d\<close> s' by simp
      moreover have "armed s' (fd c') = Some (ev, j)" if "state c' = WAIT_IO ev" for ev
        using x(2) [OF that] True s'(3) c'(1) by simp
      ultimately show ?thesis
        using True fdc c'(1,2) s'(2,4-6) by simp
    next
      case False
      then have d: "conns s j = Some d"
        using \<open>conns s' j = Some d\<close> s' by simp
      then show ?thesis
        using conn_of [OF inv d] own [OF d False] s' by simp
    qed
  qed
  moreover have "own_fd s'"
    unfolding own_fd_def s'(1) using own c' inv unfolding tco_inv_def own_fd_def
    by (metis fun_upd_apply option.inject)
  moreover have "socks_ok cf s'"
    using inv c' fdc unfolding tco_inv_def socks_ok_def s' by auto
  moreover have "armed_ok s'"
    unfolding armed_ok_def
  proof (intro allI impI)
    fix f ev j
    assume a: "armed s' f = Some (ev, j)"
    show "\<exists>c. conns s' j = Some c \<and> fd c = f"
    proof (cases "f = fd c")
      case True
      then show ?thesis
        using a x(1) [of ev j] s' c' by auto
    next
      case False
      then have "armed s f = Some (ev, j)"
        using a s'(3) by simp
      then obtain d where "conns s j = Some d" "fd d = f"
        using armed_of [OF inv] by blast
      then show ?thesis
        using False c s' by (cases "j = i") auto
    qed
  qed
  moreover have "ctl_ok s'"
    using ctl s' by (auto simp: ctl_ok_def)
  ultimately show ?thesis
    by (simp add: tco_inv_def)
qed

text \<open>The same when the registration stays as it is.\<close>

lemma inv_keep_armed:
  assumes inv: "tco_inv cf s" and c: "conns s i = Some c"
    and s': "conns s' = (conns s)(i := Some c')" "socks s' = (socks s)(fd c := k')" "armed s' = armed s"
      "backlog s' = backlog s" "next_fd s' = next_fd s" "nconns s' = nconns s"
    and c': "fd c' = fd c" "conn_ok cf k' c'" "sock_ok cf k'"
    and w: "\<And>ev. state c' \<noteq> WAIT_IO ev"
    and ctl: "\<And>j. ctl s' = Inside j \<Longrightarrow> j = i \<and> state c' = RUNNABLE"
  shows "tco_inv cf s'"
proof (rule inv_change [OF inv c s'(1,2) _ s'(4-6) c' _ _ ctl])
  show "armed s' = (armed s)(fd c := armed s (fd c))"
    using s' by simp
  fix ev j
  assume "armed s (fd c) = Some (ev, j)"
  then obtain d where "conns s j = Some d" "fd d = fd c"
    using armed_of [OF inv] by blast
  then show "j = i"
    using inv c unfolding tco_inv_def own_fd_def by blast
qed (use w in auto)

lemmas state_ops = set_conn_def set_sock_def to_dispatcher_def co_yield_io_def co_offload_def

lemma sock_of: "tco_inv cf s \<Longrightarrow> sock_ok cf (socks s f)"
  by (simp add: tco_inv_def socks_ok_def)

lemma served_state [simp]: "served cf k (c\<lparr>state := x\<rparr>) n = served cf k c n"
  by (cases "at c") (simp_all add: served_def)

lemma take_two: "length x = a \<Longrightarrow> length y = b \<Longrightarrow> take (a + b) (x @ y @ z) = x @ y"
  by simp

lemma inv_yield_io:
  assumes "tco_inv cf s" "conns s i = Some c"
    and "case ev of EV_IN \<Rightarrow> \<exists>got. at c = Reading got | EV_OUT \<Rightarrow> \<exists>put. at c = Writing put"
  shows "tco_inv cf (co_yield_io i c ev s)"
proof (rule inv_change [OF assms(1,2), where c' = "c\<lparr>state := WAIT_IO ev\<rparr>" and k' = "socks s (fd c)" and x = "Some (ev, i)"])
  show "conn_ok cf (socks s (fd c)) (c\<lparr>state := WAIT_IO ev\<rparr>)"
    using conn_of(4) [OF assms(1,2)] assms(3) by (simp add: conn_ok_def split: io_ev.splits)
qed (use sock_of [OF assms(1)] in \<open>auto simp: state_ops\<close>)

text \<open>The end of a handler frees its connection and its registration.\<close>

lemma inv_serve_end:
  assumes inv: "tco_inv cf s" and c: "conns s i = Some c"
  shows "tco_inv cf (serve_end i c s)"
proof -
  define s' where "s' = serve_end i c s"
  have s': "conns s' = (conns s)(i := None)" "armed s' = (armed s)(fd c := None)" "socks s' = socks s"
    "backlog s' = backlog s" "next_fd s' = next_fd s" "nconns s' = nconns s" "ctl s' = Scan_run (i + 1)"
    by (simp_all add: s'_def serve_end_def to_dispatcher_def)
  have own: "fd d \<noteq> fd c" if "conns s j = Some d" "j \<noteq> i" for j d
    using inv c that unfolding tco_inv_def own_fd_def by blast
  have "conns_ok cf s'"
    unfolding conns_ok_def
  proof (intro allI impI)
    fix j d
    assume "conns s' j = Some d"
    then have d: "conns s j = Some d" "j \<noteq> i"
      using s'(1) by (auto split: if_splits)
    then show "j < nconns s' \<and> fd d < next_fd s' \<and> fd d \<notin> set (backlog s') \<and> conn_ok cf (socks s' (fd d)) d
       \<and> (\<forall>ev. state d = WAIT_IO ev \<longrightarrow> armed s' (fd d) = Some (ev, j))"
      using conn_of [OF inv d(1)] own [OF d] s' by simp
  qed
  moreover have "own_fd s'"
    using inv unfolding tco_inv_def own_fd_def s' by (auto split: if_splits)
  moreover have "socks_ok cf s'"
    using inv unfolding tco_inv_def socks_ok_def s' by simp
  moreover have "armed_ok s'"
    unfolding armed_ok_def
  proof (intro allI impI)
    fix f ev j
    assume "armed s' f = Some (ev, j)"
    then have "armed s f = Some (ev, j)" "f \<noteq> fd c"
      using s'(2) by (auto split: if_splits)
    then obtain d where "conns s j = Some d" "fd d = f" "j \<noteq> i"
      using armed_of [OF inv] c by fastforce
    then show "\<exists>c. conns s' j = Some c \<and> fd c = f"
      using s'(1) by auto
  qed
  moreover have "ctl_ok s'"
    by (simp add: ctl_ok_def s')
  ultimately show ?thesis
    by (simp add: tco_inv_def s'_def)
qed

text \<open>The three parts of the handler on the socket and the connection alone.\<close>

lemma sock_ok_taken: "sock_ok cf k \<Longrightarrow> t \<le> length (arrived k) \<Longrightarrow> sock_ok cf (k\<lparr>taken := t\<rparr>)"
  by (simp add: sock_ok_def)

lemma served_read:
  assumes n: "served cf k c n" and len: "length (buf c) = REQ" and ok: "sock_ok cf k" and p: "at c = Reading got"
    and inq: "inq = drop (taken k) (arrived k)" and r: "r = min (length inq) (REQ - got)"
    and c': "c' = c\<lparr>buf := take got (buf c) @ take r inq @ drop (got + r) (buf c)\<rparr>" and k': "k' = k\<lparr>taken := taken k + r\<rparr>"
  shows "length (buf c') = REQ" "sock_ok cf k'"
    and "got + r < REQ \<Longrightarrow> served cf k' (c'\<lparr>at := Reading (got + r)\<rparr>) n"
    and "\<not> got + r < REQ \<Longrightarrow> served cf k' (c'\<lparr>at := Offloaded\<rparr>) n"
proof -
  have s: "got < REQ" "taken k = REQ * n + got" "take got (buf c) = take got (drop (REQ * n) (arrived k))"
    "sent k = replies cf 0 (take (REQ * n) (arrived k))" "seq c = (if STATEFUL cf then of_nat n else 0)"
    using n by (simp_all add: served_def p)
  have rr: "r \<le> length inq" "got + r \<le> REQ"
    using s(1) by (auto simp: r)
  have tk: "taken k \<le> length (arrived k)"
    using ok by (simp add: sock_ok_def)
  have "take r inq = take r (drop got (drop (REQ * n) (arrived k)))"
    by (simp add: inq s(2) add.commute)
  moreover have buf: "buf c' = take got (buf c) @ take r inq @ drop (got + r) (buf c)"
    by (simp add: c')
  moreover have "take (got + r) (buf c') = take got (buf c) @ take r inq"
    unfolding buf using rr len s(1) by (intro take_two) auto
  ultimately have new: "take (got + r) (buf c') = take (got + r) (drop (REQ * n) (arrived k))"
    using s(3) by (simp only: take_add)
  show len': "length (buf c') = REQ"
    using rr len s(1) by (simp add: c')
  show "sock_ok cf k'"
    using ok rr tk by (auto simp: k' inq intro!: sock_ok_taken)
  show "got + r < REQ \<Longrightarrow> served cf k' (c'\<lparr>at := Reading (got + r)\<rparr>) n"
    using s new by (simp add: served_def k' c')
  assume "\<not> got + r < REQ"
  then have "got + r = REQ"
    using rr by simp
  then show "served cf k' (c'\<lparr>at := Offloaded\<rparr>) n"
    using s new len' by (simp add: served_def k' c')
qed

lemma served_mid:
  assumes "served cf k c n" "at c = Offloaded"
  shows "served cf k (if STATEFUL cf then c\<lparr>buf := seqmask (transform (buf c)) (seq c), seq := seq c + 1, at := Writing 0\<rparr>
     else c\<lparr>buf := transform (buf c), at := Writing 0\<rparr>) n"
  using assms by (simp add: served_def reply_def)

lemma served_write:
  assumes n: "served cf k c n" and len: "length (buf c) = REQ" and ok: "sock_ok cf k" and p: "at c = Writing put"
    and r: "r = min (room k) (REQ - put)" and k': "k' = k\<lparr>sent := sent k @ take r (drop put (buf c)), room := room k - r\<rparr>"
  shows "sock_ok cf k'"
    and "put + r < REQ \<Longrightarrow> served cf k' (c\<lparr>at := Writing (put + r)\<rparr>) n"
    and "\<not> put + r < REQ \<Longrightarrow> served cf k' (c\<lparr>at := Reading 0\<rparr>) (n + 1)"
proof -
  have s: "put < REQ" "taken k = REQ * n + REQ" "buf c = reply cf n (take REQ (drop (REQ * n) (arrived k)))"
    "sent k = replies cf 0 (take (REQ * n) (arrived k)) @ take put (buf c)"
    "seq c = (if STATEFUL cf then of_nat (n + 1) else 0)"
    using n by (simp_all add: served_def p)
  have tk: "taken k \<le> length (arrived k)"
    using ok by (simp add: sock_ok_def)
  have sent: "sent k' = replies cf 0 (take (REQ * n) (arrived k)) @ take (put + r) (buf c)"
    by (simp add: k' s(4) take_add)
  have nxt: "replies cf 0 (take (REQ * n + REQ) (arrived k)) = replies cf 0 (take (REQ * n) (arrived k)) @ buf c"
    using replies_next [of n "arrived k" cf] tk s(2,3) by simp
  have "prefix (sent k') (replies cf 0 (take (REQ * n + REQ) (arrived k)))"
    unfolding sent nxt by (simp add: take_is_prefix)
  also have "prefix \<dots> (replies cf 0 (arrived k))"
    using replies_mono [of cf 0 "take (REQ * n + REQ) (arrived k)" "drop (REQ * n + REQ) (arrived k)"] by simp
  finally show "sock_ok cf k'"
    using tk by (simp add: sock_ok_def k')
  show "put + r < REQ \<Longrightarrow> served cf k' (c\<lparr>at := Writing (put + r)\<rparr>) n"
    using s sent by (simp add: served_def k')
  assume "\<not> put + r < REQ"
  then have "put + r = REQ"
    using s(1) by (auto simp: r)
  then show "served cf k' (c\<lparr>at := Reading 0\<rparr>) (n + 1)"
    using s sent nxt len by (simp add: served_def k' add.commute)
qed

lemma inv_read:
  assumes inv: "tco_inv cf s" and c: "conns s i = Some c" and run: "state c = RUNNABLE" "ctl s = Inside i"
    and p: "at c = Reading got"
  shows "tco_inv cf (co_read_step cf now i c got s)"
proof -
  define k where "k = socks s (fd c)"
  define inq where "inq = drop (taken k) (arrived k)"
  define r where "r = min (length inq) (REQ - got)"
  consider (stop) "reset k \<or> inq = [] \<and> fin k" | (wait) "\<not> reset k" "inq = []" "\<not> fin k" | (got) "\<not> reset k" "inq \<noteq> []"
    by blast
  then show ?thesis
  proof cases
    case stop
    then have "co_read_step cf now i c got s = serve_end i c s"
      by (auto simp: co_read_step_def Let_def k_def [symmetric] inq_def [symmetric])
    then show ?thesis
      using inv_serve_end [OF inv c] by simp
  next
    case wait
    then have "co_read_step cf now i c got s = co_yield_io i c EV_IN s"
      by (auto simp: co_read_step_def Let_def k_def [symmetric] inq_def [symmetric])
    then show ?thesis
      using inv_yield_io [OF inv c, of EV_IN] p by simp
  next
    case got
    define c' where "c' = c\<lparr>buf := take got (buf c) @ take r inq @ drop (got + r) (buf c)\<rparr>"
    define k' where "k' = k\<lparr>taken := taken k + r\<rparr>"
    have eq: "co_read_step cf now i c got s =
       (if got + r < REQ then set_conn i (c'\<lparr>at := Reading (got + r)\<rparr>) (set_sock (fd c) k' s)
        else co_offload cf now i c' (set_sock (fd c) k' s))"
      using got by (simp add: co_read_step_def Let_def k_def [symmetric] inq_def [symmetric] r_def [symmetric] c'_def k'_def)
    obtain n where n: "served cf k c n" and len: "length (buf c) = REQ"
      using conn_of(4) [OF inv c] by (auto simp: conn_ok_def k_def)
    note S = served_read [OF n len sock_of [OF inv, of "fd c", folded k_def] p inq_def r_def c'_def k'_def]
    show ?thesis
    proof (cases "got + r < REQ")
      case True
      then have "conn_ok cf k' (c'\<lparr>at := Reading (got + r)\<rparr>)"
        using S(1,3) run by (auto simp: conn_ok_def c'_def)
      then show ?thesis
        unfolding eq using True run S(2)
        by (simp, intro inv_keep_armed [OF inv c, where k' = k' and c' = "c'\<lparr>at := Reading (got + r)\<rparr>"])
          (auto simp: state_ops c'_def)
    next
      case False
      then have "served cf k' (c'\<lparr>state := WAIT_OFF, at := Offloaded\<rparr>) n"
        using S(4) by (simp add: served_def)
      then have "conn_ok cf k' (c'\<lparr>state := WAIT_OFF, at := Offloaded\<rparr>)"
        using S(1) by (auto simp: conn_ok_def)
      then show ?thesis
        unfolding eq using False S(2)
        by (simp, intro inv_keep_armed [OF inv c, where k' = k' and c' = "c'\<lparr>state := WAIT_OFF, at := Offloaded\<rparr>"])
          (auto simp: state_ops c'_def)
    qed
  qed
qed

lemma inv_mid:
  assumes inv: "tco_inv cf s" and c: "conns s i = Some c" and run: "state c = RUNNABLE" "ctl s = Inside i"
    and p: "at c = Offloaded"
  shows "tco_inv cf (serve_mid cf i c s)"
proof -
  define c' where "c' = (if STATEFUL cf
     then c\<lparr>buf := seqmask (transform (buf c)) (seq c), seq := seq c + 1, at := Writing 0\<rparr>
     else c\<lparr>buf := transform (buf c), at := Writing 0\<rparr>)"
  have eq: "serve_mid cf i c s = set_conn i c' s"
    by (simp add: serve_mid_def Let_def c'_def)
  obtain n where n: "served cf (socks s (fd c)) c n" and len: "length (buf c) = REQ"
    using conn_of(4) [OF inv c] by (auto simp: conn_ok_def)
  then have "conn_ok cf (socks s (fd c)) c'"
    using served_mid [OF n p, folded c'_def] run by (auto simp: conn_ok_def c'_def)
  then show ?thesis
    unfolding eq using run sock_of [OF inv]
    by (intro inv_keep_armed [OF inv c, where k' = "socks s (fd c)" and c' = c']) (auto simp: state_ops c'_def)
qed

lemma inv_write:
  assumes inv: "tco_inv cf s" and c: "conns s i = Some c" and run: "state c = RUNNABLE" "ctl s = Inside i"
    and p: "at c = Writing put"
  shows "tco_inv cf (co_write_step i c put s)"
proof -
  define k where "k = socks s (fd c)"
  define r where "r = min (room k) (REQ - put)"
  consider (stop) "reset k" | (wait) "\<not> reset k" "room k = 0" | (put) "\<not> reset k" "0 < room k"
    by blast
  then show ?thesis
  proof cases
    case stop
    then have "co_write_step i c put s = serve_end i c s"
      by (auto simp: co_write_step_def Let_def k_def [symmetric])
    then show ?thesis
      using inv_serve_end [OF inv c] by simp
  next
    case wait
    then have "co_write_step i c put s = co_yield_io i c EV_OUT s"
      by (auto simp: co_write_step_def Let_def k_def [symmetric])
    then show ?thesis
      using inv_yield_io [OF inv c, of EV_OUT] p by simp
  next
    case put
    define k' where "k' = k\<lparr>sent := sent k @ take r (drop put (buf c)), room := room k - r\<rparr>"
    have eq: "co_write_step i c put s =
       (if put + r < REQ then set_conn i (c\<lparr>at := Writing (put + r)\<rparr>) (set_sock (fd c) k' s)
        else set_conn i (c\<lparr>at := Reading 0\<rparr>) (set_sock (fd c) k' s\<lparr>g_done := g_done s + 1\<rparr>))"
      using put by (simp add: co_write_step_def Let_def k_def [symmetric] r_def [symmetric] k'_def set_sock_def)
    obtain n where n: "served cf k c n" and len: "length (buf c) = REQ"
      using conn_of(4) [OF inv c] by (auto simp: conn_ok_def k_def)
    note S = served_write [OF n len sock_of [OF inv, of "fd c", folded k_def] p r_def k'_def]
    show ?thesis
    proof (cases "put + r < REQ")
      case True
      then have "conn_ok cf k' (c\<lparr>at := Writing (put + r)\<rparr>)"
        using S(2) len run by (auto simp: conn_ok_def)
      then show ?thesis
        unfolding eq using True run S(1)
        by (simp, intro inv_keep_armed [OF inv c, where k' = k' and c' = "c\<lparr>at := Writing (put + r)\<rparr>"])
          (auto simp: state_ops)
    next
      case False
      then have "conn_ok cf k' (c\<lparr>at := Reading 0\<rparr>)"
        using S(3) len run by (auto simp: conn_ok_def)
      then show ?thesis
        unfolding eq using False run S(1)
        by (simp, intro inv_keep_armed [OF inv c, where k' = k' and c' = "c\<lparr>at := Reading 0\<rparr>"])
          (auto simp: state_ops)
    qed
  qed
qed

lemma inv_serve:
  assumes "tco_inv cf s" "conns s i = Some c" "state c = RUNNABLE" "ctl s = Inside i"
  shows "tco_inv cf (serve cf now i c s)"
  using inv_read [OF assms] inv_mid [OF assms] inv_write [OF assms] by (simp add: serve_def split: pc.splits)

text \<open>A new connection takes a fresh socket from the listener.\<close>

lemma inv_ctl: "tco_inv cf s \<Longrightarrow> (\<And>i. x = Inside i \<Longrightarrow> \<exists>c. conns s i = Some c \<and> state c = RUNNABLE) \<Longrightarrow> tco_inv cf (s\<lparr>ctl := x\<rparr>)"
  by (simp add: tco_inv_def conns_ok_def own_fd_def socks_ok_def armed_ok_def ctl_ok_def)

lemma inv_accept:
  assumes inv: "tco_inv cf s" and b: "backlog s = f # fs" and out: "\<And>i. ctl s \<noteq> Inside i"
  shows "tco_inv cf (accept_one f (s\<lparr>backlog := fs\<rparr>)) \<and> backlog (accept_one f (s\<lparr>backlog := fs\<rparr>)) = fs
     \<and> ctl (accept_one f (s\<lparr>backlog := fs\<rparr>)) = ctl s"
proof -
  have f: "f < next_fd s" "f \<notin> set fs" "distinct fs" "taken (socks s f) = 0" "sent (socks s f) = []"
    using inv b unfolding tco_inv_def socks_ok_def by auto
  have fresh: "fd c \<noteq> f" if "conns s i = Some c" for i c
    using conn_of(3) [OF inv that] b by auto
  have small: "tco_inv cf (s\<lparr>backlog := fs\<rparr>)"
    using inv b unfolding tco_inv_def conns_ok_def own_fd_def socks_ok_def armed_ok_def ctl_ok_def by auto
  define c where "c = \<lparr>fd = f, state = RUNNABLE, buf = replicate REQ 0, seq = 0, at = Reading 0\<rparr>"
  define s' where "s' = conn_new f (s\<lparr>backlog := fs\<rparr>)"
  have s': "conns s' = (conns s)(nconns s := Some c)" "nconns s' = nconns s + 1" "armed s' = (armed s)(f := Some (EV_IN, nconns s))"
    "socks s' = socks s" "backlog s' = fs" "next_fd s' = next_fd s" "ctl s' = ctl s"
    by (simp_all add: s'_def conn_new_def c_def)
  have new: "conns s (nconns s) = None"
    using conn_of(1) [OF inv, of "nconns s"] by fastforce
  have "served cf (socks s f) c 0"
    using f by (simp add: served_def c_def)
  then have c: "conn_ok cf (socks s f) c"
    by (auto simp: conn_ok_def c_def)
  have "conns_ok cf s'"
    unfolding conns_ok_def
  proof (intro allI impI)
    fix j d
    assume "conns s' j = Some d"
    then consider "j = nconns s" "d = c" | "conns s j = Some d"
      unfolding s'(1) by (cases "j = nconns s") simp_all
    then show "j < nconns s' \<and> fd d < next_fd s' \<and> fd d \<notin> set (backlog s') \<and> conn_ok cf (socks s' (fd d)) d
       \<and> (\<forall>ev. state d = WAIT_IO ev \<longrightarrow> armed s' (fd d) = Some (ev, j))"
    proof cases
      case 1
      then show ?thesis
        using c f by (simp add: s') (simp add: c_def)
    next
      case 2
      then show ?thesis
        using conn_of [OF inv 2] fresh [OF 2] b by (simp add: s')
    qed
  qed
  moreover have "own_fd s'"
    using inv fresh new unfolding tco_inv_def own_fd_def s' by (auto simp: c_def split: if_splits)
  moreover have "socks_ok cf s'"
    using small unfolding tco_inv_def socks_ok_def by (simp add: s')
  moreover have "armed_ok s'"
    unfolding armed_ok_def
  proof (intro allI impI)
    fix f' ev j
    assume "armed s' f' = Some (ev, j)"
    then consider "f' = f" "j = nconns s" | "armed s f' = Some (ev, j)"
      unfolding s'(3) by (cases "f' = f") simp_all
    then show "\<exists>c. conns s' j = Some c \<and> fd c = f'"
    proof cases
      case 2
      then obtain d where "conns s j = Some d" "fd d = f'"
        using armed_of [OF inv] by blast
      then show ?thesis
        using new s'(1) by (cases "j = nconns s") auto
    qed (auto simp: s' c_def)
  qed
  moreover have "ctl_ok s'"
    using out by (simp add: ctl_ok_def s')
  ultimately have "tco_inv cf s'"
    by (simp add: tco_inv_def)
  then show ?thesis
    using small s' by (simp add: accept_one_def s'_def)
qed

lemma inv_accept_all:
  assumes "tco_inv cf s" "\<And>i. ctl s \<noteq> Inside i"
  shows "tco_inv cf (accept_all s) \<and> ctl (accept_all s) = ctl s"
proof -
  have "tco_inv cf s \<Longrightarrow> (\<And>i. ctl s \<noteq> Inside i) \<Longrightarrow> backlog s = fs
     \<Longrightarrow> tco_inv cf (fold accept_one fs (s\<lparr>backlog := []\<rparr>)) \<and> ctl (fold accept_one fs (s\<lparr>backlog := []\<rparr>)) = ctl s" for fs
  proof (induction fs arbitrary: s)
    case Nil
    then have same: "s\<lparr>backlog := []\<rparr> = s"
      by (cases s) simp
    show ?case
      using Nil(1) by (simp only: fold_simps same simp_thms)
  next
    case (Cons f fs)
    define s' where "s' = accept_one f (s\<lparr>backlog := fs\<rparr>)"
    have "tco_inv cf s'" "backlog s' = fs" "ctl s' = ctl s"
      using inv_accept [OF Cons.prems(1,3,2)] by (simp_all add: s'_def)
    moreover have "accept_one f (s\<lparr>backlog := []\<rparr>) = s'\<lparr>backlog := []\<rparr>"
      by (simp add: s'_def accept_one_def conn_new_def)
    ultimately show ?case
      using Cons.IH [of s'] Cons.prems(2) by simp
  qed
  then show ?thesis
    using assms by (simp add: accept_all_def)
qed

lemma inv_disarm_wake:
  assumes inv: "tco_inv cf s" and a: "armed s f = Some (ev, i)" and out: "\<And>i. ctl s \<noteq> Inside i"
  shows "\<exists>s'. on_ready i (s\<lparr>armed := (armed s)(f := None)\<rparr>) = Some s' \<and> tco_inv cf s' \<and> ctl s' = ctl s"
proof -
  obtain c where c: "conns s i = Some c" "fd c = f"
    using armed_of [OF inv a] by blast
  define c' where "c' = (case state c of WAIT_IO ev \<Rightarrow> c\<lparr>state := RUNNABLE\<rparr> | _ \<Rightarrow> c)"
  define s' where "s' = set_conn i c' (s\<lparr>armed := (armed s)(f := None)\<rparr>)"
  have "(conns s)(i \<mapsto> c) = conns s"
    using c(1) by auto
  then have "set_conn i c (s\<lparr>armed := (armed s)(f := None)\<rparr>) = s\<lparr>armed := (armed s)(f := None)\<rparr>"
    by (cases s) (simp add: set_conn_def)
  then have "on_ready i (s\<lparr>armed := (armed s)(f := None)\<rparr>) = Some s'"
    using c by (simp add: on_ready_def s'_def c'_def split: cstate.splits)
  moreover have "tco_inv cf s'"
  proof (rule inv_change [OF inv c(1), where c' = c' and k' = "socks s (fd c)" and x = None])
    show "conn_ok cf (socks s (fd c)) c'"
      using conn_of(4) [OF inv c(1)] by (auto simp: conn_ok_def c'_def split: cstate.splits)
  qed (use sock_of [OF inv] out c in \<open>auto simp: s'_def set_conn_def c'_def split: cstate.splits\<close>)
  moreover have "ctl s' = ctl s"
    by (simp add: s'_def set_conn_def)
  ultimately show ?thesis
    by blast
qed

lemma inv_report:
  assumes "tco_inv cf s" "\<And>i. ctl s \<noteq> Inside i"
  shows "\<exists>s'. on_report r s = Some s' \<and> tco_inv cf s' \<and> ctl s' = ctl s"
proof (cases r)
  case Listener
  then show ?thesis
    using inv_accept_all [OF assms] by simp
next
  case (Ready f)
  then show ?thesis
    using assms inv_disarm_wake [OF assms(1) _ assms(2)] by (auto split: option.split)
qed

lemma inv_reports:
  assumes "tco_inv cf s" "\<And>i. ctl s \<noteq> Inside i"
  shows "\<exists>s'. on_reports rs s = Some s' \<and> tco_inv cf s' \<and> ctl s' = ctl s"
  using assms
proof (induction rs arbitrary: s)
  case (Cons r rs)
  obtain s' where "on_report r s = Some s'" "tco_inv cf s'" "ctl s' = ctl s"
    using inv_report [OF Cons.prems] by blast
  then show ?case
    using Cons.IH [of s'] Cons.prems(2) by simp
qed simp

lemma inv_offload_done:
  assumes inv: "tco_inv cf s" and out: "\<And>j. ctl s \<noteq> Inside j"
  shows "tco_inv cf (offload_done i s)" and "ctl (offload_done i s) = ctl s"
proof -
  show "tco_inv cf (offload_done i s)"
  proof (cases "\<exists>c. conns s i = Some c \<and> state c = WAIT_OFF \<and> completed (slots s i)")
    case True
    then obtain c where c: "conns s i = Some c" "state c = WAIT_OFF" "completed (slots s i)"
      by blast
    have "conn_ok cf (socks s (fd c)) (c\<lparr>state := RUNNABLE\<rparr>)"
      using conn_of(4) [OF inv c(1)] by (simp add: conn_ok_def)
    then show ?thesis
      using c out sock_of [OF inv]
      by (intro inv_keep_armed [OF inv c(1), where k' = "socks s (fd c)" and c' = "c\<lparr>state := RUNNABLE\<rparr>"])
        (auto simp: offload_done_def set_conn_def)
  next
    case False
    then have "offload_done i s = s"
      by (auto simp: offload_done_def split: option.split)
    then show ?thesis
      using inv by simp
  qed
  show "ctl (offload_done i s) = ctl s"
    by (simp add: offload_done_def set_conn_def split: option.split)
qed

lemma inv_run_coro:
  assumes inv: "tco_inv cf s"
  shows "\<exists>s'. run_coro cf now rs s = Some s' \<and> tco_inv cf s'"
proof (cases "ctl s")
  case (Scan_off i)
  then have out: "\<And>j. ctl s \<noteq> Inside j"
    by simp
  show ?thesis
    using Scan_off inv_ctl [OF inv_offload_done(1) [OF inv out], of "Scan_off (i + 1)" i] inv_ctl [OF inv, of Poll]
    by (simp add: run_coro_def)
next
  case Poll
  then have out: "\<And>j. ctl s \<noteq> Inside j"
    by simp
  obtain s' where "on_reports (take 256 rs) s = Some s'" "tco_inv cf s'"
    using inv_reports [OF inv out] by blast
  then show ?thesis
    using Poll inv_ctl [of cf s' "Scan_run 0"] by (simp add: run_coro_def)
next
  case (Scan_run i)
  then show ?thesis
    using inv_ctl [OF inv, of "Inside i"] inv_ctl [OF inv, of "Scan_run (i + 1)"] inv_ctl [OF inv, of "Scan_off 0"]
    by (auto simp: run_coro_def split: option.split)
next
  case (Inside i)
  then obtain c where "conns s i = Some c" "state c = RUNNABLE"
    using inv unfolding tco_inv_def ctl_ok_def by blast
  then show ?thesis
    using Inside inv_serve [OF inv _ _ Inside] by (simp add: run_coro_def)
qed

text \<open>The peers add to a socket; what a connection has done stays as it is.\<close>

lemma served_arrived: "served cf k c n \<Longrightarrow> taken k \<le> length (arrived k) \<Longrightarrow> served cf (k\<lparr>arrived := arrived k @ bs\<rparr>) c n"
  by (auto simp: served_def split: pc.splits)

lemma inv_peer:
  assumes inv: "tco_inv cf s" and k: "sock_ok cf k'" "taken k' = taken (socks s f)" "sent k' = sent (socks s f)"
    and same: "\<And>c n. served cf (socks s f) c n \<Longrightarrow> served cf k' c n"
  shows "tco_inv cf (set_sock f k' s)"
proof -
  have conn: "conn_ok cf (socks s f) c \<Longrightarrow> conn_ok cf k' c" for c
    using same by (auto simp: conn_ok_def)
  have "conns_ok cf (set_sock f k' s)"
    unfolding conns_ok_def
  proof (intro allI impI)
    fix j d
    assume "conns (set_sock f k' s) j = Some d"
    then have d: "conns s j = Some d"
      by (simp add: set_sock_def)
    show "j < nconns (set_sock f k' s) \<and> fd d < next_fd (set_sock f k' s) \<and> fd d \<notin> set (backlog (set_sock f k' s))
       \<and> conn_ok cf (socks (set_sock f k' s) (fd d)) d
       \<and> (\<forall>ev. state d = WAIT_IO ev \<longrightarrow> armed (set_sock f k' s) (fd d) = Some (ev, j))"
      using conn_of [OF inv d] conn [of d] by (auto simp: set_sock_def)
  qed
  then show ?thesis
    using inv k by (simp add: tco_inv_def own_fd_def socks_ok_def armed_ok_def ctl_ok_def set_sock_def)
qed

lemma sock_ok_arrived: "sock_ok cf k \<Longrightarrow> sock_ok cf (k\<lparr>arrived := arrived k @ bs\<rparr>)"
  using replies_mono [of cf 0 "arrived k" bs] by (auto simp: sock_ok_def intro: prefix_order.trans)

lemma inv_tco_step:
  assumes inv: "tco_inv cf s"
  shows "\<exists>s'. tco_step cf e s = Some s' \<and> tco_inv cf s'"
proof (cases e)
  case T_connect
  have "tco_inv cf (s\<lparr>backlog := backlog s @ [next_fd s], next_fd := next_fd s + 1\<rparr>)"
    using inv unfolding tco_inv_def conns_ok_def own_fd_def socks_ok_def armed_ok_def ctl_ok_def
    by (fastforce simp: less_Suc_eq)
  then show ?thesis
    using T_connect by simp
next
  case (T_arrive f bs)
  have "tco_inv cf (set_sock f ((socks s f)\<lparr>arrived := arrived (socks s f) @ bs\<rparr>) s)"
  proof (rule inv_peer [OF inv])
    show "sock_ok cf ((socks s f)\<lparr>arrived := arrived (socks s f) @ bs\<rparr>)"
      by (rule sock_ok_arrived [OF sock_of [OF inv]])
    show "served cf (socks s f) c n \<Longrightarrow> served cf ((socks s f)\<lparr>arrived := arrived (socks s f) @ bs\<rparr>) c n" for c n
      using sock_of [OF inv, of f] by (simp add: served_arrived sock_ok_def)
  qed simp_all
  then show ?thesis
    using T_arrive inv by (simp add: Let_def)
next
  case (T_device t i)
  have "tco_inv cf (device_slot t i s)"
    using inv by (simp add: device_slot_def Let_def tco_inv_def conns_ok_def own_fd_def socks_ok_def armed_ok_def ctl_ok_def)
  then show ?thesis
    using T_device by simp
next
  case (T_server now rs)
  then show ?thesis
    using inv_run_coro [OF inv] by simp
qed (use inv sock_of [OF inv] in \<open>auto intro!: inv_peer [OF inv] simp: sock_ok_def served_def split: pc.splits\<close>)

lemma inv_tco_run: "tco_inv cf s \<Longrightarrow> \<exists>s'. tco_run cf es s = Some s' \<and> tco_inv cf s'"
proof (induction es arbitrary: s)
  case (Cons e es)
  obtain s' where "tco_step cf e s = Some s'" "tco_inv cf s'"
    using inv_tco_step [OF Cons.prems] by blast
  then show ?case
    using Cons.IH by simp
qed simp

section \<open>Block mode and the client\<close>

definition block_ok :: "tconf \<Rightarrow> bconn \<Rightarrow> bool" where
  "block_ok cf b \<longleftrightarrow> sock_ok cf (b_sock b) \<and> length (buf (b_conn b)) = REQ \<and> (\<exists>n. served cf (b_sock b) (b_conn b) n)"

lemma block_okI: "sock_ok cf (b_sock b) \<Longrightarrow> length (buf (b_conn b)) = REQ \<Longrightarrow> served cf (b_sock b) (b_conn b) n \<Longrightarrow> block_ok cf b"
  by (auto simp: block_ok_def)

lemma block_ok_open [simp]: "block_ok cf (b\<lparr>b_open := x\<rparr>) = block_ok cf b"
  by (simp add: block_ok_def)

lemma block_ok_thread:
  assumes ok: "block_ok cf b"
  shows "block_ok cf (block_conn cf now b)"
proof -
  define k where "k = b_sock b"
  define c where "c = b_conn b"
  obtain n where k: "sock_ok cf k" and len: "length (buf c) = REQ" and n: "served cf k c n"
    using assms by (auto simp: block_ok_def k_def c_def)
  show ?thesis
  proof (cases "at c")
    case (Reading got)
    define inq where "inq = drop (taken k) (arrived k)"
    define r where "r = min (length inq) (REQ - got)"
    define c' where "c' = c\<lparr>buf := take got (buf c) @ take r inq @ drop (got + r) (buf c)\<rparr>"
    define k' where "k' = k\<lparr>taken := taken k + r\<rparr>"
    note S = served_read [OF n len k Reading inq_def r_def c'_def k'_def]
    have eq: "block_read cf now got b =
       (if reset k \<or> inq = [] \<and> fin k then b\<lparr>b_open := False\<rparr> else if inq = [] then b
        else if got + r < REQ then b\<lparr>b_sock := k', b_conn := c'\<lparr>at := Reading (got + r)\<rparr>\<rparr>
        else b\<lparr>b_sock := k', b_conn := c'\<lparr>at := Offloaded\<rparr>,
               b_slot := \<lparr>deadline = now + L_NS cf, active = True, completed = False\<rparr>\<rparr>)"
      unfolding block_read_def Let_def k_def c_def inq_def r_def c'_def k'_def by (rule refl)
    have "block_ok cf (block_read cf now got b)"
      unfolding eq using ok S by (auto intro: block_okI [where n = n])
    then show ?thesis
      using Reading by (simp add: block_conn_def c_def)
  next
    case Offloaded
    then show ?thesis
      using ok k len served_mid [OF n Offloaded]
      by (auto simp: block_conn_def block_work_def Let_def k_def c_def split: if_splits intro!: block_okI [where n = n])
  next
    case (Writing put)
    define r where "r = min (room k) (REQ - put)"
    define k' where "k' = k\<lparr>sent := sent k @ take r (drop put (buf c)), room := room k - r\<rparr>"
    note S = served_write [OF n len k Writing r_def k'_def]
    have eq: "block_write put b =
       (if reset k then b\<lparr>b_open := False\<rparr> else if room k = 0 then b
        else b\<lparr>b_sock := k', b_conn := c\<lparr>at := (if put + r < REQ then Writing (put + r) else Reading 0)\<rparr>\<rparr>)"
      unfolding block_write_def Let_def k_def c_def r_def k'_def by (rule refl)
    have "block_ok cf (b\<lparr>b_sock := k', b_conn := c\<lparr>at := Writing (put + r)\<rparr>\<rparr>)" if "put + r < REQ"
      using S(1) S(2) [OF that] len by (intro block_okI [where n = n]) simp_all
    moreover have "block_ok cf (b\<lparr>b_sock := k', b_conn := c\<lparr>at := Reading 0\<rparr>\<rparr>)" if "\<not> put + r < REQ"
      using S(1) S(3) [OF that] len by (intro block_okI [where n = "n + 1"]) simp_all
    ultimately have "block_ok cf (block_write put b)"
      unfolding eq using ok by simp
    then show ?thesis
      using Writing by (simp add: block_conn_def c_def)
  qed
qed

lemma block_ok_step: "block_ok cf b \<Longrightarrow> block_ok cf (block_step cf e b)"
proof (cases e)
  case (B_arrive bs)
  assume "block_ok cf b"
  then show ?thesis
    using B_arrive served_arrived [of cf "b_sock b" "b_conn b" _ bs] sock_ok_arrived [of cf "b_sock b" bs]
    by (auto simp: block_ok_def sock_ok_def)
next
  case (B_device t)
  assume "block_ok cf b"
  then show ?thesis
    using B_device by (simp add: Let_def block_ok_def)
next
  case (B_thread now)
  assume "block_ok cf b"
  then show ?thesis
    using B_thread block_ok_thread by simp
qed (auto simp: block_ok_def sock_ok_def served_def split: pc.splits)

lemma block_ok_run: "block_ok cf (fold (block_step cf) es block_conn0)"
proof -
  have "block_ok cf block_conn0"
    by (auto simp: block_ok_def block_conn0_def sock_ok_def sock0_def served_def)
  moreover have "block_ok cf b \<Longrightarrow> block_ok cf (fold (block_step cf) es b)" for b
    by (induction es arbitrary: b) (auto intro: block_ok_step)
  ultimately show ?thesis
    by blast
qed

lemma length_client_request [simp]: "length (client_request sq) = REQ"
  by (simp add: client_request_def)

lemma client_sends_list: "client_sends pipe m (of_nat b) = concat (map (\<lambda>j. client_request (of_nat j)) [b..<b + m * pipe])"
proof (induction m arbitrary: b)
  case (Suc m)
  have "client_burst pipe (of_nat b) = concat (map (\<lambda>j. client_request (of_nat j)) [b..<b + pipe])"
  proof -
    have "map (\<lambda>j. client_request (of_nat j)) [b..<b + pipe] = map (\<lambda>k. client_request (of_nat b + of_nat k)) [0..<pipe]"
      by (intro nth_equalityI) simp_all
    then show ?thesis
      by (simp add: client_burst_def)
  qed
  moreover have "[b..<b + Suc m * pipe] = [b..<b + pipe] @ [b + pipe..<b + pipe + m * pipe]"
    using upt_add_eq_append [of b "b + pipe" "m * pipe"] by (simp add: add.assoc)
  ultimately show ?case
    using Suc.IH [of "b + pipe"] by simp
qed simp

lemma reply_expected: "reply cf j (client_request (of_nat j)) = client_expects cf (of_nat j)"
  by (simp add: reply_def client_expects_def Let_def)

lemma length_client_expects [simp]: "length (client_expects cf sq) = REQ"
  by (simp add: client_expects_def Let_def)

lemma replies_requests:
  "replies cf b (concat (map (\<lambda>j. client_request (of_nat j)) [b..<b + n])) = concat (map (\<lambda>j. client_expects cf (of_nat j)) [b..<b + n])"
proof (induction n arbitrary: b)
  case (Suc n)
  have "[b..<b + Suc n] = b # [Suc b..<Suc b + n]"
    by (simp add: upt_rec)
  then show ?case
    using Suc.IH [of "Suc b"] by (simp add: replies_Cons reply_expected)
qed simp

lemma checks_expected:
  assumes "prefix rsp (concat (map (\<lambda>j. client_expects cf (of_nat j)) [b..<b + n]))"
  shows "client_checks cf (of_nat b) rsp = (length rsp div REQ, 0)"
  using assms
proof (induction n arbitrary: b rsp)
  case 0
  then show ?case
    by (subst client_checks.simps) simp
next
  case (Suc n)
  show ?case
  proof (cases "length rsp < REQ")
    case True
    then show ?thesis
      by (subst client_checks.simps) simp
  next
    case False
    have "[b..<b + Suc n] = b # [Suc b..<Suc b + n]"
      by (simp add: upt_rec)
    then obtain zs where zs: "client_expects cf (of_nat b) @ concat (map (\<lambda>j. client_expects cf (of_nat j)) [Suc b..<Suc b + n]) = rsp @ zs"
      using Suc.prems by (auto simp: prefix_def)
    have head: "take REQ rsp = client_expects cf (of_nat b)"
      using arg_cong [OF zs, of "take REQ"] False by simp
    have "concat (map (\<lambda>j. client_expects cf (of_nat j)) [Suc b..<Suc b + n]) = drop REQ rsp @ zs"
      using arg_cong [OF zs, of "drop REQ"] False by simp
    then have "client_checks cf (of_nat (Suc b)) (drop REQ rsp) = (length (drop REQ rsp) div REQ, 0)"
      by (intro Suc.IH) (auto simp: prefix_def)
    moreover have "length rsp div REQ = Suc ((length rsp - REQ) div REQ)"
      using False by (simp add: le_div_geq)
    ultimately show ?thesis
      using False head by (subst client_checks.simps) (simp add: add.commute)
  qed
qed

section \<open>The properties\<close>

text \<open>C2: Whatever the peers, the kernel's reports and the accelerator do, the server never touches a freed connection,
  and what it has written on a socket is a prefix of the replies to the bytes that have arrived there: every reply is
  the right one for its request, none is doubled, left out, reordered or mixed with another connection's, also with
  partial reads and writes and, in stateful mode, with the mask of its position. Block mode refines the same replies.\<close>

theorem server_refines_replies:
  "(\<exists>s. tco_run cf es tco0 = Some s \<and> (\<forall>f. prefix (sent (socks s f)) (replies cf 0 (arrived (socks s f)))))
   \<and> prefix (sent (b_sock (fold (block_step cf) bes block_conn0)))
       (replies cf 0 (arrived (b_sock (fold (block_step cf) bes block_conn0))))"
proof -
  obtain s where "tco_run cf es tco0 = Some s" "tco_inv cf s"
    using inv_tco_run [OF tco_inv_start] by blast
  then show ?thesis
    using sock_of block_ok_run [of cf bes] unfolding sock_ok_def block_ok_def by blast
qed


text \<open>One connection: a request of the client arrives, is offloaded, answered, and the handler waits for the next.\<close>

definition demo_request :: "u8 list" where
  "demo_request = client_sends 1 1 0"

definition demo :: "tevent list" where
  "demo = [T_connect, T_server 0 [], T_server 0 [Listener], T_arrive 0 demo_request, T_server 0 [], T_server 7 [],
     T_server 7 [], T_device 50 0, T_server 8 [], T_server 8 [], T_server 8 [Ready 0], T_server 8 [], T_server 8 [],
     T_server 8 [], T_server 8 []]"

definition demo_conf :: tconf where
  "demo_conf = \<lparr>L_NS = 20, STATEFUL = True\<rparr>"

definition demo_end :: tco where
  "demo_end = the (tco_run demo_conf demo tco0)"

lemma demo_request_length: "length demo_request = 256" "demo_request \<noteq> []"
proof -
  show "length demo_request = 256"
    by (simp add: demo_request_def client_burst_def REQ_def)
  then show "demo_request \<noteq> []"
    by auto
qed

lemma demo_runs: "tco_run demo_conf demo tco0 = Some demo_end"
proof -
  have "\<exists>s. tco_run demo_conf demo tco0 = Some s"
    using inv_tco_run [OF tco_inv_start] by blast
  then show ?thesis
    by (auto simp: demo_end_def)
qed

lemmas demo_eval = demo_end_def demo_def tco0_def sock0_def run_coro_def accept_all_def accept_one_def conn_new_def serve_def
  co_read_step_def serve_mid_def co_write_step_def state_ops offload_done_def device_slot_def MAXCONN_def on_ready_def ready_def
  demo_conf_def Let_def

lemma demo_results:
  "conns demo_end = [0 \<mapsto> \<lparr>fd = 0, state = WAIT_IO EV_IN, buf = seqmask (transform demo_request) 0, seq = 1, at = Reading 0\<rparr>]"
  "armed demo_end = [0 \<mapsto> (EV_IN, 0)]"
  "0 < room (socks demo_end f)" "fin (socks demo_end 0) = False" "reset (socks demo_end 0) = False"
  "taken (socks demo_end 0) = 256" "arrived (socks demo_end 0) = demo_request"
  "sent (socks demo_end 0) = seqmask (transform demo_request) 0"
  using demo_request_length by (simp_all add: demo_eval REQ_def)


text \<open>The client of the experiment counts no bad reply: while what has arrived on a connection are the client's
  requests of any number of rounds, pipelined or not, every complete reply it can read is counted as good.\<close>

theorem client_never_bad:
  assumes "tco_run cf es tco0 = Some s" "prefix (arrived (socks s f)) (client_sends pipe m 0)"
  shows "client_checks cf 0 (sent (socks s f)) = (length (sent (socks s f)) div REQ, 0)"
proof -
  have inv: "tco_inv cf s"
    using inv_tco_run [OF tco_inv_start, of cf es] assms(1) by simp
  obtain zs where "client_sends pipe m 0 = arrived (socks s f) @ zs"
    using assms(2) by (auto simp: prefix_def)
  then have "prefix (replies cf 0 (arrived (socks s f))) (replies cf 0 (client_sends pipe m 0))"
    by (simp add: replies_mono)
  also have "replies cf 0 (client_sends pipe m 0) = concat (map (\<lambda>j. client_expects cf (of_nat j)) [0..<0 + m * pipe])"
    using client_sends_list [of pipe m 0] replies_requests [of cf 0 "m * pipe"] by simp
  finally have "prefix (sent (socks s f)) (concat (map (\<lambda>j. client_expects cf (of_nat j)) [0..<0 + m * pipe]))"
    using sock_of [OF inv, of f] by (auto simp: sock_ok_def intro: prefix_order.trans)
  then show ?thesis
    using checks_expected [of _ cf 0 "m * pipe"] by simp
qed

theorem client_never_bad_witness: "client_checks demo_conf 0 (sent (socks demo_end 0)) = (1, 0)"
  using client_never_bad [OF demo_runs, of 0 1 1] demo_results demo_request_length
  by (simp add: demo_request_def REQ_def)

end
