(* ===== verification/AccelCompare.thy ===== *)
theory AccelCompare
  imports Prelude
begin

text \<open>
  The three-way experiment \<open>runtime/accel_compare.c\<close>: busy waiting, blocking threads and coroutines on one server core
  against the emulated accelerator on its own core. The accelerator polls the slots concurrently with the three
  stores of a submission, so these are steps of their own. Times are in nanoseconds and read from one clock.
\<close>

section \<open>State\<close>

definition MAXSLOT :: nat where "MAXSLOT = 512"
definition MAXSAMP :: nat where "MAXSAMP = 300000"

text \<open>A slot; \<open>efd\<close> is the counter of its eventfd, if it has one.\<close>

record ac_slot =
  deadline :: nat
  active :: bool
  completed :: bool
  efd :: "nat option"

text \<open>
  The points of a request: at the head of the loop, in the spin before the offload, before each of the three stores
  of \<open>submit\<close>, waiting for the accelerator, and in the spin behind the offload since the given time.
\<close>

datatype ac_pc = Head | Pre | Store_done | Store_deadline | Store_active | Waiting | Post nat | Gone

record worker =
  pc :: ac_pc
  start :: nat
  waiting :: bool

text \<open>Where the dispatcher of the coroutine mode is.\<close>

datatype ac_ctl = Wake nat | Pick nat | In nat | Left

record ac =
  clock :: nat
  slots :: "nat \<Rightarrow> ac_slot"
  workers :: "nat \<Rightarrow> worker"
  ctl :: ac_ctl
  fin :: nat
  lcg :: u64
  lat :: "nat list"
  ndone :: nat
  stop :: bool

record ac_conf =
  L_NS :: nat
  WPRE :: nat
  WPOST :: nat
  JIT_NS :: u64
  C :: nat

definition main_clamp :: "int \<Rightarrow> string \<Rightarrow> int" where
  "main_clamp c m = (if m = ''busy'' then 1 else if int MAXSLOT < c then int MAXSLOT else c)"

text \<open>
  The command line: the mode, the parameters and the run's nanoseconds, whose product wraps. A negative number of
  connections passes; no state below has one, as the coroutine dispatcher would then never leave its loop.
\<close>

definition main_conf :: "string list \<Rightarrow> string \<times> ac_conf option \<times> u64" where
  "main_conf argv =
     (let mode = (if 1 < length argv then argv ! 1 else ''coro'');
          c = main_clamp (if 3 < length argv then atoi (argv ! 3) else 64) mode;
          w = (if 4 < length argv then unat (strtoull (argv ! 4) div 2) else 1000)
      in (mode,
          if c < 0 then None
          else Some \<lparr>L_NS = (if 2 < length argv then unat (strtoull (argv ! 2)) else 20000), WPRE = w, WPOST = w,
                     JIT_NS = (if 6 < length argv then strtoull (argv ! 6) else 0), C = nat c\<rparr>,
          if 5 < length argv then strtoull (argv ! 5) * 1000000 else 1500000000))"

lemma main_conf_fits: "main_conf argv = (mode, Some cf, run) \<Longrightarrow> C cf \<le> MAXSLOT \<and> (mode = ''busy'' \<longrightarrow> C cf = 1)"
  by (auto simp: main_conf_def main_clamp_def MAXSLOT_def Let_def split: if_splits)

section \<open>The accelerator\<close>

text \<open>A look of the accelerator at slot \<open>i\<close> with the time \<open>t\<close> it has read at the start of its pass.\<close>

definition device_fn :: "nat \<Rightarrow> nat \<Rightarrow> ac \<Rightarrow> ac" where
  "device_fn t i s =
     (let x = slots s i
      in if i < MAXSLOT \<and> active x \<and> \<not> completed x \<and> deadline x \<le> t
         then s\<lparr>slots := (slots s)(i := x\<lparr>completed := True, efd := map_option Suc (efd x)\<rparr>)\<rparr> else s)"

definition jitter :: "ac_conf \<Rightarrow> u64 \<Rightarrow> u64 \<times> nat" where
  "jitter cf g =
     (if JIT_NS cf = 0 then (g, 0)
      else (let g = g * 6364136223846793005 + 1442695040888963407 in (g, unat (drop_bit 33 g mod JIT_NS cf))))"

definition set_slot :: "nat \<Rightarrow> (ac_slot \<Rightarrow> ac_slot) \<Rightarrow> ac \<Rightarrow> ac" where
  "set_slot i f s = s\<lparr>slots := (slots s)(i := f (slots s i))\<rparr>"

definition set_pc :: "nat \<Rightarrow> ac_pc \<Rightarrow> ac \<Rightarrow> ac" where
  "set_pc i p s = s\<lparr>workers := (workers s)(i := (workers s i)\<lparr>pc := p\<rparr>)\<rparr>"

text \<open>The three stores of \<open>submit\<close>, in the order of the code.\<close>

definition submit_done :: "nat \<Rightarrow> ac \<Rightarrow> ac" where
  "submit_done i s = set_slot i (\<lambda>x. x\<lparr>completed := False\<rparr>) s"

definition submit_deadline :: "ac_conf \<Rightarrow> nat \<Rightarrow> ac \<Rightarrow> ac" where
  "submit_deadline cf i s =
     (let (g, j) = jitter cf (lcg s) in set_slot i (\<lambda>x. x\<lparr>deadline := clock s + L_NS cf + j\<rparr>) (s\<lparr>lcg := g\<rparr>))"

definition submit_active :: "nat \<Rightarrow> ac \<Rightarrow> ac" where
  "submit_active i s = set_slot i (\<lambda>x. x\<lparr>active := True\<rparr>) s"

text \<open>\<open>record\<close>: every eighth request is sampled while the array has room.\<close>

definition record_lat :: "nat \<Rightarrow> ac \<Rightarrow> ac" where
  "record_lat t0 s =
     (let d = ndone s
      in s\<lparr>ndone := d + 1, lat := (if d mod 8 = 0 \<and> length (lat s) < MAXSAMP then lat s @ [clock s - t0] else lat s)\<rparr>)"

section \<open>A request\<close>

text \<open>The part that the modes share, up to the wait for the accelerator: the spin ends when its time has passed.\<close>

definition request_part :: "ac_conf \<Rightarrow> nat \<Rightarrow> ac \<Rightarrow> ac" where
  "request_part cf i s =
     (case pc (workers s i) of
        Head \<Rightarrow> if stop s then set_pc i Gone s
                else set_pc i Pre (s\<lparr>workers := (workers s)(i := (workers s i)\<lparr>start := clock s\<rparr>)\<rparr>)
      | Pre \<Rightarrow> if clock s - start (workers s i) < WPRE cf then s else set_pc i Store_done s
      | Store_done \<Rightarrow> set_pc i Store_deadline (submit_done i s)
      | Store_deadline \<Rightarrow> set_pc i Store_active (submit_deadline cf i s)
      | Store_active \<Rightarrow> set_pc i Waiting (submit_active i s)
      | Post t \<Rightarrow> if clock s - t < WPOST cf then s else set_pc i Head (record_lat (start (workers s i)) s)
      | _ \<Rightarrow> s)"

definition run_busy :: "ac_conf \<Rightarrow> ac \<Rightarrow> ac" where
  "run_busy cf s =
     (if pc (workers s 0) = Waiting
      then (if completed (slots s 0) then set_pc 0 (Post (clock s)) s else s)
      else request_part cf 0 s)"

text \<open>The read of the eventfd blocks until the counter is positive and clears it.\<close>

definition block_worker :: "ac_conf \<Rightarrow> nat \<Rightarrow> ac \<Rightarrow> ac" where
  "block_worker cf i s =
     (if pc (workers s i) = Waiting
      then (case efd (slots s i) of
              Some (Suc n) \<Rightarrow> set_pc i (Post (clock s)) (set_slot i (\<lambda>x. x\<lparr>efd := Some 0\<rparr>) s)
            | _ \<Rightarrow> s)
      else request_part cf i s)"

section \<open>Coroutine mode\<close>

definition set_waiting :: "nat \<Rightarrow> bool \<Rightarrow> ac \<Rightarrow> ac" where
  "set_waiting i w s = s\<lparr>workers := (workers s)(i := (workers s i)\<lparr>waiting := w\<rparr>)\<rparr>"

text \<open>
  A step of the coroutine that runs: \<open>coro_offload\<close> marks it as waiting before the stores and switches to the
  dispatcher behind them; when it is entered again it goes on behind the offload.
\<close>

definition coro_body :: "ac_conf \<Rightarrow> nat \<Rightarrow> ac \<Rightarrow> ac" where
  "coro_body cf i s =
     (case pc (workers s i) of
        Store_done \<Rightarrow> request_part cf i (set_waiting i True s)
      | Store_active \<Rightarrow> (request_part cf i s)\<lparr>ctl := Pick (i + 1)\<rparr>
      | Waiting \<Rightarrow> set_pc i (Post (clock s)) s
      | Head \<Rightarrow> if stop s then (request_part cf i s)\<lparr>ctl := Pick (i + 1)\<rparr> else request_part cf i s
      | _ \<Rightarrow> request_part cf i s)"

definition wake_one :: "nat \<Rightarrow> ac \<Rightarrow> ac" where
  "wake_one i s =
     (if waiting (workers s i) \<and> completed (slots s i)
      then set_waiting i False (set_slot i (\<lambda>x. x\<lparr>active := False\<rparr>) s) else s)"

definition run_coro :: "ac_conf \<Rightarrow> ac \<Rightarrow> ac" where
  "run_coro cf s =
     (case ctl s of
        Wake i \<Rightarrow> if i < C cf then (wake_one i s)\<lparr>ctl := Wake (i + 1)\<rparr> else s\<lparr>ctl := Pick 0, fin := 0\<rparr>
      | Pick i \<Rightarrow>
          if i < C cf
          then (if pc (workers s i) = Gone then s\<lparr>fin := fin s + 1, ctl := Pick (i + 1)\<rparr>
                else if waiting (workers s i) then s\<lparr>ctl := Pick (i + 1)\<rparr>
                else s\<lparr>ctl := In i\<rparr>)
          else if fin s = C cf then s\<lparr>ctl := Left\<rparr> else s\<lparr>ctl := Wake 0\<rparr>
      | In i \<Rightarrow> coro_body cf i s
      | Left \<Rightarrow> s)"

definition ac0 :: "bool \<Rightarrow> ac" where
  "ac0 blk = \<lparr>clock = 0, slots = (\<lambda>_. \<lparr>deadline = 0, active = False, completed = False, efd = (if blk then Some 0 else None)\<rparr>),
     workers = (\<lambda>_. \<lparr>pc = Head, start = 0, waiting = False\<rparr>), ctl = Wake 0, fin = 0, lcg = 0x243F6A8885A308D3,
     lat = [], ndone = 0, stop = False\<rparr>"

text \<open>
  The threads: the clock advances, the accelerator looks at a slot with a time it has read before, the timer sets
  \<open>stop\<close>, and the server side of the mode makes a step.
\<close>

datatype ac_event = A_clock nat | A_device nat nat | A_stop | A_busy | A_block nat | A_coro

fun ac_step :: "ac_conf \<Rightarrow> ac_event \<Rightarrow> ac \<Rightarrow> ac" where
  "ac_step cf (A_clock d) s = s\<lparr>clock := clock s + d\<rparr>"
| "ac_step cf (A_device t i) s = (if t \<le> clock s then device_fn t i s else s)"
| "ac_step cf A_stop s = s\<lparr>stop := True\<rparr>"
| "ac_step cf A_busy s = run_busy cf s"
| "ac_step cf (A_block i) s = (if i < C cf then block_worker cf i s else s)"
| "ac_step cf A_coro s = run_coro cf s"

definition ac_run :: "ac_conf \<Rightarrow> ac_event list \<Rightarrow> ac \<Rightarrow> ac" where
  "ac_run cf es s = fold (ac_step cf) es s"

definition coro_events :: "ac_event list \<Rightarrow> bool" where
  "coro_events es \<longleftrightarrow> (\<forall>e \<in> set es. case e of A_busy \<Rightarrow> False | A_block i \<Rightarrow> False | _ \<Rightarrow> True)"

section \<open>No request of the coroutine mode is early\<close>

text \<open>What is known of a coroutine and its slot at each point.\<close>

definition coro_ok :: "ac_conf \<Rightarrow> nat \<Rightarrow> ac_slot \<Rightarrow> worker \<Rightarrow> bool" where
  "coro_ok cf now x w \<longleftrightarrow>
     (case pc w of
        Head \<Rightarrow> \<not> active x \<and> \<not> waiting w
      | Gone \<Rightarrow> \<not> active x \<and> \<not> waiting w
      | Pre \<Rightarrow> \<not> active x \<and> \<not> waiting w \<and> start w \<le> now
      | Store_done \<Rightarrow> \<not> active x \<and> \<not> waiting w \<and> start w + WPRE cf \<le> now
      | Store_deadline \<Rightarrow> \<not> active x \<and> waiting w \<and> \<not> completed x \<and> start w + WPRE cf \<le> now
      | Store_active \<Rightarrow> \<not> active x \<and> waiting w \<and> \<not> completed x \<and> start w + WPRE cf + L_NS cf \<le> deadline x
      | Waiting \<Rightarrow> if waiting w
                   then active x \<and> start w + WPRE cf + L_NS cf \<le> deadline x \<and> (completed x \<longrightarrow> deadline x \<le> now)
                   else \<not> active x \<and> start w + WPRE cf + L_NS cf \<le> now
      | Post t \<Rightarrow> \<not> active x \<and> \<not> waiting w \<and> start w + WPRE cf + L_NS cf \<le> t \<and> t \<le> now)"

definition ac_inv :: "ac_conf \<Rightarrow> ac \<Rightarrow> bool" where
  "ac_inv cf s \<longleftrightarrow> (\<forall>i. coro_ok cf (clock s) (slots s i) (workers s i))
     \<and> (\<forall>l \<in> set (lat s). WPRE cf + L_NS cf + WPOST cf \<le> l)
     \<and> (\<forall>i. ctl s = In i \<longrightarrow> pc (workers s i) = Waiting \<longrightarrow> \<not> waiting (workers s i))
     \<and> (\<forall>i. ctl s \<noteq> In i \<longrightarrow> pc (workers s i) \<notin> {Store_deadline, Store_active})"

lemma coro_ok_later: "coro_ok cf now x w \<Longrightarrow> now \<le> later \<Longrightarrow> coro_ok cf later x w"
  by (auto simp: coro_ok_def split: ac_pc.splits if_splits)

text \<open>One worker and its slot change.\<close>

lemma ac_inv_upd:
  assumes inv: "ac_inv cf s"
    and s': "workers s' = (workers s)(i := w)" "slots s' = (slots s)(i := x)" "clock s' = clock s"
    and "coro_ok cf (clock s) x w"
    and "\<forall>l \<in> set (lat s'). WPRE cf + L_NS cf + WPOST cf \<le> l"
    and "ctl s' = In i \<Longrightarrow> pc w = Waiting \<Longrightarrow> \<not> waiting w"
    and "ctl s' \<noteq> In i \<Longrightarrow> pc w \<notin> {Store_deadline, Store_active}"
    and "\<And>j. j \<noteq> i \<Longrightarrow> ctl s' \<noteq> In j \<and> ctl s \<noteq> In j"
  shows "ac_inv cf s'"
  unfolding ac_inv_def
proof (intro conjI allI)
  fix j
  show "coro_ok cf (clock s') (slots s' j) (workers s' j)"
    "ctl s' = In j \<longrightarrow> pc (workers s' j) = Waiting \<longrightarrow> \<not> waiting (workers s' j)"
    "ctl s' \<noteq> In j \<longrightarrow> pc (workers s' j) \<notin> {Store_deadline, Store_active}"
    using assms(2-5,7-9) inv unfolding ac_inv_def by (cases "j = i"; simp)+
qed (rule assms(6))

lemma ac_inv_at:
  assumes "ac_inv cf s"
  shows "coro_ok cf (clock s) (slots s i) (workers s i)"
    and "\<forall>l \<in> set (lat s). WPRE cf + L_NS cf + WPOST cf \<le> l"
    and "ctl s = In i \<Longrightarrow> pc (workers s i) = Waiting \<Longrightarrow> \<not> waiting (workers s i)"
    and "ctl s \<noteq> In i \<Longrightarrow> pc (workers s i) \<notin> {Store_deadline, Store_active}"
  using assms unfolding ac_inv_def by blast+

lemma inv_coro_body:
  assumes inv: "ac_inv cf s" and ctl: "ctl s = In i"
  shows "ac_inv cf (coro_body cf i s)"
proof -
  define w where "w = workers s i"
  define x where "x = slots s i"
  have ok: "coro_ok cf (clock s) x w" and lat: "\<forall>l \<in> set (lat s). WPRE cf + L_NS cf + WPOST cf \<le> l"
    using ac_inv_at(1,2) [OF inv] by (simp_all add: w_def x_def)
  have others: "\<And>j. j \<noteq> i \<Longrightarrow> ctl s \<noteq> In j"
    using ctl by simp
  note defs = coro_body_def request_part_def set_pc_def set_waiting_def submit_done_def submit_deadline_def
    submit_active_def set_slot_def w_def [symmetric] x_def [symmetric]
  show ?thesis
  proof (cases "pc w")
    case Head
    show ?thesis
    proof (cases "stop s")
      case True
      show ?thesis
        by (rule ac_inv_upd [OF inv, of _ i "w\<lparr>pc := Gone\<rparr>" x])
          (use ok Head True lat others in \<open>simp_all add: defs coro_ok_def\<close>, auto simp: x_def)
    next
      case False
      show ?thesis
        by (rule ac_inv_upd [OF inv, of _ i "w\<lparr>start := clock s, pc := Pre\<rparr>" x])
          (use ok Head False lat others ctl in \<open>simp_all add: defs coro_ok_def\<close>, auto simp: x_def)
    qed
  next
    case Pre
    show ?thesis
    proof (cases "clock s - start w < WPRE cf")
      case True
      then show ?thesis
        using inv Pre by (simp add: defs)
    next
      case False
      show ?thesis
        by (rule ac_inv_upd [OF inv, of _ i "w\<lparr>pc := Store_done\<rparr>" x])
          (use ok Pre False lat others ctl in \<open>simp_all add: defs coro_ok_def\<close>, auto simp: x_def)
    qed
  next
    case Store_done
    show ?thesis
      by (rule ac_inv_upd [OF inv, of _ i "w\<lparr>waiting := True, pc := Store_deadline\<rparr>" "x\<lparr>completed := False\<rparr>"])
        (use ok Store_done lat others ctl in \<open>simp_all add: defs coro_ok_def\<close>)
  next
    case Store_deadline
    obtain g j where j: "jitter cf (lcg s) = (g, j)"
      by (cases "jitter cf (lcg s)")
    show ?thesis
      by (rule ac_inv_upd [OF inv, of _ i "w\<lparr>pc := Store_active\<rparr>" "x\<lparr>deadline := clock s + L_NS cf + j\<rparr>"])
        (use ok Store_deadline lat others ctl in \<open>simp_all add: defs coro_ok_def j\<close>)
  next
    case Store_active
    show ?thesis
      by (rule ac_inv_upd [OF inv, of _ i "w\<lparr>pc := Waiting\<rparr>" "x\<lparr>active := True\<rparr>"])
        (use ok Store_active lat others ctl in \<open>simp_all add: defs coro_ok_def\<close>)
  next
    case Waiting
    then have "\<not> waiting w"
      using ac_inv_at(3) [OF inv ctl] by (simp add: w_def)
    then show ?thesis
      by (intro ac_inv_upd [OF inv, of _ i "w\<lparr>pc := Post (clock s)\<rparr>" x])
        (use ok Waiting lat others ctl in \<open>simp_all add: defs coro_ok_def\<close>, auto simp: x_def)
  next
    case (Post t)
    show ?thesis
    proof (cases "clock s - t < WPOST cf")
      case True
      then show ?thesis
        using inv Post by (simp add: defs)
    next
      case False
      then have "WPRE cf + L_NS cf + WPOST cf \<le> clock s - start w"
        using ok Post by (auto simp: coro_ok_def)
      then show ?thesis
        by (intro ac_inv_upd [OF inv, of _ i "w\<lparr>pc := Head\<rparr>" x])
          (use ok Post False lat others ctl in \<open>auto simp: defs coro_ok_def record_lat_def Let_def\<close>)
    qed
  next
    case Gone
    then show ?thesis
      using inv by (simp add: defs)
  qed
qed

lemma inv_device:
  assumes inv: "ac_inv cf s" and t: "t \<le> clock s"
  shows "ac_inv cf (device_fn t i s)"
proof -
  define x where "x = slots s i"
  have ok: "coro_ok cf (clock s) x (workers s i)"
    using ac_inv_at(1) [OF inv] by (simp add: x_def)
  show ?thesis
  proof (cases "i < MAXSLOT \<and> active x \<and> \<not> completed x \<and> deadline x \<le> t")
    case True
    then have "coro_ok cf (clock s) (x\<lparr>completed := True, efd := map_option Suc (efd x)\<rparr>) (workers s i)"
      using ok t by (auto simp: coro_ok_def split: ac_pc.splits if_splits)
    then show ?thesis
      using inv True by (simp add: device_fn_def Let_def x_def [symmetric]) (auto simp: ac_inv_def)
  next
    case False
    then have "device_fn t i s = s"
      by (auto simp: device_fn_def Let_def x_def)
    then show ?thesis
      using inv by simp
  qed
qed

lemma inv_wake:
  assumes inv: "ac_inv cf s" and ctl: "\<And>j. ctl s \<noteq> In j"
  shows "ac_inv cf (wake_one i s)"
proof (cases "waiting (workers s i) \<and> completed (slots s i)")
  case True
  have "coro_ok cf (clock s) (slots s i) (workers s i)" "pc (workers s i) \<notin> {Store_deadline, Store_active}"
    using ac_inv_at(1,4) [OF inv] ctl by auto
  then have "coro_ok cf (clock s) ((slots s i)\<lparr>active := False\<rparr>) ((workers s i)\<lparr>waiting := False\<rparr>)"
    using True by (auto simp: coro_ok_def split: ac_pc.splits)
  then show ?thesis
    using inv True by (auto simp: wake_one_def set_waiting_def set_slot_def ac_inv_def ctl)
next
  case False
  then have "wake_one i s = s"
    by (auto simp: wake_one_def)
  then show ?thesis
    using inv by simp
qed

lemma ac_inv_ctl:
  assumes "ac_inv cf s" "\<And>j. ctl s \<noteq> In j"
    and "\<And>j. x = In j \<Longrightarrow> \<not> waiting (workers s j)"
  shows "ac_inv cf (s\<lparr>ctl := x\<rparr>)" and "ac_inv cf (s\<lparr>ctl := x, fin := n\<rparr>)" and "ac_inv cf (s\<lparr>fin := n, ctl := x\<rparr>)"
  using assms by (auto simp: ac_inv_def)

lemma wake_one_ctl [simp]: "ctl (wake_one i s) = ctl s"
  by (simp add: wake_one_def set_waiting_def set_slot_def)

lemma ac_inv_run_coro:
  assumes inv: "ac_inv cf s"
  shows "ac_inv cf (run_coro cf s)"
proof (cases "ctl s")
  case (Wake i)
  then have ctl: "\<And>j. ctl s \<noteq> In j" "\<And>j. ctl (wake_one i s) \<noteq> In j"
    by simp_all
  show ?thesis
    using Wake ac_inv_ctl(1) [OF inv_wake [OF inv ctl(1)] ctl(2), of "Wake (i + 1)"] ac_inv_ctl(2) [OF inv ctl(1), of "Pick 0" 0]
    by (simp add: run_coro_def)
next
  case (Pick i)
  then have ctl: "\<And>j. ctl s \<noteq> In j"
    by simp
  show ?thesis
    using Pick by (auto simp: run_coro_def intro!: ac_inv_ctl(1) [OF inv ctl] ac_inv_ctl(3) [OF inv ctl])
next
  case (In i)
  then show ?thesis
    using inv_coro_body [OF inv In] by (simp add: run_coro_def)
qed (use inv in \<open>simp add: run_coro_def\<close>)

lemma inv_ac_step:
  assumes "ac_inv cf s" "case e of A_busy \<Rightarrow> False | A_block i \<Rightarrow> False | _ \<Rightarrow> True"
  shows "ac_inv cf (ac_step cf e s)"
proof (cases e)
  case (A_clock d)
  have "coro_ok cf (clock s + d) (slots s i) (workers s i)" for i
    using ac_inv_at(1) [OF assms(1)] by (rule coro_ok_later) simp
  then show ?thesis
    using A_clock assms(1) by (simp add: ac_inv_def)
next
  case A_stop
  then show ?thesis
    using assms(1) by (simp add: ac_inv_def)
qed (use assms inv_device ac_inv_run_coro in auto)

lemma inv_ac_run: "coro_events es \<Longrightarrow> ac_inv cf s \<Longrightarrow> ac_inv cf (ac_run cf es s)"
  by (induction es arbitrary: s) (auto simp: ac_run_def coro_events_def inv_ac_step)

lemma inv_ac0: "ac_inv cf (ac0 b)"
  by (simp add: ac_inv_def ac0_def coro_ok_def)

text \<open>In coroutine mode no measured request is early: whatever the interleaving of the accelerator's looks with the
  three stores of a submission and with the dispatcher, every latency in the samples covers both spins and the
  offload latency.\<close>

theorem coro_latency_bound:
  assumes "coro_events es" "l \<in> set (lat (ac_run cf es (ac0 b)))"
  shows "WPRE cf + L_NS cf + WPOST cf \<le> l"
  using inv_ac_run [OF assms(1) inv_ac0] assms(2) unfolding ac_inv_def by blast

definition demo_conf :: ac_conf where
  "demo_conf = \<lparr>L_NS = 100, WPRE = 1, WPOST = 1, JIT_NS = 0, C = 1\<rparr>"

text \<open>One request: the coroutine submits at 1, the accelerator is too early at 50 and completes at 101.\<close>

definition coro_demo :: "ac_event list" where
  "coro_demo = [A_coro, A_coro, A_coro, A_coro, A_clock 1, A_coro, A_coro, A_coro, A_coro, A_coro, A_clock 49, A_device 50 0, A_coro, A_coro, A_coro, A_coro, A_coro, A_coro, A_clock 51, A_device 101 0, A_coro, A_coro, A_coro, A_coro, A_coro, A_coro, A_clock 1, A_coro, A_coro]"

lemmas ac_eval = ac_run_def ac0_def run_coro_def coro_body_def request_part_def set_pc_def set_waiting_def submit_done_def
  submit_deadline_def submit_active_def set_slot_def jitter_def wake_one_def device_fn_def MAXSLOT_def record_lat_def
  MAXSAMP_def run_busy_def Let_def demo_conf_def

lemma coro_demo_lat: "lat (ac_run demo_conf coro_demo (ac0 False)) = [102]"
  by (simp add: coro_demo_def ac_eval)

theorem coro_latency_bound_witness:
  "lat (ac_run demo_conf coro_demo (ac0 False)) = [102] \<and> WPRE demo_conf + L_NS demo_conf + WPOST demo_conf \<le> 102"
proof
  show lat: "lat (ac_run demo_conf coro_demo (ac0 False)) = [102]"
    by (rule coro_demo_lat)
  show "WPRE demo_conf + L_NS demo_conf + WPOST demo_conf \<le> 102"
  proof (rule coro_latency_bound)
    show "coro_events coro_demo"
      by (simp add: coro_events_def coro_demo_def)
    show "102 \<in> set (lat (ac_run demo_conf coro_demo (ac0 False)))"
      by (simp add: lat)
  qed
qed

section \<open>The other modes\<close>

text \<open>Busy and block mode never take a completed slot out of service, and \<open>submit\<close> clears \<open>done\<close> before it stores the
  new deadline: an accelerator that looks between the two stores still sees the old deadline, and the request is
  completed and goes on without any time having passed.\<close>

theorem stale_deadline_completes:
  assumes "e = A_busy \<and> i = 0 \<or> e = A_block i \<and> efd (slots s i) = Some 0" and "i < C cf" "i < MAXSLOT"
    and "pc (workers s i) = Store_done" "active (slots s i)" "deadline (slots s i) \<le> clock s"
  shows "pc (workers (ac_run cf [e, A_device (clock s) i, e, e, e] s) i) = Post (clock s)"
proof -
  obtain g j where j: "jitter cf (lcg s) = (g, j)"
    by (cases "jitter cf (lcg s)")
  note defs = ac_run_def run_busy_def block_worker_def request_part_def set_pc_def submit_done_def submit_deadline_def
    submit_active_def set_slot_def device_fn_def Let_def j
  from assms(1) show ?thesis
  proof
    assume "e = A_busy \<and> i = 0"
    then show ?thesis
      using assms(2-6) by (simp add: defs)
  next
    assume "e = A_block i \<and> efd (slots s i) = Some 0"
    then show ?thesis
      using assms(2-6) by (simp add: defs)
  qed
qed

text \<open>A busy run up to the first store of its second submission, and the end of that request.\<close>

definition busy_demo :: "ac_event list" where
  "busy_demo = [A_busy, A_clock 1, A_busy, A_busy, A_busy, A_busy, A_clock 100, A_device 101 0, A_busy, A_clock 1, A_busy, A_busy, A_clock 1, A_busy]"

lemma busy_demo_state:
  "pc (workers (ac_run demo_conf busy_demo (ac0 False)) 0) = Store_done" "active (slots (ac_run demo_conf busy_demo (ac0 False)) 0)"
  "deadline (slots (ac_run demo_conf busy_demo (ac0 False)) 0) = 101" "clock (ac_run demo_conf busy_demo (ac0 False)) = 103"
  by (simp_all add: busy_demo_def ac_eval)

theorem stale_deadline_completes_witness:
  "pc (workers (ac_run demo_conf [A_busy, A_device 103 0, A_busy, A_busy, A_busy] (ac_run demo_conf busy_demo (ac0 False))) 0)
     = Post 103"
  using stale_deadline_completes [of A_busy 0 "ac_run demo_conf busy_demo (ac0 False)" demo_conf] busy_demo_state
  by (simp add: MAXSLOT_def demo_conf_def)

end
