(* ===== verification/OpenLoop.thy ===== *)
theory OpenLoop
  imports Ring "HOL-Library.Multiset"
begin

text \<open>
  The open-loop experiment \<open>runtime/openloop.c\<close>: a producer puts arrivals into a ring whatever the server does, the
  coroutine server assigns them to a pool of fibers and gets the completions of the accelerator through a second
  ring, the block server has a pool of threads. Both rings are the job ring of \<open>Ring\<close>.
\<close>

section \<open>State\<close>

definition POOL :: nat where "POOL = 1024"
definition RING :: nat where "RING = 65536"
definition CQN :: nat where "CQN = POOL * 4"

record ol_slot =
  deadline :: nat
  active :: bool
  completed :: bool

datatype tstate = FREE | READY | WAIT_OFF

text \<open>A fiber of the pool goes on at the head of its loop, behind its offload, or has returned.\<close>

datatype tpos = At_head | After_offload | Returned

record task =
  state :: tstate
  arr :: nat
  pos :: tpos

text \<open>The dispatcher's three loops; the last holds the rest of the ready queue that it took, and is behind its end at the
  head of the outer loop.\<close>

datatype ol_ctl = Assign | Drain | Run "nat list" | Ended

text \<open>\<open>freelist\<close> has its top first. \<open>arrivals\<close> and \<open>served\<close> are the history of the run.\<close>

record ol =
  clock :: nat
  stop :: bool
  slots :: "nat \<Rightarrow> ol_slot"
  comp :: "nat ring"
  ring :: "nat ring"
  injected :: nat
  dropped :: nat
  count :: nat
  lat :: "nat \<Rightarrow> nat"
  latn :: nat
  tasks :: "nat \<Rightarrow> task"
  freelist :: "nat list"
  ready :: "nat list"
  ctl :: ol_ctl
  arrivals :: "nat list"
  served :: "nat list"

section \<open>Accelerator and producer\<close>

text \<open>The accelerator publishes a completion by its last store, that of the head of the completion ring.\<close>

definition device_fn :: "nat \<Rightarrow> nat \<Rightarrow> ol \<Rightarrow> ol" where
  "device_fn t i s =
     (let x = slots s i
      in if i < POOL \<and> active x \<and> \<not> completed x \<and> deadline x \<le> t
         then s\<lparr>slots := (slots s)(i := x\<lparr>completed := True\<rparr>), comp := ring_put CQN i (comp s)\<rparr> else s)"

definition producer :: "ol \<Rightarrow> ol" where
  "producer s =
     (if stop s then s
      else if rhead (ring s) - rtail (ring s) < RING
      then s\<lparr>ring := ring_put RING (clock s) (ring s), injected := injected s + 1, arrivals := arrivals s @ [clock s]\<rparr>
      else s\<lparr>dropped := dropped s + 1\<rparr>)"

definition record_lat :: "nat \<Rightarrow> nat \<Rightarrow> ol \<Rightarrow> ol" where
  "record_lat warm_until a s =
     (let s = s\<lparr>count := count s + 1, served := served s @ [a]\<rparr>
      in if clock s < warm_until then s
         else s\<lparr>lat := (lat s)(latn s mod 300000 := clock s - a), latn := latn s + 1\<rparr>)"

definition submit :: "nat \<Rightarrow> nat \<Rightarrow> ol \<Rightarrow> ol" where
  "submit L i s = s\<lparr>slots := (slots s)(i := \<lparr>deadline = clock s + L, active = True, completed = False\<rparr>)\<rparr>"

definition retire :: "nat \<Rightarrow> ol \<Rightarrow> ol" where
  "retire i s = s\<lparr>slots := (slots s)(i := (slots s i)\<lparr>active := False\<rparr>)\<rparr>"

section \<open>The coroutine server\<close>

definition set_task :: "nat \<Rightarrow> (task \<Rightarrow> task) \<Rightarrow> ol \<Rightarrow> ol" where
  "set_task i f s = s\<lparr>tasks := (tasks s)(i := f (tasks s i))\<rparr>"

text \<open>The fiber from its entry to its next switch or its return.\<close>

definition task_body :: "nat \<Rightarrow> nat \<Rightarrow> nat \<Rightarrow> ol \<Rightarrow> ol" where
  "task_body L warm_until i s =
     (if stop s then set_task i (\<lambda>x. x\<lparr>pos := Returned\<rparr>) s
      else case pos (tasks s i) of
             At_head \<Rightarrow> set_task i (\<lambda>x. x\<lparr>state := WAIT_OFF, pos := After_offload\<rparr>) (submit L i s)
           | After_offload \<Rightarrow>
               (let s = set_task i (\<lambda>x. x\<lparr>state := FREE, pos := At_head\<rparr>) (record_lat warm_until (arr (tasks s i)) s)
                in s\<lparr>freelist := i # freelist s\<rparr>)
           | Returned \<Rightarrow> s)"

definition assign_step :: "ol \<Rightarrow> ol" where
  "assign_step s =
     (case (ring_get RING (ring s), freelist s) of
        (Some (a, r), i # fs) \<Rightarrow>
          set_task i (\<lambda>x. x\<lparr>arr := a, state := READY\<rparr>) (s\<lparr>ring := r, freelist := fs, ready := ready s @ [i]\<rparr>)
      | _ \<Rightarrow> s\<lparr>ctl := Drain\<rparr>)"

definition drain_step :: "ol \<Rightarrow> ol" where
  "drain_step s =
     (case ring_get CQN (comp s) of
        Some (i, r) \<Rightarrow>
          if state (tasks s i) = WAIT_OFF
          then set_task i (\<lambda>x. x\<lparr>state := READY\<rparr>) (retire i (s\<lparr>comp := r, ready := ready s @ [i]\<rparr>))
          else s\<lparr>comp := r\<rparr>
      | None \<Rightarrow> s\<lparr>ctl := Run (ready s), ready := []\<rparr>)"

definition srv_coro :: "nat \<Rightarrow> nat \<Rightarrow> ol \<Rightarrow> ol" where
  "srv_coro L warm_until s =
     (case ctl s of
        Assign \<Rightarrow> assign_step s
      | Drain \<Rightarrow> drain_step s
      | Run [] \<Rightarrow> s\<lparr>ctl := (if stop s then Ended else Assign)\<rparr>
      | Run (i # is) \<Rightarrow>
          (if state (tasks s i) = READY then task_body L warm_until i (s\<lparr>ctl := Run is\<rparr>) else s\<lparr>ctl := Run is\<rparr>)
      | Ended \<Rightarrow> s)"

definition srv_start :: ol where
  "srv_start = \<lparr>clock = 0, stop = False, slots = (\<lambda>_. \<lparr>deadline = 0, active = False, completed = False\<rparr>),
     comp = ring_empty 0, ring = ring_empty 0, injected = 0, dropped = 0, count = 0, lat = (\<lambda>_. 0), latn = 0,
     tasks = (\<lambda>_. \<lparr>state = FREE, arr = 0, pos = At_head\<rparr>), freelist = rev [0..<POOL], ready = [], ctl = Run [],
     arrivals = [], served = []\<rparr>"

section \<open>The block server\<close>

text \<open>A thread of the block server takes an arrival under the lock, submits it, and goes on when its slot is done.\<close>

definition block_take :: "nat \<Rightarrow> nat \<Rightarrow> ol \<Rightarrow> ol" where
  "block_take L i s =
     (if state (tasks s i) \<noteq> FREE \<or> stop s then s
      else case ring_get RING (ring s) of
             None \<Rightarrow> s
           | Some (a, r) \<Rightarrow> submit L i (set_task i (\<lambda>x. x\<lparr>arr := a, state := WAIT_OFF\<rparr>) (s\<lparr>ring := r\<rparr>)))"

definition block_finish :: "nat \<Rightarrow> nat \<Rightarrow> ol \<Rightarrow> ol" where
  "block_finish warm_until i s =
     (if state (tasks s i) = WAIT_OFF \<and> completed (slots s i)
      then set_task i (\<lambda>x. x\<lparr>state := FREE\<rparr>) (record_lat warm_until (arr (tasks s i)) (retire i s)) else s)"

datatype ol_event = O_clock nat | O_stop | O_produce | O_device nat nat | O_server | O_take nat | O_finish nat

fun ol_step :: "nat \<Rightarrow> nat \<Rightarrow> ol_event \<Rightarrow> ol \<Rightarrow> ol" where
  "ol_step L w (O_clock d) s = s\<lparr>clock := clock s + d\<rparr>"
| "ol_step L w O_stop s = s\<lparr>stop := True\<rparr>"
| "ol_step L w O_produce s = producer s"
| "ol_step L w (O_device t i) s = (if t \<le> clock s then device_fn t i s else s)"
| "ol_step L w O_server s = srv_coro L w s"
| "ol_step L w (O_take i) s = (if i < POOL then block_take L i s else s)"
| "ol_step L w (O_finish i) s = (if i < POOL then block_finish w i s else s)"

definition ol_run :: "nat \<Rightarrow> nat \<Rightarrow> ol_event list \<Rightarrow> ol" where
  "ol_run L w es = fold (ol_step L w) es srv_start"

definition coro_event :: "ol_event \<Rightarrow> bool" where
  "coro_event e \<longleftrightarrow> (case e of O_take i \<Rightarrow> False | O_finish i \<Rightarrow> False | _ \<Rightarrow> True)"

definition block_event :: "ol_event \<Rightarrow> bool" where
  "block_event e \<longleftrightarrow> e \<noteq> O_server"

section \<open>Conservation\<close>

text \<open>The arrivals that are in service, as a multiset of arrival times.\<close>

definition weight :: "task \<Rightarrow> nat multiset" where
  "weight x = (if state x = FREE then {#} else {#arr x#})"

definition in_service :: "ol \<Rightarrow> nat multiset" where
  "in_service s = (\<Sum>i<POOL. weight (tasks s i))"

definition conserved :: "ol \<Rightarrow> bool" where
  "conserved s \<longleftrightarrow> ring_wf RING (ring s)
     \<and> mset (arrivals s) = mset (served s) + in_service s + mset (ring_items RING (ring s))
     \<and> injected s = length (arrivals s) \<and> count s = length (served s)"

lemma in_service_upd:
  fixes s s' :: ol
  assumes "i < POOL" "tasks s' = (tasks s)(i := x)"
  shows "in_service s' + weight (tasks s i) = in_service s + weight x"
proof -
  have "(\<Sum>j\<in>{..<POOL} - {i}. weight (tasks s' j)) = (\<Sum>j\<in>{..<POOL} - {i}. weight (tasks s j))"
    using assms(2) by (intro sum.cong) auto
  moreover have "in_service s' = weight x + (\<Sum>j\<in>{..<POOL} - {i}. weight (tasks s' j))"
    using sum.remove [OF finite_lessThan, of i POOL "\<lambda>j. weight (tasks s' j)"] assms by (simp add: in_service_def)
  moreover have "in_service s = weight (tasks s i) + (\<Sum>j\<in>{..<POOL} - {i}. weight (tasks s j))"
    using sum.remove [OF finite_lessThan, of i POOL "\<lambda>j. weight (tasks s j)"] assms by (simp add: in_service_def)
  ultimately show ?thesis
    by (simp add: ac_simps)
qed

lemma conserved_same:
  fixes s s' :: ol
  assumes "tasks s' = tasks s" "ring s' = ring s" "arrivals s' = arrivals s" "served s' = served s"
    "injected s' = injected s" "count s' = count s"
  shows "conserved s' = conserved s"
  using assms by (simp add: conserved_def in_service_def)

lemma conserved_producer: "conserved s \<Longrightarrow> conserved (producer s)"
proof (cases "\<not> stop s \<and> rhead (ring s) - rtail (ring s) < RING")
  case True
  assume c: "conserved s"
  then have "ring_wf RING (ring s)" "ring_room RING (ring s)"
    using True by (simp_all add: conserved_def ring_room_def)
  then show ?thesis
    using c True ring_items_put [of RING "ring s" "clock s"] ring_wf_put [of RING "ring s" "clock s"]
    by (simp add: conserved_def producer_def in_service_def)
next
  case False
  assume "conserved s"
  then show ?thesis
    using False conserved_same [of "producer s" s] by (auto simp: producer_def)
qed

lemma conserved_device: "conserved (device_fn t i s) = conserved s"
  by (rule conserved_same) (simp_all add: device_fn_def Let_def)

text \<open>An arrival goes from the ring into service, and from service to the served.\<close>

lemma conserved_take:
  assumes "conserved s" "i < POOL" "state (tasks s i) = FREE" "ring_get RING (ring s) = Some (a, r)"
    and "tasks s' = (tasks s)(i := x)" "state x \<noteq> FREE" "arr x = a" "ring s' = r"
    and "arrivals s' = arrivals s" "served s' = served s" "injected s' = injected s" "count s' = count s"
  shows "conserved s'"
proof -
  have "ring_items RING (ring s) = a # ring_items RING r" "ring_wf RING r"
    using assms(1,4) ring_get_Some ring_wf_get by (auto simp: conserved_def)
  moreover have "in_service s' = in_service s + {#a#}"
    using in_service_upd [OF assms(2,5)] assms(3,6,7) by (simp add: weight_def)
  ultimately show ?thesis
    using assms(1,8-) by (simp add: conserved_def)
qed

lemma conserved_finish:
  assumes "conserved s" "i < POOL" "state (tasks s i) \<noteq> FREE"
    and "tasks s' = (tasks s)(i := x)" "state x = FREE" "ring s' = ring s" "arrivals s' = arrivals s"
    and "served s' = served s @ [arr (tasks s i)]" "injected s' = injected s" "count s' = count s + 1"
  shows "conserved s'"
proof -
  have "in_service s' + {#arr (tasks s i)#} = in_service s"
    using in_service_upd [OF assms(2,4)] assms(3,5) by (simp add: weight_def)
  then have "in_service s = add_mset (arr (tasks s i)) (in_service s')"
    by simp
  then show ?thesis
    using assms(1,6-) by (simp add: conserved_def)
qed

lemma conserved_keep:
  fixes s s' :: ol
  assumes "i < POOL" "tasks s' = (tasks s)(i := x)" "state x \<noteq> FREE" "state (tasks s i) \<noteq> FREE" "arr x = arr (tasks s i)"
    and "ring s' = ring s" "arrivals s' = arrivals s" "served s' = served s" "injected s' = injected s" "count s' = count s"
  shows "conserved s' = conserved s"
proof -
  have "in_service s' = in_service s"
    using in_service_upd [OF assms(1,2)] assms(3-5) by (simp add: weight_def)
  then show ?thesis
    using assms(6-) by (simp add: conserved_def)
qed

section \<open>The pool\<close>

definition queue :: "ol \<Rightarrow> nat list" where
  "queue s = ready s @ (case ctl s of Run is \<Rightarrow> is | _ \<Rightarrow> [])"

definition task_ok :: "ol \<Rightarrow> nat \<Rightarrow> bool" where
  "task_ok s i \<longleftrightarrow>
     (state (tasks s i) = FREE \<longrightarrow> pos (tasks s i) = At_head)
   \<and> (state (tasks s i) = WAIT_OFF \<longrightarrow> pos (tasks s i) = After_offload \<and> active (slots s i))
   \<and> (active (slots s i) \<longrightarrow> state (tasks s i) = WAIT_OFF)"

text \<open>Whether a fiber is on the free list, in the ready queue and in the completion ring, and where it belongs.\<close>

definition places :: "ol \<Rightarrow> nat \<Rightarrow> bool \<times> bool \<times> bool" where
  "places s i = (i \<in> set (freelist s), i \<in> set (queue s), i \<in> set (ring_items CQN (comp s)))"

definition right_places :: "ol \<Rightarrow> nat \<Rightarrow> bool \<times> bool \<times> bool" where
  "right_places s i =
     (state (tasks s i) = FREE, state (tasks s i) = READY \<and> pos (tasks s i) \<noteq> Returned,
      state (tasks s i) = WAIT_OFF \<and> completed (slots s i))"

definition pool_ok :: "ol \<Rightarrow> bool" where
  "pool_ok s \<longleftrightarrow> (\<forall>i < POOL. task_ok s i \<and> places s i = right_places s i)
     \<and> (\<forall>i \<ge> POOL. places s i = (False, False, False))
     \<and> distinct (freelist s) \<and> distinct (queue s) \<and> distinct (ring_items CQN (comp s)) \<and> ring_wf CQN (comp s)
     \<and> (\<forall>is. ctl s = Run is \<longrightarrow> ready s = [])"

lemma pool_in:
  assumes "pool_ok s"
  shows "i \<in> set (freelist s) \<longleftrightarrow> i < POOL \<and> state (tasks s i) = FREE"
    and "i \<in> set (queue s) \<longleftrightarrow> i < POOL \<and> state (tasks s i) = READY \<and> pos (tasks s i) \<noteq> Returned"
    and "i \<in> set (ring_items CQN (comp s)) \<longleftrightarrow> i < POOL \<and> state (tasks s i) = WAIT_OFF \<and> completed (slots s i)"
  using assms by (cases "i < POOL"; simp add: pool_ok_def places_def right_places_def)+

lemma pool_lists:
  "pool_ok s \<Longrightarrow> distinct (freelist s)" "pool_ok s \<Longrightarrow> distinct (queue s)"
  "pool_ok s \<Longrightarrow> distinct (ring_items CQN (comp s))" "pool_ok s \<Longrightarrow> ring_wf CQN (comp s)"
  "pool_ok s \<Longrightarrow> ctl s = Run is \<Longrightarrow> ready s = []" "pool_ok s \<Longrightarrow> i < POOL \<Longrightarrow> task_ok s i"
  by (simp_all add: pool_ok_def)

lemma in_pool: "distinct xs \<Longrightarrow> set xs \<subseteq> {..<POOL} \<Longrightarrow> length xs \<le> POOL"
  using card_mono [of "{..<POOL}" "set xs"] distinct_card [of xs] by simp

lemma comp_short: "pool_ok s \<Longrightarrow> length (ring_items CQN (comp s)) \<le> POOL"
  by (rule in_pool) (auto simp: pool_in pool_lists)

lemma queue_short: "pool_ok s \<Longrightarrow> length (queue s) \<le> POOL"
  by (rule in_pool) (auto simp: pool_in pool_lists)

lemma comp_room: "pool_ok s \<Longrightarrow> ring_room CQN (comp s)"
  using comp_short [of s] by (simp add: ring_items_def ring_room_def CQN_def POOL_def)

text \<open>
  A step that moves fiber \<open>i\<close> only: it is enough that \<open>i\<close> is in the right place afterwards and that the other fibers
  stay in theirs.
\<close>

lemma pool_move:
  assumes p: "pool_ok s" and i: "i < POOL"
    and t: "\<And>j. j \<noteq> i \<Longrightarrow> tasks s' j = tasks s j" "\<And>j. j \<noteq> i \<Longrightarrow> slots s' j = slots s j"
    and ok: "task_ok s' i" "places s' i = right_places s' i"
    and others: "\<And>j. j \<noteq> i \<Longrightarrow> places s' j = places s j"
    and d: "distinct (freelist s')" "distinct (queue s')" "distinct (ring_items CQN (comp s'))" "ring_wf CQN (comp s')"
    and r: "\<And>is. ctl s' = Run is \<Longrightarrow> ready s' = []"
  shows "pool_ok s'"
proof -
  have "task_ok s' j \<and> places s' j = right_places s' j" if "j < POOL" for j
  proof (cases "j = i")
    case True
    then show ?thesis
      using ok by simp
  next
    case False
    then have "task_ok s' j = task_ok s j" "right_places s' j = right_places s j"
      using t by (simp_all add: task_ok_def right_places_def)
    then show ?thesis
      using p that others [OF False] unfolding pool_ok_def by simp
  qed
  moreover have "places s' j = (False, False, False)" if "POOL \<le> j" for j
    using p that others [of j] i unfolding pool_ok_def by (cases "j = i") auto
  ultimately show ?thesis
    using d r unfolding pool_ok_def by simp
qed

lemma pool_device:
  assumes p: "pool_ok s"
  shows "pool_ok (device_fn t i s)"
proof (cases "i < POOL \<and> active (slots s i) \<and> \<not> completed (slots s i) \<and> deadline (slots s i) \<le> t")
  case True
  define s' where "s' = device_fn t i s"
  have s': "slots s' = (slots s)(i := (slots s i)\<lparr>completed := True\<rparr>)" "comp s' = ring_put CQN i (comp s)"
    "tasks s' = tasks s" "freelist s' = freelist s" "ready s' = ready s" "ctl s' = ctl s"
    using True by (simp_all add: s'_def device_fn_def Let_def)
  have w: "state (tasks s i) = WAIT_OFF" "pos (tasks s i) = After_offload"
    using pool_lists(6) [OF p, of i] True by (auto simp: task_ok_def)
  have room: "ring_room CQN (comp s)"
    by (rule comp_room [OF p])
  have items: "ring_items CQN (comp s') = ring_items CQN (comp s) @ [i]"
    using ring_items_put [OF pool_lists(4) [OF p] room] by (simp add: s')
  have q: "queue s' = queue s"
    by (simp add: queue_def s')
  have "pool_ok s'"
  proof (rule pool_move [OF p, of i])
    show "i < POOL"
      using True by simp
    show "task_ok s' i"
      using pool_lists(6) [OF p, of i] True by (simp add: task_ok_def s')
    show "places s' i = right_places s' i"
      using w by (simp add: places_def right_places_def items q) (simp add: s' pool_in [OF p] w)
    show "distinct (ring_items CQN (comp s'))"
      using pool_in(3) [OF p, of i] True pool_lists(3) [OF p] by (simp add: items)
    show "ring_wf CQN (comp s')"
      using ring_wf_put [OF pool_lists(4) [OF p] room] by (simp add: s')
    show "places s' j = places s j" if "j \<noteq> i" for j
      using that by (simp add: places_def items q) (simp add: s')
  qed (use pool_lists [OF p] in \<open>simp_all add: s' q\<close>)
  then show ?thesis
    by (simp add: s'_def)
next
  case False
  then have "device_fn t i s = s"
    by (auto simp: device_fn_def Let_def)
  then show ?thesis
    using p by simp
qed

lemma pool_same:
  fixes s s' :: ol
  assumes "tasks s' = tasks s" "slots s' = slots s" "freelist s' = freelist s" "queue s' = queue s" "comp s' = comp s"
    and "\<And>is. ctl s' = Run is \<Longrightarrow> ready s' = []" "pool_ok s"
  shows "pool_ok s'"
  using assms by (simp add: pool_ok_def places_def right_places_def task_ok_def)

lemma pool_assign:
  assumes p: "pool_ok s" and c: "ctl s = Assign"
  shows "pool_ok (assign_step s)"
proof (cases "\<exists>a r i fs. ring_get RING (ring s) = Some (a, r) \<and> freelist s = i # fs")
  case True
  then obtain a r i fs where g: "ring_get RING (ring s) = Some (a, r)" "freelist s = i # fs"
    by blast
  define s' where "s' = assign_step s"
  have s': "slots s' = slots s" "comp s' = comp s" "tasks s' = (tasks s)(i := (tasks s i)\<lparr>arr := a, state := READY\<rparr>)"
    "freelist s' = fs" "ready s' = ready s @ [i]" "ctl s' = Assign"
    using g c by (simp_all add: s'_def assign_step_def set_task_def)
  have q: "queue s' = queue s @ [i]"
    by (simp add: queue_def s' c)
  have i: "i < POOL" "state (tasks s i) = FREE" "pos (tasks s i) = At_head"
    using pool_in(1) [OF p, of i] pool_lists(6) [OF p, of i] g by (auto simp: task_ok_def)
  have d: "distinct (i # fs)"
    using pool_lists(1) [OF p] g by simp
  have "pool_ok s'"
  proof (rule pool_move [OF p i(1)])
    show "task_ok s' i"
      using pool_lists(6) [OF p i(1)] i by (simp add: task_ok_def s')
    show "places s' i = right_places s' i"
      using d pool_in(3) [OF p, of i] i by (simp add: places_def right_places_def s' q)
    show "distinct (queue s')"
      using pool_in(2) [OF p, of i] i pool_lists(2) [OF p] by (simp add: q)
    show "distinct (freelist s')"
      using d by (simp add: s')
    show "places s' j = places s j" if "j \<noteq> i" for j
      using that g by (simp add: places_def s' q)
  qed (use pool_lists [OF p] in \<open>simp_all add: s'\<close>)
  then show ?thesis
    by (simp add: s'_def)
next
  case False
  then have "assign_step s = s\<lparr>ctl := Drain\<rparr>"
    by (auto simp: assign_step_def split: option.split list.split)
  then show ?thesis
    using p c by (intro pool_same [of "assign_step s" s]) (simp_all add: queue_def)
qed

lemma pool_drain:
  assumes p: "pool_ok s" and c: "ctl s = Drain"
  shows "pool_ok (drain_step s)"
proof (cases "ring_get CQN (comp s)")
  case None
  then show ?thesis
    using p c by (intro pool_same [of "drain_step s" s]) (simp_all add: drain_step_def queue_def)
next
  case (Some g)
  then obtain i r where g: "ring_get CQN (comp s) = Some (i, r)"
    by (cases g) simp
  have items: "ring_items CQN (comp s) = i # ring_items CQN r" "ring_wf CQN r"
    using ring_get_Some [OF pool_lists(4) [OF p] g] ring_wf_get [OF pool_lists(4) [OF p] g] by simp_all
  have i: "i < POOL" "state (tasks s i) = WAIT_OFF" "completed (slots s i)"
    using pool_in(3) [OF p, of i] items by simp_all
  have pos: "pos (tasks s i) = After_offload"
    using pool_lists(6) [OF p i(1)] i by (simp add: task_ok_def)
  define s' where "s' = drain_step s"
  have s': "slots s' = (slots s)(i := (slots s i)\<lparr>active := False\<rparr>)" "comp s' = r"
    "tasks s' = (tasks s)(i := (tasks s i)\<lparr>state := READY\<rparr>)" "freelist s' = freelist s" "ready s' = ready s @ [i]" "ctl s' = Drain"
    using g c i by (simp_all add: s'_def drain_step_def set_task_def retire_def)
  have q: "queue s' = queue s @ [i]"
    by (simp add: queue_def s' c)
  have d: "distinct (i # ring_items CQN r)"
    using pool_lists(3) [OF p] items by simp
  have "pool_ok s'"
  proof (rule pool_move [OF p i(1)])
    show "task_ok s' i"
      by (simp add: task_ok_def s')
    show "places s' i = right_places s' i"
      using d pool_in(1) [OF p, of i] i pos by (simp add: places_def right_places_def s' q)
    show "distinct (queue s')"
      using pool_in(2) [OF p, of i] i pool_lists(2) [OF p] by (simp add: q)
    show "places s' j = places s j" if "j \<noteq> i" for j
      using that items by (simp add: places_def s' q)
  qed (use pool_lists [OF p] d items in \<open>simp_all add: s'\<close>)
  then show ?thesis
    by (simp add: s'_def)
qed

text \<open>A fiber that the dispatcher enters ends, waits for the accelerator or is free again.\<close>

lemma pool_run:
  assumes p: "pool_ok s" and c: "ctl s = Run (i # is)"
  shows "pool_ok (task_body L w i (s\<lparr>ctl := Run is\<rparr>))"
proof -
  have r: "ready s = []"
    by (rule pool_lists(5) [OF p c])
  have q: "queue s = i # is"
    by (simp add: queue_def c r)
  have i: "i < POOL" "state (tasks s i) = READY" "pos (tasks s i) \<noteq> Returned"
    using pool_in(2) [OF p, of i] q by simp_all
  have d: "distinct (i # is)"
    using pool_lists(2) [OF p] q by simp
  have out: "i \<notin> set (freelist s)" "i \<notin> set (ring_items CQN (comp s))"
    using pool_in [OF p, of i] i by simp_all
  have na: "\<not> active (slots s i)"
    using pool_lists(6) [OF p i(1)] i by (auto simp: task_ok_def)
  let ?s = "task_body L w i (s\<lparr>ctl := Run is\<rparr>)"
  note defs = task_body_def set_task_def submit_def record_lat_def Let_def
  have frame: "comp ?s = comp s" "ready ?s = []" "ctl ?s = Run is"
    "freelist ?s = (if \<not> stop s \<and> pos (tasks s i) = After_offload then i # freelist s else freelist s)"
    by (simp_all add: defs r split: tpos.split)
  have q': "queue ?s = is"
    by (simp add: queue_def frame)
  show ?thesis
  proof (rule pool_move [OF p i(1)])
    show "task_ok ?s i"
      using i na by (cases "pos (tasks s i)") (simp_all add: task_ok_def defs)
    show "places ?s i = right_places ?s i"
      using i d out unfolding places_def q' frame
      by (cases "pos (tasks s i)") (simp_all add: right_places_def defs)
    show "tasks ?s j = tasks s j" "slots ?s j = slots s j" if "j \<noteq> i" for j
      using that by (simp_all add: defs split: tpos.split)
    show "places ?s j = places s j" if "j \<noteq> i" for j
      using that q by (simp add: places_def q' frame)
  qed (use pool_lists [OF p] d out q' in \<open>simp_all add: frame\<close>)
qed

lemma pool_coro:
  assumes p: "pool_ok s"
  shows "pool_ok (srv_coro L w s)"
proof (cases "ctl s")
  case Assign
  then show ?thesis
    using pool_assign [OF p] by (simp add: srv_coro_def)
next
  case Drain
  then show ?thesis
    using pool_drain [OF p] by (simp add: srv_coro_def)
next
  case (Run ks)
  show ?thesis
  proof (cases ks)
    case Nil
    then show ?thesis
      using p Run by (intro pool_same [of "srv_coro L w s" s]) (simp_all add: srv_coro_def queue_def pool_lists(5))
  next
    case (Cons i js)
    then have "state (tasks s i) = READY"
      using pool_in(2) [OF p, of i] Run by (simp add: queue_def)
    then show ?thesis
      using pool_run [OF p, of i js] Run Cons by (simp add: srv_coro_def)
  qed
next
  case Ended
  then show ?thesis
    using p by (simp add: srv_coro_def)
qed

lemma pool_start: "pool_ok srv_start"
  by (auto simp: pool_ok_def places_def right_places_def task_ok_def srv_start_def queue_def ring_items_def ring_wf_def ring_empty_def)

lemma pool_tick:
  assumes "pool_ok s" "tasks s' = tasks s" "slots s' = slots s" "freelist s' = freelist s" "ready s' = ready s"
    "ctl s' = ctl s" "comp s' = comp s"
  shows "pool_ok s'"
proof (rule pool_same [OF assms(2-4) _ assms(7) _ assms(1)])
  show "queue s' = queue s"
    using assms by (simp add: queue_def)
  show "ready s' = []" if "ctl s' = Run is" for "is"
    using that assms pool_lists(5) [OF assms(1)] by simp
qed

lemma pool_step:
  assumes "pool_ok s" "coro_event e"
  shows "pool_ok (ol_step L w e s)"
proof (cases e)
  case (O_device t i)
  then show ?thesis
    using assms pool_device by simp
next
  case O_server
  then show ?thesis
    using assms pool_coro by simp
next
  case (O_clock d)
  then show ?thesis
    by (intro pool_tick [OF assms(1)]) simp_all
next
  case O_stop
  then show ?thesis
    by (intro pool_tick [OF assms(1)]) simp_all
next
  case O_produce
  then show ?thesis
    by (intro pool_tick [OF assms(1)]) (simp_all add: producer_def)
qed (use assms in \<open>simp_all add: coro_event_def\<close>)

lemma pool_fold: "list_all coro_event es \<Longrightarrow> pool_ok s \<Longrightarrow> pool_ok (fold (ol_step L w) es s)"
  by (induction es arbitrary: s) (simp_all add: pool_step)

section \<open>Conservation in both modes\<close>

lemma conserved_assign:
  assumes p: "pool_ok s" and c: "conserved s"
  shows "conserved (assign_step s)"
proof (cases "\<exists>a r i fs. ring_get RING (ring s) = Some (a, r) \<and> freelist s = i # fs")
  case True
  then obtain a r i fs where g: "ring_get RING (ring s) = Some (a, r)" "freelist s = i # fs"
    by blast
  have i: "i < POOL" "state (tasks s i) = FREE"
    using pool_in(1) [OF p, of i] g by simp_all
  show ?thesis
    by (rule conserved_take [OF c i g(1), of _ "(tasks s i)\<lparr>arr := a, state := READY\<rparr>"])
      (simp_all add: assign_step_def g set_task_def)
next
  case False
  then have "assign_step s = s\<lparr>ctl := Drain\<rparr>"
    by (auto simp: assign_step_def split: option.split list.split)
  then show ?thesis
    using c conserved_same [of "s\<lparr>ctl := Drain\<rparr>" s] by simp
qed

lemma conserved_drain:
  assumes p: "pool_ok s" and c: "conserved s"
  shows "conserved (drain_step s)"
proof (cases "ring_get CQN (comp s)")
  case None
  then show ?thesis
    using c conserved_same [of "drain_step s" s] by (simp add: drain_step_def)
next
  case (Some g)
  then obtain i r where g: "ring_get CQN (comp s) = Some (i, r)"
    by (cases g) simp
  have i: "i < POOL" "state (tasks s i) = WAIT_OFF"
    using pool_in(3) [OF p, of i] ring_get_Some [OF pool_lists(4) [OF p] g] by simp_all
  have "conserved (drain_step s) = conserved s"
    by (rule conserved_keep [OF i(1), of _ _ "(tasks s i)\<lparr>state := READY\<rparr>"])
      (simp_all add: drain_step_def g i set_task_def retire_def)
  then show ?thesis
    using c by simp
qed

lemma conserved_run:
  assumes p: "pool_ok s" and c: "conserved s" and ctl: "ctl s = Run (i # js)"
  shows "conserved (task_body L w i (s\<lparr>ctl := Run js\<rparr>))"
proof -
  let ?s = "s\<lparr>ctl := Run js\<rparr>"
  have i: "i < POOL" "state (tasks s i) = READY" "pos (tasks s i) \<noteq> Returned"
    using pool_in(2) [OF p, of i] ctl by (simp_all add: queue_def)
  note defs = task_body_def set_task_def submit_def record_lat_def Let_def
  consider "stop s" | "\<not> stop s" "pos (tasks s i) = At_head" | "\<not> stop s" "pos (tasks s i) = After_offload"
    using i by (cases "pos (tasks s i)") auto
  then show ?thesis
  proof cases
    case 1
    have "conserved (task_body L w i ?s) = conserved s"
      by (rule conserved_keep [OF i(1), of _ _ "(tasks s i)\<lparr>pos := Returned\<rparr>"]) (simp_all add: defs 1 i)
    then show ?thesis
      using c by simp
  next
    case 2
    have "conserved (task_body L w i ?s) = conserved s"
      by (rule conserved_keep [OF i(1), of _ _ "(tasks s i)\<lparr>state := WAIT_OFF, pos := After_offload\<rparr>"]) (simp_all add: defs 2 i)
    then show ?thesis
      using c by simp
  next
    case 3
    show ?thesis
      by (rule conserved_finish [OF c i(1), of _ "(tasks s i)\<lparr>state := FREE, pos := At_head\<rparr>"]) (simp_all add: defs 3 i)
  qed
qed

lemma conserved_coro:
  assumes p: "pool_ok s" and c: "conserved s"
  shows "conserved (srv_coro L w s)"
proof (cases "ctl s")
  case (Run ks)
  show ?thesis
  proof (cases ks)
    case Nil
    then show ?thesis
      using Run c conserved_same [of "srv_coro L w s" s] by (simp add: srv_coro_def)
  next
    case (Cons i js)
    then have "state (tasks s i) = READY"
      using pool_in(2) [OF p, of i] Run by (simp add: queue_def)
    then show ?thesis
      using conserved_run [OF p c, of i js] Run Cons by (simp add: srv_coro_def)
  qed
qed (use conserved_assign [OF p c] conserved_drain [OF p c] c in \<open>simp_all add: srv_coro_def\<close>)

lemma conserved_block_take:
  assumes c: "conserved s" and i: "i < POOL"
  shows "conserved (block_take L i s)"
proof (cases "state (tasks s i) \<noteq> FREE \<or> stop s \<or> ring_get RING (ring s) = None")
  case True
  then show ?thesis
    using c by (auto simp: block_take_def)
next
  case False
  then obtain a r where g: "state (tasks s i) = FREE" "ring_get RING (ring s) = Some (a, r)"
    by auto
  show ?thesis
    by (rule conserved_take [OF c i g, of _ "(tasks s i)\<lparr>arr := a, state := WAIT_OFF\<rparr>"])
      (use False g in \<open>simp_all add: block_take_def submit_def set_task_def\<close>)
qed

lemma conserved_block_finish:
  assumes c: "conserved s" and i: "i < POOL"
  shows "conserved (block_finish w i s)"
proof (cases "state (tasks s i) = WAIT_OFF \<and> completed (slots s i)")
  case True
  show ?thesis
    by (rule conserved_finish [OF c i, of _ "(tasks s i)\<lparr>state := FREE\<rparr>"])
      (use True in \<open>simp_all add: block_finish_def record_lat_def retire_def set_task_def Let_def\<close>)
next
  case False
  then show ?thesis
    using c by (auto simp: block_finish_def)
qed

lemma conserved_tick:
  assumes "conserved s"
  shows "conserved (s\<lparr>clock := t\<rparr>)" "conserved (s\<lparr>stop := b\<rparr>)"
  using assms conserved_same [of "s\<lparr>clock := t\<rparr>" s] conserved_same [of "s\<lparr>stop := b\<rparr>" s] by simp_all

lemma conserved_step:
  assumes c: "conserved s" and e: "e = O_server \<Longrightarrow> pool_ok s"
  shows "conserved (ol_step L w e s)"
  by (cases e)
    (use c e conserved_tick [OF c] conserved_producer conserved_device conserved_coro conserved_block_take conserved_block_finish
      in \<open>simp_all\<close>)

lemma conserved_start: "conserved srv_start"
  by (simp add: conserved_def srv_start_def in_service_def weight_def)

lemma conserved_fold_coro: "list_all coro_event es \<Longrightarrow> pool_ok s \<Longrightarrow> conserved s \<Longrightarrow> conserved (fold (ol_step L w) es s)"
  by (induction es arbitrary: s) (simp_all add: pool_step conserved_step)

lemma conserved_fold_block: "list_all block_event es \<Longrightarrow> conserved s \<Longrightarrow> conserved (fold (ol_step L w) es s)"
proof (induction es arbitrary: s)
  case (Cons e es)
  then show ?case
    using conserved_step [of s e L w] by (simp add: block_event_def)
qed simp

text \<open>C9: Open-loop load, in both modes and every interleaving of the producer, the accelerator, the clock and the server:
  every injected arrival is in exactly one place. It has been served, it is in service, or it still waits in the arrival
  ring, as often as it arrived; no arrival is served twice and none is lost, and the counters of the experiment are
  exact.\<close>

theorem every_arrival_accounted:
  assumes "list_all coro_event es \<or> list_all block_event es" and "s = ol_run L w es"
  shows "mset (arrivals s) = mset (served s) + in_service s + mset (ring_items RING (ring s))
     \<and> injected s = length (arrivals s) \<and> count s = length (served s)"
proof -
  have "conserved s"
    using assms conserved_fold_coro [OF _ pool_start conserved_start] conserved_fold_block [OF _ conserved_start]
    by (auto simp: ol_run_def)
  then show ?thesis
    by (simp add: conserved_def)
qed

text \<open>In the coroutine mode each of the fibers is in at most one of the free list, the ready queue and the completion
  ring, and is queued at most once, so that the arrays behind the three never overflow although the code has no check.\<close>

theorem fiber_in_one_place:
  assumes "list_all coro_event es" and "s = ol_run L w es"
  shows "distinct (freelist s @ queue s @ ring_items CQN (comp s)) \<and> length (freelist s) \<le> POOL
     \<and> length (ready s) \<le> POOL \<and> rhead (comp s) - rtail (comp s) \<le> POOL"
proof (intro conjI)
  have p: "pool_ok s"
    using pool_fold [OF assms(1) pool_start] assms(2) by (simp add: ol_run_def)
  show "distinct (freelist s @ queue s @ ring_items CQN (comp s))"
    using pool_lists [OF p] by (auto simp: pool_in [OF p])
  show "length (freelist s) \<le> POOL"
    by (rule in_pool) (auto simp: pool_in [OF p] pool_lists [OF p])
  show "length (ready s) \<le> POOL"
    using queue_short [OF p] by (simp add: queue_def)
  show "rhead (comp s) - rtail (comp s) \<le> POOL"
    using comp_short [OF p] by (simp add: ring_items_def)
qed

text \<open>A fiber of the pool serves an arrival at 3 whose offload ends at 13.\<close>

definition ol_demo :: "ol_event list" where
  "ol_demo = [O_server, O_clock 3, O_produce, O_server, O_server, O_server, O_server, O_clock 10, O_device 13 1023, O_server, O_server,
     O_produce, O_server, O_server, O_server]"

lemmas ol_eval = ol_run_def srv_coro_def assign_step_def drain_step_def task_body_def device_fn_def producer_def
  record_lat_def submit_def retire_def set_task_def ring_put_def ring_get_def ring_empty_def Let_def

lemma freelist_top: "\<exists>fs. freelist srv_start = 1023 # fs"
proof -
  have "[0..<POOL] = [0..<1023] @ [1023]"
    using upt_Suc_append [of 0 1023] by (simp only: POOL_def) simp
  then show ?thesis
    unfolding srv_start_def by (simp only: rev_append ol.simps) simp
qed

lemma start_sel:
  "clock srv_start = 0" "stop srv_start = False" "comp srv_start = ring_empty 0" "ring srv_start = ring_empty 0"
  "ready srv_start = []" "ctl srv_start = Run []" "arrivals srv_start = []" "served srv_start = []" "latn srv_start = 0"
  "tasks srv_start i = \<lparr>state = FREE, arr = 0, pos = At_head\<rparr>"
  by (simp_all add: srv_start_def)

lemma ol_demo_runs:
  "served (ol_run 10 0 ol_demo) = [3]" "arrivals (ol_run 10 0 ol_demo) = [3, 13]" "lat (ol_run 10 0 ol_demo) 0 = 10"
proof -
  obtain fs where "freelist srv_start = 1023 # fs"
    using freelist_top by blast
  then show "served (ol_run 10 0 ol_demo) = [3]" "arrivals (ol_run 10 0 ol_demo) = [3, 13]" "lat (ol_run 10 0 ol_demo) 0 = 10"
    by (simp_all add: ol_demo_def ol_eval start_sel RING_def CQN_def POOL_def)
qed

theorem every_arrival_accounted_witness:
  "served (ol_run 10 0 ol_demo) = [3]
   \<and> {#3, 13#} = {#3#} + in_service (ol_run 10 0 ol_demo) + mset (ring_items RING (ring (ol_run 10 0 ol_demo)))"
  using every_arrival_accounted [of ol_demo _ 10 0, OF _ refl] ol_demo_runs by (simp add: ol_demo_def coro_event_def)

theorem fiber_in_one_place_witness:
  "served (ol_run 10 0 ol_demo) = [3] \<and> length (ready (ol_run 10 0 ol_demo)) \<le> POOL"
  using fiber_in_one_place [of ol_demo _ 10 0, OF _ refl] ol_demo_runs by (simp add: ol_demo_def coro_event_def)

end
