(* ===== verification/InferSkel.thy ===== *)
theory InferSkel
  imports Prelude "HOL-Library.Multiset"
begin

text \<open>
  The inference-server experiment \<open>conflict-measurement/inference_skel.c\<close>: handler threads that take blocks of a shared
  allocator, offload, and give them back, with or without a lock around the allocator and the batch queue. Every load
  and store of the shared variables is a step of its own, so that the handlers can interleave anywhere.
\<close>

section \<open>State\<close>

definition NBLOCK :: nat where "NBLOCK = 2048"
definition NREQ_BLOCKS :: nat where "NREQ_BLOCKS = 4"
definition QN :: nat where "QN = 4096"

text \<open>The three sections between \<open>lk\<close> and \<open>ul\<close>, and the points of a handler.\<close>

datatype sect = Sched | Prefill | Decode

datatype hpc =
    Lock sect
  | Unlock sect
  | Enq
  | Enq_write nat
  | Alloc nat
  | Alloc_top nat nat
  | Alloc_check nat nat
  | Alloc_set nat nat
  | Offload
  | Free nat
  | Free_push nat nat
  | Free_write nat nat nat
  | Deq
  | Handled
  | Gone

text \<open>A handler thread; \<open>mine\<close> has \<open>None\<close> for the \<open>-1\<close> of a block it did not get.\<close>

record hthread =
  pc :: hpc
  iter :: nat
  mine :: "nat \<Rightarrow> nat option"

text \<open>The shared state; \<open>block_owner\<close> has \<open>None\<close> for \<open>-1\<close>, and \<open>mtx\<close> is the thread that holds the lock.\<close>

record skel =
  free_list :: "nat \<Rightarrow> nat"
  free_top :: nat
  block_owner :: "nat \<Rightarrow> nat option"
  double_alloc :: nat
  handled :: nat
  q_buf :: "nat \<Rightarrow> nat \<times> nat"
  q_head :: nat
  q_tail :: nat
  mtx :: "nat option"
  threads :: "nat \<Rightarrow> hthread"

record skel_conf =
  LOCKED :: bool
  NTHREAD :: nat
  ITERS :: nat

definition main_conf :: "string list \<Rightarrow> skel_conf" where
  "main_conf argv =
     \<lparr>LOCKED = (1 < length argv \<and> argv ! 1 = ''locked''),
      NTHREAD = (if 2 < length argv then nat (atoi (argv ! 2)) else 8),
      ITERS = (if 3 < length argv then nat (atoi (argv ! 3)) else 20000)\<rparr>"

section \<open>A handler\<close>

definition set_pc :: "nat \<Rightarrow> hpc \<Rightarrow> skel \<Rightarrow> skel" where
  "set_pc i p s = s\<lparr>threads := (threads s)(i := (threads s i)\<lparr>pc := p\<rparr>)\<rparr>"

fun sect_start :: "sect \<Rightarrow> hpc" where
  "sect_start Sched = Enq"
| "sect_start Prefill = Alloc 0"
| "sect_start Decode = Free 0"

fun sect_end :: "sect \<Rightarrow> hpc" where
  "sect_end Sched = Lock Prefill"
| "sect_end Prefill = Offload"
| "sect_end Decode = Handled"

definition lk :: "skel_conf \<Rightarrow> nat \<Rightarrow> sect \<Rightarrow> skel \<Rightarrow> skel" where
  "lk cf i x s =
     (if \<not> LOCKED cf then set_pc i (sect_start x) s
      else if mtx s = None then set_pc i (sect_start x) (s\<lparr>mtx := Some i\<rparr>) else s)"

definition ul :: "skel_conf \<Rightarrow> nat \<Rightarrow> sect \<Rightarrow> skel \<Rightarrow> skel" where
  "ul cf i x s = set_pc i (sect_end x) (if LOCKED cf then s\<lparr>mtx := None\<rparr> else s)"

text \<open>Taking a block: load \<open>free_top\<close>, store it and load the entry, check the owner, store the owner.\<close>

definition alloc_block :: "nat \<Rightarrow> nat \<Rightarrow> skel \<Rightarrow> skel" where
  "alloc_block i b s =
     (if NREQ_BLOCKS \<le> b then set_pc i (Unlock Prefill) s
      else if 0 < free_top s then set_pc i (Alloc_top b (free_top s)) s
      else s\<lparr>threads := (threads s)(i := (threads s i)\<lparr>mine := (mine (threads s i))(b := None), pc := Alloc (b + 1)\<rparr>)\<rparr>)"

definition alloc_top :: "nat \<Rightarrow> nat \<Rightarrow> nat \<Rightarrow> skel \<Rightarrow> skel" where
  "alloc_top i b t s =
     (let blk = free_list s (t - 1)
      in s\<lparr>free_top := t - 1,
           threads := (threads s)(i := (threads s i)\<lparr>mine := (mine (threads s i))(b := Some blk), pc := Alloc_check b blk\<rparr>)\<rparr>)"

definition alloc_check :: "nat \<Rightarrow> nat \<Rightarrow> nat \<Rightarrow> skel \<Rightarrow> skel" where
  "alloc_check i b blk s =
     set_pc i (Alloc_set b blk) (if block_owner s blk \<noteq> None then s\<lparr>double_alloc := double_alloc s + 1\<rparr> else s)"

definition alloc_set :: "nat \<Rightarrow> nat \<Rightarrow> nat \<Rightarrow> skel \<Rightarrow> skel" where
  "alloc_set i b blk s = set_pc i (Alloc (b + 1)) (s\<lparr>block_owner := (block_owner s)(blk := Some i)\<rparr>)"

text \<open>Giving a block back: store the owner, load \<open>free_top\<close>, store the entry and \<open>free_top\<close>.\<close>

definition free_block :: "nat \<Rightarrow> nat \<Rightarrow> skel \<Rightarrow> skel" where
  "free_block i b s =
     (if NREQ_BLOCKS \<le> b then set_pc i Deq s
      else case mine (threads s i) b of
             None \<Rightarrow> set_pc i (Free (b + 1)) s
           | Some blk \<Rightarrow> set_pc i (Free_push b blk) (s\<lparr>block_owner := (block_owner s)(blk := None)\<rparr>))"

definition free_write :: "nat \<Rightarrow> nat \<Rightarrow> nat \<Rightarrow> nat \<Rightarrow> skel \<Rightarrow> skel" where
  "free_write i b blk t s = set_pc i (Free (b + 1)) (s\<lparr>free_list := (free_list s)(t := blk), free_top := t + 1\<rparr>)"

definition handler :: "skel_conf \<Rightarrow> nat \<Rightarrow> skel \<Rightarrow> skel" where
  "handler cf i s =
     (case pc (threads s i) of
        Lock x \<Rightarrow> lk cf i x s
      | Unlock x \<Rightarrow> ul cf i x s
      | Enq \<Rightarrow> set_pc i (Enq_write (q_head s)) (s\<lparr>q_buf := (q_buf s)(q_head s mod QN := (i, iter (threads s i)))\<rparr>)
      | Enq_write h \<Rightarrow> set_pc i (Unlock Sched) (s\<lparr>q_head := h + 1\<rparr>)
      | Alloc b \<Rightarrow> alloc_block i b s
      | Alloc_top b t \<Rightarrow> alloc_top i b t s
      | Alloc_check b blk \<Rightarrow> alloc_check i b blk s
      | Alloc_set b blk \<Rightarrow> alloc_set i b blk s
      | Offload \<Rightarrow> set_pc i (Lock Decode) s
      | Free b \<Rightarrow> free_block i b s
      | Free_push b blk \<Rightarrow> set_pc i (Free_write b blk (free_top s)) s
      | Free_write b blk t \<Rightarrow> free_write i b blk t s
      | Deq \<Rightarrow> set_pc i (Unlock Decode) (if q_tail s < q_head s then s\<lparr>q_tail := q_tail s + 1\<rparr> else s)
      | Handled \<Rightarrow>
          (let n = iter (threads s i) + 1
           in s\<lparr>handled := handled s + 1,
                threads := (threads s)(i := (threads s i)\<lparr>iter := n, pc := (if n < ITERS cf then Lock Sched else Gone)\<rparr>)\<rparr>)
      | Gone \<Rightarrow> s)"

definition skel0 :: "skel_conf \<Rightarrow> skel" where
  "skel0 cf = \<lparr>free_list = (\<lambda>i. i), free_top = NBLOCK, block_owner = (\<lambda>_. None), double_alloc = 0, handled = 0,
     q_buf = (\<lambda>_. (0, 0)), q_head = 0, q_tail = 0, mtx = None,
     threads = (\<lambda>_. \<lparr>pc = (if 0 < ITERS cf then Lock Sched else Gone), iter = 0, mine = (\<lambda>_. None)\<rparr>)\<rparr>"

text \<open>A run: the threads that make the steps, in their order. The three figures that \<open>main\<close> prints at the end.\<close>

definition skel_run :: "skel_conf \<Rightarrow> nat list \<Rightarrow> skel" where
  "skel_run cf is = fold (\<lambda>i s. if i < NTHREAD cf then handler cf i s else s) is (skel0 cf)"

definition blocks_leaked :: "skel \<Rightarrow> int" where
  "blocks_leaked s = int NBLOCK - int (free_top s)"

definition still_owned :: "skel \<Rightarrow> nat" where
  "still_owned s = length (filter (\<lambda>b. block_owner s b \<noteq> None) [0..<NBLOCK])"

section \<open>Who has which block\<close>

definition blocks :: "(nat \<Rightarrow> nat option) \<Rightarrow> nat \<Rightarrow> nat \<Rightarrow> nat list" where
  "blocks m lo hi = concat (map (\<lambda>b. case m b of None \<Rightarrow> [] | Some x \<Rightarrow> [x]) [lo..<hi])"

text \<open>The blocks a handler has taken, and those of them it is registered for.\<close>

fun holding_at :: "hpc \<Rightarrow> (nat \<Rightarrow> nat option) \<Rightarrow> nat list" where
  "holding_at (Alloc b) m = blocks m 0 b"
| "holding_at (Alloc_top b t) m = blocks m 0 b"
| "holding_at (Alloc_check b blk) m = blocks m 0 b @ [blk]"
| "holding_at (Alloc_set b blk) m = blocks m 0 b @ [blk]"
| "holding_at (Unlock Prefill) m = blocks m 0 NREQ_BLOCKS"
| "holding_at Offload m = blocks m 0 NREQ_BLOCKS"
| "holding_at (Lock Decode) m = blocks m 0 NREQ_BLOCKS"
| "holding_at (Free b) m = blocks m b NREQ_BLOCKS"
| "holding_at (Free_push b blk) m = blk # blocks m (b + 1) NREQ_BLOCKS"
| "holding_at (Free_write b blk t) m = blk # blocks m (b + 1) NREQ_BLOCKS"
| "holding_at p m = []"

fun marked_at :: "hpc \<Rightarrow> (nat \<Rightarrow> nat option) \<Rightarrow> nat list" where
  "marked_at (Alloc_check b blk) m = blocks m 0 b"
| "marked_at (Alloc_set b blk) m = blocks m 0 b"
| "marked_at (Free_push b blk) m = blocks m (b + 1) NREQ_BLOCKS"
| "marked_at (Free_write b blk t) m = blocks m (b + 1) NREQ_BLOCKS"
| "marked_at p m = holding_at p m"

text \<open>What a handler relies on at the points inside a section.\<close>

fun point_ok :: "skel \<Rightarrow> hthread \<Rightarrow> bool" where
  "point_ok s th =
     (case pc th of
        Alloc b \<Rightarrow> b \<le> NREQ_BLOCKS
      | Alloc_top b t \<Rightarrow> b < NREQ_BLOCKS \<and> t = free_top s \<and> 0 < t
      | Alloc_check b blk \<Rightarrow> b < NREQ_BLOCKS \<and> mine th b = Some blk
      | Alloc_set b blk \<Rightarrow> b < NREQ_BLOCKS \<and> mine th b = Some blk
      | Free b \<Rightarrow> b \<le> NREQ_BLOCKS
      | Free_push b blk \<Rightarrow> b < NREQ_BLOCKS
      | Free_write b blk t \<Rightarrow> b < NREQ_BLOCKS \<and> t = free_top s
      | Enq_write h \<Rightarrow> h = q_head s
      | _ \<Rightarrow> True)"

fun inside :: "hpc \<Rightarrow> bool" where
  "inside (Lock x) \<longleftrightarrow> False"
| "inside Offload \<longleftrightarrow> False"
| "inside Handled \<longleftrightarrow> False"
| "inside Gone \<longleftrightarrow> False"
| "inside p \<longleftrightarrow> True"

text \<open>Whether a handler's request of this iteration is in the batch queue, and its number of finished iterations.\<close>

fun queued :: "hpc \<Rightarrow> nat" where
  "queued (Lock Sched) = 0"
| "queued Enq = 0"
| "queued (Enq_write h) = 0"
| "queued (Unlock Decode) = 0"
| "queued Handled = 0"
| "queued Gone = 0"
| "queued p = 1"

definition free_part :: "skel \<Rightarrow> nat list" where
  "free_part s = map (free_list s) [0..<free_top s]"

definition holding :: "skel \<Rightarrow> nat \<Rightarrow> nat list" where
  "holding s i = holding_at (pc (threads s i)) (mine (threads s i))"

definition marked :: "skel \<Rightarrow> nat \<Rightarrow> nat list" where
  "marked s i = marked_at (pc (threads s i)) (mine (threads s i))"

definition skel_inv :: "skel_conf \<Rightarrow> skel \<Rightarrow> bool" where
  "skel_inv cf s \<longleftrightarrow>
     (\<forall>i < NTHREAD cf. (inside (pc (threads s i)) \<longleftrightarrow> mtx s = Some i) \<and> point_ok s (threads s i))
   \<and> mset (free_part s) + (\<Sum>i<NTHREAD cf. mset (holding s i)) = mset [0..<NBLOCK]
   \<and> (\<forall>i < NTHREAD cf. \<forall>x \<in> set (marked s i). block_owner s x = Some i)
   \<and> (\<forall>x i. block_owner s x = Some i \<longrightarrow> i < NTHREAD cf \<and> x \<in> set (marked s i))
   \<and> double_alloc s = 0
   \<and> (\<forall>i < NTHREAD cf. iter (threads s i) \<le> ITERS cf \<and> (pc (threads s i) = Gone \<longleftrightarrow> iter (threads s i) = ITERS cf))
   \<and> handled s = (\<Sum>i<NTHREAD cf. iter (threads s i))
   \<and> q_head s = q_tail s + (\<Sum>i<NTHREAD cf. queued (pc (threads s i)))"

section \<open>The lists of blocks\<close>

lemma blocks_empty: "blocks m b b = []"
  by (simp add: blocks_def)

lemma blocks_snoc: "lo \<le> b \<Longrightarrow> blocks m lo (b + 1) = blocks m lo b @ (case m b of None \<Rightarrow> [] | Some x \<Rightarrow> [x])"
  by (simp add: blocks_def split: option.split)

lemma blocks_Cons: "b < hi \<Longrightarrow> blocks m b hi = (case m b of None \<Rightarrow> [] | Some x \<Rightarrow> [x]) @ blocks m (b + 1) hi"
  by (simp add: blocks_def upt_conv_Cons split: option.split)

lemma blocks_upd: "hi \<le> b \<Longrightarrow> blocks (m(b := v)) lo hi = blocks m lo hi"
  by (auto simp: blocks_def intro!: arg_cong [where f = concat])

lemma marked_sub: "set (marked_at p m) \<subseteq> set (holding_at p m)"
  by (cases p) auto

lemma outside_ok: "\<not> inside (pc th) \<Longrightarrow> point_ok s th"
  by (cases "pc th") auto

lemma skel_invD:
  assumes "skel_inv cf s"
  shows "mset (free_part s) + (\<Sum>i<NTHREAD cf. mset (holding s i)) = mset [0..<NBLOCK]"
    and "double_alloc s = 0"
    and "handled s = (\<Sum>i<NTHREAD cf. iter (threads s i))"
    and "q_head s = q_tail s + (\<Sum>i<NTHREAD cf. queued (pc (threads s i)))"
    and "i < NTHREAD cf \<Longrightarrow> inside (pc (threads s i)) \<longleftrightarrow> mtx s = Some i"
    and "i < NTHREAD cf \<Longrightarrow> point_ok s (threads s i)"
    and "i < NTHREAD cf \<Longrightarrow> x \<in> set (marked s i) \<Longrightarrow> block_owner s x = Some i"
    and "block_owner s x = Some i \<Longrightarrow> i < NTHREAD cf" "block_owner s x = Some i \<Longrightarrow> x \<in> set (marked s i)"
    and "i < NTHREAD cf \<Longrightarrow> iter (threads s i) \<le> ITERS cf"
    and "i < NTHREAD cf \<Longrightarrow> pc (threads s i) = Gone \<longleftrightarrow> iter (threads s i) = ITERS cf"
  using assms unfolding skel_inv_def by blast+

lemma disjoint_parts:
  assumes "skel_inv cf s" "i < NTHREAD cf"
  shows "distinct (holding s i)"
    and "j < NTHREAD cf \<Longrightarrow> j \<noteq> i \<Longrightarrow> set (holding s i) \<inter> set (holding s j) = {}"
proof -
  note total = skel_invD(1) [OF assms(1)]
  have le: "(\<Sum>i<NTHREAD cf. count (mset (holding s i)) x) \<le> 1" for x
  proof -
    have "(\<Sum>i<NTHREAD cf. count (mset (holding s i)) x) \<le> count (mset [0..<NBLOCK]) x"
      unfolding total [symmetric] by (simp add: count_sum)
    also have "\<dots> \<le> 1"
      using distinct_count_atmost_1 [THEN iffD1, OF distinct_upt [of 0 NBLOCK]] by simp
    finally show ?thesis .
  qed
  have one: "count (mset (holding s i)) x \<le> 1" for x
    using le [of x] member_le_sum [of i "{..<NTHREAD cf}" "\<lambda>i. count (mset (holding s i)) x"] assms(2)
    by (meson finite_lessThan le_trans lessThan_iff zero_le)
  show "distinct (holding s i)"
    unfolding distinct_count_atmost_1
  proof
    fix x
    show "count (mset (holding s i)) x = (if x \<in> set (holding s i) then 1 else 0)"
      using one [of x] count_greater_zero_iff [of "mset (holding s i)" x] by (auto intro!: le_antisym simp: Suc_le_eq)
  qed
  show "set (holding s i) \<inter> set (holding s j) = {}" if "j < NTHREAD cf" "j \<noteq> i"
  proof (rule ccontr)
    assume "\<not> ?thesis"
    then obtain x where x: "x \<in> set (holding s i)" "x \<in> set (holding s j)"
      by blast
    have "(\<Sum>k\<in>{i, j}. count (mset (holding s k)) x) \<le> (\<Sum>i<NTHREAD cf. count (mset (holding s i)) x)"
      using that assms(2) by (intro sum_mono2) auto
    moreover have "0 < count (mset (holding s i)) x" "0 < count (mset (holding s j)) x"
      using x by simp_all
    ultimately show False
      using le [of x] that by simp
  qed
qed

text \<open>A step of one handler: what has to hold of it for the invariant.\<close>

lemma skel_step:
  assumes inv: "skel_inv cf s" and i: "i < NTHREAD cf"
    and th: "threads s' = (threads s)(i := th)"
    and lock: "\<And>j. j < NTHREAD cf \<Longrightarrow> inside (pc (threads s' j)) \<longleftrightarrow> mtx s' = Some j"
    and ok: "point_ok s' th" "\<And>j. j \<noteq> i \<Longrightarrow> j < NTHREAD cf \<Longrightarrow> point_ok s' (threads s j)"
    and parts: "mset (free_part s') + mset (holding s' i) = mset (free_part s) + mset (holding s i)"
    and own: "\<And>x. x \<in> set (marked s' i) \<Longrightarrow> block_owner s' x = Some i"
      "\<And>x. block_owner s' x = Some i \<Longrightarrow> x \<in> set (marked s' i)"
      "\<And>x j. j < NTHREAD cf \<Longrightarrow> j \<noteq> i \<Longrightarrow> x \<in> set (marked s j) \<Longrightarrow> block_owner s' x = Some j"
      "\<And>x j. j \<noteq> i \<Longrightarrow> block_owner s' x = Some j \<Longrightarrow> block_owner s x = Some j"
    and dbl: "double_alloc s' = 0"
    and it: "iter th \<le> ITERS cf \<and> (pc th = Gone \<longleftrightarrow> iter th = ITERS cf)" "handled s' + iter (threads s i) = handled s + iter th"
    and q: "q_head s' + q_tail s + queued (pc (threads s i)) = q_head s + q_tail s' + queued (pc th)"
  shows "skel_inv cf s'"
proof -
  have h: "holding s' j = holding s j" "marked s' j = marked s j" if "j \<noteq> i" for j
    using that th by (simp_all add: holding_def marked_def)
  have sums: "f (threads s' i) + (\<Sum>j\<in>{..<NTHREAD cf} - {i}. f (threads s j)) = (\<Sum>j<NTHREAD cf. f (threads s' j))"
    "f (threads s i) + (\<Sum>j\<in>{..<NTHREAD cf} - {i}. f (threads s j)) = (\<Sum>j<NTHREAD cf. f (threads s j))" for f :: "hthread \<Rightarrow> nat"
  proof -
    have "(\<Sum>j\<in>{..<NTHREAD cf} - {i}. f (threads s' j)) = (\<Sum>j\<in>{..<NTHREAD cf} - {i}. f (threads s j))"
      by (intro sum.cong) (auto simp: th)
    then show "f (threads s' i) + (\<Sum>j\<in>{..<NTHREAD cf} - {i}. f (threads s j)) = (\<Sum>j<NTHREAD cf. f (threads s' j))"
      using sum.remove [of "{..<NTHREAD cf}" i "\<lambda>j. f (threads s' j)"] i by simp
    show "f (threads s i) + (\<Sum>j\<in>{..<NTHREAD cf} - {i}. f (threads s j)) = (\<Sum>j<NTHREAD cf. f (threads s j))"
      using sum.remove [of "{..<NTHREAD cf}" i "\<lambda>j. f (threads s j)"] i by simp
  qed
  have "(\<Sum>j\<in>{..<NTHREAD cf} - {i}. mset (holding s' j)) = (\<Sum>j\<in>{..<NTHREAD cf} - {i}. mset (holding s j))"
    by (intro sum.cong) (auto simp: h)
  then have "mset (free_part s') + (\<Sum>j<NTHREAD cf. mset (holding s' j)) = mset [0..<NBLOCK]"
  proof -
    assume rest: "(\<Sum>j\<in>{..<NTHREAD cf} - {i}. mset (holding s' j)) = (\<Sum>j\<in>{..<NTHREAD cf} - {i}. mset (holding s j))"
    have "(\<Sum>j<NTHREAD cf. mset (holding s' j)) = mset (holding s' i) + (\<Sum>j\<in>{..<NTHREAD cf} - {i}. mset (holding s j))"
      using sum.remove [of "{..<NTHREAD cf}" i "\<lambda>j. mset (holding s' j)"] i rest by simp
    moreover have "(\<Sum>j<NTHREAD cf. mset (holding s j)) = mset (holding s i) + (\<Sum>j\<in>{..<NTHREAD cf} - {i}. mset (holding s j))"
      using sum.remove [of "{..<NTHREAD cf}" i "\<lambda>j. mset (holding s j)"] i by simp
    moreover have "mset (free_part s) + (\<Sum>j<NTHREAD cf. mset (holding s j)) = mset [0..<NBLOCK]"
      by (rule skel_invD(1) [OF inv])
    ultimately show ?thesis
      using parts by (metis add.assoc)
  qed
  moreover have "point_ok s' (threads s' j)" if "j < NTHREAD cf" for j
    using ok that by (cases "j = i") (simp_all add: th)
  moreover have "block_owner s' x = Some j" if "j < NTHREAD cf" "x \<in> set (marked s' j)" for x j
    using own(1,3) that h by (cases "j = i") auto
  moreover have "j < NTHREAD cf \<and> x \<in> set (marked s' j)" if "block_owner s' x = Some j" for x j
  proof (cases "j = i")
    case False
    then have "block_owner s x = Some j"
      using own(4) that by blast
    then show ?thesis
      using skel_invD(8,9) [OF inv] h(2) [OF False] by simp
  qed (use own(2) that i in blast)
  moreover have "iter (threads s' j) \<le> ITERS cf \<and> (pc (threads s' j) = Gone \<longleftrightarrow> iter (threads s' j) = ITERS cf)" if "j < NTHREAD cf" for j
    using it(1) skel_invD(10,11) [OF inv that] by (cases "j = i") (simp_all add: th)
  moreover have "handled s' = (\<Sum>j<NTHREAD cf. iter (threads s' j))"
    using it(2) skel_invD(3) [OF inv] sums [of iter] by (simp add: th)
  moreover have "q_head s' = q_tail s' + (\<Sum>j<NTHREAD cf. queued (pc (threads s' j)))"
    using q skel_invD(4) [OF inv] sums [of "\<lambda>x. queued (pc x)"] by (simp add: th)
  ultimately show ?thesis
    using lock dbl unfolding skel_inv_def by blast
qed

lemma point_ok_cong: "free_top s' = free_top s \<Longrightarrow> q_head s' = q_head s \<Longrightarrow> point_ok s' th = point_ok s th"
  by (cases "pc th") auto

text \<open>Inside a section the others are outside theirs.\<close>

lemma skel_inside:
  assumes inv: "skel_inv cf s" and i: "i < NTHREAD cf" and ins: "inside (pc (threads s i))"
    and th: "threads s' = (threads s)(i := th)" and p: "inside (pc th)" "mtx s' = mtx s" "point_ok s' th"
    and parts: "mset (free_part s') + mset (holding s' i) = mset (free_part s) + mset (holding s i)"
    and own: "\<And>x. x \<in> set (marked s' i) \<Longrightarrow> block_owner s' x = Some i"
      "\<And>x. block_owner s' x = Some i \<Longrightarrow> x \<in> set (marked s' i)"
      "\<And>x j. j < NTHREAD cf \<Longrightarrow> j \<noteq> i \<Longrightarrow> x \<in> set (marked s j) \<Longrightarrow> block_owner s' x = Some j"
      "\<And>x j. j \<noteq> i \<Longrightarrow> block_owner s' x = Some j \<Longrightarrow> block_owner s x = Some j"
    and rest: "double_alloc s' = 0" "iter th = iter (threads s i)" "handled s' = handled s"
      "q_head s' + q_tail s + queued (pc (threads s i)) = q_head s + q_tail s' + queued (pc th)"
  shows "skel_inv cf s'"
proof (rule skel_step [OF inv i th _ p(3) _ parts own rest(1) _ _ rest(4)])
  have m: "mtx s = Some i"
    using skel_invD(5) [OF inv i] ins by simp
  show "inside (pc (threads s' j)) \<longleftrightarrow> mtx s' = Some j" if "j < NTHREAD cf" for j
    using skel_invD(5) [OF inv that] p(1,2) m by (cases "j = i") (simp_all add: th)
  show "point_ok s' (threads s j)" if "j \<noteq> i" "j < NTHREAD cf" for j
    using skel_invD(5) [OF inv that(2)] m that by (intro outside_ok) simp
  have "pc (threads s i) \<noteq> Gone" "pc th \<noteq> Gone"
    using ins p(1) by auto
  then show "iter th \<le> ITERS cf \<and> (pc th = Gone \<longleftrightarrow> iter th = ITERS cf)"
    using skel_invD(10,11) [OF inv i] rest(2) by simp
qed (use rest in simp_all)

text \<open>A step inside that leaves the blocks where they are.\<close>

lemma skel_move:
  assumes inv: "skel_inv cf s" and i: "i < NTHREAD cf" and ins: "inside (pc (threads s i))"
    and th: "threads s' = (threads s)(i := th)" and p: "inside (pc th)" "mtx s' = mtx s" "point_ok s' th"
    and same: "free_part s' = free_part s" "mset (holding s' i) = mset (holding s i)" "set (marked s' i) = set (marked s i)"
      "block_owner s' = block_owner s"
    and rest: "double_alloc s' = 0" "iter th = iter (threads s i)" "handled s' = handled s"
      "q_head s' + q_tail s + queued (pc (threads s i)) = q_head s + q_tail s' + queued (pc th)"
  shows "skel_inv cf s'"
proof (rule skel_inside [OF inv i ins th p _ _ _ _ _ rest])
  show "mset (free_part s') + mset (holding s' i) = mset (free_part s) + mset (holding s i)"
    by (simp only: same)
  show "block_owner s' x = Some i" if "x \<in> set (marked s' i)" for x
    unfolding same(4) by (rule skel_invD(7) [OF inv i]) (use that in \<open>simp only: same(3)\<close>)
  show "x \<in> set (marked s' i)" if "block_owner s' x = Some i" for x
    unfolding same(3) by (rule skel_invD(9) [OF inv]) (use that in \<open>simp only: same(4)\<close>)
  show "block_owner s' x = Some j" if "j < NTHREAD cf" "x \<in> set (marked s j)" for x j
    unfolding same(4) by (rule skel_invD(7) [OF inv that])
  show "block_owner s x = Some j" if "block_owner s' x = Some j" for x j
    using that by (simp only: same(4))
qed

text \<open>A step across the border of a section, or outside.\<close>

lemma skel_border:
  assumes inv: "skel_inv cf s" and i: "i < NTHREAD cf"
    and th: "threads s' = (threads s)(i := th)"
    and lock: "\<And>j. j < NTHREAD cf \<Longrightarrow> inside (pc (threads s' j)) \<longleftrightarrow> mtx s' = Some j" and ok: "point_ok s' th"
    and same: "free_list s' = free_list s" "free_top s' = free_top s" "q_head s' = q_head s" "q_tail s' = q_tail s"
      "mset (holding s' i) = mset (holding s i)" "set (marked s' i) = set (marked s i)"
      "block_owner s' = block_owner s" "double_alloc s' = double_alloc s" "queued (pc (threads s i)) = queued (pc th)"
    and it: "iter th \<le> ITERS cf \<and> (pc th = Gone \<longleftrightarrow> iter th = ITERS cf)" "handled s' + iter (threads s i) = handled s + iter th"
  shows "skel_inv cf s'"
proof (rule skel_step [OF inv i th lock ok _ _ _ _ _ _ _ it])
  show "point_ok s' (threads s j)" if "j < NTHREAD cf" for j
    using skel_invD(6) [OF inv that] same by (simp add: point_ok_cong [of s' s] del: point_ok.simps)
  show "mset (free_part s') + mset (holding s' i) = mset (free_part s) + mset (holding s i)"
    by (simp only: same free_part_def)
  show "block_owner s' x = Some i" if "x \<in> set (marked s' i)" for x
    unfolding same(7) by (rule skel_invD(7) [OF inv i]) (use that in \<open>simp only: same(6)\<close>)
  show "x \<in> set (marked s' i)" if "block_owner s' x = Some i" for x
    unfolding same(6) by (rule skel_invD(9) [OF inv]) (use that in \<open>simp only: same(7)\<close>)
  show "block_owner s' x = Some j" if "j < NTHREAD cf" "x \<in> set (marked s j)" for x j
    unfolding same(7) by (rule skel_invD(7) [OF inv that])
  show "block_owner s x = Some j" if "block_owner s' x = Some j" for x j
    using that by (simp only: same(7))
qed (use same(3,4,8,9) skel_invD(2) [OF inv] in simp_all)

section \<open>Every step of a locked run\<close>

lemma inv_disjoint:
  assumes "skel_inv cf s" "i < NTHREAD cf" "blk \<in> set (holding s i)" "j < NTHREAD cf" "j \<noteq> i" "x \<in> set (marked s j)"
  shows "x \<noteq> blk"
  using disjoint_parts(2) [OF assms(1,2,4,5)] assms marked_sub by (fastforce simp: holding_def marked_def)

lemma inv_alloc_block:
  assumes inv: "skel_inv cf s" and i: "i < NTHREAD cf" and at: "pc (threads s i) = Alloc b"
  shows "skel_inv cf (alloc_block i b s)"
proof -
  let ?m = "mine (threads s i)"
  note ok = skel_invD(6) [OF inv i] and dbl = skel_invD(2) [OF inv]
  consider "NREQ_BLOCKS \<le> b" | "b < NREQ_BLOCKS" "0 < free_top s" | "b < NREQ_BLOCKS" "free_top s = 0"
    by linarith
  then show ?thesis
  proof cases
    case 1
    then have "b = NREQ_BLOCKS"
      using ok at by simp
    then show ?thesis
      using at by (intro skel_move [OF inv i, where th = "(threads s i)\<lparr>pc := Unlock Prefill\<rparr>"])
        (use dbl in \<open>simp_all add: alloc_block_def set_pc_def free_part_def holding_def marked_def\<close>)
  next
    case 2
    then show ?thesis
      using at by (intro skel_move [OF inv i, where th = "(threads s i)\<lparr>pc := Alloc_top b (free_top s)\<rparr>"])
        (use dbl in \<open>simp_all add: alloc_block_def set_pc_def free_part_def holding_def marked_def\<close>)
  next
    case 3
    then show ?thesis
      using at by (intro skel_move [OF inv i, where th = "(threads s i)\<lparr>mine := ?m(b := None), pc := Alloc (b + 1)\<rparr>"])
        (use dbl in \<open>simp_all add: alloc_block_def free_part_def holding_def marked_def blocks_snoc [simplified] blocks_upd\<close>)
  qed
qed

lemma inv_alloc_top:
  assumes inv: "skel_inv cf s" and i: "i < NTHREAD cf" and at: "pc (threads s i) = Alloc_top b t"
  shows "skel_inv cf (alloc_top i b t s)"
proof -
  let ?m = "mine (threads s i)"
  note ok = skel_invD(6) [OF inv i] and dbl = skel_invD(2) [OF inv]
  let ?blk = "free_list s (t - 1)"
  have t: "t = free_top s" "0 < t" "b < NREQ_BLOCKS"
    using ok at by simp_all
  have h: "alloc_top i b t s = s\<lparr>free_top := t - 1,
    threads := (threads s)(i := (threads s i)\<lparr>mine := ?m(b := Some ?blk), pc := Alloc_check b ?blk\<rparr>)\<rparr>"
    using at by (simp add: alloc_top_def Let_def)
  have m: "set (marked (alloc_top i b t s) i) = set (marked s i)"
    by (simp add: marked_def h at blocks_upd)
  have parts: "mset (free_part (alloc_top i b t s)) + mset (holding (alloc_top i b t s) i) = mset (free_part s) + mset (holding s i)"
  proof -
    have "[0..<t] = [0..<t - 1] @ [t - 1]"
      using t(2) upt_Suc_append [of 0 "t - 1"] by simp
    then have "free_part s = free_part (alloc_top i b t s) @ [?blk]"
      by (simp add: free_part_def h t(1) [symmetric])
    then show ?thesis
      by (simp add: holding_def h at blocks_upd)
  qed
  show ?thesis
  proof (rule skel_inside [OF inv i, where th = "(threads s i)\<lparr>mine := ?m(b := Some ?blk), pc := Alloc_check b ?blk\<rparr>"])
    show "block_owner (alloc_top i b t s) x = Some i" if "x \<in> set (marked (alloc_top i b t s) i)" for x
      using skel_invD(7) [OF inv i, of x] that m by (simp add: h)
    show "x \<in> set (marked (alloc_top i b t s) i)" if "block_owner (alloc_top i b t s) x = Some i" for x
      using skel_invD(9) [OF inv, of x i] that m by (simp add: h)
    show "block_owner (alloc_top i b t s) x = Some j" if "j < NTHREAD cf" "x \<in> set (marked s j)" for x j
      using skel_invD(7) [OF inv that] by (simp add: h)
  qed (use parts dbl t(2-) at in \<open>simp_all add: h\<close>)
qed

lemma inv_alloc_check:
  assumes inv: "skel_inv cf s" and i: "i < NTHREAD cf" and at: "pc (threads s i) = Alloc_check b blk"
  shows "skel_inv cf (alloc_check i b blk s)"
proof -
  let ?m = "mine (threads s i)"
  note ok = skel_invD(6) [OF inv i] and dbl = skel_invD(2) [OF inv]
  have b: "b < NREQ_BLOCKS" "?m b = Some blk"
    using ok at by simp_all
  have mine: "blk \<in> set (holding s i)" "blk \<notin> set (marked s i)"
    using disjoint_parts(1) [OF inv i] at by (simp_all add: holding_def marked_def)
  have "block_owner s blk = None"
  proof (cases "block_owner s blk")
    case (Some j)
    note j = skel_invD(8,9) [OF inv Some]
    show ?thesis
      using inv_disjoint [OF inv i mine(1) j(1) _ j(2)] mine(2) j(2) by (cases "j = i") auto
  qed
  then show ?thesis
    using at b by (intro skel_move [OF inv i, where th = "(threads s i)\<lparr>pc := Alloc_set b blk\<rparr>"])
      (use dbl in \<open>simp_all add: alloc_check_def set_pc_def free_part_def holding_def marked_def\<close>)
qed

lemma inv_alloc_set:
  assumes inv: "skel_inv cf s" and i: "i < NTHREAD cf" and at: "pc (threads s i) = Alloc_set b blk"
  shows "skel_inv cf (alloc_set i b blk s)"
proof -
  let ?m = "mine (threads s i)"
  note ok = skel_invD(6) [OF inv i] and dbl = skel_invD(2) [OF inv]
  have b: "b < NREQ_BLOCKS" "?m b = Some blk"
    using ok at by simp_all
  have h: "alloc_set i b blk s = s\<lparr>block_owner := (block_owner s)(blk := Some i),
    threads := (threads s)(i := (threads s i)\<lparr>pc := Alloc (b + 1)\<rparr>)\<rparr>"
    using at by (simp add: alloc_set_def set_pc_def)
  have lists: "marked (alloc_set i b blk s) i = marked s i @ [blk]" "holding (alloc_set i b blk s) i = holding s i"
    "holding s i = marked s i @ [blk]"
    using b by (simp_all add: marked_def holding_def h at blocks_snoc [simplified])
  show ?thesis
  proof (rule skel_inside [OF inv i, where th = "(threads s i)\<lparr>pc := Alloc (b + 1)\<rparr>"])
    show "block_owner (alloc_set i b blk s) x = Some i" if "x \<in> set (marked (alloc_set i b blk s) i)" for x
      using skel_invD(7) [OF inv i, of x] that by (auto simp: lists) (auto simp: h)
    show "x \<in> set (marked (alloc_set i b blk s) i)" if "block_owner (alloc_set i b blk s) x = Some i" for x
      using skel_invD(9) [OF inv, of x i] that by (auto simp: lists) (auto simp: h split: if_splits)
    show "block_owner (alloc_set i b blk s) x = Some j" if "j < NTHREAD cf" "j \<noteq> i" "x \<in> set (marked s j)" for x j
      using skel_invD(7) [OF inv that(1,3)] inv_disjoint [OF inv i _ that, of blk] by (simp add: h lists(3))
    show "block_owner s x = Some j" if "j \<noteq> i" "block_owner (alloc_set i b blk s) x = Some j" for x j
      using that by (simp add: h split: if_splits)
  qed (use dbl b lists(2) at in \<open>simp_all add: h free_part_def\<close>)
qed

lemma inv_free_block:
  assumes inv: "skel_inv cf s" and i: "i < NTHREAD cf" and at: "pc (threads s i) = Free b"
  shows "skel_inv cf (free_block i b s)"
proof -
  let ?m = "mine (threads s i)"
  note ok = skel_invD(6) [OF inv i] and dbl = skel_invD(2) [OF inv]
  consider "NREQ_BLOCKS \<le> b" | "b < NREQ_BLOCKS" "?m b = None" | blk where "b < NREQ_BLOCKS" "?m b = Some blk"
    by (cases "?m b"; cases "NREQ_BLOCKS \<le> b") auto
  then show ?thesis
  proof cases
    case 1
    then have "b = NREQ_BLOCKS"
      using ok at by simp
    then show ?thesis
      using at by (intro skel_move [OF inv i, where th = "(threads s i)\<lparr>pc := Deq\<rparr>"])
        (use dbl in \<open>simp_all add: free_block_def set_pc_def free_part_def holding_def marked_def blocks_empty\<close>)
  next
    case 2
    then show ?thesis
      using at by (intro skel_move [OF inv i, where th = "(threads s i)\<lparr>pc := Free (b + 1)\<rparr>"])
        (use dbl in \<open>simp_all add: free_block_def set_pc_def free_part_def holding_def marked_def blocks_Cons\<close>)
  next
    case 3
    have h: "free_block i b s = s\<lparr>block_owner := (block_owner s)(blk := None),
      threads := (threads s)(i := (threads s i)\<lparr>pc := Free_push b blk\<rparr>)\<rparr>"
      using at 3 by (simp add: free_block_def set_pc_def)
    have lists: "holding (free_block i b s) i = holding s i" "marked s i = blk # marked (free_block i b s) i" "holding s i = marked s i"
      using 3 by (simp_all add: marked_def holding_def h at blocks_Cons)
    have d: "blk \<notin> set (marked (free_block i b s) i)"
      using disjoint_parts(1) [OF inv i] by (simp add: lists(2,3))
    show ?thesis
    proof (rule skel_inside [OF inv i, where th = "(threads s i)\<lparr>pc := Free_push b blk\<rparr>"])
      show "block_owner (free_block i b s) x = Some i" if "x \<in> set (marked (free_block i b s) i)" for x
        using skel_invD(7) [OF inv i, of x] that d lists(2) by (cases "x = blk") (simp_all add: h)
      show "x \<in> set (marked (free_block i b s) i)" if "block_owner (free_block i b s) x = Some i" for x
        using skel_invD(9) [OF inv, of x i] that lists(2) by (cases "x = blk") (simp_all add: h)
      show "block_owner (free_block i b s) x = Some j" if "j < NTHREAD cf" "j \<noteq> i" "x \<in> set (marked s j)" for x j
        using skel_invD(7) [OF inv that(1,3)] inv_disjoint [OF inv i _ that, of blk] by (simp add: h lists(2,3))
      show "block_owner s x = Some j" if "j \<noteq> i" "block_owner (free_block i b s) x = Some j" for x j
        using that by (simp add: h split: if_splits)
    qed (use dbl 3 lists(1) at in \<open>simp_all add: h free_part_def\<close>)
  qed
qed

lemma inv_free_write:
  assumes inv: "skel_inv cf s" and i: "i < NTHREAD cf" and at: "pc (threads s i) = Free_write b blk t"
  shows "skel_inv cf (free_write i b blk t s)"
proof -
  let ?m = "mine (threads s i)"
  note ok = skel_invD(6) [OF inv i] and dbl = skel_invD(2) [OF inv]
  have t: "t = free_top s" "b < NREQ_BLOCKS"
    using ok at by simp_all
  have h: "free_write i b blk t s = s\<lparr>free_list := (free_list s)(t := blk), free_top := t + 1,
    threads := (threads s)(i := (threads s i)\<lparr>pc := Free (b + 1)\<rparr>)\<rparr>"
    using at by (simp add: free_write_def set_pc_def)
  have m: "marked (free_write i b blk t s) i = marked s i"
    by (simp add: marked_def h at)
  have "map ((free_list s)(t := blk)) [0..<t] = map (free_list s) [0..<t]"
    by simp
  then have parts: "mset (free_part (free_write i b blk t s)) + mset (holding (free_write i b blk t s) i) = mset (free_part s) + mset (holding s i)"
    by (simp add: free_part_def holding_def h at t(1) [symmetric])
  show ?thesis
  proof (rule skel_inside [OF inv i, where th = "(threads s i)\<lparr>pc := Free (b + 1)\<rparr>"])
    show "block_owner (free_write i b blk t s) x = Some i" if "x \<in> set (marked (free_write i b blk t s) i)" for x
      using skel_invD(7) [OF inv i, of x] that m by (simp add: h)
    show "x \<in> set (marked (free_write i b blk t s) i)" if "block_owner (free_write i b blk t s) x = Some i" for x
      using skel_invD(9) [OF inv, of x i] that m by (simp add: h)
    show "block_owner (free_write i b blk t s) x = Some j" if "j < NTHREAD cf" "x \<in> set (marked s j)" for x j
      using skel_invD(7) [OF inv that] by (simp add: h)
  qed (use parts dbl t(2-) at in \<open>simp_all add: h\<close>)
qed

lemma sect_simps:
  "inside (sect_start x)" "\<not> inside (sect_end x)" "sect_start x \<noteq> Gone" "sect_end x \<noteq> Gone"
  "mset (holding_at (sect_start x) m) = mset (holding_at (Lock x) m)"
  "set (marked_at (sect_start x) m) = set (marked_at (Lock x) m)" "queued (sect_start x) = queued (Lock x)"
  "holding_at (sect_end x) m = holding_at (Unlock x) m" "marked_at (sect_end x) m = marked_at (Unlock x) m"
  "queued (sect_end x) = queued (Unlock x)"
  by (cases x; simp add: blocks_empty)+

lemma sect_point:
  "point_ok s ((threads s' i)\<lparr>pc := sect_start x\<rparr>)" "point_ok s ((threads s' i)\<lparr>pc := sect_end x\<rparr>)"
  by (cases x; simp)+

lemma inv_lk:
  assumes inv: "skel_inv cf s" and i: "i < NTHREAD cf" and L: "LOCKED cf" and at: "pc (threads s i) = Lock x"
  shows "skel_inv cf (lk cf i x s)"
proof (cases "mtx s")
  case None
  have out: "\<not> inside (pc (threads s j))" if "j < NTHREAD cf" for j
    using skel_invD(5) [OF inv that] None by simp
  let ?th = "(threads s i)\<lparr>pc := sect_start x\<rparr>"
  have h: "lk cf i x s = s\<lparr>mtx := Some i, threads := (threads s)(i := ?th)\<rparr>"
    using None L by (simp add: lk_def set_pc_def)
  show ?thesis
  proof (rule skel_border [OF inv i, where th = ?th])
    show "inside (pc (threads (lk cf i x s) j)) \<longleftrightarrow> mtx (lk cf i x s) = Some j" if "j < NTHREAD cf" for j
      using out [OF that] by (cases "j = i") (auto simp: h sect_simps)
  qed (use skel_invD(10,11) [OF inv i] at sect_point in \<open>simp_all add: h holding_def marked_def sect_simps del: point_ok.simps\<close>)
next
  case (Some j)
  then show ?thesis
    using inv L by (simp add: lk_def)
qed

lemma inv_ul:
  assumes inv: "skel_inv cf s" and i: "i < NTHREAD cf" and L: "LOCKED cf" and at: "pc (threads s i) = Unlock x"
  shows "skel_inv cf (ul cf i x s)"
proof -
  have m: "mtx s = Some i"
    using skel_invD(5) [OF inv i] at by simp
  let ?th = "(threads s i)\<lparr>pc := sect_end x\<rparr>"
  have h: "ul cf i x s = s\<lparr>mtx := None, threads := (threads s)(i := ?th)\<rparr>"
    using L by (simp add: ul_def set_pc_def)
  show ?thesis
  proof (rule skel_border [OF inv i, where th = ?th])
    show "inside (pc (threads (ul cf i x s) j)) \<longleftrightarrow> mtx (ul cf i x s) = Some j" if "j < NTHREAD cf" for j
      using skel_invD(5) [OF inv that] m by (cases "j = i") (auto simp: h sect_simps)
  qed (use skel_invD(10,11) [OF inv i] at sect_point in \<open>simp_all add: h holding_def marked_def sect_simps del: point_ok.simps\<close>)
qed

lemma inv_outside:
  assumes inv: "skel_inv cf s" and i: "i < NTHREAD cf" and at: "pc (threads s i) = Offload \<or> pc (threads s i) = Handled"
  shows "skel_inv cf (handler cf i s)"
proof -
  have m: "mtx s \<noteq> Some i"
    using skel_invD(5) [OF inv i] at by auto
  have it: "iter (threads s i) < ITERS cf"
    using skel_invD(10,11) [OF inv i] at by (auto simp: less_le)
  note lock = skel_invD(5) [OF inv]
  show ?thesis
    using at
  proof
    assume "pc (threads s i) = Offload"
    then show ?thesis
      using m it by (intro skel_border [OF inv i, where th = "(threads s i)\<lparr>pc := Lock Decode\<rparr>"])
        (auto simp: handler_def set_pc_def holding_def marked_def lock)
  next
    assume "pc (threads s i) = Handled"
    then show ?thesis
      using m it by (intro skel_border [OF inv i, where th = "(threads s i)\<lparr>iter := iter (threads s i) + 1,
          pc := (if iter (threads s i) + 1 < ITERS cf then Lock Sched else Gone)\<rparr>"])
        (auto simp: handler_def holding_def marked_def lock Let_def)
  qed
qed

lemma inv_queue:
  assumes inv: "skel_inv cf s" and i: "i < NTHREAD cf"
    and at: "pc (threads s i) \<in> {Enq, Enq_write h, Free_push b blk, Deq}"
  shows "skel_inv cf (handler cf i s)"
proof -
  note ok = skel_invD(6) [OF inv i] and dbl = skel_invD(2) [OF inv]
  note defs = handler_def set_pc_def free_part_def holding_def marked_def
  consider "pc (threads s i) = Enq" | "pc (threads s i) = Enq_write h" | "pc (threads s i) = Free_push b blk" | "pc (threads s i) = Deq"
    using at by auto
  then show ?thesis
  proof cases
    case 1
    then show ?thesis
      by (intro skel_move [OF inv i, where th = "(threads s i)\<lparr>pc := Enq_write (q_head s)\<rparr>"]) (use dbl in \<open>simp_all add: defs\<close>)
  next
    case 2
    then show ?thesis
      by (intro skel_move [OF inv i, where th = "(threads s i)\<lparr>pc := Unlock Sched\<rparr>"]) (use dbl ok in \<open>simp_all add: defs\<close>)
  next
    case 3
    then show ?thesis
      by (intro skel_move [OF inv i, where th = "(threads s i)\<lparr>pc := Free_write b blk (free_top s)\<rparr>"])
        (use dbl ok in \<open>simp_all add: defs\<close>)
  next
    case 4
    have "queued (pc (threads s i)) \<le> (\<Sum>j<NTHREAD cf. queued (pc (threads s j)))"
      using i by (intro member_le_sum) auto
    then have "q_tail s < q_head s"
      using skel_invD(4) [OF inv] 4 by simp
    then show ?thesis
      using 4 by (intro skel_move [OF inv i, where th = "(threads s i)\<lparr>pc := Unlock Decode\<rparr>"])
        (use dbl in \<open>simp_all add: defs\<close>)
  qed
qed

lemma inv_handler:
  assumes "skel_inv cf s" "i < NTHREAD cf" "LOCKED cf"
  shows "skel_inv cf (handler cf i s)"
proof (cases "pc (threads s i)")
  case (Lock x)
  then show ?thesis
    using inv_lk [OF assms] by (simp add: handler_def)
next
  case (Unlock x)
  then show ?thesis
    using inv_ul [OF assms] by (simp add: handler_def)
next
  case (Alloc b)
  then show ?thesis
    using inv_alloc_block [OF assms(1,2)] by (simp add: handler_def)
next
  case (Alloc_top b t)
  then show ?thesis
    using inv_alloc_top [OF assms(1,2)] by (simp add: handler_def)
next
  case (Alloc_check b blk)
  then show ?thesis
    using inv_alloc_check [OF assms(1,2)] by (simp add: handler_def)
next
  case (Alloc_set b blk)
  then show ?thesis
    using inv_alloc_set [OF assms(1,2)] by (simp add: handler_def)
next
  case (Free b)
  then show ?thesis
    using inv_free_block [OF assms(1,2)] by (simp add: handler_def)
next
  case (Free_write b blk t)
  then show ?thesis
    using inv_free_write [OF assms(1,2)] by (simp add: handler_def)
next
  case Gone
  then show ?thesis
    using assms(1) by (simp add: handler_def)
qed (use inv_outside [OF assms(1,2)] inv_queue [OF assms(1,2)] in simp_all)

lemma inv_skel0: "skel_inv cf (skel0 cf)"
proof -
  have "free_part (skel0 cf) = [0..<NBLOCK]"
    by (simp add: free_part_def skel0_def)
  then show ?thesis
    by (simp add: skel_inv_def skel0_def holding_def marked_def del: mset_upt)
qed

lemma inv_skel_run:
  assumes "LOCKED cf"
  shows "skel_inv cf (skel_run cf is)"
proof -
  have "skel_inv cf s \<Longrightarrow> skel_inv cf (fold (\<lambda>i s. if i < NTHREAD cf then handler cf i s else s) is s)" for s
    by (induction "is" arbitrary: s) (simp_all add: inv_handler assms)
  then show ?thesis
    by (simp add: skel_run_def inv_skel0)
qed

section \<open>With and without the lock\<close>

text \<open>C36: With the lock, in every interleaving of the loads and stores of the handlers: no block is handed out twice, the
  blocks that different handlers have are disjoint, and when all handlers have ended every block is free again and owned
  by nobody, every iteration is counted and the batch queue is empty.\<close>

theorem locked_allocator_exact:
  assumes "LOCKED cf" and "s = skel_run cf is"
  shows "double_alloc s = 0
     \<and> (\<forall>i < NTHREAD cf. \<forall>j < NTHREAD cf. i \<noteq> j \<longrightarrow> set (holding s i) \<inter> set (holding s j) = {})
     \<and> ((\<forall>i < NTHREAD cf. pc (threads s i) = Gone) \<longrightarrow>
          blocks_leaked s = 0 \<and> still_owned s = 0 \<and> handled s = NTHREAD cf * ITERS cf \<and> q_head s = q_tail s)"
proof (intro conjI allI impI)
  have inv: "skel_inv cf s"
    using inv_skel_run assms by simp
  show "double_alloc s = 0"
    by (rule skel_invD(2) [OF inv])
  show "set (holding s i) \<inter> set (holding s j) = {}" if "i < NTHREAD cf" "j < NTHREAD cf" "i \<noteq> j" for i j
    using disjoint_parts(2) [OF inv] that by simp
  assume gone: "\<forall>i < NTHREAD cf. pc (threads s i) = Gone"
  have empty: "(\<Sum>i<NTHREAD cf. mset (holding s i)) = {#}" "(\<Sum>i<NTHREAD cf. queued (pc (threads s i))) = 0"
    using gone by (simp_all add: holding_def)
  have "length (free_part s) = NBLOCK"
    using arg_cong [where f = size, OF skel_invD(1) [OF inv]] by (simp add: empty del: mset_upt)
  then show "blocks_leaked s = 0"
    by (simp add: blocks_leaked_def free_part_def)
  have "block_owner s x = None" for x
    using skel_invD(8,9) [OF inv, of x] gone by (cases "block_owner s x") (auto simp: marked_def)
  then show "still_owned s = 0"
    by (simp add: still_owned_def)
  have "(\<Sum>i<NTHREAD cf. iter (threads s i)) = (\<Sum>i<NTHREAD cf. ITERS cf)"
    using skel_invD(11) [OF inv] gone by (intro sum.cong) auto
  then show "handled s = NTHREAD cf * ITERS cf"
    using skel_invD(3) [OF inv] by simp
  show "q_head s = q_tail s"
    using skel_invD(4) [OF inv] empty by simp
qed

definition one_handler :: skel_conf where
  "one_handler = \<lparr>LOCKED = True, NTHREAD = 1, ITERS = 1\<rparr>"

lemmas skel_eval = skel_run_def skel0_def handler_def lk_def ul_def set_pc_def alloc_block_def alloc_top_def alloc_check_def
  alloc_set_def free_block_def free_write_def NREQ_BLOCKS_def NBLOCK_def Let_def

text \<open>Two handlers without the lock, the second between the first one's load and store of \<open>free_top\<close>.\<close>

definition race :: "nat list" where
  "race = [0, 0, 0, 0, 0, 0, 1, 1, 1, 1, 1, 1, 0, 1, 0, 0, 1]"

text \<open>Without the lock the allocator hands the same block to two handlers: with two handlers there is an interleaving
  after which both have block 2047 and the experiment has counted the corruption.\<close>

theorem unlocked_double_alloc:
  assumes "\<not> LOCKED cf" "2 \<le> NTHREAD cf" "0 < ITERS cf" and "s = skel_run cf race"
  shows "double_alloc s = 1 \<and> 2047 \<in> set (holding s 0) \<and> 2047 \<in> set (holding s 1)"
proof -
  have "0 < NTHREAD cf" "1 < NTHREAD cf"
    using assms(2) by simp_all
  then show ?thesis
    using assms(1,3) unfolding assms(4)
    by (simp add: race_def skel_eval holding_def blocks_def del: One_nat_def)
qed

theorem unlocked_double_alloc_witness:
  "double_alloc (skel_run \<lparr>LOCKED = False, NTHREAD = 2, ITERS = 1\<rparr> race) = 1"
  using unlocked_double_alloc [of "\<lparr>LOCKED = False, NTHREAD = 2, ITERS = 1\<rparr>", OF _ _ _ refl] by simp

definition whole :: "nat list" where
  "whole = [0, 0, 0, 0, 0, 0, 0, 0, 0, 0, 0, 0, 0, 0, 0, 0, 0, 0, 0, 0, 0, 0, 0, 0, 0, 0, 0, 0, 0, 0, 0, 0, 0, 0, 0, 0, 0, 0, 0, 0, 0]"

lemma one_handler_ends: "pc (threads (skel_run one_handler whole) 0) = Gone"
  by (simp add: one_handler_def whole_def skel_eval del: One_nat_def)

theorem locked_allocator_exact_witness:
  "blocks_leaked (skel_run one_handler whole) = 0 \<and> handled (skel_run one_handler whole) = 1"
  using locked_allocator_exact [of one_handler _ whole, OF _ refl] one_handler_ends
  by (simp add: one_handler_def)

end
