(* ===== verification/Taxonomy.thy ===== *)
theory Taxonomy
  imports Ring
begin

unbundle bit_operations_syntax

text \<open>
  The shared-state patterns of \<open>conflict-measurement/pattern_taxonomy.c\<close>: what the post-processing of an event does to
  the state that the connections share, for each pattern, when events run to completion one after the other.
\<close>

section \<open>The harness\<close>

definition ROBLOB :: nat where "ROBLOB = 1048576"
definition QN :: nat where "QN = 4096"
definition CACHEN :: nat where "CACHEN = 256"

record ent =
  key :: u64
  val :: u64

record shared_state =
  g_counter :: u64
  ro_blob :: "nat \<Rightarrow> u8"
  queue :: "u64 ring"
  cache :: "nat \<Rightarrow> ent"
  percon :: "nat \<Rightarrow> u64"

definition shared0 :: shared_state where
  "shared0 = \<lparr>g_counter = 0, ro_blob = of_nat, queue = ring_empty 0, cache = (\<lambda>_. \<lparr>key = 0, val = 0\<rparr>), percon = (\<lambda>_. 0)\<rparr>"

text \<open>The routine on the accelerator; C's arithmetic is taken to wrap.\<close>

definition offload_stub :: "u64 \<Rightarrow> u64" where
  "offload_stub x = ((\<lambda>x. x * 1103515245 + 12345) ^^ 32) x"

definition acc_add :: "nat \<Rightarrow> u64 \<Rightarrow> shared_state \<Rightarrow> shared_state" where
  "acc_add i v s = s\<lparr>percon := (percon s)(i := percon s i + v)\<rparr>"

definition ro_sum :: "u64 \<Rightarrow> shared_state \<Rightarrow> u64" where
  "ro_sum r s = sum_list (map (\<lambda>i. ucast (ro_blob s (unat (r + of_nat i) mod ROBLOB))) [0..<256])"

definition queue_push :: "u64 \<Rightarrow> shared_state \<Rightarrow> shared_state" where
  "queue_push r s =
     (let s = s\<lparr>queue := ring_put QN r (queue s)\<rparr>
      in if rhead (queue s) - rtail (queue s) > QN then s\<lparr>queue := (queue s)\<lparr>rtail := rtail (queue s) + 1\<rparr>\<rparr> else s)"

definition cache_touch :: "nat \<Rightarrow> nat \<Rightarrow> u64 \<Rightarrow> shared_state \<Rightarrow> shared_state" where
  "cache_touch i b r s =
     (let s = (if key (cache s b) = r then acc_add i (val (cache s b)) s else s)
      in s\<lparr>cache := (cache s)(b := \<lparr>key = r, val = xor r (of_nat i)\<rparr>)\<rparr>)"

definition postprocess :: "int \<Rightarrow> nat \<Rightarrow> nat \<Rightarrow> u64 \<Rightarrow> shared_state \<Rightarrow> shared_state" where
  "postprocess PATTERN i it r s =
     (let b = (it mod 1000) mod CACHEN
      in if PATTERN = 0 then s
         else if PATTERN = 1 then acc_add i r s
         else if PATTERN = 2 then acc_add i (ro_sum r s) s
         else if PATTERN = 3 then s\<lparr>g_counter := g_counter s + r\<rparr>
         else if PATTERN = 4 then s\<lparr>g_counter := g_counter s + r\<rparr>
         else if PATTERN = 5 then queue_push r s
         else if PATTERN = 6 then queue_push r s
         else if PATTERN = 7 then cache_touch i b r s
         else if PATTERN = 8 then cache_touch i b r s
         else s)"

definition preprocess :: "nat \<Rightarrow> nat \<Rightarrow> u64" where
  "preprocess i it = xor (push_bit 20 (of_nat i)) (of_nat it)"

text \<open>An iteration \<open>it\<close> of the worker \<open>i\<close>, and a run of iterations of several workers in some order.\<close>

definition worker_event :: "int \<Rightarrow> nat \<times> nat \<Rightarrow> shared_state \<Rightarrow> shared_state" where
  "worker_event PATTERN e s = postprocess PATTERN (fst e) (snd e) (offload_stub (preprocess (fst e) (snd e))) s"

definition harness_run :: "int \<Rightarrow> (nat \<times> nat) list \<Rightarrow> shared_state" where
  "harness_run PATTERN es = fold (worker_event PATTERN) es shared0"

definition result :: "nat \<times> nat \<Rightarrow> u64" where
  "result e = offload_stub (preprocess (fst e) (snd e))"

definition NAMES :: "string list" where
  "NAMES = [''stateless'', ''perconn'', ''ro_shared'', ''counter_lock'', ''counter_nolock'', ''queue_lock'', ''queue_nolock'',
     ''cache_lock'', ''cache_nolock'']"

definition pattern_of :: "string \<Rightarrow> int" where
  "pattern_of p = fold (\<lambda>i r. if p = NAMES ! i then int i else r) [0..<9] (- 1)"

section \<open>The queue keeps the newest results\<close>

text \<open>The abstract queue: the last \<open>n\<close> entries of a list.\<close>

definition newest :: "nat \<Rightarrow> 'a list \<Rightarrow> 'a list" where
  "newest n xs = drop (length xs - n) xs"

lemma newest_snoc:
  assumes "0 < n"
  shows "newest n (xs @ [x]) = (if length xs < n then newest n xs @ [x] else tl (newest n xs) @ [x])"
  using assms by (auto simp: newest_def tl_drop Suc_diff_le drop_Suc)

lemma length_newest: "length (newest n xs) = min n (length xs)"
  by (simp add: newest_def)

lemma length_ring_items: "length (ring_items N r) = rhead r - rtail r"
  by (simp add: ring_items_def)

lemma queue_push_newest:
  assumes wf: "ring_wf QN (queue s)" and items: "ring_items QN (queue s) = newest QN xs"
  shows "ring_wf QN (queue (queue_push r s)) \<and> ring_items QN (queue (queue_push r s)) = newest QN (xs @ [r])"
proof -
  have QN: "0 < QN"
    by (simp add: QN_def)
  have len: "rhead (queue s) - rtail (queue s) = min QN (length xs)"
    using arg_cong [OF items, of length] by (simp add: length_ring_items length_newest)
  show ?thesis
  proof (cases "length xs < QN")
    case True
    then have room: "ring_room QN (queue s)"
      using len by (simp add: ring_room_def)
    then have "queue (queue_push r s) = ring_put QN r (queue s)"
      using wf by (auto simp: queue_push_def ring_put_def ring_room_def ring_wf_def Let_def)
    then show ?thesis
      using ring_items_put [OF wf room] ring_wf_put [OF wf room] items newest_snoc [OF QN, of xs r] True by simp
  next
    case False
    then have full: "rhead (queue s) = rtail (queue s) + QN"
      using len wf by (simp add: ring_wf_def)
    have q: "queue (queue_push r s) = (ring_put QN r (queue s))\<lparr>rtail := rtail (queue s) + 1\<rparr>"
      using full by (simp add: queue_push_def ring_put_def Let_def)
    have rt: "rtail (ring_put QN r (queue s)) = rtail (queue s)"
      by (simp add: ring_put_def)
    have "rtail (queue s) < rhead (ring_put QN r (queue s))"
      using full by (simp add: ring_put_def)
    then have "ring_items QN (ring_put QN r (queue s))
        = rbuf (ring_put QN r (queue s)) (rtail (queue s) mod QN) # ring_items QN (queue (queue_push r s))"
      unfolding q ring_items_def by (simp add: upt_conv_Cons rt)
    then have "ring_items QN (queue (queue_push r s)) = tl (ring_items QN (queue s)) @ [r]"
      using ring_put_full [OF QN full, of r] by simp
    moreover have "ring_wf QN (queue (queue_push r s))"
      unfolding q using full by (simp add: ring_wf_def ring_put_def)
    ultimately show ?thesis
      using items newest_snoc [OF QN, of xs r] False by simp
  qed
qed

text \<open>In the queue patterns the shared ring refines a sliding window: after any sequence of events of any workers its
  pending entries are the results of the last 4096 events, oldest first, and the two counters stay within the array.\<close>

theorem queue_keeps_newest:
  assumes "PATTERN = 5 \<or> PATTERN = 6"
  shows "ring_items QN (queue (harness_run PATTERN es)) = newest QN (map result es) \<and> ring_wf QN (queue (harness_run PATTERN es))"
proof (induction es rule: rev_induct)
  case Nil
  then show ?case
    by (simp add: harness_run_def shared0_def newest_def)
next
  case (snoc e es)
  have "harness_run PATTERN (es @ [e]) = queue_push (result e) (harness_run PATTERN es)"
    using assms by (auto simp: harness_run_def worker_event_def postprocess_def result_def Let_def)
  then show ?case
    using queue_push_newest [of "harness_run PATTERN es" "map result es" "result e"] snoc by simp
qed

theorem queue_keeps_newest_witness:
  "ring_items QN (queue (harness_run 5 [(0, 0), (1, 0), (0, 1)])) = [result (0, 0), result (1, 0), result (0, 1)]"
  using queue_keeps_newest [of 5 "[(0, 0), (1, 0), (0, 1)]"] by (simp add: newest_def QN_def)

section \<open>Results identify their events\<close>

lemma stub_step_inj: "inj (\<lambda>x :: u64. x * 1103515245 + 12345)"
proof (rule injI)
  have inverse: "x * 1103515245 * 17850689345304521573 = x" for x :: u64
  proof -
    have "(1103515245 :: u64) * 17850689345304521573 = 1"
      by simp
    then show ?thesis
      by (simp only: mult.assoc mult_1_right)
  qed
  fix x y :: u64
  assume "x * 1103515245 + 12345 = y * 1103515245 + 12345"
  then have "x * 1103515245 = y * 1103515245"
    by simp
  then show "x = y"
    using inverse by metis
qed

lemma offload_stub_inj: "offload_stub x = offload_stub y \<longleftrightarrow> x = y"
  using inj_fn [OF stub_step_inj, of 32] unfolding offload_stub_def by (auto dest: injD)

lemma preprocess_num:
  assumes "it < 2 ^ 20"
  shows "preprocess i it = of_nat (i * 2 ^ 20 + it)"
proof -
  have "take_bit 20 it = it"
    using assms by (intro take_bit_nat_eq_self)
  then have "push_bit 20 i AND it = 0"
    by (intro bit_eqI) (metis bit_and_iff bit_push_bit_iff bit_take_bit_iff bit_0_eq bot_apply bot_bool_def not_le)
  then have "push_bit 20 i XOR it = i * 2 ^ 20 + it"
    by (simp add: disjunctive_add_eq_xor [symmetric] push_bit_eq_mult)
  then show ?thesis
    by (simp only: preprocess_def of_nat_push_bit [symmetric] of_nat_xor_eq [symmetric])
qed

text \<open>The events of a harness: at most 256 threads, the length of the array of threads, and at most $2^{20}$ iterations.\<close>

definition harness_event :: "nat \<times> nat \<Rightarrow> bool" where
  "harness_event e \<longleftrightarrow> fst e < 256 \<and> snd e < 2 ^ 20"

lemma unat_preprocess: "harness_event e \<Longrightarrow> unat (preprocess (fst e) (snd e)) = fst e * 2 ^ 20 + snd e"
proof -
  assume e: "harness_event e"
  then have "fst e * 2 ^ 20 + snd e < 2 ^ LENGTH(64)"
    by (simp add: harness_event_def)
  then show ?thesis
    using e by (simp only: harness_event_def preprocess_num unat_of_nat mod_less)
qed

lemma result_inj:
  assumes "harness_event e" "harness_event e'" "result e = result e'"
  shows "e = e'"
proof -
  have eq: "fst e * 2 ^ 20 + snd e = fst e' * 2 ^ 20 + snd e'"
    using unat_preprocess [OF assms(1)] unat_preprocess [OF assms(2)] assms(3) by (simp add: result_def offload_stub_inj)
  have "snd e = snd e'"
    using arg_cong [OF eq, of "\<lambda>n. n mod 2 ^ 20"] assms(1,2) by (simp add: harness_event_def)
  then show ?thesis
    using eq by (simp add: prod_eq_iff)
qed

lemma result_not_zero:
  assumes "harness_event e"
  shows "result e \<noteq> 0"
proof
  assume "result e = 0"
  moreover have "offload_stub 4339559634560561568 = 0"
    by code_simp
  ultimately have "preprocess (fst e) (snd e) = 4339559634560561568"
    by (metis offload_stub_inj result_def)
  then have "fst e * 2 ^ 20 + snd e = unat (4339559634560561568 :: u64)"
    using unat_preprocess [OF assms] by simp
  then show False
    using assms by (simp add: harness_event_def)
qed

section \<open>The cache is never hit\<close>

definition cache_keys :: "(nat \<times> nat) list \<Rightarrow> shared_state \<Rightarrow> bool" where
  "cache_keys es s \<longleftrightarrow> (\<forall>b. key (cache s b) = 0 \<or> key (cache s b) \<in> result ` set es) \<and> percon s = (\<lambda>_. 0)"

lemma cache_touch_miss:
  assumes "cache_keys es s" "harness_event e" "\<forall>e' \<in> set es. harness_event e'" "e \<notin> set es"
  shows "cache_keys (es @ [e]) (cache_touch (fst e) b (result e) s)"
proof -
  have "key (cache s b) \<noteq> result e"
  proof
    assume k: "key (cache s b) = result e"
    then have "key (cache s b) \<in> result ` set es"
      using assms(1) result_not_zero [OF assms(2)] unfolding cache_keys_def by metis
    then obtain e' where e': "e' \<in> set es" "result e = result e'"
      using k by auto
    then have "e = e'"
      using assms(3) result_inj [OF assms(2)] by blast
    then show False
      using assms(4) e'(1) by simp
  qed
  then show ?thesis
    using assms(1) by (auto simp: cache_keys_def cache_touch_def Let_def)
qed

text \<open>In the cache patterns, which are meant to model connections that look up popular keys, no lookup ever hits: the
  results of distinct iterations are distinct, since the routine permutes the 64-bit words, so with at most 256 threads and
  $2^{20}$ iterations no event finds its own key and no cached value is ever used.\<close>

theorem cache_never_hits:
  assumes "PATTERN = 7 \<or> PATTERN = 8" "distinct es" "\<forall>e \<in> set es. harness_event e"
  shows "percon (harness_run PATTERN es) i = 0 \<and> inj_on result (set es)"
proof -
  have inj: "inj_on result (set es)"
    by (rule inj_onI) (use result_inj assms(3) in blast)
  have "cache_keys es (harness_run PATTERN es)"
    using assms(2,3)
  proof (induction es rule: rev_induct)
    case Nil
    then show ?case
      by (simp add: harness_run_def shared0_def cache_keys_def)
  next
    case (snoc e es)
    have "harness_run PATTERN (es @ [e]) = cache_touch (fst e) ((snd e mod 1000) mod CACHEN) (result e) (harness_run PATTERN es)"
      using assms(1) by (auto simp: harness_run_def worker_event_def postprocess_def result_def Let_def)
    then show ?case
      using snoc cache_touch_miss [of es "harness_run PATTERN es" e] by simp
  qed
  then show ?thesis
    using inj by (simp add: cache_keys_def)
qed

theorem cache_never_hits_witness:
  "percon (harness_run 7 [(0, 5), (1, 5), (0, 6)]) 0 = 0"
  using cache_never_hits [of 7 "[(0, 5), (1, 5), (0, 6)]"] by (simp add: harness_event_def)

lemma patterns_named: "map pattern_of NAMES = [0, 1, 2, 3, 4, 5, 6, 7, 8]" "pattern_of ''other'' = - 1"
  by (simp_all add: NAMES_def pattern_of_def upt_rec)

end
