(* ===== verification/TcoGpu.thy ===== *)
theory TcoGpu
  imports ThreadServers GpuRuntime
begin

text \<open>
  The transparent-offload TCP server on the GPU, \<open>runtime/tco_server_gpu.cu\<close>: a dispatcher on one core whose
  connections are fibers in blocking style; reading, writing and the offload to the connection's CUDA stream yield. The
  loops that read and write are those of \<open>ThreadServers\<close>, the stream is that of \<open>GpuLib\<close>. The results of system calls
  and the turns of the device are inputs.
\<close>

section \<open>State\<close>

definition MAXCONN :: nat where "MAXCONN = 4096"

text \<open>The key is that of \<open>libaccel_gpu.cu\<close>; a request has \<open>REQ\<close> bytes.\<close>

definition AESKEY :: "u8 list" where
  "AESKEY = [1, 8, 15, 22, 29, 36, 43, 50, 57, 64, 71, 78, 85, 92, 99, 106]"

datatype ioev = EV_IN | EV_OUT

datatype gstate = RUNNABLE | WAIT_IO ioev | WAIT_OFF

text \<open>Where the handler is: in \<open>co_read_n\<close>, behind the switch of \<open>co_offload\<close>, in \<open>co_write_n\<close>, or at its end.\<close>

datatype gphase = G_read | G_off | G_write | G_end

text \<open>
  The page-locked buffer of a connection is \<open>buf\<close> of its thread while the fiber has it, and the host buffer of the
  stream while the offload runs.
\<close>

record gtc =
  gfd :: nat
  gstate :: gstate
  thr :: "gphase cthread"
  gstr :: gstream

text \<open>Where the dispatcher is: at a connection of its first or its third loop, at the poll, or inside a fiber.\<close>

datatype tctl = Scan_off nat | At_poll | Scan_run nat | In_fiber nat

text \<open>\<open>armed\<close> is the one-shot registration of a descriptor with its pointer; \<open>closed\<close> has the threads that ended.\<close>

record tg =
  conns :: "nat \<Rightarrow> gtc option"
  nconns :: nat
  armed :: "nat \<Rightarrow> (ioev \<times> nat) option"
  ctl :: tctl
  g_done :: nat
  closed :: "gphase cthread list"

definition tg0 :: tg where
  "tg0 = \<lparr>conns = (\<lambda>_. None), nconns = 0, armed = (\<lambda>_. None), ctl = Scan_off 0, g_done = 0, closed = []\<rparr>"

definition set_conn :: "nat \<Rightarrow> gtc \<Rightarrow> tg \<Rightarrow> tg" where
  "set_conn i c s = s\<lparr>conns := (conns s)(i := Some c)\<rparr>"

section \<open>A connection's fiber\<close>

definition to_dispatcher :: "nat \<Rightarrow> tg \<Rightarrow> tg" where
  "to_dispatcher i s = s\<lparr>ctl := Scan_run (i + 1)\<rparr>"

definition co_yield_io :: "nat \<Rightarrow> gtc \<Rightarrow> ioev \<Rightarrow> tg \<Rightarrow> tg" where
  "co_yield_io i c ev s =
     to_dispatcher i (set_conn i (c\<lparr>gstate := WAIT_IO ev\<rparr>) (s\<lparr>armed := (armed s)(gfd c := Some (ev, i))\<rparr>))"

text \<open>\<open>co_offload\<close> up to its switch: the copy to the device, the kernel, the copy back and the event are queued.\<close>

definition co_offload :: "nat \<Rightarrow> gtc \<Rightarrow> tg \<Rightarrow> tg" where
  "co_offload i c s =
     to_dispatcher i (set_conn i (c\<lparr>gstr := enqueue_work ((gstr c)\<lparr>host := wr 0 (buf (thr c)) (host (gstr c))\<rparr>), gstate := WAIT_OFF\<rparr>) s)"

text \<open>The end of the handler; the dispatcher removes the registration, closes the descriptor and frees the connection.\<close>

definition serve_end :: "nat \<Rightarrow> gtc \<Rightarrow> tg \<Rightarrow> tg" where
  "serve_end i c s =
     to_dispatcher i (s\<lparr>armed := (armed s)(gfd c := None), conns := (conns s)(i := None), closed := closed s @ [thr c]\<rparr>)"

text \<open>A system call returns, or fails with \<open>EAGAIN\<close>.\<close>

datatype sysret = Again | Ret io

definition co_read_n :: "nat \<Rightarrow> sysret \<Rightarrow> gtc \<Rightarrow> tg \<Rightarrow> tg" where
  "co_read_n i e c s =
     (case e of
        Again \<Rightarrow> co_yield_io i c EV_IN s
      | Ret r \<Rightarrow>
          (let c = c\<lparr>thr := read_step REQ r G_off G_end (thr c)\<rparr>
           in case phase (thr c) of
                G_off \<Rightarrow> co_offload i c s
              | G_end \<Rightarrow> serve_end i c s
              | _ \<Rightarrow> set_conn i c s))"

definition co_write_n :: "nat \<Rightarrow> sysret \<Rightarrow> gtc \<Rightarrow> tg \<Rightarrow> tg" where
  "co_write_n i e c s =
     (case e of
        Again \<Rightarrow> co_yield_io i c EV_OUT s
      | Ret r \<Rightarrow>
          (let c = c\<lparr>thr := write_step REQ r G_read G_end (thr c)\<rparr>
           in case phase (thr c) of
                G_read \<Rightarrow> set_conn i c (s\<lparr>g_done := g_done s + 1\<rparr>)
              | G_end \<Rightarrow> serve_end i c s
              | _ \<Rightarrow> set_conn i c s))"

definition co_offloaded :: "nat \<Rightarrow> gtc \<Rightarrow> tg \<Rightarrow> tg" where
  "co_offloaded i c s = set_conn i (c\<lparr>thr := (thr c)\<lparr>buf := rd (host (gstr c)) 0 REQ, phase := G_write\<rparr>\<rparr>) s"

definition serve :: "nat \<Rightarrow> sysret \<Rightarrow> gtc \<Rightarrow> tg \<Rightarrow> tg" where
  "serve i e c s =
     (case phase (thr c) of
        G_read \<Rightarrow> co_read_n i e c s
      | G_off \<Rightarrow> co_offloaded i c s
      | G_write \<Rightarrow> co_write_n i e c s
      | G_end \<Rightarrow> serve_end i c s)"

section \<open>The dispatcher\<close>

definition conn_new :: "memory \<Rightarrow> nat \<Rightarrow> tg \<Rightarrow> tg" where
  "conn_new garbage f s =
     s\<lparr>armed := (armed s)(f := Some (EV_IN, nconns s)), nconns := nconns s + 1,
       conns := (conns s)(nconns s := Some \<lparr>gfd = f, gstate = RUNNABLE, thr = fresh G_read,
         gstr = \<lparr>host = garbage, dev = garbage, todo = []\<rparr>\<rparr>)\<rparr>"

definition accept_one :: "memory \<Rightarrow> nat \<Rightarrow> tg \<Rightarrow> tg" where
  "accept_one garbage f s = (if nconns s < MAXCONN then conn_new garbage f s else s)"

text \<open>What \<open>epoll_wait\<close> reports: the listener, with the descriptors that are then accepted, or a registered descriptor,
  whose registration it disarms; the pointer of a freed connection is undefined to use.\<close>

datatype treport = Listener "nat list" | Ready nat

definition on_ready :: "nat \<Rightarrow> tg \<Rightarrow> tg option" where
  "on_ready i s =
     (case conns s i of
        None \<Rightarrow> None
      | Some c \<Rightarrow> Some (case gstate c of WAIT_IO ev \<Rightarrow> set_conn i (c\<lparr>gstate := RUNNABLE\<rparr>) s | _ \<Rightarrow> s))"

definition on_report :: "memory \<Rightarrow> treport \<Rightarrow> tg \<Rightarrow> tg option" where
  "on_report garbage r s =
     (case r of
        Listener fs \<Rightarrow> Some (fold (accept_one garbage) fs s)
      | Ready f \<Rightarrow> (case armed s f of None \<Rightarrow> Some s | Some (ev, i) \<Rightarrow> on_ready i (s\<lparr>armed := (armed s)(f := None)\<rparr>)))"

fun on_reports :: "memory \<Rightarrow> treport list \<Rightarrow> tg \<Rightarrow> tg option" where
  "on_reports garbage [] s = Some s"
| "on_reports garbage (r # rs) s = (case on_report garbage r s of None \<Rightarrow> None | Some s \<Rightarrow> on_reports garbage rs s)"

definition wake_off :: "nat \<Rightarrow> tg \<Rightarrow> tg" where
  "wake_off i s =
     (case conns s i of
        None \<Rightarrow> s
      | Some c \<Rightarrow> if gstate c = WAIT_OFF \<and> event_query (gstr c) then set_conn i (c\<lparr>gstate := RUNNABLE\<rparr>) s else s)"

text \<open>A step of the server's thread; \<open>rs\<close> is what the poll reports and \<open>e\<close> what the system call of the fiber returns.\<close>

definition run_coro :: "memory \<Rightarrow> treport list \<Rightarrow> sysret \<Rightarrow> tg \<Rightarrow> tg option" where
  "run_coro garbage rs e s =
     (case ctl s of
        Scan_off i \<Rightarrow> Some (if i < nconns s then (wake_off i s)\<lparr>ctl := Scan_off (i + 1)\<rparr> else s\<lparr>ctl := At_poll\<rparr>)
      | At_poll \<Rightarrow> map_option (\<lambda>s. s\<lparr>ctl := Scan_run 0\<rparr>) (on_reports garbage rs s)
      | Scan_run i \<Rightarrow>
          Some (if i < nconns s
                then (case conns s i of
                        None \<Rightarrow> s\<lparr>ctl := Scan_run (i + 1)\<rparr>
                      | Some c \<Rightarrow> if gstate c = RUNNABLE then s\<lparr>ctl := In_fiber i\<rparr> else s\<lparr>ctl := Scan_run (i + 1)\<rparr>)
                else s\<lparr>ctl := Scan_off 0\<rparr>)
      | In_fiber i \<Rightarrow> (case conns s i of None \<Rightarrow> None | Some c \<Rightarrow> Some (serve i e c s)))"

definition device_turn :: "nat \<Rightarrow> (nat \<times> nat) list \<Rightarrow> tg \<Rightarrow> tg" where
  "device_turn i order s =
     (case conns s i of
        None \<Rightarrow> s
      | Some c \<Rightarrow> set_conn i (c\<lparr>gstr := stream_turn (key_expand AESKEY) (REQ div 16) REQ order (gstr c)\<rparr>) s)"

datatype tg_event = T_server "treport list" sysret | T_device nat "(nat \<times> nat) list"

fun tg_run :: "memory \<Rightarrow> tg_event list \<Rightarrow> tg \<Rightarrow> tg option" where
  "tg_run garbage [] s = Some s"
| "tg_run garbage (T_server rs e # es) s = (case run_coro garbage rs e s of None \<Rightarrow> None | Some s \<Rightarrow> tg_run garbage es s)"
| "tg_run garbage (T_device i order # es) s = tg_run garbage es (device_turn i order s)"

section \<open>The block mode and the client\<close>

text \<open>A thread for each connection, which waits for its stream.\<close>

definition block_conn :: "(nat \<times> nat) list \<Rightarrow> io \<Rightarrow> gphase cthread \<times> gstream \<Rightarrow> gphase cthread \<times> gstream" where
  "block_conn order e cg =
     (case cg of (c, g) \<Rightarrow>
        case phase c of
          G_read \<Rightarrow> (read_step REQ e G_off G_end c, g)
        | G_off \<Rightarrow>
            (let g = stream_sync (key_expand AESKEY) (REQ div 16) REQ order (enqueue_work (g\<lparr>host := wr 0 (buf c) (host g)\<rparr>))
             in (c\<lparr>buf := rd (host g) 0 REQ, phase := G_write\<rparr>, g))
        | G_write \<Rightarrow> (write_step REQ e G_read G_end c, g)
        | G_end \<Rightarrow> (c, g))"

definition client_request :: "u8 list" where
  "client_request = map (\<lambda>i. of_nat (i * 131 + 7)) [0..<REQ]"

text \<open>How many replies the client counts as right and wrong in what it reads.\<close>

fun client_counts :: "nat \<Rightarrow> u8 list \<Rightarrow> u8 list \<Rightarrow> nat \<times> nat" where
  "client_counts 0 expected bs = (0, 0)"
| "client_counts (Suc n) expected bs =
     (if length bs < REQ then (0, 0)
      else (case client_counts n expected (drop REQ bs) of (g, b) \<Rightarrow>
              if take REQ bs = expected then (g + 1, b) else (g, b + 1)))"

section \<open>The invariant\<close>

definition gtc_ok :: "(u8 list \<Rightarrow> u8 list) \<Rightarrow> gtc \<Rightarrow> bool" where
  "gtc_ok f c \<longleftrightarrow>
     (case phase (thr c) of
        G_read \<Rightarrow> at_read REQ f (thr c) \<and> todo (gstr c) = [] \<and> gstate c \<noteq> WAIT_OFF
      | G_off \<Rightarrow> at_work REQ f (thr c) \<and> (gstate c = RUNNABLE \<or> gstate c = WAIT_OFF)
          \<and> (\<exists>k. stage AESKEY (REQ div 16) REQ (\<lambda>p. buf (thr c) ! p) k (gstr c) \<and> (gstate c = RUNNABLE \<longrightarrow> 4 \<le> k))
      | G_write \<Rightarrow> at_write REQ REQ f (thr c) \<and> todo (gstr c) = [] \<and> gstate c \<noteq> WAIT_OFF
      | G_end \<Rightarrow> False)"

definition tg_inv :: "(u8 list \<Rightarrow> u8 list) \<Rightarrow> tg \<Rightarrow> bool" where
  "tg_inv f s \<longleftrightarrow>
     (\<forall>i c. conns s i = Some c \<longrightarrow> i < nconns s \<and> gtc_ok f c)
   \<and> (\<forall>d ev i. armed s d = Some (ev, i) \<longrightarrow> (\<exists>c. conns s i = Some c \<and> gfd c = d))
   \<and> (\<forall>i. ctl s = In_fiber i \<longrightarrow> (\<exists>c. conns s i = Some c \<and> gstate c = RUNNABLE))
   \<and> (\<forall>t \<in> set (closed s). at_end REQ f t)"

lemma tg_D:
  assumes "tg_inv f s"
  shows "conns s i = Some c \<Longrightarrow> i < nconns s" and "conns s i = Some c \<Longrightarrow> gtc_ok f c"
    and "armed s d = Some (ev, i) \<Longrightarrow> \<exists>c. conns s i = Some c \<and> gfd c = d"
    and "ctl s = In_fiber i \<Longrightarrow> \<exists>c. conns s i = Some c \<and> gstate c = RUNNABLE"
    and "t \<in> set (closed s) \<Longrightarrow> at_end REQ f t"
  using assms unfolding tg_inv_def by blast+

lemma length_AESKEY: "length AESKEY = 16"
  by (simp add: AESKEY_def)

lemma REQ_grid: "REQ = 16 * (REQ div 16)" "REQ div 16 + 256 \<le> 2 ^ 64"
  by (simp_all add: REQ_def)

lemma evp_result:
  assumes "evp_ok evp" "stage AESKEY (REQ div 16) REQ (\<lambda>p. b ! p) k g" "4 \<le> k" "length b = REQ"
  shows "rd (host g) 0 REQ = evp AESKEY b"
  using assms REQ_grid(1)
  by (auto simp: stage_def same_upto_def ctr_bytes_def evp_ok_def length_AESKEY rd_def)

lemma evp_length: "evp_ok evp \<Longrightarrow> length (evp AESKEY r) = length r"
  by (simp add: evp_ok_def length_AESKEY)

text \<open>A change of connection \<open>i\<close> that keeps its descriptor keeps the invariant when the connection is right again.\<close>

lemma tg_inv_set:
  assumes inv: "tg_inv f s" and i: "conns s i = Some c0" and ok: "gtc_ok f c" "gfd c = gfd c0"
    and arm: "\<And>d ev j. a d = Some (ev, j) \<Longrightarrow> armed s d = Some (ev, j) \<or> (j = i \<and> d = gfd c0)"
    and ct: "\<And>j. x = In_fiber j \<Longrightarrow> (if j = i then gstate c = RUNNABLE else ctl s = In_fiber j)"
  shows "tg_inv f (s\<lparr>conns := (conns s)(i := Some c), armed := a, ctl := x, g_done := n\<rparr>)"
  unfolding tg_inv_def
proof (intro conjI allI impI ballI)
  fix j cj
  assume "conns (s\<lparr>conns := (conns s)(i := Some c), armed := a, ctl := x, g_done := n\<rparr>) j = Some cj"
  then have "j = i \<and> cj = c \<or> j \<noteq> i \<and> conns s j = Some cj"
    by (auto split: if_splits)
  then show "j < nconns (s\<lparr>conns := (conns s)(i := Some c), armed := a, ctl := x, g_done := n\<rparr>)" "gtc_ok f cj"
    using tg_D(1,2) [OF inv] ok i by auto
next
  fix d ev j
  assume "armed (s\<lparr>conns := (conns s)(i := Some c), armed := a, ctl := x, g_done := n\<rparr>) d = Some (ev, j)"
  then consider "armed s d = Some (ev, j)" | "j = i" "d = gfd c0"
    using arm by auto
  then show "\<exists>cj. conns (s\<lparr>conns := (conns s)(i := Some c), armed := a, ctl := x, g_done := n\<rparr>) j = Some cj \<and> gfd cj = d"
    using tg_D(3) [OF inv, of d ev j] i ok(2) by cases auto
next
  fix j
  assume "ctl (s\<lparr>conns := (conns s)(i := Some c), armed := a, ctl := x, g_done := n\<rparr>) = In_fiber j"
  then show "\<exists>cj. conns (s\<lparr>conns := (conns s)(i := Some c), armed := a, ctl := x, g_done := n\<rparr>) j = Some cj \<and> gstate cj = RUNNABLE"
    using ct [of j] tg_D(4) [OF inv, of j] by (auto split: if_splits)
qed (use tg_D(5) [OF inv] in simp)

lemma tg_inv_end:
  assumes inv: "tg_inv f s" and i: "conns s i = Some c0" and "gfd c = gfd c0" and e: "at_end REQ f (thr c)"
  shows "tg_inv f (serve_end i c s)"
proof -
  have "\<exists>cj. conns s j = Some cj \<and> gfd cj = d \<and> j \<noteq> i" if "armed s d = Some (ev, j)" "d \<noteq> gfd c" for d ev j
    using tg_D(3) [OF inv that(1)] that(2) assms(3) i by auto
  then show ?thesis
    using tg_D(1,2,5) [OF inv] e by (fastforce simp: tg_inv_def serve_end_def to_dispatcher_def split: if_splits)
qed

text \<open>What a step of a fiber does, as one change of the state.\<close>

lemma fiber_moves:
  "co_yield_io i c ev s = s\<lparr>conns := (conns s)(i := Some (c\<lparr>gstate := WAIT_IO ev\<rparr>)), armed := (armed s)(gfd c := Some (ev, i)),
     ctl := Scan_run (i + 1), g_done := g_done s\<rparr>"
  "co_offload i c s = s\<lparr>conns := (conns s)(i := Some (c\<lparr>gstr := enqueue_work ((gstr c)\<lparr>host := wr 0 (buf (thr c)) (host (gstr c))\<rparr>),
     gstate := WAIT_OFF\<rparr>)), armed := armed s, ctl := Scan_run (i + 1), g_done := g_done s\<rparr>"
  "set_conn i c s = s\<lparr>conns := (conns s)(i := Some c), armed := armed s, ctl := ctl s, g_done := g_done s\<rparr>"
  "set_conn i c (s\<lparr>g_done := n\<rparr>) = s\<lparr>conns := (conns s)(i := Some c), armed := armed s, ctl := ctl s, g_done := n\<rparr>"
  by (simp_all add: co_yield_io_def co_offload_def to_dispatcher_def set_conn_def)

lemma tg_inv_conn:
  assumes inv: "tg_inv f s" and i: "conns s i = Some c0" and ok: "gtc_ok f c" "gfd c = gfd c0"
    and st: "gstate c0 = RUNNABLE \<longrightarrow> gstate c = RUNNABLE"
  shows "tg_inv f (set_conn i c (s\<lparr>g_done := n\<rparr>))" and "tg_inv f (set_conn i c s)"
proof -
  show "tg_inv f (set_conn i c (s\<lparr>g_done := n\<rparr>))" for n
    unfolding fiber_moves(4) using tg_D(4) [OF inv] i st by (intro tg_inv_set [OF inv i ok]) auto
  from this [of "g_done s"] show "tg_inv f (set_conn i c s)"
    by simp
qed

lemma tg_inv_yield:
  assumes "tg_inv f s" "conns s i = Some c" "gtc_ok f (c\<lparr>gstate := WAIT_IO ev\<rparr>)"
  shows "tg_inv f (co_yield_io i c ev s)"
  unfolding fiber_moves(1) by (rule tg_inv_set [OF assms]) (auto split: if_splits)

lemma gtc_ok_read: "gtc_ok f c \<Longrightarrow> phase (thr c) = G_read \<Longrightarrow> at_read REQ f (thr c) \<and> todo (gstr c) = [] \<and> gstate c \<noteq> WAIT_OFF"
  and gtc_ok_write: "gtc_ok f c \<Longrightarrow> phase (thr c) = G_write \<Longrightarrow> at_write REQ REQ f (thr c) \<and> todo (gstr c) = [] \<and> gstate c \<noteq> WAIT_OFF"
  by (simp_all add: gtc_ok_def)

lemma offload_starts:
  assumes "at_work REQ f (thr c)" "phase (thr c) = G_off" "todo (gstr c) = []"
  shows "gtc_ok f (c\<lparr>gstr := enqueue_work ((gstr c)\<lparr>host := wr 0 (buf (thr c)) (host (gstr c))\<rparr>), gstate := WAIT_OFF\<rparr>)"
proof -
  have "length (buf (thr c)) = REQ"
    using assms(1) by (simp add: at_work_def)
  then have "stage AESKEY (REQ div 16) REQ (\<lambda>p. buf (thr c) ! p) 0
      (enqueue_work ((gstr c)\<lparr>host := wr 0 (buf (thr c)) (host (gstr c))\<rparr>))"
    using assms(3) by (intro stage_start) (simp_all add: same_upto_def wr_def)
  then show ?thesis
    using assms(1,2) by (auto simp: gtc_ok_def)
qed

lemma tg_inv_offload:
  assumes inv: "tg_inv f s" and i: "conns s i = Some c0" "gfd c = gfd c0"
    and w: "at_work REQ f (thr c)" "phase (thr c) = G_off" "todo (gstr c) = []"
  shows "tg_inv f (co_offload i c s)"
  unfolding fiber_moves(2) by (rule tg_inv_set [OF inv i(1) offload_starts [OF w]]) (use i(2) in auto)

lemma tg_inv_read:
  assumes inv: "tg_inv f s" and i: "ctl s = In_fiber i" "conns s i = Some c" and p: "phase (thr c) = G_read"
  shows "tg_inv f (co_read_n i e c s)"
proof -
  have ok: "at_read REQ f (thr c)" "todo (gstr c) = []" "gstate c = RUNNABLE"
    using gtc_ok_read [OF tg_D(2) [OF inv i(2)] p] tg_D(4) [OF inv i(1)] i(2) by auto
  show ?thesis
  proof (cases e)
    case Again
    have "gtc_ok f (c\<lparr>gstate := WAIT_IO EV_IN\<rparr>)"
      using ok p by (simp add: gtc_ok_def)
    then show ?thesis
      using Again tg_inv_yield [OF inv i(2)] by (simp add: co_read_n_def)
  next
    case (Ret r)
    let ?t = "read_step REQ r G_off G_end (thr c)"
    let ?c = "c\<lparr>thr := ?t\<rparr>"
    consider "phase ?t = G_read" "at_read REQ f ?t" | "phase ?t = G_off" "at_work REQ f ?t" | "phase ?t = G_end" "at_end REQ f ?t"
      using read_step_cases [OF ok(1), of r G_off G_end] p by auto
    then show ?thesis
    proof cases
      case 1
      then have "gtc_ok f ?c"
        using ok by (simp add: gtc_ok_def)
      then show ?thesis
        using Ret 1 i(1) ok(3) by (simp add: co_read_n_def tg_inv_conn [OF inv i(2)] Let_def)
    next
      case 2
      then show ?thesis
        using Ret ok(2) tg_inv_offload [OF inv i(2), of ?c] by (simp add: co_read_n_def Let_def)
    next
      case 3
      then show ?thesis
        using Ret tg_inv_end [OF inv i(2), of ?c] by (simp add: co_read_n_def Let_def)
    qed
  qed
qed

lemma tg_inv_write:
  assumes inv: "tg_inv f s" and i: "ctl s = In_fiber i" "conns s i = Some c" and p: "phase (thr c) = G_write"
    and len: "\<And>r. length r = REQ \<Longrightarrow> length (f r) = REQ"
  shows "tg_inv f (co_write_n i e c s)"
proof -
  have ok: "at_write REQ REQ f (thr c)" "todo (gstr c) = []" "gstate c = RUNNABLE"
    using gtc_ok_write [OF tg_D(2) [OF inv i(2)] p] tg_D(4) [OF inv i(1)] i(2) by auto
  show ?thesis
  proof (cases e)
    case Again
    have "gtc_ok f (c\<lparr>gstate := WAIT_IO EV_OUT\<rparr>)"
      using ok p by (simp add: gtc_ok_def)
    then show ?thesis
      using Again tg_inv_yield [OF inv i(2)] by (simp add: co_write_n_def)
  next
    case (Ret r)
    let ?t = "write_step REQ r G_read G_end (thr c)"
    let ?c = "c\<lparr>thr := ?t\<rparr>"
    consider "phase ?t = G_write" "at_write REQ REQ f ?t" | "phase ?t = G_read" "at_read REQ f ?t" | "phase ?t = G_end" "at_end REQ f ?t"
      using write_step_cases [OF ok(1) REQ_positive len, of r G_read G_end] p by auto
    then show ?thesis
    proof cases
      case 1
      then have "gtc_ok f ?c"
        using ok by (simp add: gtc_ok_def)
      then show ?thesis
        using Ret 1 i(1) ok(3) by (simp add: co_write_n_def tg_inv_conn [OF inv i(2)] Let_def)
    next
      case 2
      then have "gtc_ok f ?c"
        using ok by (simp add: gtc_ok_def)
      then show ?thesis
        using Ret 2 i(1) ok(3) by (simp add: co_write_n_def tg_inv_conn [OF inv i(2)] Let_def)
    next
      case 3
      then show ?thesis
        using Ret tg_inv_end [OF inv i(2), of ?c] by (simp add: co_write_n_def Let_def)
    qed
  qed
qed

lemma tg_inv_offloaded:
  assumes inv: "tg_inv f s" and i: "ctl s = In_fiber i" "conns s i = Some c" and p: "phase (thr c) = G_off"
    and f: "f = evp AESKEY" "evp_ok evp"
  shows "tg_inv f (co_offloaded i c s)"
proof -
  have run: "gstate c = RUNNABLE"
    using tg_D(4) [OF inv i(1)] i(2) by auto
  then obtain k where k: "at_work REQ f (thr c)" "stage AESKEY (REQ div 16) REQ (\<lambda>p. buf (thr c) ! p) k (gstr c)" "4 \<le> k"
    using tg_D(2) [OF inv i(2)] p by (auto simp: gtc_ok_def)
  have len: "length (buf (thr c)) = REQ"
    using k(1) by (simp add: at_work_def)
  have res: "rd (host (gstr c)) 0 REQ = f (buf (thr c))"
    using evp_result [OF f(2) k(2,3) len] by (simp add: f(1))
  then have "at_write REQ REQ f ((thr c)\<lparr>buf := rd (host (gstr c)) 0 REQ, phase := G_write\<rparr>)"
    by (intro work_done [OF k(1) REQ_positive]) (simp only: res [symmetric], simp)
  then have "gtc_ok f (c\<lparr>thr := (thr c)\<lparr>buf := rd (host (gstr c)) 0 REQ, phase := G_write\<rparr>\<rparr>)"
    using run stage_idle [OF k(2,3)] by (simp add: gtc_ok_def)
  then show ?thesis
    unfolding co_offloaded_def by (intro tg_inv_conn [OF inv i(2)]) (simp_all add: run)
qed

lemma tg_inv_serve:
  assumes "tg_inv f s" "ctl s = In_fiber i" "conns s i = Some c" and f: "f = evp AESKEY" "evp_ok evp"
  shows "tg_inv f (serve i e c s)"
proof (cases "phase (thr c)")
  case G_read
  then show ?thesis
    using tg_inv_read [OF assms(1-3)] by (simp add: serve_def)
next
  case G_off
  then show ?thesis
    using tg_inv_offloaded [OF assms(1-3) _ f] by (simp add: serve_def)
next
  case G_write
  then show ?thesis
    using tg_inv_write [OF assms(1-3)] evp_length [OF f(2)] by (simp add: serve_def f(1))
next
  case G_end
  then show ?thesis
    using tg_D(2) [OF assms(1,3)] by (simp add: gtc_ok_def)
qed

lemma tg_inv_ctl: "tg_inv f s \<Longrightarrow> (\<And>i. x \<noteq> In_fiber i) \<Longrightarrow> tg_inv f (s\<lparr>ctl := x\<rparr>)"
  by (auto simp: tg_inv_def)

lemma tg_inv_accept:
  assumes inv: "tg_inv f s" and c: "\<And>i. ctl s \<noteq> In_fiber i"
  shows "tg_inv f (accept_one garbage d s) \<and> (\<forall>i. ctl (accept_one garbage d s) \<noteq> In_fiber i)"
proof -
  have new: "gtc_ok f \<lparr>gfd = d, gstate = RUNNABLE, thr = fresh G_read, gstr = \<lparr>host = garbage, dev = garbage, todo = []\<rparr>\<rparr>"
    by (auto simp: gtc_ok_def fresh_def at_read_def whole_def REQ_def intro!: exI [of _ "[]"])
  have free: "conns s (nconns s) = None"
    using tg_D(1) [OF inv, of "nconns s"] by (cases "conns s (nconns s)") auto
  then have old: "\<exists>c. conns s j = Some c \<and> gfd c = d' \<and> j \<noteq> nconns s" if "armed s d' = Some (ev, j)" for d' ev j
    using tg_D(3) [OF inv that] by fastforce
  have "tg_inv f (conn_new garbage d s)"
    unfolding tg_inv_def conn_new_def using tg_D(1,2,5) [OF inv] new c
    by (fastforce dest: old split: if_splits intro: less_SucI)
  then show ?thesis
    using inv c by (simp add: accept_one_def conn_new_def)
qed

lemma tg_inv_accepts:
  "tg_inv f s \<Longrightarrow> \<forall>i. ctl s \<noteq> In_fiber i \<Longrightarrow>
    tg_inv f (fold (accept_one garbage) ds s) \<and> (\<forall>i. ctl (fold (accept_one garbage) ds s) \<noteq> In_fiber i)"
  by (induction ds arbitrary: s) (simp_all add: tg_inv_accept)

lemma tg_inv_report:
  assumes inv: "tg_inv f s" and c: "\<forall>i. ctl s \<noteq> In_fiber i"
  shows "\<exists>t. on_report garbage r s = Some t \<and> tg_inv f t \<and> (\<forall>i. ctl t \<noteq> In_fiber i)"
proof (cases r)
  case (Listener ds)
  then show ?thesis
    using tg_inv_accepts [OF inv c] by (simp add: on_report_def)
next
  case (Ready d)
  show ?thesis
  proof (cases "armed s d")
    case (Some a)
    obtain ev i where a: "a = (ev, i)"
      by (cases a)
    obtain cn where cn: "conns s i = Some cn" "gfd cn = d"
      using tg_D(3) [OF inv] Some a by blast
    have ok: "gtc_ok f cn"
      by (rule tg_D(2) [OF inv cn(1)])
    let ?a = "(armed s)(d := None)"
    let ?c = "if \<exists>ev. gstate cn = WAIT_IO ev then cn\<lparr>gstate := RUNNABLE\<rparr> else cn"
    have "gtc_ok f ?c"
      using ok by (auto simp: gtc_ok_def split: gphase.splits)
    then have "tg_inv f (s\<lparr>conns := (conns s)(i := Some ?c), armed := ?a, ctl := ctl s, g_done := g_done s\<rparr>)"
      using c by (intro tg_inv_set [OF inv cn(1)]) (auto split: if_splits)
    moreover have "on_report garbage r s = Some (s\<lparr>conns := (conns s)(i := Some ?c), armed := ?a, ctl := ctl s, g_done := g_done s\<rparr>)"
      using Ready Some a cn(1) by (cases "gstate cn") (auto simp: on_report_def on_ready_def set_conn_def fun_upd_idem)
    ultimately show ?thesis
      using c by auto
  qed (use Ready inv c in \<open>simp add: on_report_def\<close>)
qed

lemma tg_inv_reports:
  "tg_inv f s \<Longrightarrow> \<forall>i. ctl s \<noteq> In_fiber i \<Longrightarrow> \<exists>t. on_reports garbage rs s = Some t \<and> tg_inv f t"
proof (induction rs arbitrary: s)
  case (Cons r rs)
  from tg_inv_report [OF Cons.prems, of garbage r] obtain t where
    "on_report garbage r s = Some t" "tg_inv f t" "\<forall>i. ctl t \<noteq> In_fiber i"
    by blast
  then show ?case
    using Cons.IH [of t] by simp
qed simp

lemma tg_inv_wake:
  assumes inv: "tg_inv f s"
  shows "tg_inv f (wake_off i s)"
proof (cases "conns s i")
  case (Some c)
  note ok = tg_D(2) [OF inv Some]
  show ?thesis
  proof (cases "gstate c = WAIT_OFF \<and> event_query (gstr c)")
    case True
    then have "phase (thr c) = G_off"
      using ok by (cases "phase (thr c)") (auto simp: gtc_ok_def)
    moreover from this ok True obtain k where
      "stage AESKEY (REQ div 16) REQ (\<lambda>p. buf (thr c) ! p) k (gstr c)" "4 \<le> k" "at_work REQ f (thr c)"
      using stage_query by (auto simp: gtc_ok_def)
    ultimately have "gtc_ok f (c\<lparr>gstate := RUNNABLE\<rparr>)"
      by (auto simp: gtc_ok_def)
    then show ?thesis
      using True Some tg_inv_conn(2) [OF inv Some] by (simp add: wake_off_def)
  qed (use Some inv in \<open>auto simp: wake_off_def\<close>)
qed (use inv in \<open>simp add: wake_off_def\<close>)

lemma tg_inv_device:
  assumes inv: "tg_inv f s" and o: "grid_order (REQ div 16) order"
  shows "tg_inv f (device_turn i order s)"
proof (cases "conns s i")
  case (Some c)
  let ?c = "c\<lparr>gstr := stream_turn (key_expand AESKEY) (REQ div 16) REQ order (gstr c)\<rparr>"
  have ok: "gtc_ok f c"
    by (rule tg_D(2) [OF inv Some])
  have idle: "todo (gstr c) = [] \<Longrightarrow> gstr ?c = gstr c"
    by (simp add: stream_turn_def)
  have "gtc_ok f ?c"
  proof (cases "phase (thr c)")
    case G_off
    then obtain k where "stage AESKEY (REQ div 16) REQ (\<lambda>p. buf (thr c) ! p) k (gstr c)" "gstate c = RUNNABLE \<longrightarrow> 4 \<le> k"
      using ok by (auto simp: gtc_ok_def)
    then have "stage AESKEY (REQ div 16) REQ (\<lambda>p. buf (thr c) ! p) (Suc k) (gstr ?c)" "gstate c = RUNNABLE \<longrightarrow> 4 \<le> Suc k"
      using stage_turn [OF length_AESKEY REQ_grid(2) o] by auto
    then show ?thesis
      using ok G_off by (auto simp: gtc_ok_def)
  qed (use ok idle in \<open>auto simp: gtc_ok_def\<close>)
  then show ?thesis
    using Some tg_inv_conn(2) [OF inv Some] by (simp add: device_turn_def)
qed (use inv in \<open>simp add: device_turn_def\<close>)

lemma tg_inv_run_coro:
  assumes inv: "tg_inv f s" and f: "f = evp AESKEY" "evp_ok evp"
  shows "\<exists>t. run_coro garbage rs e s = Some t \<and> tg_inv f t"
proof (cases "ctl s")
  case (Scan_off i)
  then show ?thesis
    using tg_inv_ctl [OF inv] tg_inv_ctl [OF tg_inv_wake [OF inv]] by (simp add: run_coro_def)
next
  case At_poll
  then obtain t where t: "on_reports garbage rs s = Some t" "tg_inv f t"
    using tg_inv_reports [OF inv] by auto
  then show ?thesis
    using At_poll tg_inv_ctl [OF t(2)] by (simp add: run_coro_def)
next
  case (Scan_run i)
  show ?thesis
  proof (cases "i < nconns s \<and> (\<exists>c. conns s i = Some c \<and> gstate c = RUNNABLE)")
    case True
    then have "tg_inv f (s\<lparr>ctl := In_fiber i\<rparr>)"
      using inv by (auto simp: tg_inv_def)
    then show ?thesis
      using True Scan_run by (auto simp: run_coro_def)
  next
    case False
    then show ?thesis
      using Scan_run tg_inv_ctl [OF inv] by (auto simp: run_coro_def split: option.split)
  qed
next
  case (In_fiber i)
  then obtain c where "conns s i = Some c"
    using tg_D(4) [OF inv In_fiber] by auto
  then show ?thesis
    using In_fiber tg_inv_serve [OF inv In_fiber _ f] by (simp add: run_coro_def)
qed

definition whole_grids :: "tg_event list \<Rightarrow> bool" where
  "whole_grids es \<longleftrightarrow> (\<forall>e \<in> set es. case e of T_device i order \<Rightarrow> grid_order (REQ div 16) order | _ \<Rightarrow> True)"

lemma tg_inv_run:
  assumes f: "f = evp AESKEY" "evp_ok evp"
  shows "tg_inv f s \<Longrightarrow> whole_grids es \<Longrightarrow> \<exists>t. tg_run garbage es s = Some t \<and> tg_inv f t"
proof (induction es arbitrary: s)
  case (Cons x es)
  show ?case
  proof (cases x)
    case (T_server rs e)
    obtain t where "run_coro garbage rs e s = Some t" "tg_inv f t"
      using tg_inv_run_coro [OF Cons.prems(1) f] by blast
    then show ?thesis
      using T_server Cons.IH [of t] Cons.prems(2) by (simp add: whole_grids_def)
  next
    case (T_device i order)
    then show ?thesis
      using Cons.IH [OF tg_inv_device [OF Cons.prems(1)]] Cons.prems(2) by (simp add: whole_grids_def)
  qed
qed simp

lemma tg_inv_start: "tg_inv f tg0"
  by (simp add: tg_inv_def tg0_def)

section \<open>Both modes answer with the cipher\<close>

lemma gtc_ok_end: "gtc_ok f c \<Longrightarrow> at_end REQ f (thr c)"
  by (auto simp: gtc_ok_def at_end_read at_end_work at_end_write split: gphase.splits)

definition gblock_ok :: "(u8 list \<Rightarrow> u8 list) \<Rightarrow> gphase cthread \<times> gstream \<Rightarrow> bool" where
  "gblock_ok f cg \<longleftrightarrow> todo (snd cg) = [] \<and>
     (case phase (fst cg) of
        G_read \<Rightarrow> at_read REQ f (fst cg) | G_off \<Rightarrow> at_work REQ f (fst cg)
      | G_write \<Rightarrow> at_write REQ REQ f (fst cg) | G_end \<Rightarrow> at_end REQ f (fst cg))"

lemma sync_stage:
  assumes o: "grid_order (REQ div 16) order" and w: "at_work REQ f c" and g: "todo g = []"
  shows "stage AESKEY (REQ div 16) REQ (\<lambda>p. buf c ! p) (Suc (Suc (Suc (Suc 0))))
     (stream_sync (key_expand AESKEY) (REQ div 16) REQ order (enqueue_work (g\<lparr>host := wr 0 (buf c) (host g)\<rparr>)))"
proof -
  let ?g = "enqueue_work (g\<lparr>host := wr 0 (buf c) (host g)\<rparr>)"
  let ?t = "stream_turn (key_expand AESKEY) (REQ div 16) REQ order"
  have "length (buf c) = REQ"
    using w by (simp add: at_work_def)
  then have "stage AESKEY (REQ div 16) REQ (\<lambda>p. buf c ! p) 0 ?g"
    using g by (intro stage_start) (simp_all add: same_upto_def wr_def)
  then have "stage AESKEY (REQ div 16) REQ (\<lambda>p. buf c ! p) (Suc (Suc (Suc (Suc 0)))) (?t (?t (?t (?t ?g))))"
    by (intro stage_turn [OF length_AESKEY REQ_grid(2) o])
  moreover have "stream_sync (key_expand AESKEY) (REQ div 16) REQ order ?g = ?t (?t (?t (?t ?g)))"
    using g by (simp add: stream_sync_def enqueue_work_def)
  ultimately show ?thesis
    by simp
qed

lemma gblock_step:
  assumes ok: "gblock_ok (evp AESKEY) cg" and f: "evp_ok evp" and o: "grid_order (REQ div 16) order"
  shows "gblock_ok (evp AESKEY) (block_conn order e cg)"
proof -
  obtain c g where cg: "cg = (c, g)"
    by (cases cg)
  show ?thesis
  proof (cases "phase c")
    case G_read
    then show ?thesis
      using ok read_step_cases [of REQ "evp AESKEY" c e G_off G_end] by (auto simp: gblock_ok_def block_conn_def cg)
  next
    case G_off
    then have w: "at_work REQ (evp AESKEY) c" and g: "todo g = []"
      using ok by (simp_all add: gblock_ok_def cg)
    define h where "h = stream_sync (key_expand AESKEY) (REQ div 16) REQ order (enqueue_work (g\<lparr>host := wr 0 (buf c) (host g)\<rparr>))"
    have st: "stage AESKEY (REQ div 16) REQ (\<lambda>p. buf c ! p) (Suc (Suc (Suc (Suc 0)))) h"
      unfolding h_def by (rule sync_stage [OF o w g])
    have len: "length (buf c) = REQ"
      using w by (simp add: at_work_def)
    have res: "rd (host h) 0 REQ = evp AESKEY (buf c)"
      by (rule evp_result [OF f st _ len]) simp
    have "at_write REQ REQ (evp AESKEY) (c\<lparr>buf := rd (host h) 0 REQ, phase := G_write\<rparr>)"
      by (intro work_done [OF w REQ_positive]) (simp only: res [symmetric], simp)
    then show ?thesis
      using G_off stage_idle [OF st] by (simp add: gblock_ok_def block_conn_def cg h_def [symmetric] Let_def)
  next
    case G_write
    then show ?thesis
      using ok write_step_cases [of REQ REQ "evp AESKEY" c e G_read G_end] evp_length [OF f] REQ_positive
      by (auto simp: gblock_ok_def block_conn_def cg)
  qed (use ok in \<open>simp add: block_conn_def cg\<close>)
qed

lemma gblock_run:
  "evp_ok evp \<Longrightarrow> gblock_ok (evp AESKEY) cg \<Longrightarrow> list_all (\<lambda>(order, e). grid_order (REQ div 16) order) bes \<Longrightarrow>
    gblock_ok (evp AESKEY) (fold (\<lambda>(order, e). block_conn order e) bes cg)"
proof (induction bes arbitrary: cg)
  case (Cons oe bes)
  obtain order e where oe: "oe = (order, e)"
    by (cases oe)
  have "gblock_ok (evp AESKEY) (block_conn order e cg)"
    using Cons.prems oe by (intro gblock_step) simp_all
  then show ?case
    using Cons.IH [OF Cons.prems(1)] Cons.prems(3) oe by simp
qed simp

definition answered :: "(u8 list \<Rightarrow> u8 list) \<Rightarrow> gphase cthread \<Rightarrow> bool" where
  "answered f c \<longleftrightarrow> (\<exists>rs part k. whole REQ rs \<and> inp c = concat rs @ part \<and> outp c = take k (concat (map f rs))
     \<and> (phase c = G_read \<longrightarrow> part = buf c \<and> length part < REQ \<and> outp c = concat (map f rs)))"

lemma answeredI:
  assumes "at_end REQ f c" "phase c = G_read \<Longrightarrow> at_read REQ f c"
  shows "answered f c"
proof (cases "phase c = G_read")
  case True
  then obtain rs where "whole REQ rs" "inp c = concat rs @ buf c" "outp c = concat (map f rs)" "length (buf c) < REQ"
    using assms(2) by (auto simp: at_read_def)
  then show ?thesis
    unfolding answered_def by (intro exI [of _ rs] exI [of _ "buf c"] exI [of _ "length (outp c)"]) simp
next
  case False
  then show ?thesis
    using assms(1) unfolding answered_def at_end_def by blast
qed

text \<open>C18: The server on the GPU never uses a freed connection and refines its specification in both modes: with every order of
  ready descriptors, results of calls, threads of a grid and turns of the device, what each connection has written, also
  one that has been closed, is a prefix of OpenSSL's AES-128-CTR of its requests, which is what the client compares with;
  a connection that waits for a request has been sent all its replies.\<close>

theorem gpu_server_replies:
  assumes "evp_ok evp" "whole_grids es" "list_all (\<lambda>(order, e). grid_order (REQ div 16) order) bes" "todo g = []"
  shows "\<exists>t. tg_run garbage es tg0 = Some t
     \<and> (\<forall>i c. conns t i = Some c \<longrightarrow> answered (evp AESKEY) (thr c)) \<and> (\<forall>c \<in> set (closed t). at_end REQ (evp AESKEY) c)
     \<and> answered (evp AESKEY) (fst (fold (\<lambda>(order, e). block_conn order e) bes (fresh G_read, g)))"
proof -
  obtain t where t: "tg_run garbage es tg0 = Some t" "tg_inv (evp AESKEY) t"
    using tg_inv_run [OF refl assms(1) tg_inv_start assms(2)] by blast
  have "answered (evp AESKEY) (thr c)" if "conns t i = Some c" for i c
    by (rule answeredI [OF gtc_ok_end]) (use gtc_ok_read tg_D(2) [OF t(2) that] in auto)
  moreover have "gblock_ok (evp AESKEY) (fresh G_read, g)"
    using assms(4) by (auto simp: gblock_ok_def fresh_def at_read_def whole_def REQ_def intro!: exI [of _ "[]"])
  then have b: "gblock_ok (evp AESKEY) (fold (\<lambda>(order, e). block_conn order e) bes (fresh G_read, g))"
    by (rule gblock_run [OF assms(1) _ assms(3)])
  have "answered (evp AESKEY) (fst (fold (\<lambda>(order, e). block_conn order e) bes (fresh G_read, g)))"
    by (rule answeredI)
      (use b in \<open>auto simp: gblock_ok_def at_end_read at_end_work at_end_write split: gphase.splits\<close>)
  ultimately show ?thesis
    using t tg_D(5) [OF t(2)] by blast
qed

definition ctr_evp :: "u8 list \<Rightarrow> u8 list \<Rightarrow> u8 list" where
  "ctr_evp key bs = map (\<lambda>p. xor (bs ! p) (keystream key 0 p)) [0..<length bs]"

definition one_client :: "tg_event list" where
  "one_client =
     [T_server [] Again, T_server [Listener [5]] Again, T_server [] Again, T_server [] (Ret (Got (replicate 4096 7))),
      T_device 0 (List.product [0..<1] [0..<256]), T_device 0 (List.product [0..<1] [0..<256])]"

theorem gpu_server_replies_witness:
  "\<exists>t. tg_run (\<lambda>_. 0) one_client tg0 = Some t \<and> (\<forall>i c. conns t i = Some c \<longrightarrow> answered (ctr_evp AESKEY) (thr c))"
proof -
  have "grid_order (REQ div 16) (List.product [0..<1] [0..<256])"
    using grid_order_all [of 256] by (simp add: grid_blocks_def REQ_def del: upt_Suc)
  then have "whole_grids one_client"
    by (simp add: whole_grids_def one_client_def)
  moreover have "evp_ok ctr_evp"
    by (simp add: evp_ok_def ctr_evp_def)
  ultimately show ?thesis
    using gpu_server_replies [of ctr_evp one_client "[]" "\<lparr>host = (\<lambda>_. 0), dev = (\<lambda>_. 0), todo = []\<rparr>" "\<lambda>_. 0"] by auto
qed

text \<open>The client, which sends the same request again and again, never counts a wrong reply.\<close>

lemma gpu_client_never_bad:
  assumes "evp_ok evp"
  shows "snd (client_counts n (evp AESKEY client_request) (take k (concat (replicate m (evp AESKEY client_request))))) = 0"
proof (induction n arbitrary: m k)
  case (Suc n)
  have len: "length (evp AESKEY client_request) = REQ"
    using evp_length [OF assms] by (simp add: client_request_def)
  show ?case
  proof (cases "length (take k (concat (replicate m (evp AESKEY client_request)))) < REQ")
    case False
    then obtain m' where m: "m = Suc m'" and k: "REQ \<le> k"
      using REQ_positive by (cases m) auto
    have "take REQ (take k (concat (replicate m (evp AESKEY client_request)))) = evp AESKEY client_request"
      using k len m by (simp add: min_def)
    moreover have "drop REQ (take k (concat (replicate m (evp AESKEY client_request))))
        = take (k - REQ) (concat (replicate m' (evp AESKEY client_request)))"
      using k len m by (simp add: drop_take)
    ultimately show ?thesis
      using False Suc.IH [of "k - REQ" m'] by (simp add: split_beta)
  qed simp
qed simp

end
