(* ===== verification/GpuPlain.thy ===== *)
theory GpuPlain
  imports GpuRuntime
begin

text \<open>
  \<open>runtime/gpu_runtime.cu\<close>, the first form of the fiber runtime on the GPU, whose fibers do not compare their results. It
  is refined by the verifying form of \<open>GpuRuntime\<close>, from which its results follow. Its device code is that of
  \<open>gpu/aes_gpu.cu\<close>.
\<close>

section \<open>The program\<close>

record pconn =
  pstrm :: gstream
  pwaiting :: bool
  pfinished :: bool
  pops :: nat
  ppos :: gpos

record prt =
  pconns :: "nat \<Rightarrow> pconn"
  pstop :: bool
  pctl :: gctl
  pnfin :: nat

definition prt0 :: "memory \<Rightarrow> prt" where
  "prt0 garbage =
     \<lparr>pconns = (\<lambda>_. \<lparr>pstrm = \<lparr>host = garbage, dev = garbage, todo = []\<rparr>, pwaiting = False, pfinished = False, pops = 0, ppos = At_head\<rparr>),
      pstop = False, pctl = Wake 0, pnfin = 0\<rparr>"

text \<open>The queued work of \<open>submit_offload\<close> is \<open>enqueue_work\<close>. A fiber from one switch to the next.\<close>

definition plain_body :: "gconf \<Rightarrow> nat \<Rightarrow> prt \<Rightarrow> prt" where
  "plain_body cf i s =
     (let c = pconns s i; c = (if ppos c = Parked then c\<lparr>pops := pops c + 1\<rparr> else c)
      in if pstop s then s\<lparr>pconns := (pconns s)(i := c\<lparr>pfinished := True\<rparr>)\<rparr>
         else s\<lparr>pconns := (pconns s)(i := c\<lparr>pstrm := enqueue_work (fill (MSG cf) (of_nat (i + 1)) (pstrm c)),
                  pwaiting := True, ppos := Parked\<rparr>)\<rparr>)"

definition plain_wake :: "nat \<Rightarrow> prt \<Rightarrow> prt" where
  "plain_wake i s =
     (if pwaiting (pconns s i) \<and> event_query (pstrm (pconns s i))
      then s\<lparr>pconns := (pconns s)(i := (pconns s i)\<lparr>pwaiting := False\<rparr>)\<rparr> else s)"

definition plain_run_coro :: "gconf \<Rightarrow> prt \<Rightarrow> prt" where
  "plain_run_coro cf s =
     (case pctl s of
        Wake i \<Rightarrow> if i < N cf then (plain_wake i s)\<lparr>pctl := Wake (i + 1)\<rparr> else s\<lparr>pctl := Run 0, pnfin := 0\<rparr>
      | Run i \<Rightarrow>
          if i < N cf
          then (if pfinished (pconns s i) then s\<lparr>pnfin := pnfin s + 1, pctl := Run (i + 1)\<rparr>
                else if pwaiting (pconns s i) then s\<lparr>pctl := Run (i + 1)\<rparr>
                else (plain_body cf i s)\<lparr>pctl := Run (i + 1)\<rparr>)
          else if pnfin s = N cf then s\<lparr>pctl := Left\<rparr> else s\<lparr>pctl := Wake 0\<rparr>
      | Left \<Rightarrow> s)"

definition plain_start :: "gconf \<Rightarrow> prt \<Rightarrow> prt" where
  "plain_start cf s =
     s\<lparr>pconns := (\<lambda>i. if i < N cf then (pconns s i)\<lparr>pwaiting := False, pfinished := False, pops := 0, ppos := At_head\<rparr>
                      else pconns s i),
       pctl := Wake 0\<rparr>"

definition plain_ops :: "gconf \<Rightarrow> prt \<Rightarrow> nat" where
  "plain_ops cf s = sum_list (map (\<lambda>i. pops (pconns s i)) [0..<N cf])"

text \<open>A turn of the busy mode; \<open>ops\<close> is a variable of its own there.\<close>

definition plain_busy :: "gconf \<Rightarrow> (nat \<times> nat) list \<Rightarrow> prt \<times> nat \<Rightarrow> prt \<times> nat" where
  "plain_busy cf order = (\<lambda>(s, n).
     if pstop s then (s, n)
     else (let c = pconns s 0; g = enqueue_work (fill (MSG cf) 7 (pstrm c))
           in (s\<lparr>pconns := (pconns s)(0 := c\<lparr>pstrm := stream_sync (key_expand demo_key) (MSG cf div 16) (MSG cf) order g\<rparr>)\<rparr>, n + 1)))"

text \<open>The start-up check of one operation; \<open>None\<close> is the failed check, on which \<open>main\<close> returns 1.\<close>

definition plain_main :: "(u8 list \<Rightarrow> u8 list \<Rightarrow> u8 list) \<Rightarrow> memory \<Rightarrow> gconf \<Rightarrow> (nat \<times> nat) list \<Rightarrow> prt option" where
  "plain_main evp garbage cf order =
     (let s = prt0 garbage; c = pconns s 0;
          g = stream_sync (key_expand demo_key) (MSG cf div 16) (MSG cf) order (enqueue_work (fill (MSG cf) 0 (pstrm c)))
      in if evp demo_key (replicate (MSG cf) 0) = rd (host g) 0 (MSG cf)
         then Some (plain_start cf (s\<lparr>pconns := (pconns s)(0 := c\<lparr>pstrm := g\<rparr>)\<rparr>)) else None)"

definition plain_conf :: "string list \<Rightarrow> bool \<times> int \<times> int" where
  "plain_conf argv =
     (let busy = 1 < length argv \<and> argv ! 1 = ''busy''
      in (busy, if busy then 1 else if 2 < length argv then atoi (argv ! 2) else 32, if 3 < length argv then atoi (argv ! 3) else 4096))"

fun plain_step :: "gconf \<Rightarrow> grt_event \<Rightarrow> prt \<Rightarrow> prt" where
  "plain_step cf R_stop s = s\<lparr>pstop := True\<rparr>"
| "plain_step cf (R_device i order) s =
     s\<lparr>pconns := (pconns s)(i := (pconns s i)\<lparr>pstrm :=
         stream_turn (key_expand demo_key) (MSG cf div 16) (MSG cf) order (pstrm (pconns s i))\<rparr>)\<rparr>"
| "plain_step cf R_server s = plain_run_coro cf s"

definition plain_run :: "gconf \<Rightarrow> grt_event list \<Rightarrow> prt \<Rightarrow> prt" where
  "plain_run cf es s = fold (plain_step cf) es s"

section \<open>The verifying form refines it\<close>

definition forget_conn :: "gconn \<Rightarrow> pconn" where
  "forget_conn c = \<lparr>pstrm = cstrm c, pwaiting = waiting c, pfinished = finished c, pops = ops c, ppos = gpos c\<rparr>"

definition forget :: "grt \<Rightarrow> prt" where
  "forget s = \<lparr>pconns = (\<lambda>i. forget_conn (conns s i)), pstop = stop s, pctl = gctl s, pnfin = nfin s\<rparr>"

lemma forget_sel [simp]:
  "pconns (forget s) i = forget_conn (conns s i)" "pstop (forget s) = stop s" "pctl (forget s) = gctl s" "pnfin (forget s) = nfin s"
  "pstrm (forget_conn c) = cstrm c" "pwaiting (forget_conn c) = waiting c" "pfinished (forget_conn c) = finished c"
  "pops (forget_conn c) = ops c" "ppos (forget_conn c) = gpos c"
  by (simp_all add: forget_def forget_conn_def)

lemma forget_upd:
  "forget (s\<lparr>conns := (conns s)(i := c)\<rparr>) = (forget s)\<lparr>pconns := (pconns (forget s))(i := forget_conn c)\<rparr>"
  "forget (s\<lparr>gctl := x\<rparr>) = (forget s)\<lparr>pctl := x\<rparr>" "forget (s\<lparr>nfin := y\<rparr>) = (forget s)\<lparr>pnfin := y\<rparr>"
  "forget (s\<lparr>stop := b\<rparr>) = (forget s)\<lparr>pstop := b\<rparr>"
  by (auto simp: forget_def fun_eq_iff)

lemma forget_conn_upd:
  "forget_conn (c\<lparr>cstrm := g\<rparr>) = (forget_conn c)\<lparr>pstrm := g\<rparr>" "forget_conn (c\<lparr>waiting := b\<rparr>) = (forget_conn c)\<lparr>pwaiting := b\<rparr>"
  "forget_conn (c\<lparr>finished := b\<rparr>) = (forget_conn c)\<lparr>pfinished := b\<rparr>" "forget_conn (c\<lparr>ops := n\<rparr>) = (forget_conn c)\<lparr>pops := n\<rparr>"
  "forget_conn (c\<lparr>gpos := p\<rparr>) = (forget_conn c)\<lparr>ppos := p\<rparr>"
  by (simp_all add: forget_conn_def)

lemma forget_body: "forget (body cf i s) = plain_body cf i (forget s)"
  by (simp add: body_def plain_body_def check_result_def Let_def forget_def forget_conn_def fun_eq_iff)

lemma forget_wake: "forget (wake_conn i s) = plain_wake i (forget s)"
  by (simp add: wake_conn_def plain_wake_def forget_upd forget_conn_upd)

lemma forget_run_coro: "forget (run_coro cf s) = plain_run_coro cf (forget s)"
  by (simp add: run_coro_def plain_run_coro_def forget_upd forget_wake forget_body split: gctl.split)

lemma forget_step: "forget (grt_step cf e s) = plain_step cf e (forget s)"
  by (cases e) (simp_all add: forget_upd forget_conn_upd forget_run_coro)

lemma forget_run: "forget (grt_run cf es s) = plain_run cf es (forget s)"
  by (induction es arbitrary: s) (simp_all add: grt_run_def plain_run_def forget_step)

text \<open>A state of the verifying form that has the right expectations and forgets to a given state.\<close>

definition expecting :: "gconf \<Rightarrow> prt \<Rightarrow> grt" where
  "expecting cf s =
     \<lparr>conns = (\<lambda>i. let c = pconns s i in \<lparr>cstrm = pstrm c, waiting = pwaiting c, finished = pfinished c, ops = pops c,
         expect = map (\<lambda>p. xor (of_nat (i + 1)) (keystream demo_key 0 p)) [0..<MSG cf], gpos = ppos c\<rparr>),
      stop = pstop s, mismatch = 0, gctl = pctl s, nfin = pnfin s\<rparr>"

lemma forget_expecting: "forget (expecting cf s) = s"
  by (auto intro!: prt.equality pconn.equality simp: forget_def expecting_def forget_conn_def Let_def fun_eq_iff)

lemma plain_main_start:
  assumes "evp_ok evp" "16 dvd MSG cf" "MSG cf div 16 + 256 \<le> 2 ^ 64" "grid_order (MSG cf div 16) order"
  shows "\<exists>s. plain_main evp garbage cf order = Some s \<and> grt_inv cf (expecting cf s)"
proof -
  let ?v = "expecting cf (prt0 garbage)"
  have idle: "todo (cstrm (conns ?v 0)) = []"
    by (simp add: expecting_def prt0_def Let_def)
  note first = first_check_passes [OF assms idle]
  then show ?thesis
    by (auto simp: plain_main_def first_check_def plain_start_def grt_inv_def conn_ok_def expecting_def prt0_def Let_def)
qed

text \<open>C23:
  The first form of the GPU runtime is refined by the verifying one: its start-up check passes, and whatever the order
  in which the dispatcher, the device and the stop flag act, its state is what the verifying form has without the
  comparisons, with no mismatch there. A fiber that is not waiting behind its submission has in its
  buffer what OpenSSL computes for its message.\<close>

theorem plain_runtime_exact:
  assumes "evp_ok evp" "16 dvd MSG cf" "MSG cf div 16 + 256 \<le> 2 ^ 64" "grid_order (MSG cf div 16) order" "fair_grids cf es"
  shows "\<exists>s v. plain_main evp garbage cf order = Some s \<and> forget v = s \<and>
      plain_run cf es s = forget (grt_run cf es v) \<and> mismatch (grt_run cf es v) = 0 \<and>
      (\<forall>i<N cf. ppos (pconns (plain_run cf es s) i) = Parked \<and> \<not> pwaiting (pconns (plain_run cf es s) i) \<longrightarrow>
         rd (host (pstrm (pconns (plain_run cf es s) i))) 0 (MSG cf) = evp demo_key (replicate (MSG cf) (of_nat (i + 1))))"
proof -
  obtain s where s: "plain_main evp garbage cf order = Some s" "grt_inv cf (expecting cf s)"
    using plain_main_start [OF assms(1-4)] by blast
  let ?v = "grt_run cf es (expecting cf s)"
  have inv: "grt_inv cf ?v" by (rule inv_grt_run [OF assms(5,2,3) s(2)])
  have f: "plain_run cf es s = forget ?v" by (simp add: forget_run forget_expecting)
  have "rd (host (cstrm (conns ?v i))) 0 (MSG cf) = evp demo_key (replicate (MSG cf) (of_nat (i + 1)))"
    if i: "i < N cf" "gpos (conns ?v i) = Parked" "\<not> waiting (conns ?v i)" for i
  proof -
    have "conn_ok cf i (conns ?v i)" using inv i(1) by (simp add: grt_inv_def)
    then obtain k where "stage demo_key (MSG cf div 16) (MSG cf) (\<lambda>_. of_nat (i + 1)) k (cstrm (conns ?v i))" "4 \<le> k"
      using i(2,3) unfolding conn_ok_def by auto
    then show ?thesis
      using stage_result [of "MSG cf div 16" "\<lambda>_. of_nat (i + 1)" k] assms(1,2) length_demo_key by (simp add: evp_ok_def)
  qed
  then show ?thesis
    using s f inv forget_expecting by (intro exI [of _ s] exI [of _ "expecting cf s"]) (simp add: grt_inv_def)
qed

theorem plain_runtime_exact_witness:
  "\<exists>s. plain_main demo_evp (\<lambda>_. 0) one_conn gpu_order = Some s \<and>
     (ppos (pconns (plain_run one_conn gpu_demo s) 0) = Parked \<and> \<not> pwaiting (pconns (plain_run one_conn gpu_demo s) 0) \<longrightarrow>
      rd (host (pstrm (pconns (plain_run one_conn gpu_demo s) 0))) 0 16 = demo_evp demo_key (replicate 16 1))"
proof -
  have e: "evp_ok demo_evp"
    by (simp add: evp_ok_def demo_evp_def)
  have g1: "grid_order 1 gpu_order"
    unfolding gpu_order_def by (rule grid_order_all)
  then have g: "grid_order (MSG one_conn div 16) gpu_order" "fair_grids one_conn gpu_demo"
    by (simp_all add: one_conn_def fair_grids_def gpu_demo_def)
  have m: "16 dvd MSG one_conn" "MSG one_conn div 16 + 256 \<le> 2 ^ 64" "0 < N one_conn" "MSG one_conn = 16"
    by (simp_all add: one_conn_def)
  from plain_runtime_exact [OF e m(1,2) g, of "\<lambda>_. 0"] obtain s where "plain_main demo_evp (\<lambda>_. 0) one_conn gpu_order = Some s"
    "\<forall>i<N one_conn. ppos (pconns (plain_run one_conn gpu_demo s) i) = Parked \<and> \<not> pwaiting (pconns (plain_run one_conn gpu_demo s) i) \<longrightarrow>
       rd (host (pstrm (pconns (plain_run one_conn gpu_demo s) i))) 0 (MSG one_conn) = demo_evp demo_key (replicate (MSG one_conn) (of_nat (i + 1)))"
    by blast
  then show ?thesis using m(3,4) by (intro exI [of _ s]) force
qed

end
