(* ===== verification/BatchDemo.thy ===== *)
theory BatchDemo
  imports GpuLib
begin

text \<open>
  \<open>gpu/batch_demo.cu\<close>: the same \<open>B\<close> requests as \<open>B\<close> kernels on streams of their own, and as one kernel over all their
  bytes.
\<close>

section \<open>The two ways\<close>

text \<open>
  Request \<open>i\<close>: its bytes go to the device, through the kernel with counter base 0, and back. \<open>dm\<close> is what the device
  memory holds; the requests touch disjoint parts of both memories, so their streams may be run one after the other in any order.
\<close>

definition request :: "u8 list \<Rightarrow> nat \<Rightarrow> (nat \<times> nat) list \<Rightarrow> memory \<Rightarrow> nat \<Rightarrow> memory \<Rightarrow> memory" where
  "request rk MSG order dm i h =
     (let di = launch rk (of_nat (MSG div 16)) 0 256 order (wr 0 (rd h (i * MSG) MSG) (\<lambda>p. dm (i * MSG + p)))
      in wr (i * MSG) (rd di 0 MSG) h)"

definition per_request :: "u8 list \<Rightarrow> nat \<Rightarrow> (nat \<times> nat) list \<Rightarrow> memory \<Rightarrow> nat list \<Rightarrow> memory \<Rightarrow> memory" where
  "per_request rk MSG order dm is h = fold (request rk MSG order dm) is h"

definition fused :: "u8 list \<Rightarrow> nat \<Rightarrow> nat \<Rightarrow> (nat \<times> nat) list \<Rightarrow> memory \<Rightarrow> memory \<Rightarrow> memory" where
  "fused rk B MSG order dm h =
     (let d = launch rk (of_nat (B * MSG div 16)) 0 256 order (wr 0 (rd h 0 (B * MSG)) dm)
      in wr 0 (rd d 0 (B * MSG)) h)"

section \<open>What they compute\<close>

lemma rd_ctr_bytes: "p < n \<Longrightarrow> rd (ctr_bytes key nb m) 0 n ! p = (if p < 16 * nb then xor (m p) (keystream key 0 p) else m p)"
  by (simp add: rd_def ctr_bytes_def)

lemma request_effect:
  assumes "length key = 16" "16 dvd MSG" "MSG div 16 + 256 \<le> 2 ^ 64" "grid_order (MSG div 16) order"
  shows "request (key_expand key) MSG order dm i h p =
     (if i * MSG \<le> p \<and> p < i * MSG + MSG then xor (h p) (keystream key 0 (p - i * MSG)) else h p)"
proof (cases "i * MSG \<le> p \<and> p < i * MSG + MSG")
  case True
  then obtain q where q: "p = i * MSG + q" "q < MSG" by (metis add_less_cancel_left le_Suc_ex)
  have "wr 0 (rd h (i * MSG) MSG) (\<lambda>p. dm (i * MSG + p)) q = h p"
    using q by (simp add: wr_def rd_def)
  then show ?thesis
    using True q assms(2) by (simp add: request_def launch_ctr [OF assms(1,3,4)] Let_def wr_def rd_ctr_bytes del: nth_map)
next
  case False
  then show ?thesis by (auto simp: request_def Let_def wr_def)
qed

lemma per_request_effect:
  assumes "length key = 16" "16 dvd MSG" "MSG div 16 + 256 \<le> 2 ^ 64" "grid_order (MSG div 16) order" "distinct is" "0 < MSG"
  shows "per_request (key_expand key) MSG order dm is h p =
     (if p div MSG \<in> set is then xor (h p) (keystream key 0 (p mod MSG)) else h p)"
  using assms(5)
proof (induction "is" arbitrary: h)
  case (Cons i js)
  have m: "(i * MSG \<le> p \<and> p < i * MSG + MSG) = (p div MSG = i)"
    using assms(6)
    by (auto simp: div_nat_eqI mult.commute div_times_less_eq_dividend add.commute intro: dividend_less_times_div)
  have d: "p div MSG = i \<Longrightarrow> p - i * MSG = p mod MSG"
    by (metis minus_div_mult_eq_mod)
  show ?case
    using Cons m d by (auto simp: per_request_def request_effect [OF assms(1-4)])
qed (simp add: per_request_def)

lemma fused_effect:
  assumes "length key = 16" "16 dvd MSG" "B * MSG div 16 + 256 \<le> 2 ^ 64" "grid_order (B * MSG div 16) order"
  shows "fused (key_expand key) B MSG order dm h p = (if p < B * MSG then xor (h p) (keystream key 0 p) else h p)"
proof -
  have "16 * (B * MSG div 16) = B * MSG" using assms(2) by simp
  then show ?thesis
    by (simp add: fused_def launch_ctr [OF assms(1,3,4)] Let_def wr_def rd_ctr_bytes rd_def [of h])
qed

text \<open>The kernel streams of a request and of the fused batch, at the same byte.\<close>

lemma keystream_shift: "keystream key 0 (16 * k + q) = keystream key (of_nat k) q"
  by (simp add: keystream_def)


definition batch_order :: "(nat \<times> nat) list" where
  "batch_order = List.product [0] [0..<256]"


end
