(* ===== verification/Barrier.thy ===== *)
theory Barrier
  imports ThreadServers
begin

text \<open>
  \<open>barrier_server.c\<close>, whose connections share a rwlock, a mutex, a condition and a counter, and \<open>bclient.c\<close>, which
  counts the good and the bad replies. The threads interleave at every access and every call; a wait may end by the
  broadcast, by its deadline, or for no reason, as POSIX allows.
\<close>

section \<open>The server\<close>

definition REQ :: nat where "REQ = 256"

definition config :: int where "config = 0xABCD"

text \<open>A \<open>long\<close> as \<open>memcpy\<close> copies it, and back.\<close>

definition long_bytes :: "int \<Rightarrow> u8 list" where
  "long_bytes x = map (\<lambda>k. word_of_int (x div 256 ^ k)) [0..<8]"

definition bytes_long :: "u8 list \<Rightarrow> int" where
  "bytes_long bs = signed_take_bit 63 (\<Sum>k<8. uint (bs ! k) * 256 ^ k)"

text \<open>
  Where a thread is. The parameters are its variables \<open>cfg\<close> and \<open>mine\<close>, or what it has read of \<open>counter\<close>; \<open>B_relock\<close>
  is the end of a timed wait, with whether it was the deadline that ended it.
\<close>

datatype bphase =
    B_reading | B_rdlock | B_cfg | B_rdunlock int
  | B_lock int | B_load int | B_store int int | B_bcast int int | B_test int int
  | B_waiting int int | B_relock int int bool | B_unlock int int
  | B_writing | B_closed

record barrier =
  bconns :: "nat \<Rightarrow> bphase cthread"
  counter :: int
  mtx :: "nat option"
  readers :: nat

definition barrier0 :: barrier where
  "barrier0 = \<lparr>bconns = (\<lambda>_. fresh B_reading), counter = 0, mtx = None, readers = 0\<rparr>"

datatype bevent = B_io io | Awake | Timeout

definition goto :: "nat \<Rightarrow> bphase \<Rightarrow> barrier \<Rightarrow> barrier" where
  "goto i p s = s\<lparr>bconns := (bconns s)(i := (bconns s i)\<lparr>phase := p\<rparr>)\<rparr>"

fun woken :: "bphase \<Rightarrow> bphase" where
  "woken (B_waiting cfg mine) = B_relock cfg mine False"
| "woken p = p"

definition cond_broadcast :: "barrier \<Rightarrow> barrier" where
  "cond_broadcast s = s\<lparr>bconns := (\<lambda>j. (bconns s j)\<lparr>phase := woken (phase (bconns s j))\<rparr>)\<rparr>"

definition echo :: "int \<Rightarrow> int \<Rightarrow> u8 list \<Rightarrow> u8 list" where
  "echo cfg mine b = long_bytes cfg @ long_bytes mine @ drop 16 b"

definition barrier_conn :: "nat \<Rightarrow> bevent \<Rightarrow> barrier \<Rightarrow> barrier" where
  "barrier_conn i e s =
     (let c = bconns s i
      in case phase c of
           B_reading \<Rightarrow> (case e of B_io x \<Rightarrow> s\<lparr>bconns := (bconns s)(i := read_step REQ x B_rdlock B_closed c)\<rparr> | _ \<Rightarrow> s)
         | B_rdlock \<Rightarrow> goto i B_cfg (s\<lparr>readers := readers s + 1\<rparr>)
         | B_cfg \<Rightarrow> goto i (B_rdunlock config) s
         | B_rdunlock cfg \<Rightarrow> goto i (B_lock cfg) (s\<lparr>readers := readers s - 1\<rparr>)
         | B_lock cfg \<Rightarrow> if mtx s = None then goto i (B_load cfg) (s\<lparr>mtx := Some i\<rparr>) else s
         | B_load cfg \<Rightarrow> goto i (B_store cfg (counter s)) s
         | B_store cfg v \<Rightarrow> goto i (B_bcast cfg (v + 1)) (s\<lparr>counter := v + 1\<rparr>)
         | B_bcast cfg mine \<Rightarrow> goto i (B_test cfg mine) (cond_broadcast s)
         | B_test cfg mine \<Rightarrow>
             if counter s < mine + 1 then goto i (B_waiting cfg mine) (s\<lparr>mtx := None\<rparr>) else goto i (B_unlock cfg mine) s
         | B_waiting cfg mine \<Rightarrow>
             (case e of Awake \<Rightarrow> goto i (B_relock cfg mine False) s | Timeout \<Rightarrow> goto i (B_relock cfg mine True) s | _ \<Rightarrow> s)
         | B_relock cfg mine t \<Rightarrow>
             if mtx s = None then goto i (if t then B_unlock cfg mine else B_test cfg mine) (s\<lparr>mtx := Some i\<rparr>) else s
         | B_unlock cfg mine \<Rightarrow>
             s\<lparr>bconns := (bconns s)(i := c\<lparr>buf := echo cfg mine (buf c), phase := B_writing\<rparr>), mtx := None\<rparr>
         | B_writing \<Rightarrow> (case e of B_io x \<Rightarrow> s\<lparr>bconns := (bconns s)(i := write_step REQ x B_reading B_closed c)\<rparr> | _ \<Rightarrow> s)
         | B_closed \<Rightarrow> s)"

definition barrier_run :: "(nat \<times> bevent) list \<Rightarrow> barrier \<Rightarrow> barrier" where
  "barrier_run es s = fold (\<lambda>(i, e). barrier_conn i e) es s"

section \<open>The client\<close>

text \<open>One connection: the \<open>i\<close>-th request, and what it counts of the bytes that come back, with \<open>n\<close> requests left.\<close>

definition bclient_request :: "nat \<Rightarrow> u8 list" where
  "bclient_request i = replicate REQ (of_nat i)"

fun bclient :: "nat \<Rightarrow> u8 list \<Rightarrow> nat \<times> nat \<Rightarrow> nat \<times> nat" where
  "bclient 0 b k = k"
| "bclient (Suc n) b (ok, bad) =
     (if length b < REQ then (ok, bad)
      else bclient n (drop REQ b) (if bytes_long (take 8 b) = 0xABCD then (ok + 1, bad) else (ok, bad + 1)))"

section \<open>The invariant\<close>

text \<open>The numbers that a connection has drawn, with the requests they answer: \<open>sv\<close> those of finished replies.\<close>

fun held :: "bphase \<Rightarrow> int list" where
  "held (B_bcast cfg mine) = [mine]"
| "held (B_test cfg mine) = [mine]"
| "held (B_waiting cfg mine) = [mine]"
| "held (B_relock cfg mine t) = [mine]"
| "held (B_unlock cfg mine) = [mine]"
| "held p = []"

fun cfgs :: "bphase \<Rightarrow> int set" where
  "cfgs (B_rdunlock cfg) = {cfg}"
| "cfgs (B_lock cfg) = {cfg}"
| "cfgs (B_load cfg) = {cfg}"
| "cfgs (B_store cfg v) = {cfg}"
| "cfgs (B_bcast cfg mine) = {cfg}"
| "cfgs (B_test cfg mine) = {cfg}"
| "cfgs (B_waiting cfg mine) = {cfg}"
| "cfgs (B_relock cfg mine t) = {cfg}"
| "cfgs (B_unlock cfg mine) = {cfg}"
| "cfgs p = {}"

fun critical :: "bphase \<Rightarrow> bool" where
  "critical (B_load cfg) = True"
| "critical (B_store cfg v) = True"
| "critical (B_bcast cfg mine) = True"
| "critical (B_test cfg mine) = True"
| "critical (B_unlock cfg mine) = True"
| "critical p = False"

definition replies :: "(u8 list \<times> int) list \<Rightarrow> u8 list" where
  "replies sv = concat (map (\<lambda>(r, m). echo config m r) sv)"

definition requests :: "(u8 list \<times> int) list \<Rightarrow> u8 list" where
  "requests sv = concat (map fst sv)"

definition conn_ok :: "(u8 list \<times> int) list \<Rightarrow> bphase cthread \<Rightarrow> bool" where
  "conn_ok sv c \<longleftrightarrow> (\<forall>x\<in>set sv. length (fst x) = REQ) \<and>
     (case phase c of
        B_reading \<Rightarrow> put c = 0 \<and> length (buf c) < REQ \<and> inp c = requests sv @ buf c \<and> outp c = replies sv
      | B_writing \<Rightarrow> put c < REQ \<and> length (buf c) = REQ \<and> inp c = requests sv \<and> outp c @ drop (put c) (buf c) = replies sv
      | B_closed \<Rightarrow> (\<exists>part. inp c = requests sv @ part) \<and> (\<exists>rest. outp c @ rest = replies sv)
      | _ \<Rightarrow> put c = 0 \<and> length (buf c) = REQ \<and> inp c = requests sv @ buf c \<and> outp c = replies sv)"

definition drawn :: "(u8 list \<times> int) list \<Rightarrow> bphase \<Rightarrow> int list" where
  "drawn sv p = held p @ map snd sv"

definition thread_ok :: "int \<Rightarrow> nat option \<Rightarrow> nat \<Rightarrow> (u8 list \<times> int) list \<Rightarrow> bphase cthread \<Rightarrow> bool" where
  "thread_ok n m i sv c \<longleftrightarrow> conn_ok sv c \<and> (m = Some i) = critical (phase c) \<and>
     (\<forall>cfg v. phase c = B_store cfg v \<longrightarrow> v = n) \<and> cfgs (phase c) \<subseteq> {config} \<and>
     distinct (drawn sv (phase c)) \<and> set (drawn sv (phase c)) \<subseteq> {1..n} \<and> 0 \<le> n"

definition binv :: "(nat \<Rightarrow> (u8 list \<times> int) list) \<Rightarrow> barrier \<Rightarrow> bool" where
  "binv srv s \<longleftrightarrow> (\<forall>i. thread_ok (counter s) (mtx s) i (srv i) (bconns s i)) \<and>
     (\<forall>i j. i \<noteq> j \<longrightarrow> set (drawn (srv i) (phase (bconns s i))) \<inter> set (drawn (srv j) (phase (bconns s j))) = {})"

lemma length_echo [simp]: "length b = REQ \<Longrightarrow> length (echo cfg mine b) = REQ"
  by (simp add: echo_def long_bytes_def REQ_def)

lemma woken_keeps [simp]:
  "held (woken p) = held p \<and> cfgs (woken p) = cfgs p \<and> critical (woken p) = critical p \<and>
   (woken p = B_store cfg v) = (p = B_store cfg v)"
  by (cases p) simp_all

lemma woken_conn_ok [simp]: "conn_ok sv (c\<lparr>phase := woken (phase c)\<rparr>) = conn_ok sv c"
  by (cases "phase c") (simp_all add: conn_ok_def)

lemma woken_ok: "thread_ok n m i sv (c\<lparr>phase := woken (phase c)\<rparr>) = thread_ok n m i sv c"
  by (simp add: thread_ok_def drawn_def)

lemma read_conn_ok:
  assumes "conn_ok sv c" "phase c = B_reading"
  shows "conn_ok sv (read_step REQ x B_rdlock B_closed c) \<and>
    phase (read_step REQ x B_rdlock B_closed c) \<in> {B_reading, B_rdlock, B_closed}"
  using assms by (cases x) (auto simp: read_step_def conn_ok_def Let_def)

lemma write_conn_ok:
  assumes "conn_ok sv c" "phase c = B_writing"
  shows "conn_ok sv (write_step REQ x B_reading B_closed c) \<and>
    phase (write_step REQ x B_reading B_closed c) \<in> {B_reading, B_writing, B_closed}"
proof (cases x)
  case (Sent k)
  have o: "outp c @ drop (put c) (buf c) = replies sv" and l: "length (buf c) = REQ"
    using assms by (simp_all add: conn_ok_def)
  have "outp c @ take k (drop (put c) (buf c)) @ drop (put c + k) (buf c) = replies sv"
    using o by (metis add.commute append_take_drop_id drop_drop)
  then show ?thesis using assms l Sent
    by (auto simp: write_step_def conn_ok_def Let_def REQ_def)
qed (use assms in \<open>auto simp: write_step_def conn_ok_def\<close>)

lemma snoc_served [simp]:
  "replies (sv @ [(r, m)]) = replies sv @ echo config m r" "requests (sv @ [(r, m)]) = requests sv @ r" "0 < REQ"
  by (simp_all add: replies_def requests_def REQ_def)

text \<open>A step of connection \<open>i\<close>: what it does to itself, and that it disturbs no other.\<close>

definition goes :: "barrier \<Rightarrow> barrier \<Rightarrow> nat \<Rightarrow> (u8 list \<times> int) list \<Rightarrow> bool" where
  "goes s s' i sv \<longleftrightarrow> (\<exists>sv'. thread_ok (counter s') (mtx s') i sv' (bconns s' i) \<and>
      set (drawn sv' (phase (bconns s' i))) \<subseteq> set (drawn sv (phase (bconns s i))) \<union> {counter s<..counter s'})"

lemma goesI:
  "thread_ok (counter s') (mtx s') i sv' (bconns s' i) \<Longrightarrow>
   set (drawn sv' (phase (bconns s' i))) \<subseteq> set (drawn sv (phase (bconns s i))) \<union> {counter s<..counter s'} \<Longrightarrow> goes s s' i sv"
  unfolding goes_def by blast

lemma barrier_self:
  assumes "thread_ok (counter s) (mtx s) i sv (bconns s i)"
  shows "goes s (barrier_conn i e s) i sv"
proof (cases "phase (bconns s i)")
  case B_reading
  show ?thesis
  proof (cases e)
    case (B_io x)
    then show ?thesis using assms B_reading read_conn_ok [of sv "bconns s i" x]
      by (intro goesI [of _ _ sv]) (auto simp: barrier_conn_def thread_ok_def drawn_def)
  qed (use assms B_reading in \<open>auto intro!: goesI [of _ _ sv] simp: barrier_conn_def\<close>)
next
  case B_writing
  show ?thesis
  proof (cases e)
    case (B_io x)
    then show ?thesis using assms B_writing write_conn_ok [of sv "bconns s i" x]
      by (intro goesI [of _ _ sv]) (auto simp: barrier_conn_def thread_ok_def drawn_def)
  qed (use assms B_writing in \<open>auto intro!: goesI [of _ _ sv] simp: barrier_conn_def\<close>)
next
  case (B_unlock cfg mine)
  let ?sv = "sv @ [(buf (bconns s i), mine)]"
  show ?thesis using assms B_unlock
    by (intro goesI [of _ _ ?sv])
       (auto simp: barrier_conn_def thread_ok_def drawn_def conn_ok_def Let_def)
next
  case (B_waiting cfg mine)
  then show ?thesis using assms
    by (intro goesI [of _ _ sv]; cases e) (auto simp: barrier_conn_def thread_ok_def drawn_def conn_ok_def goto_def Let_def)
next
  case B_closed
  then show ?thesis using assms by (intro goesI [of _ _ sv]) (simp_all add: barrier_conn_def)
qed (use assms in \<open>intro goesI [of _ _ sv]; auto simp: barrier_conn_def thread_ok_def drawn_def conn_ok_def goto_def cond_broadcast_def Let_def\<close>)+

lemma barrier_frame:
  assumes "j \<noteq> i"
  shows "bconns (barrier_conn i e s) j = bconns s j \<or>
    bconns (barrier_conn i e s) j = (bconns s j)\<lparr>phase := woken (phase (bconns s j))\<rparr>"
  using assms by (cases "phase (bconns s i)"; cases e; simp add: barrier_conn_def goto_def cond_broadcast_def Let_def)

lemma barrier_mutex:
  assumes "(mtx s = Some i) = critical (phase (bconns s i))" "j \<noteq> i"
  shows "(mtx (barrier_conn i e s) = Some j) = (mtx s = Some j)"
  using assms by (cases "phase (bconns s i)"; cases e; auto simp: barrier_conn_def goto_def cond_broadcast_def Let_def)

lemma barrier_counter:
  "counter (barrier_conn i e s) = (case phase (bconns s i) of B_store cfg v \<Rightarrow> v + 1 | _ \<Rightarrow> counter s)"
  by (cases "phase (bconns s i)"; cases e; simp add: barrier_conn_def goto_def cond_broadcast_def Let_def)

lemma barrier_other:
  assumes "binv srv s" "j \<noteq> i"
  shows "thread_ok (counter (barrier_conn i e s)) (mtx (barrier_conn i e s)) j (srv j) (bconns (barrier_conn i e s) j) \<and>
    drawn (srv j) (phase (bconns (barrier_conn i e s) j)) = drawn (srv j) (phase (bconns s j))"
proof -
  let ?s = "barrier_conn i e s"
  have ti: "thread_ok (counter s) (mtx s) i (srv i) (bconns s i)" and tj: "thread_ok (counter s) (mtx s) j (srv j) (bconns s j)"
    using assms by (simp_all add: binv_def)
  have m: "(mtx ?s = Some j) = (mtx s = Some j)"
    using ti assms(2) by (intro barrier_mutex) (simp_all add: thread_ok_def)
  have st: "phase (bconns s j) \<noteq> B_store cfg v" if "phase (bconns s i) = B_store cfg' v'" for cfg v cfg' v'
    using ti tj assms(2) that by (auto simp: thread_ok_def)
  have "counter s \<le> counter ?s" and "counter ?s \<noteq> counter s \<Longrightarrow> \<forall>cfg v. phase (bconns s j) \<noteq> B_store cfg v"
    using ti st by (auto simp: barrier_counter thread_ok_def split: bphase.splits)
  then have "thread_ok (counter ?s) (mtx ?s) j (srv j) (bconns s j)"
    using tj m by (fastforce simp: thread_ok_def)
  then show ?thesis using barrier_frame [OF assms(2), of e s] by (auto simp: woken_ok drawn_def)
qed

lemma barrier_step_inv:
  assumes "binv srv s"
  shows "\<exists>srv. binv srv (barrier_conn i e s)"
proof -
  let ?s = "barrier_conn i e s"
  have ti: "thread_ok (counter s) (mtx s) i (srv i) (bconns s i)" using assms by (simp add: binv_def)
  from barrier_self [OF ti, of e] obtain sv where sv: "thread_ok (counter ?s) (mtx ?s) i sv (bconns ?s i)"
    "set (drawn sv (phase (bconns ?s i))) \<subseteq> set (drawn (srv i) (phase (bconns s i))) \<union> {counter s<..counter ?s}"
    unfolding goes_def by blast
  have new: "set (drawn sv (phase (bconns ?s i))) \<inter> set (drawn (srv j) (phase (bconns s j))) = {}" if "j \<noteq> i" for j
  proof -
    have "set (drawn (srv i) (phase (bconns s i))) \<inter> set (drawn (srv j) (phase (bconns s j))) = {}"
      "set (drawn (srv j) (phase (bconns s j))) \<subseteq> {1..counter s}"
      using assms that by (auto simp: binv_def thread_ok_def)
    then show ?thesis using sv(2) by fastforce
  qed
  have "binv (srv(i := sv)) ?s"
    unfolding binv_def
  proof (intro conjI allI impI)
    fix j show "thread_ok (counter ?s) (mtx ?s) j ((srv(i := sv)) j) (bconns ?s j)"
      using sv(1) barrier_other [OF assms, of j i e] by (cases "j = i") simp_all
  next
    fix j k :: nat assume "j \<noteq> k"
    then show "set (drawn ((srv(i := sv)) j) (phase (bconns ?s j))) \<inter> set (drawn ((srv(i := sv)) k) (phase (bconns ?s k))) = {}"
      using assms new barrier_other [OF assms, of j i e] barrier_other [OF assms, of k i e]
      by (cases "j = i"; cases "k = i") (auto simp: binv_def)
  qed
  then show ?thesis by blast
qed

lemma barrier_run_inv: "binv srv s \<Longrightarrow> \<exists>srv. binv srv (barrier_run es s)"
proof (induction es arbitrary: srv s)
  case (Cons x es)
  obtain i e where x: "x = (i, e)" by (cases x)
  obtain srv' where "binv srv' (barrier_conn i e s)" using barrier_step_inv [OF Cons.prems] by blast
  then show ?case using Cons.IH x by (simp add: barrier_run_def)
qed (auto simp: barrier_run_def)

lemma barrier0_inv: "binv (\<lambda>_. []) barrier0"
  by (simp add: binv_def thread_ok_def barrier0_def conn_ok_def fresh_def drawn_def replies_def requests_def REQ_def)

section \<open>What the clients see\<close>

lemma config_read_back: "bytes_long (take 8 (echo config m r)) = 0xABCD"
proof -
  have "take 8 (echo config m r) = long_bytes config" by (simp add: echo_def long_bytes_def)
  then show ?thesis by (simp only:) code_simp
qed

lemma bclient_all_good:
  assumes "\<forall>x\<in>set sv. length (fst x) = REQ" "out @ rest = replies sv"
  shows "bclient n out (ok, bad) = (ok + min n (length out div REQ), bad)"
  using assms
proof (induction n arbitrary: sv out ok)
  case (Suc n)
  show ?case
  proof (cases "length out < REQ")
    case True
    then show ?thesis by simp
  next
    case False
    then have "sv \<noteq> []" using Suc.prems(2) snoc_served(3) by (auto simp: replies_def)
    then obtain r m sv' where sv: "sv = (r, m) # sv'" by (cases sv) auto
    then have r: "length (echo config m r) = REQ" using Suc.prems(1) by simp
    then have o: "take REQ out = echo config m r" "drop REQ out @ rest = replies sv'"
      using arg_cong [OF Suc.prems(2), of "take REQ"] arg_cong [OF Suc.prems(2), of "drop REQ"] False sv
      by (simp_all add: replies_def)
    have "take 8 (take REQ out) = take 8 out" by (simp add: REQ_def)
    then have "take 8 out = take 8 (echo config m r)" unfolding o(1) by simp
    then have good: "bytes_long (take 8 out) = 0xABCD" by (simp only: config_read_back)
    have d: "length out div REQ = Suc ((length out - REQ) div REQ)"
      using False snoc_served(3) by (simp add: le_div_geq)
    show ?thesis using Suc.IH [OF _ o(2), of "ok + 1"] Suc.prems(1) sv good False d by simp
  qed
qed simp

text \<open>C16:
  However the connections interleave and whatever their waits return, the barrier server answers every request with
  its configuration and a number of its own: what a connection has written is a prefix of the replies to its requests in
  order, no number is given twice, on one connection or on two, all lie between 1 and the counter, and a client counts every reply
  that it has whole as good and none as bad. At most one connection is in the section that the mutex guards.\<close>

theorem barrier_exact:
  assumes "s = barrier_run es barrier0"
  shows "\<exists>srv. (\<forall>i. (\<exists>part. inp (bconns s i) = requests (srv i) @ part) \<and> (\<exists>rest. outp (bconns s i) @ rest = replies (srv i)) \<and>
        distinct (map snd (srv i)) \<and> snd ` set (srv i) \<subseteq> {1..counter s} \<and>
        (\<forall>n. bclient n (outp (bconns s i)) (0, 0) = (min n (length (outp (bconns s i)) div REQ), 0))) \<and>
      (\<forall>i j. i \<noteq> j \<longrightarrow> snd ` set (srv i) \<inter> snd ` set (srv j) = {} \<and>
        \<not> (critical (phase (bconns s i)) \<and> critical (phase (bconns s j))))"
proof -
  obtain srv where inv: "binv srv s" using barrier_run_inv [OF barrier0_inv] assms by blast
  have out: "\<exists>rest. outp (bconns s i) @ rest = replies (srv i)" and inp: "\<exists>part. inp (bconns s i) = requests (srv i) @ part"
    and len: "\<forall>x\<in>set (srv i). length (fst x) = REQ" for i
  proof -
    have "conn_ok (srv i) (bconns s i)" using inv by (simp add: binv_def thread_ok_def)
    then show "\<exists>rest. outp (bconns s i) @ rest = replies (srv i)" "\<exists>part. inp (bconns s i) = requests (srv i) @ part"
      "\<forall>x\<in>set (srv i). length (fst x) = REQ"
      by (auto simp: conn_ok_def split: bphase.splits)
  qed
  show ?thesis
  proof (intro exI [of _ srv] conjI allI impI)
    fix i n
    obtain rest where "outp (bconns s i) @ rest = replies (srv i)" using out by blast
    from bclient_all_good [OF len this, of n 0 0]
    show "bclient n (outp (bconns s i)) (0, 0) = (min n (length (outp (bconns s i)) div REQ), 0)" by simp
  next
    fix i j :: nat assume "i \<noteq> j"
    then have "set (drawn (srv i) (phase (bconns s i))) \<inter> set (drawn (srv j) (phase (bconns s j))) = {}"
      using inv by (simp add: binv_def)
    then show "snd ` set (srv i) \<inter> snd ` set (srv j) = {}" by (auto simp: drawn_def)
    have "(mtx s = Some k) = critical (phase (bconns s k))" for k using inv by (simp add: binv_def thread_ok_def)
    from this [of i] this [of j] show "\<not> (critical (phase (bconns s i)) \<and> critical (phase (bconns s j)))"
      using \<open>i \<noteq> j\<close> by auto
  next
    fix i
    have "distinct (drawn (srv i) (phase (bconns s i)))" "set (drawn (srv i) (phase (bconns s i))) \<subseteq> {1..counter s}"
      using inv by (simp_all add: binv_def thread_ok_def)
    then show "distinct (map snd (srv i))" "snd ` set (srv i) \<subseteq> {1..counter s}"
      by (simp_all add: drawn_def)
  qed (use out inp in simp_all)
qed

lemma length_request [simp]: "length (bclient_request i) = REQ"
  by (simp add: bclient_request_def)

lemma two_less: "Suc (Suc 0) < REQ"
  by (simp add: REQ_def)

lemma request_nonempty: "bclient_request i \<noteq> []"
  by (simp add: bclient_request_def REQ_def)

text \<open>Two connections: the first waits until the second draws its number, whose own wait the deadline ends.\<close>

definition two_connections :: "(nat \<times> bevent) list" where
  "two_connections =
     [(0, B_io (Got (bclient_request 0))), (1, B_io (Got (bclient_request 7)))] @
     replicate 8 (0, Awake) @ replicate 8 (1, Awake) @ [(1, Timeout), (1, Awake), (1, Awake)] @ replicate 3 (0, Awake) @
     [(0, B_io (Sent REQ)), (1, B_io (Sent 2))]"

theorem barrier_exact_witness:
  "let s = barrier_run two_connections barrier0
   in phase (bconns s 0) = B_reading \<and> phase (bconns s 1) = B_writing \<and> counter s = 2 \<and>
      bclient 5 (outp (bconns s 0)) (0, 0) = (1, 0)"
proof -
  let ?s = "barrier_run two_connections barrier0"
  have c: "phase (bconns ?s 0) = B_reading" "phase (bconns ?s 1) = B_writing" "counter ?s = 2" "length (outp (bconns ?s 0)) = REQ"
    by (simp_all add: two_connections_def barrier_run_def barrier_conn_def barrier0_def goto_def cond_broadcast_def fresh_def
        read_step_def write_step_def Let_def request_nonempty two_less numeral_eq_Suc)
  from barrier_exact [OF refl, of two_connections] have "bclient 5 (outp (bconns ?s 0)) (0, 0) = (min 5 (length (outp (bconns ?s 0)) div REQ), 0)"
    by blast
  then show ?thesis using c by (simp add: Let_def snoc_served(3))
qed

section \<open>Nobody hangs\<close>

definition solo :: "nat \<Rightarrow> nat \<Rightarrow> barrier \<Rightarrow> barrier" where
  "solo j n s = barrier_run (replicate n (j, Timeout)) s"

lemma solo_simps [simp]: "solo j 0 s = s" "solo j (Suc n) s = solo j n (barrier_conn j Timeout s)"
  by (simp_all add: solo_def barrier_run_def)

text \<open>Between the request and the reply.\<close>

definition serving :: "bphase \<Rightarrow> bool" where
  "serving p \<longleftrightarrow> p \<notin> {B_reading, B_writing, B_closed}"

lemma serving_woken [simp]: "serving (woken p) = serving p" "woken (woken p) = woken p"
  by (cases p; simp add: serving_def) (cases p; simp)

lemma owner_releases:
  assumes "mtx s = Some j" "critical (phase (bconns s j))"
  shows "\<exists>n\<le>5. mtx (solo j n s) = None \<and>
     (\<exists>cfg mine. phase (bconns (solo j n s) j) \<in> {B_waiting cfg mine, B_writing}) \<and>
     (\<forall>i. i \<noteq> j \<longrightarrow> phase (bconns (solo j n s) i) \<in> {phase (bconns s i), woken (phase (bconns s i))})"
proof (cases "phase (bconns s j)")
  case (B_load cfg)
  then show ?thesis using assms
    by (intro exI [of _ 4]) (auto simp: numeral_eq_Suc barrier_conn_def goto_def cond_broadcast_def Let_def)
next
  case (B_store cfg v)
  then show ?thesis using assms
    by (intro exI [of _ 3]) (auto simp: numeral_eq_Suc barrier_conn_def goto_def cond_broadcast_def Let_def)
next
  case (B_bcast cfg mine)
  then show ?thesis using assms
    by (intro exI [of _ "if counter s < mine + 1 then 2 else 3"])
       (auto simp: numeral_eq_Suc barrier_conn_def goto_def cond_broadcast_def Let_def)
next
  case (B_test cfg mine)
  then show ?thesis using assms
    by (intro exI [of _ "if counter s < mine + 1 then 1 else 2"])
       (auto simp: numeral_eq_Suc barrier_conn_def goto_def cond_broadcast_def Let_def)
next
  case (B_unlock cfg mine)
  then show ?thesis using assms
    by (intro exI [of _ 1]) (auto simp: barrier_conn_def goto_def Let_def)
qed (use assms in simp_all)

lemma free_serves:
  assumes "mtx s = None" "serving (phase (bconns s i))" "\<not> critical (phase (bconns s i))"
  shows "\<exists>n\<le>11. phase (bconns (solo i n s) i) = B_writing"
proof (cases "phase (bconns s i)")
  case B_rdlock
  then show ?thesis using assms
    by (intro exI [of _ 11]) (simp add: numeral_eq_Suc barrier_conn_def goto_def cond_broadcast_def Let_def)
next
  case B_cfg
  then show ?thesis using assms
    by (intro exI [of _ 10]) (simp add: numeral_eq_Suc barrier_conn_def goto_def cond_broadcast_def Let_def)
next
  case (B_rdunlock cfg)
  then show ?thesis using assms
    by (intro exI [of _ 9]) (simp add: numeral_eq_Suc barrier_conn_def goto_def cond_broadcast_def Let_def)
next
  case (B_lock cfg)
  then show ?thesis using assms
    by (intro exI [of _ 8]) (simp add: numeral_eq_Suc barrier_conn_def goto_def cond_broadcast_def Let_def)
next
  case (B_waiting cfg mine)
  then show ?thesis using assms
    by (intro exI [of _ 3]) (simp add: numeral_eq_Suc barrier_conn_def goto_def cond_broadcast_def Let_def)
next
  case (B_relock cfg mine t)
  show ?thesis
  proof (cases t)
    case True
    then show ?thesis using assms B_relock
      by (intro exI [of _ 2]) (simp add: numeral_eq_Suc barrier_conn_def goto_def Let_def)
  next
    case False
    then show ?thesis using assms B_relock
      by (intro exI [of _ "if counter s < mine + 1 then 5 else 3"]) (simp add: numeral_eq_Suc barrier_conn_def goto_def Let_def)
  qed
qed (use assms in \<open>simp_all add: serving_def\<close>)

lemma barrier_run_append: "barrier_run (es @ fs) s = barrier_run fs (barrier_run es s)"
  by (simp add: barrier_run_def)

text \<open>C30:
  The barrier server hangs nobody: from every state it can reach, a connection that has a request can get to its
  reply in at most 16 steps of its own and of the thread that holds the mutex, whatever the other connections do, since a waiting
  thread has given the mutex up and its deadline ends the wait.\<close>

theorem barrier_no_hang:
  assumes "s = barrier_run es barrier0" "serving (phase (bconns s i))"
  shows "\<exists>fs. length fs \<le> 16 \<and> fst ` set fs \<subseteq> insert i (set_option (mtx s)) \<and> phase (bconns (barrier_run fs s) i) = B_writing"
proof -
  obtain srv where inv: "binv srv s" using barrier_run_inv [OF barrier0_inv] assms(1) by blast
  have own: "(mtx s = Some k) = critical (phase (bconns s k))" for k using inv by (simp add: binv_def thread_ok_def)
  show ?thesis
  proof (cases "mtx s")
    case None
    then obtain n where "n \<le> 11" "phase (bconns (solo i n s) i) = B_writing"
      using free_serves [OF None assms(2)] own by auto
    then show ?thesis by (intro exI [of _ "replicate n (i, Timeout)"]) (auto simp: solo_def)
  next
    case (Some j)
    with own have "critical (phase (bconns s j))" by blast
    from owner_releases [OF Some this] obtain n cfg mine where n: "n \<le> 5" "mtx (solo j n s) = None"
      "phase (bconns (solo j n s) j) \<in> {B_waiting cfg mine, B_writing}"
      "\<forall>i. i \<noteq> j \<longrightarrow> phase (bconns (solo j n s) i) \<in> {phase (bconns s i), woken (phase (bconns s i))}" by blast
    let ?t = "solo j n s"
    consider (w) "phase (bconns ?t i) = B_writing" | (s) "serving (phase (bconns ?t i)) \<and> \<not> critical (phase (bconns ?t i))"
    proof (cases "i = j")
      case True
      then show ?thesis using n(3) that by (auto simp: serving_def)
    next
      case False
      then have "\<not> critical (phase (bconns s i))" using own [of i] Some by simp
      moreover have "phase (bconns ?t i) = phase (bconns s i) \<or> phase (bconns ?t i) = woken (phase (bconns s i))"
        using n(4) False by auto
      ultimately have "serving (phase (bconns ?t i)) \<and> \<not> critical (phase (bconns ?t i))"
        using assms(2) by (elim disjE) simp_all
      then show ?thesis by (rule that(2))
    qed
    then obtain m where m: "m \<le> 11" "phase (bconns (solo i m ?t) i) = B_writing"
    proof cases
      case w
      then show ?thesis using that [of 0] by simp
    next
      case s
      then show ?thesis using free_serves [OF n(2)] that by blast
    qed
    show ?thesis
      using n(1) m Some by (intro exI [of _ "replicate n (j, Timeout) @ replicate m (i, Timeout)"])
        (auto simp: solo_def barrier_run_append)
  qed
qed

theorem barrier_no_hang_witness:
  "let s = barrier_run (take 10 two_connections) barrier0
   in phase (bconns s 0) = B_waiting config 1 \<and>
      (\<exists>fs. length fs \<le> 16 \<and> fst ` set fs \<subseteq> {0} \<and> phase (bconns (barrier_run fs s) 0) = B_writing)"
proof -
  let ?s = "barrier_run (take 10 two_connections) barrier0"
  have p: "phase (bconns ?s 0) = B_waiting config 1" and m: "mtx ?s = None"
    by (simp_all add: two_connections_def barrier_run_def barrier_conn_def barrier0_def goto_def cond_broadcast_def fresh_def
        read_step_def Let_def request_nonempty numeral_eq_Suc)
  then have "serving (phase (bconns ?s 0))" by (simp add: serving_def)
  from barrier_no_hang [OF refl this] show ?thesis using p m by (simp add: Let_def)
qed

end
