(* ===== verification/Reports.thy ===== *)
theory Reports
  imports Ring "HOL-Library.Log_Nat" "HOL-Library.Multiset"
begin

text \<open>
  What the load programs report: the command lines of \<open>tco_server.c\<close>, \<open>tco_server_gpu.cu\<close>, \<open>openloop.c\<close> and
  \<open>accel_compare.c\<close>, their arrays of latencies, and the percentiles that \<open>main\<close> prints, whose places come from
  a product of doubles. The samples are in the order of their numbers, which an atomic counter gives out; every store
  has been done when the report is made.
\<close>

unbundle bit_operations_syntax

section \<open>Sorting\<close>

definition cmp :: "u64 \<Rightarrow> u64 \<Rightarrow> int" where
  "cmp x y = (if x < y then -1 else if y < x then 1 else 0)"

text \<open>The library's \<open>qsort\<close>; elements that compare as equal are equal here.\<close>

fun qsort_insert :: "('a \<Rightarrow> 'a \<Rightarrow> int) \<Rightarrow> 'a \<Rightarrow> 'a list \<Rightarrow> 'a list" where
  "qsort_insert c x [] = [x]"
| "qsort_insert c x (y # ys) = (if c x y \<le> 0 then x # y # ys else y # qsort_insert c x ys)"

definition qsort :: "('a \<Rightarrow> 'a \<Rightarrow> int) \<Rightarrow> 'a list \<Rightarrow> 'a list" where
  "qsort c xs = foldr (qsort_insert c) xs []"

lemma cmp_le: "cmp x y \<le> 0 \<longleftrightarrow> x \<le> y"
  by (auto simp: cmp_def)

lemma qsort_cmp: "qsort cmp xs = sort xs"
proof -
  have "qsort_insert cmp x ys = insort x ys" for x ys by (induction ys) (simp_all add: cmp_le)
  then have "qsort_insert cmp = insort" by (intro ext)
  then show ?thesis by (simp add: qsort_def sort_key_def)
qed

text \<open>The place \<open>i\<close> of the sorted samples: how many samples are at most and at least the value there.\<close>

definition at_rank :: "'a::linorder list \<Rightarrow> nat \<Rightarrow> 'a \<Rightarrow> bool" where
  "at_rank ws i v \<longleftrightarrow> v \<in> set ws \<and> i < length (filter (\<lambda>w. w \<le> v) ws) \<and> length ws - i \<le> length (filter (\<lambda>w. v \<le> w) ws)"

lemma filter_length_sort: "length (filter P (sort ws)) = length (filter P ws)"
  by (simp add: filter_sort)

lemma at_rank_sort:
  assumes "i < length ws"
  shows "at_rank ws i (sort ws ! i)"
proof -
  let ?ys = "sort ws" and ?v = "sort ws ! i"
  have l: "i < length ?ys" and s: "sorted ?ys" using assms by simp_all
  have split: "length (filter P ?ys) = length (filter P (take k ?ys)) + length (filter P (drop k ?ys))" for P k
    by (metis append_take_drop_id filter_append length_append)
  have "filter (\<lambda>w. w \<le> ?v) (take (Suc i) ?ys) = take (Suc i) ?ys"
    using s l by (intro filter_True) (auto simp: in_set_conv_nth sorted_nth_mono)
  then have "i < length (filter (\<lambda>w. w \<le> ?v) ?ys)" using l split [of "\<lambda>w. w \<le> ?v" "Suc i"] by simp
  moreover have "filter (\<lambda>w. ?v \<le> w) (drop i ?ys) = drop i ?ys"
    using s l by (intro filter_True) (auto simp: in_set_conv_nth sorted_nth_mono)
  then have "length ws - i \<le> length (filter (\<lambda>w. ?v \<le> w) ?ys)" using split [of "\<lambda>w. ?v \<le> w" i] by simp
  moreover have "?v \<in> set ws" using l nth_mem [OF l] by simp
  ultimately show ?thesis unfolding at_rank_def filter_length_sort by blast
qed

section \<open>Products of doubles\<close>

text \<open>
  A double has 53 significant bits, and a product is rounded to the nearest one, to the even one of two. \<open>round53\<close>
  rounds a natural number; the constants \<open>0.99\<close> and \<open>0.999\<close> of the code are \<open>D99\<close> and \<open>D999\<close> over 2^53, and a
  conversion to \<open>long\<close> cuts the fraction off.
\<close>

definition round53 :: "nat \<Rightarrow> nat" where
  "round53 p =
     (let u = 2 ^ (floorlog 2 p - 53); q = p div u; r = p mod u
      in (if u < 2 * r \<or> u = 2 * r \<and> odd q then q + 1 else q) * u)"

definition D99 :: nat where "D99 = 8917127262193582"
definition D999 :: nat where "D999 = 8998192055486251"

definition scaled :: "nat \<Rightarrow> nat \<Rightarrow> nat" where
  "scaled d n = round53 (n * d) div 2 ^ 53"

lemma doubles_nearest:
  "2 ^ 52 \<le> D99 \<and> D99 < 2 ^ 53 \<and> \<bar>100 * int D99 - 99 * 2 ^ 53\<bar> \<le> 50"
  "2 ^ 52 \<le> D999 \<and> D999 < 2 ^ 53 \<and> \<bar>1000 * int D999 - 999 * 2 ^ 53\<bar> \<le> 500"
  by (simp_all add: D99_def D999_def)

lemma round53_unit:
  assumes "p = q * u + r" "r < u" "u = 2 ^ (floorlog 2 p - 53)"
  shows "round53 p = (if u < 2 * r \<or> u = 2 * r \<and> odd q then q + 1 else q) * u"
proof -
  have "p div u = q" "p mod u = r" using assms(1,2) by simp_all
  then show ?thesis unfolding round53_def assms(3) [symmetric] Let_def by simp
qed

lemma round53_near:
  assumes "p < 2 ^ (53 + k)"
  shows "round53 p \<le> p + 2 ^ k \<and> p \<le> round53 p + 2 ^ k"
proof -
  define u :: nat where "u = 2 ^ (floorlog 2 p - 53)"
  have "floorlog 2 p \<le> 53 + k" using assms by (intro floorlog_leI) auto
  then have u: "u \<le> 2 ^ k" "0 < u" unfolding u_def by (auto intro!: power_increasing)
  have p: "p = p div u * u + p mod u" "p mod u < u" using u(2) by simp_all
  have "round53 p = p div u * u \<or> round53 p = p div u * u + u"
    by (simp add: round53_def u_def [symmetric] Let_def)
  then show ?thesis using p u(1) by linarith
qed

text \<open>A number just below a multiple of its unit is rounded up to it.\<close>

lemma round53_up:
  assumes "y = p + d" "p < 2 ^ 72" "y mod 2 ^ 19 = 0" "2 * d * 2 ^ 53 < p"
  shows "round53 p = y"
proof -
  define k where "k = floorlog 2 p - 53"
  define u :: nat where "u = 2 ^ k"
  have "floorlog 2 p \<le> 72" using assms(2) by (intro floorlog_leI) auto
  then have k: "k \<le> 19" by (simp add: k_def)
  have "p < 2 ^ floorlog 2 p" using floorlog_bounds [of p 2] assms(4) by simp
  also have "\<dots> \<le> 2 ^ (53 + k)" by (intro power_increasing) (auto simp: k_def)
  finally have "2 * d * 2 ^ 53 < 2 ^ 53 * u" using assms(4) by (simp add: u_def power_add)
  then have d: "2 * d < u" by simp
  have "u dvd 2 ^ 19" unfolding u_def using k by (rule le_imp_power_dvd)
  then obtain w where w: "y = u * w" using assms(3) by (metis dvd_eq_mod_eq_0 dvd_trans dvdE)
  show ?thesis
  proof (cases "d = 0")
    case True
    then have "p = w * u" using assms(1) w by (simp add: mult.commute)
    moreover have "0 < u" by (simp add: u_def)
    ultimately show ?thesis using True assms(1) round53_unit [of p w u 0] by (simp add: u_def k_def)
  next
    case False
    have "w \<noteq> 0" using assms(1) False w by (metis add_is_0 mult_0_right)
    then obtain v where v: "w = Suc v" by (cases w) auto
    have p: "p = v * u + (u - d)" using assms(1) w v d by (simp add: algebra_simps)
    have "round53 p = (if u < 2 * (u - d) \<or> u = 2 * (u - d) \<and> odd v then v + 1 else v) * u"
      by (rule round53_unit [OF p]) (use False d in \<open>simp_all add: u_def k_def\<close>)
    moreover have "u < 2 * (u - d)" using d by linarith
    ultimately show ?thesis using w v by (simp add: algebra_simps)
  qed
qed

text \<open>The product of doubles, cut off, is the quotient of integers, although neither constant is exact.\<close>

lemma scaled_exact:
  assumes d: "c * d + 8 = a * 2 ^ 53" and a: "17 \<le> a" "a < c" "c \<le> 1000" and n: "n \<le> 300000"
  shows "scaled d n = a * n div c"
proof (cases "n = 0")
  case True
  then show ?thesis by (simp add: scaled_def round53_def)
next
  case False
  define q where "q = a * n div c"
  define s where "s = a * n mod c"
  have an: "a * n = c * q + s" "s < c" using a by (simp_all add: q_def s_def)
  have e: "c * (n * d) + 8 * n = c * (q * 2 ^ 53) + s * 2 ^ 53"
  proof -
    have "c * (n * d) + 8 * n = n * (c * d + 8)" by (simp add: algebra_simps)
    also have "\<dots> = (a * n) * 2 ^ 53" by (simp add: d)
    finally show ?thesis unfolding an(1) by (simp add: algebra_simps)
  qed
  have "a * 2 ^ 53 \<le> c * 2 ^ 53" using a by simp
  then have "c * d < c * 2 ^ 53" using d by linarith
  then have "d < 2 ^ 53" by simp
  then have "n * d < 300001 * 2 ^ 53" using n by (intro mult_strict_mono) simp_all
  then have x: "n * d < 2 ^ 72" by simp
  show ?thesis
  proof (cases "s = 0")
    case True
    define t where "t = q * 2 ^ 53 - n * d"
    have c: "0 < c" using a by simp
    have "c * (n * d) + 8 * n = c * (q * 2 ^ 53)" using e True by simp
    then have "c * (n * d) \<le> c * (q * 2 ^ 53)" by (metis le_add1)
    then have "n * d \<le> q * 2 ^ 53" using c by (metis mult_le_cancel1)
    then have y: "q * 2 ^ 53 = n * d + t" by (simp add: t_def)
    have t: "c * t = 8 * n"
      using e True unfolding y by (simp add: algebra_simps)
    have "c * (2 * t * 2 ^ 53) = 16 * n * 2 ^ 53" using t by simp
    also have "\<dots> < c * (n * d)"
    proof -
      have "17 * 2 ^ 53 \<le> a * 2 ^ 53" using a by simp
      then have "16 * 2 ^ 53 < c * d" using d by simp
      then have "n * (16 * 2 ^ 53) < n * (c * d)" using False by simp
      then show ?thesis by (simp add: algebra_simps)
    qed
    finally have "2 * t * 2 ^ 53 < n * d" by simp
    moreover have "q * 2 ^ 53 mod 2 ^ 19 = 0" by simp
    ultimately have "round53 (n * d) = q * 2 ^ 53" using round53_up [OF y x] by simp
    then show ?thesis by (simp add: scaled_def q_def)
  next
    case False
    let ?r = "round53 (n * d)"
    have near: "?r \<le> n * d + 2 ^ 19" "n * d \<le> ?r + 2 ^ 19" using round53_near [of "n * d" 19] x by simp_all
    have "c * (q * 2 ^ 53) + c * 2 ^ 19 \<le> c * (n * d)"
    proof -
      have "c * 2 ^ 19 \<le> 1000 * 2 ^ 19" using a by simp
      moreover have "2 ^ 53 \<le> s * 2 ^ 53" using False by simp
      ultimately show ?thesis using e n by simp
    qed
    then have "c * (q * 2 ^ 53 + 2 ^ 19) \<le> c * (n * d)" by (simp add: distrib_left)
    then have lo: "q * 2 ^ 53 + 2 ^ 19 \<le> n * d" using a by simp
    have "c * (n * d) + c * 2 ^ 19 < c * (q * 2 ^ 53) + c * 2 ^ 53"
    proof -
      have "c * 2 ^ 19 \<le> 1000 * 2 ^ 19" using a by simp
      moreover have "(s + 1) * 2 ^ 53 \<le> c * 2 ^ 53" using an(2) by simp
      ultimately show ?thesis using e by simp
    qed
    then have "c * (n * d + 2 ^ 19) < c * (q * 2 ^ 53 + 2 ^ 53)" by (simp add: distrib_left)
    then have hi: "n * d + 2 ^ 19 < q * 2 ^ 53 + 2 ^ 53" by simp
    have "?r div 2 ^ 53 = q" using near lo hi by (intro div_nat_eqI) simp_all
    then show ?thesis by (simp add: scaled_def q_def)
  qed
qed

lemma scaled_D99: "n \<le> 300000 \<Longrightarrow> scaled D99 n = 99 * n div 100"
  by (rule scaled_exact) (simp_all add: D99_def)

lemma scaled_D999: "n \<le> 300000 \<Longrightarrow> scaled D999 n = 999 * n div 1000"
  by (rule scaled_exact) (simp_all add: D999_def)
section \<open>The samples\<close>

definition SAMPLES :: nat where "SAMPLES = 300000"

text \<open>
  Where the programs store a sample: the \<open>s\<close>-th one at \<open>s % 300000\<close>. The clients of \<open>tco_server.c\<close> store the time of a
  burst divided by its requests, without a division by 0; the pair is the array and the number of samples.
\<close>

definition record_sample :: "u64 \<Rightarrow> (nat \<Rightarrow> u64) \<times> nat \<Rightarrow> (nat \<Rightarrow> u64) \<times> nat" where
  "record_sample v ls = (case ls of (lat, s) \<Rightarrow> (lat(s mod SAMPLES := v), s + 1))"

definition burst_sample :: "int \<Rightarrow> u64 \<Rightarrow> u64 \<Rightarrow> (nat \<Rightarrow> u64) \<times> nat \<Rightarrow> (nat \<Rightarrow> u64) \<times> nat" where
  "burst_sample PIPE t0 t ls = record_sample ((t - t0) div (if PIPE \<noteq> 0 then of_int PIPE else 1)) ls"

definition samples :: "u64 list \<Rightarrow> (nat \<Rightarrow> u64) \<Rightarrow> (nat \<Rightarrow> u64) \<times> nat" where
  "samples vs lat = fold record_sample vs (lat, 0)"

lemma samples_snoc: "samples (vs @ [v]) lat = record_sample v (samples vs lat)"
  by (simp add: samples_def)

lemma samples_count: "snd (samples vs lat) = length vs"
  by (induction vs rule: rev_induct) (simp_all add: samples_snoc record_sample_def samples_def case_prod_unfold)

text \<open>The array holds the last 300000 samples, each at its place.\<close>

lemma samples_at:
  assumes "j < length vs" "length vs \<le> j + SAMPLES"
  shows "fst (samples vs lat) (j mod SAMPLES) = vs ! j"
  using assms
proof (induction vs rule: rev_induct)
  case (snoc v vs)
  have step: "fst (samples (vs @ [v]) lat) = (fst (samples vs lat))(length vs mod SAMPLES := v)"
    by (simp add: samples_snoc record_sample_def case_prod_unfold samples_count)
  show ?case
  proof (cases "j = length vs")
    case False
    then have "j < length vs" "length vs - j < SAMPLES" using snoc.prems by simp_all
    then show ?thesis using snoc mod_window_neq [of j "length vs" SAMPLES] by (simp add: step nth_append)
  qed (simp add: step)
qed simp

definition recent :: "u64 list \<Rightarrow> u64 list" where
  "recent vs = drop (length vs - SAMPLES) vs"

lemma recent_mset: "mset (map (fst (samples vs lat)) [0..<length (recent vs)]) = mset (recent vs)"
proof -
  let ?n = "length (recent vs)" and ?b = "length vs - SAMPLES"
  have pos: "0 < SAMPLES" by (simp add: SAMPLES_def)
  have n: "?n = length vs - ?b" "?n \<le> SAMPLES" by (simp_all add: recent_def)
  have inj: "inj_on (\<lambda>j. j mod SAMPLES) {?b..<length vs}"
  proof (rule linorder_inj_onI)
    fix i h assume "i < h" "i \<in> {?b..<length vs}" "h \<in> {?b..<length vs}"
    then show "i mod SAMPLES \<noteq> h mod SAMPLES" by (intro mod_window_neq) auto
  qed auto
  have im: "(\<lambda>j. j mod SAMPLES) ` {?b..<length vs} = {0..<?n}"
  proof (rule card_subset_eq)
    show "(\<lambda>j. j mod SAMPLES) ` {?b..<length vs} \<subseteq> {0..<?n}"
      using pos by (cases "length vs \<le> SAMPLES") (auto simp: recent_def)
    show "card ((\<lambda>j. j mod SAMPLES) ` {?b..<length vs}) = card {0..<?n}"
      unfolding card_image [OF inj] by (simp add: n)
  qed simp
  have "mset (map (fst (samples vs lat)) [0..<?n]) = image_mset (fst (samples vs lat)) (mset_set {0..<?n})"
    by simp
  also have "mset_set {0..<?n} = image_mset (\<lambda>j. j mod SAMPLES) (mset_set {?b..<length vs})"
    by (simp only: image_mset_mset_set [OF inj] im)
  also have "image_mset (fst (samples vs lat)) \<dots> = image_mset (\<lambda>j. vs ! j) (mset_set {?b..<length vs})"
    unfolding multiset.map_comp by (intro image_mset_cong) (auto simp: samples_at)
  also have "\<dots> = mset (map (\<lambda>j. vs ! j) [?b..<length vs])" by simp
  also have "map (\<lambda>j. vs ! j) [?b..<length vs] = recent vs"
    by (intro nth_equalityI) (auto simp: recent_def)
  finally show ?thesis .
qed

section \<open>The reports\<close>

text \<open>What \<open>main\<close> prints of the latencies, in nanoseconds: the values at its places of the sorted array.\<close>

definition sorted_samples :: "(nat \<Rightarrow> u64) \<Rightarrow> nat \<Rightarrow> u64 list" where
  "sorted_samples lat latn = (let n = (if latn < SAMPLES then latn else SAMPLES) in qsort cmp (map lat [0..<n]))"

definition tco_report :: "(nat \<Rightarrow> u64) \<Rightarrow> nat \<Rightarrow> u64 \<times> u64" where
  "tco_report lat lat_n =
     (let xs = sorted_samples lat lat_n; n = length xs
      in (if n \<noteq> 0 then xs ! (n div 2) else 0, if n \<noteq> 0 then xs ! scaled D99 n else 0))"

definition tco_gpu_report :: "(nat \<Rightarrow> u64) \<Rightarrow> nat \<Rightarrow> u64 \<times> u64" where
  "tco_gpu_report lat lat_n = tco_report lat lat_n"

definition openloop_report :: "(nat \<Rightarrow> u64) \<Rightarrow> nat \<Rightarrow> u64 \<times> u64 \<times> u64" where
  "openloop_report lat latn =
     (let xs = sorted_samples lat latn; n = length xs
      in (if n \<noteq> 0 then xs ! (n div 2) else 0, if n \<noteq> 0 then xs ! scaled D99 n else 0, if n \<noteq> 0 then xs ! scaled D999 n else 0))"

text \<open>\<open>accel_compare.c\<close> stops at a full array, so its report is on the samples that it has.\<close>

definition compare_report :: "u64 list \<Rightarrow> u64 \<times> u64 \<times> u64" where
  "compare_report lat =
     (let xs = qsort cmp lat; ns = length xs
      in (if ns \<noteq> 0 then xs ! (ns div 2) else 0, if ns \<noteq> 0 then xs ! scaled D99 ns else 0, if ns \<noteq> 0 then xs ! scaled D999 ns else 0))"

lemma recent_length: "length (recent vs) = (if length vs < SAMPLES then length vs else SAMPLES)"
  by (simp add: recent_def)

lemma sorted_samples_recent: "sorted_samples (fst (samples vs lat)) (length vs) = sort (recent vs)"
proof -
  have "sort (map (fst (samples vs lat)) [0..<length (recent vs)]) = sort (recent vs)"
    using recent_mset by (metis properties_for_sort sorted_sort mset_sort)
  then show ?thesis unfolding sorted_samples_def Let_def qsort_cmp recent_length by simp
qed

lemma places:
  assumes "0 < n" "n \<le> 300000"
  shows "n div 2 \<le> scaled D99 n" "scaled D99 n \<le> scaled D999 n" "scaled D999 n < n"
proof -
  have "99 * n div 100 \<le> 999 * n div 1000"
  proof -
    have "99 * n div 100 = 990 * n div 1000" using div_mult_mult1 [of 10 "99 * n" 100] by simp
    also have "\<dots> \<le> 999 * n div 1000" by (intro div_le_mono) simp
    finally show ?thesis .
  qed
  moreover have "n div 2 \<le> 99 * n div 100" "999 * n div 1000 < n" using assms by linarith+
  ultimately show "n div 2 \<le> scaled D99 n" "scaled D99 n \<le> scaled D999 n" "scaled D999 n < n"
    using assms by (simp_all add: scaled_D99 scaled_D999)
qed

lemma report_of_samples:
  assumes "vs \<noteq> []"
  shows "\<exists>p50 p99 p999. openloop_report (fst (samples vs lat)) (length vs) = (p50, p99, p999) \<and>
    tco_report (fst (samples vs lat)) (length vs) = (p50, p99) \<and> p50 \<le> p99 \<and> p99 \<le> p999 \<and>
    at_rank (recent vs) (length (recent vs) div 2) p50 \<and>
    at_rank (recent vs) (99 * length (recent vs) div 100) p99 \<and>
    at_rank (recent vs) (999 * length (recent vs) div 1000) p999"
proof -
  let ?w = "recent vs" let ?n = "length ?w" let ?x = "sort ?w"
  have n: "0 < ?n" "?n \<le> 300000" using assms by (auto simp: recent_length SAMPLES_def)
  note p = places [OF n]
  have "at_rank ?w i (?x ! i)" if "i < ?n" for i using at_rank_sort that by blast
  moreover have "?x ! (?n div 2) \<le> ?x ! scaled D99 ?n" "?x ! scaled D99 ?n \<le> ?x ! scaled D999 ?n"
    using p by (auto intro!: sorted_nth_mono)
  moreover have "?x \<noteq> []" using n(1) by (metis length_sort length_greater_0_conv)
  ultimately show ?thesis
    using n p by (auto simp: openloop_report_def tco_report_def sorted_samples_recent scaled_D99 scaled_D999 Let_def)
qed

text \<open>C0:
  The percentiles that the load programs print are percentiles: with the samples kept in an array of 300000 places that
  the newest overwrite, and the places computed with products of doubles, the value printed as the p50, p99 and p99.9
  is one of the last 300000 latencies, and as many of these are at most and at least that value as the exact place
  in the sorted latencies asks.\<close>

theorem reports_are_percentiles:
  assumes "vs \<noteq> []"
  shows "\<exists>p50 p99 p999. openloop_report (fst (samples vs lat)) (snd (samples vs lat)) = (p50, p99, p999) \<and>
    tco_report (fst (samples vs lat)) (snd (samples vs lat)) = (p50, p99) \<and> p50 \<le> p99 \<and> p99 \<le> p999 \<and>
    at_rank (recent vs) (length (recent vs) div 2) p50 \<and>
    at_rank (recent vs) (99 * length (recent vs) div 100) p99 \<and>
    at_rank (recent vs) (999 * length (recent vs) div 1000) p999"
  unfolding samples_count by (rule report_of_samples [OF assms])

theorem reports_are_percentiles_witness:
  "tco_report (fst (samples [5, 3, 9] (\<lambda>_. 0))) 3 = (5, 9) \<and> at_rank (recent [5, 3, 9]) 2 9"
proof -
  have r: "recent [5, 3, 9] = [5, 3, 9]" by (simp add: recent_def SAMPLES_def)
  have x: "sorted_samples (fst (samples [5, 3, 9] (\<lambda>_. 0))) (length [5, 3, 9 :: u64]) = [3, 5, 9]"
    unfolding sorted_samples_recent r by simp
  have l: "length [5, 3, 9 :: u64] = 3" by simp
  have t: "tco_report (fst (samples [5, 3, 9] (\<lambda>_. 0))) 3 = (5, 9)"
    using x unfolding l by (simp add: tco_report_def scaled_D99)
  have "[5, 3, 9 :: u64] \<noteq> []" by simp
  from reports_are_percentiles [OF this, of "\<lambda>_. 0"] t show ?thesis unfolding samples_count r l by auto
qed

text \<open>The samples of \<open>accel_compare.c\<close> are never overwritten; the places are the same.\<close>

lemma compare_report_rank:
  assumes "lat \<noteq> []" "length lat \<le> 300000" "compare_report lat = (p50, p99, p999)"
  shows "at_rank lat (length lat div 2) p50 \<and> at_rank lat (99 * length lat div 100) p99 \<and> at_rank lat (999 * length lat div 1000) p999"
proof -
  have n: "0 < length lat" "sort lat \<noteq> []" using assms(1) by (simp, metis length_sort length_0_conv)
  note p = places [OF n(1) assms(2)]
  have "at_rank lat i (sort lat ! i)" if "i < length lat" for i using at_rank_sort that by blast
  then show ?thesis
    using assms n p by (auto simp: compare_report_def qsort_cmp scaled_D99 scaled_D999 Let_def)
qed

section \<open>The command lines\<close>

record tco_args =
  is_coro :: bool
  NCONN :: int
  L_NS :: u64
  RUN_MS :: int
  PIPE :: int
  STATEFUL :: bool

definition tco_main :: "string list \<Rightarrow> tco_args" where
  "tco_main argv =
     \<lparr>is_coro = ((if 1 < length argv then argv ! 1 else ''coro'') = ''coro''),
      NCONN = (if 2 < length argv then atoi (argv ! 2) else 64), L_NS = (if 3 < length argv then strtoull (argv ! 3) else 20000),
      RUN_MS = (if 4 < length argv then atoi (argv ! 4) else 2000), PIPE = (if 5 < length argv then atoi (argv ! 5) else 1),
      STATEFUL = (6 < length argv \<and> atoi (argv ! 6) \<noteq> 0)\<rparr>"

definition tco_gpu_main :: "string list \<Rightarrow> tco_args" where
  "tco_gpu_main argv =
     \<lparr>is_coro = ((if 1 < length argv then argv ! 1 else ''coro'') = ''coro''),
      NCONN = (if 2 < length argv then atoi (argv ! 2) else 64), L_NS = (if 3 < length argv then strtoull (argv ! 3) else 20000),
      RUN_MS = (if 4 < length argv then atoi (argv ! 4) else 2000), PIPE = 1, STATEFUL = False\<rparr>"

section \<open>The arrivals of the open loop\<close>

text \<open>
  The generator behind the times between arrivals, and the numerator of the fraction over 2^53 whose logarithm
  is taken; the fraction is exact in a double.
\<close>

definition first_seed :: u64 where "first_seed = 88172645463325252"

definition next_seed :: "u64 \<Rightarrow> u64" where
  "next_seed seed =
     (let s = seed XOR push_bit 13 seed; s = s XOR drop_bit 7 s in s XOR push_bit 17 s)"

definition gap_numerator :: "u64 \<Rightarrow> u64" where
  "gap_numerator seed = drop_bit 11 seed + 1"

lemma xor_zero_eq: "x XOR y = 0 \<Longrightarrow> x = (y :: u64)"
  by (metis xor.assoc xor_self_eq xor.left_neutral xor.right_neutral)

lemma shift_xor_nonzero:
  fixes x :: u64
  assumes "x \<noteq> 0" "0 < k"
  shows "x XOR push_bit k x \<noteq> 0" "x XOR drop_bit k x \<noteq> 0"
proof -
  have left: "x = 0" if "x XOR push_bit k x = 0"
  proof -
    have e: "bit x n = bit (push_bit k x) n" for n
      using xor_zero_eq [OF that] by simp
    have "\<not> bit x n" for n
    proof (induction n rule: less_induct)
      case (less n)
      then show ?case using e [of n] assms(2) by (cases "k \<le> n") (auto simp: bit_simps)
    qed
    then show "x = 0" by (intro bit_word_eqI) simp
  qed
  have right: "x = 0" if "x XOR drop_bit k x = 0"
  proof -
    have e: "bit x n = bit x (k + n)" for n
      using arg_cong [OF xor_zero_eq [OF that], of "\<lambda>w. bit w n"] by (simp add: bit_drop_bit_eq)
    have "\<not> bit x (64 - m)" if "m \<le> 64" for m
      using that
    proof (induction m rule: less_induct)
      case (less m)
      show ?case
      proof (cases "m \<le> k")
        case True
        then have "64 \<le> k + (64 - m)" using less.prems by simp
        then show ?thesis using e [of "64 - m"] bit_imp_le_length [of x "k + (64 - m)"] by auto
      next
        case False
        then have "\<not> bit x (64 - (m - k))" using less.IH [of "m - k"] less.prems assms(2) by linarith
        moreover have "64 - (m - k) = k + (64 - m)" using False less.prems by simp
        ultimately show ?thesis using e [of "64 - m"] by simp
      qed
    qed
    then have "\<not> bit x n" for n
      using bit_imp_le_length [of x n] by (cases "n \<le> 64") (metis diff_diff_cancel diff_le_self, auto)
    then show "x = 0" by (intro bit_word_eqI) simp
  qed
  show "x XOR push_bit k x \<noteq> 0" "x XOR drop_bit k x \<noteq> 0" using left right assms(1) by blast+
qed

lemma next_seed_nonzero: "s \<noteq> 0 \<Longrightarrow> next_seed s \<noteq> 0"
  unfolding next_seed_def Let_def by (intro shift_xor_nonzero) simp_all

lemma gap_numerator_bounds: "1 \<le> unat (gap_numerator s) \<and> unat (gap_numerator s) \<le> 2 ^ 53"
proof -
  have "unat (drop_bit 11 s) = unat s div 2 ^ 11" by (metis unat_drop_bit_eq drop_bit_eq_div)
  moreover have "unat s < 2 ^ 64" using unsigned_less [where 'a = nat, of s] by simp
  ultimately have d: "unat (drop_bit 11 s) < 2 ^ 53" by (simp add: less_mult_imp_div_less)
  then have "unat (gap_numerator s) = unat (drop_bit 11 s) + 1"
    unfolding gap_numerator_def by (subst unat_plus_if') simp
  then show ?thesis using d by simp
qed

text \<open>The generator never gets stuck at 0, and the logarithm is always of a number above 0 and at most 1.\<close>

lemma arrivals_well_defined:
  "(next_seed ^^ n) first_seed \<noteq> 0 \<and> 1 \<le> unat (gap_numerator ((next_seed ^^ n) first_seed)) \<and>
    unat (gap_numerator ((next_seed ^^ n) first_seed)) \<le> 2 ^ 53"
proof -
  have "(next_seed ^^ n) first_seed \<noteq> 0" by (induction n) (simp_all add: first_seed_def next_seed_nonzero)
  then show ?thesis using gap_numerator_bounds by simp
qed

end
