(* ===== verification/Clients.thy ===== *)
theory Clients
  imports ThreadServers Reports
begin

text \<open>
  The clients that check and load the servers: \<open>client.c\<close> against \<open>conn_server.c\<close>, and the backend \<open>echo_backend.c\<close> that
  stunnel is put in front of.
\<close>

section \<open>The checking client\<close>

definition request :: "u8 list" where
  "request = map (\<lambda>i. of_nat (i * 131 + 7)) [0..<REQ]"

text \<open>\<open>evp\<close> is OpenSSL's cipher under the client's key.\<close>

definition expected :: "environ \<Rightarrow> (u8 list \<Rightarrow> u8 list) \<Rightarrow> u8 list" where
  "expected env evp = (if env ''ACCEL_OP'' = Some ''zip'' then request else evp request)"

text \<open>What a connection counts of the bytes that come back, with \<open>n\<close> turns before \<open>stop\<close>.\<close>

fun cli :: "nat \<Rightarrow> u8 list \<Rightarrow> u8 list \<Rightarrow> nat \<times> nat \<Rightarrow> nat \<times> nat" where
  "cli 0 e rsp k = k"
| "cli (Suc n) e rsp (ok, bad) =
     (if length rsp < REQ then (ok, bad)
      else cli n e (drop REQ rsp) (if take REQ rsp = e then (ok + 1, bad) else (ok, bad + 1)))"

text \<open>The latencies: the place of the \<open>s\<close>-th sample, and what \<open>main\<close> reads of the sorted samples for its two percentiles.\<close>

definition LAT :: nat where "LAT = 300000"

definition lat_place :: "nat \<Rightarrow> nat" where
  "lat_place s = s mod LAT"

definition percentile_places :: "nat \<Rightarrow> nat list" where
  "percentile_places latn = (let n = (if latn < LAT then latn else LAT) in if n = 0 then [] else [n div 2, scaled D99 n])"

lemma whole_repeats:
  assumes "whole n rs" "length q = n" "0 < n" "concat rs @ part = take p (concat (replicate k q))"
  shows "rs = replicate (length rs) q"
  using assms(1,4)
proof (induction rs arbitrary: p k)
  case (Cons r rs)
  have r: "length r = n" using Cons.prems(1) by (simp add: whole_def)
  have len: "n \<le> length (take p (concat (replicate k q)))"
  proof -
    have "length (take p (concat (replicate k q))) = n + length (concat rs @ part)"
      unfolding Cons.prems(2) [symmetric] using r by simp
    then show ?thesis by linarith
  qed
  then have p: "n \<le> p" "0 < k" using assms(3) by (auto intro: Nat.gr0I)
  then obtain k' where k: "k = Suc k'" by (cases k) auto
  have e: "r @ (concat rs @ part) = q @ take (p - n) (concat (replicate k' q))"
    using Cons.prems(2) p(1) assms(2) by (simp add: k)
  then have "r = q" "concat rs @ part = take (p - n) (concat (replicate k' q))"
    using r assms(2) by simp_all
  moreover have "whole n rs" using Cons.prems(1) by (simp add: whole_def)
  ultimately show ?case using Cons.IH by simp
qed simp

lemma cli_all_good:
  assumes "length e = REQ"
  shows "cli n e (take k (concat (replicate m e))) (ok, bad) = (ok + min n (min k (m * REQ) div REQ), bad)"
proof (induction n arbitrary: k m ok)
  case (Suc n)
  have len: "length (take k (concat (replicate m e))) = min k (m * REQ)"
    using assms by (simp add: length_concat sum_list_replicate min.commute)
  show ?case
  proof (cases "min k (m * REQ) < REQ")
    case True
    then show ?thesis using len by simp
  next
    case False
    then obtain m' where m: "m = Suc m'" using REQ_positive by (cases m) auto
    have k: "REQ \<le> k" using False by simp
    have t: "take REQ (take k (concat (replicate m e))) = e" "drop REQ (take k (concat (replicate m e))) = take (k - REQ) (concat (replicate m' e))"
      using k assms by (simp_all add: m drop_take min_def)
    have d: "min k (m * REQ) div REQ = Suc (min (k - REQ) (m' * REQ) div REQ)"
    proof -
      have "min k (m * REQ) = min (k - REQ) (m' * REQ) + REQ" using k by (auto simp: m min_def)
      then show ?thesis using REQ_positive by (simp only: div_add_self2 Suc_eq_plus1)
    qed
    show ?thesis using Suc.IH [of "k - REQ" m' "ok + 1"] False len t d by simp
  qed
qed simp


text \<open>A server whose accelerator leaves the bytes alone, as compression and decompression do, and one request.\<close>

definition one_exchange :: "io list" where
  "one_exchange = [Got (take 1000 request), Got (drop 1000 request), Returned, Sent 4000, Sent 96]"


section \<open>The echoing backend\<close>

datatype ephase = E_reading | E_writing | E_closed

text \<open>A failed write only leaves the inner loop: the thread goes on to read, and the rest of the chunk is dropped.\<close>

definition echo_conn :: "io \<Rightarrow> ephase cthread \<Rightarrow> ephase cthread" where
  "echo_conn e c =
     (case phase c of
        E_reading \<Rightarrow>
          (case e of
             Got bs \<Rightarrow> if bs = [] \<or> 8192 < length bs then c
                        else c\<lparr>buf := bs, put := 0, inp := inp c @ bs, phase := E_writing\<rparr>
           | Failed \<Rightarrow> c\<lparr>phase := E_closed\<rparr>
           | _ \<Rightarrow> c)
      | E_writing \<Rightarrow>
          (case e of
             Sent k \<Rightarrow>
               if k = 0 \<or> length (buf c) - put c < k then c
               else (let c = c\<lparr>outp := outp c @ take k (drop (put c) (buf c)), put := put c + k\<rparr>
                     in if put c < length (buf c) then c else c\<lparr>phase := E_reading\<rparr>)
           | Failed \<Rightarrow> c\<lparr>phase := E_reading\<rparr>
           | _ \<Rightarrow> c)
      | E_closed \<Rightarrow> c)"

definition echo_ok :: "ephase cthread \<Rightarrow> bool" where
  "echo_ok c \<longleftrightarrow> inp c = outp c @ (if phase c = E_writing then drop (put c) (buf c) else [])"

lemma echo_step_ok:
  assumes "echo_ok c" "phase c = E_writing \<longrightarrow> e \<noteq> Failed"
  shows "echo_ok (echo_conn e c)"
proof (cases "phase c")
  case E_writing
  show ?thesis
  proof (cases e)
    case (Sent k)
    have "outp c @ take k (drop (put c) (buf c)) @ drop (put c + k) (buf c) = inp c"
      using assms(1) E_writing by (simp add: echo_ok_def) (metis add.commute append_take_drop_id drop_drop)
    then show ?thesis using assms E_writing Sent by (auto simp: echo_ok_def echo_conn_def Let_def)
  qed (use assms E_writing in \<open>simp_all add: echo_ok_def echo_conn_def\<close>)
qed (use assms in \<open>auto simp: echo_ok_def echo_conn_def split: io.split\<close>)

text \<open>The writes that failed, along a run.\<close>

fun write_failed :: "io list \<Rightarrow> ephase cthread \<Rightarrow> bool" where
  "write_failed [] c = False"
| "write_failed (e # es) c = (phase c = E_writing \<and> e = Failed \<or> write_failed es (echo_conn e c))"

lemma echo_exact:
  "\<not> write_failed es c \<Longrightarrow> echo_ok c \<Longrightarrow> echo_ok (fold echo_conn es c)"
  by (induction es arbitrary: c) (auto simp: echo_step_ok)

lemma echo_failed_write_leaves_gap:
  "let c = fold echo_conn [Got [1, 2], Failed, Got [3], Sent 1] (fresh E_reading) in inp c = [1, 2, 3] \<and> outp c = [3]"
  by (simp add: echo_conn_def fresh_def Let_def)

end
