(* ===== verification/HostGlue.thy ===== *)
theory HostGlue
  imports Accel "HOL-Library.Multiset"
begin

text \<open>
  The glue that brings the accelerator into other hosts: the PostgreSQL and MariaDB functions, the Apache, Node and Lua
  bindings, the TLS shim, and the demonstration of interposition under \<open>transparency/\<close>. The hosts are parameters; the
  accelerator is the model of \<open>Accel\<close>.
\<close>

section \<open>Finding the library\<close>

text \<open>\<open>dl\<close> gives the symbols of a library that can be loaded; \<open>glob\<close> those of the process, where \<open>dlsym\<close> looks with no handle.\<close>

type_synonym loader = "string \<Rightarrow> (string \<Rightarrow> bool) option"

definition lib_name :: "environ \<Rightarrow> string" where
  "lib_name env = (case env ''ACCEL_LIB'' of Some l \<Rightarrow> l | None \<Rightarrow> ''libaccel.so'')"

definition batch_api :: "string list" where
  "batch_api = [''accel_encrypt'', ''accel_submit'', ''accel_done'', ''accel_release'']"

text \<open>Which of the wanted pointers are non-null after \<open>dlsym\<close> with whatever \<open>dlopen\<close> returned.\<close>

definition symbols :: "string list \<Rightarrow> environ \<Rightarrow> loader \<Rightarrow> (string \<Rightarrow> bool) \<Rightarrow> string set" where
  "symbols wanted env dl glob =
     (case dl (lib_name env) of None \<Rightarrow> {x \<in> set wanted. glob x} | Some syms \<Rightarrow> {x \<in> set wanted. syms x})"

text \<open>\<open>resolve\<close> of each host, from the pointers \<open>found\<close> before; \<open>None\<close> is the error that only PostgreSQL raises.\<close>

definition pg_resolve :: "environ \<Rightarrow> loader \<Rightarrow> (string \<Rightarrow> bool) \<Rightarrow> string set \<Rightarrow> string set option" where
  "pg_resolve env dl glob found =
     (if ''accel_encrypt'' \<in> found then Some found
      else if dl (lib_name env) = None then None else Some (symbols batch_api env dl glob))"

definition maria_resolve :: "environ \<Rightarrow> loader \<Rightarrow> (string \<Rightarrow> bool) \<Rightarrow> string set \<Rightarrow> string set" where
  "maria_resolve env dl glob found = (if ''accel_encrypt'' \<in> found then found else symbols batch_api env dl glob)"

definition ap_resolve :: "environ \<Rightarrow> loader \<Rightarrow> (string \<Rightarrow> bool) \<Rightarrow> string set \<Rightarrow> string set" where
  "ap_resolve env dl glob found = (if ''accel_encrypt'' \<in> found then found else symbols [''accel_encrypt''] env dl glob)"

definition node_resolve :: "environ \<Rightarrow> loader \<Rightarrow> (string \<Rightarrow> bool) \<Rightarrow> string set \<Rightarrow> string set" where
  "node_resolve env dl glob found = (if ''accel_encrypt'' \<in> found then found else symbols [''accel_encrypt''] env dl glob)"

section \<open>The synchronous functions\<close>

text \<open>What a call ends with, and how many offloads it made. A call through a null pointer crashes.\<close>

datatype call_result = Returns int | Says string | Declined | Raises | Crashes

definition offloads :: "string set \<Rightarrow> nat \<Rightarrow> call_result \<Rightarrow> call_result \<times> nat" where
  "offloads found k r = (if 0 < k \<and> ''accel_encrypt'' \<notin> found then (Crashes, 0) else (r, k))"

definition pg_sync :: "environ \<Rightarrow> loader \<Rightarrow> (string \<Rightarrow> bool) \<Rightarrow> string set \<Rightarrow> int \<Rightarrow> call_result \<times> nat" where
  "pg_sync env dl glob found n =
     (case pg_resolve env dl glob found of None \<Rightarrow> (Raises, 0) | Some fs \<Rightarrow> offloads fs (nat n) (Returns n))"

definition maria_sync :: "environ \<Rightarrow> loader \<Rightarrow> (string \<Rightarrow> bool) \<Rightarrow> string set \<Rightarrow> int \<Rightarrow> call_result \<times> nat" where
  "maria_sync env dl glob found n = offloads (maria_resolve env dl glob found) (nat n) (Returns n)"

definition accel_handler :: "string option \<Rightarrow> environ \<Rightarrow> loader \<Rightarrow> (string \<Rightarrow> bool) \<Rightarrow> string set \<Rightarrow> call_result \<times> nat" where
  "accel_handler hnd env dl glob found =
     (if hnd \<noteq> Some ''accel'' then (Declined, 0) else offloads (ap_resolve env dl glob found) 1 (Says ''OK''))"

definition AccelSync :: "environ \<Rightarrow> loader \<Rightarrow> (string \<Rightarrow> bool) \<Rightarrow> string set \<Rightarrow> call_result \<times> nat" where
  "AccelSync env dl glob found = offloads (node_resolve env dl glob found) 1 (Says ''OK'')"

definition l_offload :: "environ \<Rightarrow> loader \<Rightarrow> (string \<Rightarrow> bool) \<Rightarrow> string set \<Rightarrow> call_result \<times> nat" where
  "l_offload env dl glob found =
     (let found = (if ''accel_encrypt'' \<in> found then found else symbols [''accel_encrypt''] env dl glob)
      in offloads found 1 (Says ''OK''))"

section \<open>The batch functions of the databases\<close>

text \<open>
  \<open>palloc\<close> takes the product, computed in 32 bits and widened with its sign, and raises an error above \<open>MaxAllocSize\<close>.
\<close>

definition palloc :: "64 word \<Rightarrow> nat option" where
  "palloc z = (if unat z \<le> 0x3fffffff then Some (unat z) else None)"

definition pg_bufs :: "32 word \<Rightarrow> nat option" where
  "pg_bufs n = palloc (scast (n * 4096 :: 32 word))"

definition pg_ids :: "32 word \<Rightarrow> nat option" where
  "pg_ids n = palloc (scast n * 8)"

text \<open>The submissions, at the times \<open>now i\<close> with the device's turns \<open>turns i\<close> behind each, and the collection, whose
  polls see the turns \<open>polls i\<close>.\<close>

fun submit_all :: "environ \<Rightarrow> crypto \<Rightarrow> (nat \<Rightarrow> u64) \<Rightarrow> (nat \<Rightarrow> u64 list) \<Rightarrow> nat \<Rightarrow> nat \<Rightarrow> nat \<Rightarrow> accel \<Rightarrow> nat list \<times> accel" where
  "submit_all env cr now turns b i 0 d = ([], d)"
| "submit_all env cr now turns b i (Suc n) d =
     (let (rid, d) = accel_submit env (now i) (b + i * 4096) 4096 d;
          d = fold (device_pass cr) (turns i) d;
          (ids, d) = submit_all env cr now turns b (Suc i) n d
      in (rid # ids, d))"

fun collect_all :: "crypto \<Rightarrow> (nat \<Rightarrow> u64 list) \<Rightarrow> nat \<Rightarrow> nat list \<Rightarrow> accel \<Rightarrow> accel option" where
  "collect_all cr polls i [] d = Some d"
| "collect_all cr polls i (rid # ids) d =
     (case wait_done cr rid (polls i) d of None \<Rightarrow> None | Some d \<Rightarrow> collect_all cr polls (Suc i) ids d)"

definition db_async :: "environ \<Rightarrow> crypto \<Rightarrow> (nat \<Rightarrow> u64) \<Rightarrow> (nat \<Rightarrow> u64 list) \<Rightarrow> (nat \<Rightarrow> u64 list) \<Rightarrow> nat \<Rightarrow> nat \<Rightarrow> accel \<Rightarrow> accel option" where
  "db_async env cr now turns polls b n d =
     (let (ids, d) = submit_all env cr now turns b 0 n d in collect_all cr polls 0 ids d)"

section \<open>A batch is served\<close>

text \<open>A buffer with a known content that no pending request touches.\<close>

definition calm :: "nat \<Rightarrow> nat \<Rightarrow> u8 list \<Rightarrow> accel \<Rightarrow> bool" where
  "calm b n v d \<longleftrightarrow> rd (dmem d) b n = v \<and>
     (\<forall>j. busy (slots d j) \<longrightarrow> \<not> sdone (slots d j) \<longrightarrow> apart (sbuf (slots d j)) (sn (slots d j)) b n)"

lemma calm_slot: "crypto_ok cr \<Longrightarrow> calm b n v d \<Longrightarrow> calm b n v (device_slot cr t i d)"
  by (auto simp: calm_def device_slot_mem Let_def)

lemma calm_pass: "crypto_ok cr \<Longrightarrow> calm b n v d \<Longrightarrow> calm b n v (device_pass cr t d)"
proof -
  assume ok: "crypto_ok cr"
  have "calm b n v d \<Longrightarrow> calm b n v (fold (device_slot cr t) xs d)" for xs
    by (induction xs arbitrary: d) (simp_all add: calm_slot [OF ok])
  then show "calm b n v d \<Longrightarrow> calm b n v (device_pass cr t d)" by (simp add: device_pass_def)
qed

lemma calm_submit:
  "calm b n v d \<Longrightarrow> apart b' n' b n \<Longrightarrow> calm b n v (snd (accel_submit env now b' n' d))"
  by (simp add: calm_def accel_submit_def Let_def)

lemma calm_release: "calm b n v d \<Longrightarrow> calm b n v (accel_release k d)"
  by (simp add: calm_def accel_release_def)

lemma pass_settings [simp]:
  "ACCEL_LAT_NS (device_pass cr t d) = ACCEL_LAT_NS d" "dev_started (device_pass cr t d) = dev_started d"
  "ACCEL_OP (device_pass cr t d) = ACCEL_OP d" "sub_head (device_pass cr t d) = sub_head d"
  "busy (slots (device_pass cr t d) j) = busy (slots d j)"
proof -
  have "ACCEL_LAT_NS (fold (device_slot cr t) xs d) = ACCEL_LAT_NS d \<and> dev_started (fold (device_slot cr t) xs d) = dev_started d" for xs
    by (induction xs arbitrary: d) (auto simp: device_slot_def Let_def)
  then show "ACCEL_LAT_NS (device_pass cr t d) = ACCEL_LAT_NS d" "dev_started (device_pass cr t d) = dev_started d"
    by (simp_all add: device_pass_def)
qed (use device_fold_frame [of cr t "[0..<NSLOT]" d j] in \<open>simp_all add: device_pass_def\<close>)

text \<open>The \<open>j\<close>-th request of a batch that starts in the state \<open>d0\<close>.\<close>

record batch =
  bstart :: accel
  bbase :: nat
  bnow :: "nat \<Rightarrow> u64"
  bsize :: nat

definition buf_at :: "batch \<Rightarrow> nat \<Rightarrow> nat" where
  "buf_at B j = bbase B + j * 4096"

definition input_at :: "batch \<Rightarrow> nat \<Rightarrow> u8 list" where
  "input_at B j = rd (dmem (bstart B)) (buf_at B j) 4096"

definition req_at :: "environ \<Rightarrow> batch \<Rightarrow> nat \<Rightarrow> req" where
  "req_at env B j = \<lparr>r_slot = (sub_head (bstart B) + j) mod NSLOT, r_buf = buf_at B j, r_n = 4096,
     r_due = bnow B j + ACCEL_LAT_NS (ensure_dev env (bstart B)), r_in = input_at B j\<rparr>"

text \<open>\<open>m\<close> requests have been submitted and the first \<open>k\<close> of them collected.\<close>

definition batch_inv :: "environ \<Rightarrow> crypto \<Rightarrow> batch \<Rightarrow> nat \<Rightarrow> nat \<Rightarrow> accel \<Rightarrow> bool" where
  "batch_inv env cr B k m d \<longleftrightarrow>
     (let zp = ACCEL_OP (ensure_dev env (bstart B))
      in ACCEL_OP (ensure_dev env d) = zp \<and> ACCEL_LAT_NS (ensure_dev env d) = ACCEL_LAT_NS (ensure_dev env (bstart B)) \<and>
         sub_head d = sub_head (bstart B) + m \<and>
         (\<forall>s. busy (slots d s) \<longrightarrow> (\<exists>j. k \<le> j \<and> j < m \<and> s = r_slot (req_at env B j))) \<and>
         (\<forall>j. k \<le> j \<and> j < m \<longrightarrow> (\<exists>fin. req_inv cr zp (req_at env B j) fin d)) \<and>
         (\<forall>j<k. calm (buf_at B j) 4096 (enc cr zp (input_at B j)) d) \<and>
         (\<forall>j. m \<le> j \<and> j < bsize B \<longrightarrow> calm (buf_at B j) 4096 (input_at B j) d))"

lemma batch_apart: "i \<noteq> j \<Longrightarrow> apart (buf_at B i) 4096 (buf_at B j) 4096"
  by (cases i j rule: linorder_cases) (auto simp: apart_def buf_at_def)

lemma batch_slots:
  assumes "i < j" "j < NSLOT"
  shows "r_slot (req_at env B i) \<noteq> r_slot (req_at env B j)"
  using mod_window_neq [of "sub_head (bstart B) + i" "sub_head (bstart B) + j" NSLOT] assms by (simp add: req_at_def)

lemma req_at_sel [simp]:
  "r_buf (req_at env B j) = buf_at B j" "r_n (req_at env B j) = 4096" "r_in (req_at env B j) = input_at B j"
  "r_slot (req_at env B j) < NSLOT" "r_slot (req_at env B j) = (sub_head (bstart B) + j) mod NSLOT"
  using NSLOT_pos by (simp_all add: req_at_def)

lemma batch_pass:
  assumes "crypto_ok cr" "batch_inv env cr B k m d"
  shows "batch_inv env cr B k m (device_pass cr t d)"
proof -
  have e: "ACCEL_OP (ensure_dev env (device_pass cr t d)) = ACCEL_OP (ensure_dev env d)"
    "ACCEL_LAT_NS (ensure_dev env (device_pass cr t d)) = ACCEL_LAT_NS (ensure_dev env d)"
    by (simp_all add: ensure_dev_def split: option.split)
  have r: "\<exists>fin. req_inv cr zp (req_at env B j) fin d \<Longrightarrow> \<exists>fin. req_inv cr zp (req_at env B j) fin (device_pass cr t d)" for zp j
    using req_inv_pass [OF assms(1)] req_at_sel(4) by blast
  show ?thesis
    using assms(2) unfolding batch_inv_def Let_def e by (auto intro: calm_pass [OF assms(1)] r)
qed

lemma batch_passes: "crypto_ok cr \<Longrightarrow> batch_inv env cr B k m d \<Longrightarrow> batch_inv env cr B k m (fold (device_pass cr) ts d)"
  by (induction ts arbitrary: d) (simp_all add: batch_pass)

lemma batch_D:
  assumes "batch_inv env cr B k m d"
  shows "ACCEL_OP (ensure_dev env d) = ACCEL_OP (ensure_dev env (bstart B))"
    and "ACCEL_LAT_NS (ensure_dev env d) = ACCEL_LAT_NS (ensure_dev env (bstart B))"
    and "sub_head d = sub_head (bstart B) + m"
    and "busy (slots d s) \<Longrightarrow> \<exists>j. k \<le> j \<and> j < m \<and> s = r_slot (req_at env B j)"
    and "k \<le> j \<Longrightarrow> j < m \<Longrightarrow> \<exists>fin. req_inv cr (ACCEL_OP (ensure_dev env (bstart B))) (req_at env B j) fin d"
    and "j < k \<Longrightarrow> calm (buf_at B j) 4096 (enc cr (ACCEL_OP (ensure_dev env (bstart B))) (input_at B j)) d"
    and "m \<le> j \<Longrightarrow> j < bsize B \<Longrightarrow> calm (buf_at B j) 4096 (input_at B j) d"
  using assms by (simp_all add: batch_inv_def Let_def)

lemma submit_settings:
  "ACCEL_OP (ensure_dev env (snd (accel_submit env now b n d))) = ACCEL_OP (ensure_dev env d)"
  "ACCEL_LAT_NS (ensure_dev env (snd (accel_submit env now b n d))) = ACCEL_LAT_NS (ensure_dev env d)"
  "ACCEL_OP (snd (accel_submit env now b n d)) = ACCEL_OP (ensure_dev env d)"
  "sub_head (snd (accel_submit env now b n d)) = Suc (sub_head d)"
  by (simp_all add: accel_submit_def Let_def ensure_dev_def)

lemma submit_slots:
  "slots (snd (accel_submit env now b n d)) = (slots d)(sub_head d mod NSLOT :=
     \<lparr>sbuf = b, sn = n, deadline = now + ACCEL_LAT_NS (ensure_dev env d), busy = True, sdone = False\<rparr>)"
  by (simp add: accel_submit_def Let_def)

lemma batch_submit:
  assumes "crypto_ok cr" "batch_inv env cr B 0 m d" "m < bsize B" "bsize B \<le> NSLOT"
  shows "fst (accel_submit env (bnow B m) (buf_at B m) 4096 d) = sub_head (bstart B) + m \<and>
    batch_inv env cr B 0 (Suc m) (snd (accel_submit env (bnow B m) (buf_at B m) 4096 d))"
proof
  let ?d = "snd (accel_submit env (bnow B m) (buf_at B m) 4096 d)"
  note D = batch_D [OF assms(2)]
  show "fst (accel_submit env (bnow B m) (buf_at B m) 4096 d) = sub_head (bstart B) + m"
    using D(3) by (simp add: accel_submit_def Let_def)
  have room: "slot_room d"
  proof (rule ccontr)
    assume "\<not> slot_room d"
    then obtain j where "j < m" "sub_head d mod NSLOT = r_slot (req_at env B j)"
      using D(4) [of "sub_head d mod NSLOT"] by (auto simp: slot_room_def)
    then show False using batch_slots [of j m env B] assms(3,4) D(3) by simp
  qed
  have quiet: "quiet (buf_at B m) 4096 d"
  proof -
    have "apart (sbuf (slots d s)) (sn (slots d s)) (buf_at B m) 4096 \<and> s < NSLOT" if b: "busy (slots d s)" for s
    proof -
      obtain j fin where j: "j < m" "s = r_slot (req_at env B j)" "req_inv cr (ACCEL_OP (ensure_dev env (bstart B))) (req_at env B j) fin d"
        using D(4) [OF b] D(5) by blast
      then have "slots d s = \<lparr>sbuf = buf_at B j, sn = 4096, deadline = r_due (req_at env B j), busy = True, sdone = fin\<rparr>"
        by (simp add: req_inv_def)
      then show ?thesis using j(1,2) batch_apart [of j m B] req_at_sel(4) [of env B j] by simp
    qed
    then show ?thesis unfolding quiet_def by (meson leD)
  qed
  have new: "req_inv cr (ACCEL_OP (ensure_dev env (bstart B))) (req_at env B m) False ?d"
  proof -
    obtain k d1 where sub: "accel_submit env (bnow B m) (buf_at B m) 4096 d = (k, d1)" by fastforce
    have "rd (dmem d) (buf_at B m) 4096 = input_at B m" using D(7) [of m] assms(3) by (simp add: calm_def)
    moreover have "k = sub_head (bstart B) + m" "ACCEL_LAT_NS d1 = ACCEL_LAT_NS (ensure_dev env (bstart B))"
      "ACCEL_OP d1 = ACCEL_OP (ensure_dev env (bstart B))"
      using sub D(1-3) by (auto simp: accel_submit_def Let_def)
    ultimately show ?thesis using req_inv_submit [OF sub quiet, of cr] sub by (simp add: req_at_def)
  qed
  have old: "\<exists>fin. req_inv cr (ACCEL_OP (ensure_dev env (bstart B))) (req_at env B j) fin ?d" if "j < m" for j
  proof -
    have "beside (req_at env B j) (Submit (bnow B m) (buf_at B m) 4096) d"
      using room batch_apart [of m j B] that by simp
    then show ?thesis using D(5) [of j] that req_inv_step [OF assms(1) _ req_at_sel(4)] by (metis dev_step.simps(1) zero_le)
  qed
  have calm: "calm (buf_at B j) 4096 (input_at B j) ?d" if "Suc m \<le> j" "j < bsize B" for j
    using D(7) [of j] that batch_apart [of m j B] by (intro calm_submit) simp_all
  have busy: "\<exists>j<Suc m. s = r_slot (req_at env B j)" if "busy (slots ?d s)" for s
  proof (cases "s = sub_head d mod NSLOT")
    case True
    then show ?thesis using D(3) by (intro exI [of _ m]) simp
  next
    case False
    then have "busy (slots d s)" using that by (simp add: submit_slots)
    then show ?thesis using D(4) less_SucI by blast
  qed
  show "batch_inv env cr B 0 (Suc m) ?d"
    unfolding batch_inv_def Let_def submit_settings using D(1-3) busy new old calm by (auto simp: less_Suc_eq)
qed

lemma submit_all_inv:
  assumes "crypto_ok cr" "bsize B \<le> NSLOT"
  shows "batch_inv env cr B 0 i d \<Longrightarrow> i + n = bsize B \<Longrightarrow>
    fst (submit_all env cr (bnow B) turns (bbase B) i n d) = map (\<lambda>j. sub_head (bstart B) + j) [i..<i + n] \<and>
    batch_inv env cr B 0 (bsize B) (snd (submit_all env cr (bnow B) turns (bbase B) i n d))"
proof (induction n arbitrary: i d)
  case (Suc n)
  let ?s = "accel_submit env (bnow B i) (bbase B + i * 4096) 4096 d"
  have s: "fst ?s = sub_head (bstart B) + i \<and> batch_inv env cr B 0 (Suc i) (snd ?s)"
    using batch_submit [OF assms(1) Suc.prems(1) _ assms(2)] Suc.prems(2) by (simp add: buf_at_def)
  have "batch_inv env cr B 0 (Suc i) (fold (device_pass cr) (turns i) (snd ?s))"
    using batch_passes [OF assms(1)] s by blast
  from Suc.IH [OF this] s Suc.prems(2) show ?case
    by (simp add: case_prod_unfold Let_def upt_rec)
qed simp

lemma release_settings:
  "ACCEL_OP (ensure_dev env (accel_release k d)) = ACCEL_OP (ensure_dev env d)"
  "ACCEL_LAT_NS (ensure_dev env (accel_release k d)) = ACCEL_LAT_NS (ensure_dev env d)"
  "sub_head (accel_release k d) = sub_head d"
  "busy (slots (accel_release k d) s) = (busy (slots d s) \<and> s \<noteq> k mod NSLOT)"
  by (simp_all add: accel_release_def ensure_dev_def split: option.split)

lemma batch_release:
  assumes inv: "batch_inv env cr B k m d" and k: "k < m" "m \<le> NSLOT"
    and fin: "req_inv cr (ACCEL_OP (ensure_dev env (bstart B))) (req_at env B k) True d"
  shows "batch_inv env cr B (Suc k) m (accel_release (sub_head (bstart B) + k) d)"
proof -
  let ?k = "sub_head (bstart B) + k" and ?zp = "ACCEL_OP (ensure_dev env (bstart B))"
  let ?d = "accel_release ?k d"
  note D = batch_D [OF inv]
  have own: "calm (buf_at B k) 4096 (enc cr ?zp (input_at B k)) ?d"
  proof (rule calm_release, unfold calm_def, intro conjI allI impI)
    show "rd (dmem d) (buf_at B k) 4096 = enc cr ?zp (input_at B k)" using fin by (simp add: req_inv_def)
    fix j assume j: "busy (slots d j)" "\<not> sdone (slots d j)"
    then have "j \<noteq> r_slot (req_at env B k)" using fin by (auto simp: req_inv_def)
    then show "apart (sbuf (slots d j)) (sn (slots d j)) (buf_at B k) 4096" using fin j by (simp add: req_inv_def)
  qed
  have busy: "\<exists>j. Suc k \<le> j \<and> j < m \<and> s = r_slot (req_at env B j)" if b: "busy (slots ?d s)" for s
  proof -
    have "busy (slots d s)" "s \<noteq> r_slot (req_at env B k)" using b by (simp_all add: release_settings)
    then show ?thesis using D(4) [of s] by (metis Suc_leI le_neq_implies_less)
  qed
  have rest: "\<exists>fin. req_inv cr ?zp (req_at env B j) fin ?d" if j: "Suc k \<le> j" "j < m" for j
  proof -
    obtain f where f: "req_inv cr ?zp (req_at env B j) f d" using D(5) [of j] j by auto
    have "r_slot (req_at env B k) \<noteq> r_slot (req_at env B j)" using batch_slots [of k j env B] j k by simp
    then show ?thesis using f by (intro exI [of _ f]) (auto simp: req_inv_def accel_release_def)
  qed
  show ?thesis
    unfolding batch_inv_def Let_def release_settings(1-3)
    using D(1-3,6,7) busy rest own by (auto intro: calm_release simp: less_Suc_eq)
qed

lemma batch_wait:
  assumes ok: "crypto_ok cr" and k: "k < m" "m \<le> NSLOT"
  shows "batch_inv env cr B k m d \<Longrightarrow> req_inv cr (ACCEL_OP (ensure_dev env (bstart B))) (req_at env B k) fin d \<Longrightarrow>
    fin \<or> (\<exists>t\<in>set ts. r_due (req_at env B k) \<le> t) \<Longrightarrow>
    \<exists>d'. wait_done cr (sub_head (bstart B) + k) ts d = Some d' \<and> batch_inv env cr B (Suc k) m d'"
proof (induction ts arbitrary: fin d)
  case Nil
  then have "accel_done (sub_head (bstart B) + k) d" by (simp add: accel_done_def req_inv_def)
  then show ?case using batch_release [OF Nil(1) k] Nil(2,3) by simp
next
  case (Cons t ts)
  show ?case
  proof (cases "accel_done (sub_head (bstart B) + k) d")
    case True
    then have fin using Cons.prems(2) by (simp add: accel_done_def req_inv_def)
    then show ?thesis using True batch_release [OF Cons.prems(1) k] Cons.prems(2) by simp
  next
    case False
    then have "\<not> fin" using Cons.prems(2) by (simp add: accel_done_def req_inv_def)
    then have "(fin \<or> r_due (req_at env B k) \<le> t) \<or> (\<exists>t\<in>set ts. r_due (req_at env B k) \<le> t)"
      using Cons.prems(3) by auto
    from Cons.IH [OF batch_pass [OF ok Cons.prems(1)] req_inv_pass [OF ok Cons.prems(2) req_at_sel(4)] this] False
    show ?thesis by simp
  qed
qed

lemma collect_all_inv:
  assumes ok: "crypto_ok cr" and m: "bsize B \<le> NSLOT"
    and due: "\<forall>i<bsize B. \<exists>t\<in>set (polls i). r_due (req_at env B i) \<le> t"
  shows "batch_inv env cr B k (bsize B) d \<Longrightarrow> k + n = bsize B \<Longrightarrow>
    \<exists>d'. collect_all cr polls k (map (\<lambda>j. sub_head (bstart B) + j) [k..<k + n]) d = Some d' \<and> batch_inv env cr B (bsize B) (bsize B) d'"
proof (induction n arbitrary: k d)
  case (Suc n)
  then have k: "k < bsize B" by simp
  obtain fin where "req_inv cr (ACCEL_OP (ensure_dev env (bstart B))) (req_at env B k) fin d"
    using batch_D(5) [OF Suc.prems(1), of k] k by auto
  from batch_wait [OF ok k m Suc.prems(1) this, of "polls k"] due k obtain d1 where
    d1: "wait_done cr (sub_head (bstart B) + k) (polls k) d = Some d1" "batch_inv env cr B (Suc k) (bsize B) d1"
    by blast
  have e: "[k..<k + Suc n] = k # [Suc k..<Suc k + n]" by (simp add: upt_rec)
  show ?case unfolding e using Suc.IH [OF d1(2)] Suc.prems(2) d1(1) by (simp del: upt_Suc wait_done.simps)
qed simp

text \<open>C17:
  A batch of at most \<open>NSLOT\<close> offloads in flight at once, as PostgreSQL's and MariaDB's \<open>accel_async\<close> make it, does the work of as many
  synchronous offloads: when no other request is pending and the device keeps turning, every wait ends, each buffer of the batch has
  been transformed exactly once, from what it held at the start, and every slot is free again.\<close>

theorem batch_async_served:
  assumes "crypto_ok cr" "n \<le> NSLOT" "\<forall>j. \<not> busy (slots d j)"
    and "\<forall>i<n. \<exists>t\<in>set (polls i). now i + ACCEL_LAT_NS (ensure_dev env d) \<le> t"
  shows "\<exists>d'. db_async env cr now turns polls b n d = Some d' \<and> (\<forall>j. \<not> busy (slots d' j)) \<and> sub_head d' = sub_head d + n \<and>
    (\<forall>i<n. rd (dmem d') (b + i * 4096) 4096 = enc cr (ACCEL_OP (ensure_dev env d)) (rd (dmem d) (b + i * 4096) 4096))"
proof -
  let ?B = "\<lparr>bstart = d, bbase = b, bnow = now, bsize = n\<rparr>"
  have start: "batch_inv env cr ?B 0 0 d"
    using assms(3) by (simp add: batch_inv_def Let_def calm_def input_at_def)
  have due: "\<forall>i<bsize ?B. \<exists>t\<in>set (polls i). r_due (req_at env ?B i) \<le> t"
    using assms(4) by (simp add: req_at_def)
  let ?r = "submit_all env cr now turns b 0 n d"
  have s: "fst ?r = map (\<lambda>j. sub_head d + j) [0..<0 + n]" "batch_inv env cr ?B 0 n (snd ?r)"
    using submit_all_inv [OF assms(1) _ start, of n turns] assms(2) by simp_all
  obtain d' where d': "collect_all cr polls 0 (fst ?r) (snd ?r) = Some d'" "batch_inv env cr ?B n n d'"
    using collect_all_inv [OF assms(1) _ due, of 0 "snd ?r" n] s assms(2) by auto
  have "\<not> busy (slots d' j)" for j using batch_D(4) [OF d'(2), of j] by auto
  moreover have "rd (dmem d') (b + i * 4096) 4096 = enc cr (ACCEL_OP (ensure_dev env d)) (rd (dmem d) (b + i * 4096) 4096)" if "i < n" for i
    using batch_D(6) [OF d'(2) that] by (simp add: calm_def buf_at_def input_at_def)
  moreover have "sub_head d' = sub_head d + n" using batch_D(3) [OF d'(2)] by simp
  ultimately show ?thesis using d'(1) by (simp add: db_async_def case_prod_unfold)
qed

lemma rd_const: "rd (\<lambda>_. x) a n = replicate n x"
  by (simp add: rd_def map_replicate_const)

definition flip_crypto :: crypto where
  "flip_crypto = \<lparr>EVP_ctr = map (\<lambda>x. xor x 90), zcompress = rev, zuncompress = (\<lambda>n. rev)\<rparr>"

theorem batch_async_served_witness:
  "\<exists>d'. db_async (\<lambda>_. None) flip_crypto (\<lambda>i. of_nat i) (\<lambda>i. [5]) (\<lambda>i. [20001, 90000]) 0 3 (accel0 (\<lambda>_. 1)) = Some d' \<and>
     rd (dmem d') 8192 4096 = replicate 4096 91 \<and> sub_head d' = 3"
proof -
  have ok: "crypto_ok flip_crypto" by (simp add: crypto_ok_def flip_crypto_def)
  let ?d = "accel0 (\<lambda>_. 1)"
  have f: "\<forall>j. \<not> busy (slots ?d j)" "ACCEL_LAT_NS (ensure_dev (\<lambda>_. None) ?d) = 20000" "\<not> ACCEL_OP (ensure_dev (\<lambda>_. None) ?d)"
    "sub_head ?d = 0" "rd (dmem ?d) 8192 4096 = replicate 4096 1"
    by (simp_all add: accel0_def ensure_dev_def rd_const)
  have "of_nat i + ACCEL_LAT_NS (ensure_dev (\<lambda>_. None) ?d) \<le> (90000 :: u64)" if "i < 3" for i :: nat
  proof -
    from that consider "i = 0" | "i = 1" | "i = 2" by linarith
    then show ?thesis unfolding f(2) by cases simp_all
  qed
  then have "\<forall>i<3. \<exists>t\<in>set [20001, 90000 :: u64]. of_nat i + ACCEL_LAT_NS (ensure_dev (\<lambda>_. None) ?d) \<le> t" by simp
  from batch_async_served [OF ok _ f(1) this, of "\<lambda>i. [5]" 0] obtain d' where d':
    "db_async (\<lambda>_. None) flip_crypto of_nat (\<lambda>i. [5]) (\<lambda>i. [20001, 90000]) 0 3 ?d = Some d'" "sub_head d' = sub_head ?d + 3"
    "\<forall>i<3. rd (dmem d') (0 + i * 4096) 4096 = enc flip_crypto (ACCEL_OP (ensure_dev (\<lambda>_. None) ?d)) (rd (dmem ?d) (0 + i * 4096) 4096)"
    using NSLOT_def by auto
  have "rd (dmem d') (0 + 2 * 4096) 4096 = enc flip_crypto (ACCEL_OP (ensure_dev (\<lambda>_. None) ?d)) (rd (dmem ?d) (0 + 2 * 4096) 4096)"
    by (rule d'(3) [THEN spec, THEN mp]) simp
  then have "rd (dmem d') 8192 4096 = replicate 4096 91" using f(3,5) by (simp add: enc_def flip_crypto_def)
  then show ?thesis using d'(1,2) f(4) by auto
qed

lemma scast_small:
  fixes w :: "32 word"
  assumes "unat (scast w :: 64 word) \<le> 0x3fffffff"
  shows "unat (scast w :: 64 word) = unat w"
proof -
  have u: "uint (scast w :: 64 word) = sint w mod 2 ^ 64"
    unfolding scast_eq [of w] uint_word_of_int by (simp only: len_num0 len_bit0 len_bit1 len_num1) simp
  have r: "- (2 ^ 31) \<le> sint w" "sint w < 2 ^ 31"
    using sint_greater_eq [of w] sint_less [of w] by simp_all
  have le: "uint (scast w :: 64 word) \<le> 0x3fffffff"
    using assms uint_nat [of "scast w :: 64 word"] by linarith
  have s: "0 \<le> sint w"
  proof (rule ccontr)
    assume "\<not> 0 \<le> sint w"
    then have "(sint w + 2 ^ 64) mod 2 ^ 64 = sint w + 2 ^ 64"
      using r(1) by (intro mod_pos_pos_trivial) simp_all
    then have "sint w mod 2 ^ 64 = sint w + 2 ^ 64" by simp
    then show False using u le r(1) by simp
  qed
  then have "sint w mod 2 ^ 64 = sint w" using r(2) by (intro mod_pos_pos_trivial) simp_all
  moreover have "sint w = uint w"
  proof -
    have "uint w = sint w mod 2 ^ 32" using uint_word_of_int [of "sint w", where 'a = 32] by simp
    then show ?thesis using s r(2) by simp
  qed
  ultimately have "uint (scast w :: 64 word) = uint w" using u by linarith
  then show ?thesis using uint_nat [of "scast w :: 64 word"] uint_nat [of w] by linarith
qed

lemma pg_bufs_size:
  assumes "pg_bufs n = Some z"
  shows "z \<le> 0x3fffffff \<and> z = unat n * 4096 mod 2 ^ 32"
proof -
  have z: "unat (scast (n * 4096) :: 64 word) = z" "z \<le> 0x3fffffff"
    using assms by (auto simp: pg_bufs_def palloc_def split: if_splits)
  then have "z = unat (n * 4096)" using scast_small [of "n * 4096"] by simp
  then show ?thesis using z(2) by (simp add: unat_word_ariths)
qed



section \<open>A missing library\<close>



section \<open>Node's thread pool\<close>

text \<open>
  The contexts of \<open>AccelAsync\<close>, by the number of the call: queued, in a thread of the pool, finished and not yet reported, and the
  callbacks that \<open>Complete\<close> has called, in order. A context lives from its call to its completion.
\<close>

record node =
  issued :: nat
  queued :: "nat list"
  running :: "nat list"
  executed :: "nat list"
  called :: "nat list"

definition node0 :: node where
  "node0 = \<lparr>issued = 0, queued = [], running = [], executed = [], called = []\<rparr>"

datatype node_event = N_call | N_start | N_execute nat | N_complete

definition node_step :: "node_event \<Rightarrow> node \<Rightarrow> node" where
  "node_step e s =
     (case e of
        N_call \<Rightarrow> s\<lparr>issued := issued s + 1, queued := queued s @ [issued s]\<rparr>
      | N_start \<Rightarrow> (case queued s of [] \<Rightarrow> s | c # q \<Rightarrow> s\<lparr>queued := q, running := running s @ [c]\<rparr>)
      | N_execute i \<Rightarrow>
          if i < length (running s)
          then s\<lparr>running := take i (running s) @ drop (Suc i) (running s), executed := executed s @ [running s ! i]\<rparr> else s
      | N_complete \<Rightarrow> (case executed s of [] \<Rightarrow> s | c # q \<Rightarrow> s\<lparr>executed := q, called := called s @ [c]\<rparr>))"

lemma node_step_mset:
  assumes "mset (queued s @ running s @ executed s @ called s) = mset [0..<issued s]"
  shows "mset (queued (node_step e s) @ running (node_step e s) @ executed (node_step e s) @ called (node_step e s)) =
    mset [0..<issued (node_step e s)]"
proof (cases e)
  case (N_execute i)
  have "mset (running s) = add_mset (running s ! i) (mset (take i (running s)) + mset (drop (Suc i) (running s)))" if "i < length (running s)"
    by (metis add_mset_add_single id_take_nth_drop mset.simps(2) mset_append that union_commute union_mset_add_mset_right)
  then show ?thesis using assms N_execute
    by (cases "i < length (running s)") (simp_all add: node_step_def ac_simps)
qed (use assms in \<open>auto simp: node_step_def split: list.split\<close>)

text \<open>Each call of Node's \<open>accelAsync\<close> has its callback called at most once, whatever the order in which the pool's threads start and
  finish, and when nothing is pending every call has had its callback.\<close>

theorem node_callbacks_exact:
  assumes "s = fold node_step es node0"
  shows "distinct (called s) \<and> set (called s) \<subseteq> {0..<issued s} \<and>
    (queued s = [] \<and> running s = [] \<and> executed s = [] \<longrightarrow> mset (called s) = mset [0..<issued s])"
proof -
  have "mset (queued t @ running t @ executed t @ called t) = mset [0..<issued t] \<Longrightarrow>
    mset (queued (fold node_step es t) @ running (fold node_step es t) @ executed (fold node_step es t) @ called (fold node_step es t)) =
      mset [0..<issued (fold node_step es t)]" for t
    by (induction es arbitrary: t) (simp, metis fold_simps(2) node_step_mset)
  from this [of node0] have m: "mset (queued s @ running s @ executed s @ called s) = mset [0..<issued s]"
    by (simp add: assms node0_def)
  have "distinct (queued s @ running s @ executed s @ called s)" using mset_eq_imp_distinct_iff [OF m] by simp
  moreover have "set (called s) \<subseteq> {0..<issued s}" using mset_eq_setD [OF m] by auto
  ultimately show ?thesis using m by auto
qed

theorem node_callbacks_exact_witness:
  "called (fold node_step [N_call, N_call, N_start, N_start, N_execute 1, N_complete, N_execute 0, N_complete] node0) = [1, 0] \<and>
   mset [1, 0] = mset [0..<2]"
proof -
  let ?s = "fold node_step [N_call, N_call, N_start, N_start, N_execute 1, N_complete, N_execute 0, N_complete] node0"
  have "called ?s = [1, 0]" "issued ?s = 2" "queued ?s = []" "running ?s = []" "executed ?s = []"
    by (simp_all add: node_step_def node0_def)
  with node_callbacks_exact [OF refl, of "[N_call, N_call, N_start, N_start, N_execute 1, N_complete, N_execute 0, N_complete]"]
  show ?thesis by metis
qed

section \<open>Interposition\<close>

text \<open>\<open>transparency/libaccel.c\<close>: the routine as it runs on the host.\<close>

definition next_key :: "u32 \<Rightarrow> u32" where
  "next_key k = k * 1664525 + 1013904223"

fun keyed :: "u32 \<Rightarrow> u8 list \<Rightarrow> u8 list" where
  "keyed k [] = []"
| "keyed k (b # bs) = xor b (ucast (drop_bit 17 (next_key k))) # keyed (next_key k) bs"

definition host_encrypt :: "u8 list \<Rightarrow> u8 list" where
  "host_encrypt bs = keyed 0x9e3779b9 bs"

text \<open>\<open>libtoffload.c\<close>: the routine that takes its place, around the \<open>real\<close> one, with its counter.\<close>

definition shim_encrypt :: "(u8 list \<Rightarrow> u8 list) \<Rightarrow> u8 list \<Rightarrow> nat \<Rightarrow> u8 list \<times> nat" where
  "shim_encrypt real bs n = (real bs, n + 1)"

text \<open>\<open>demo_app.c\<close>, with the routine that the dynamic linker gives it and what the routine keeps.\<close>

definition demo_bufs :: "u8 list list" where
  "demo_bufs = map (\<lambda>c. replicate 1024 (of_nat (c + 1))) [0..<64]"

fun offload_bufs :: "(u8 list \<Rightarrow> 's \<Rightarrow> u8 list \<times> 's) \<Rightarrow> u8 list list \<Rightarrow> 's \<Rightarrow> u8 list list \<times> 's" where
  "offload_bufs f [] s = ([], s)"
| "offload_bufs f (b # bs) s = (let (b, s) = f b s; (bs, s) = offload_bufs f bs s in (b # bs, s))"

definition demo_app :: "(u8 list \<Rightarrow> 's \<Rightarrow> u8 list \<times> 's) \<Rightarrow> 's \<Rightarrow> u64 \<times> 's" where
  "demo_app f s = (let (bs, s) = offload_bufs f demo_bufs s in (sum_list (map (\<lambda>b. sum_list (map ucast b)) bs), s))"

lemma keyed_involution: "keyed k (keyed k bs) = bs"
  by (induction k bs rule: keyed.induct) (simp_all add: xor.assoc)

lemma offload_shim:
  "offload_bufs (shim_encrypt real) bs n = (map real bs, n + length bs)"
  "offload_bufs (\<lambda>b s. (real b, s)) bs s = (map real bs, s)"
  by (induction bs arbitrary: n) (simp_all add: shim_encrypt_def)

text \<open>Interposing the offload changes nothing that the demonstration computes: with the shim around any routine the application gets the
  checksum that it gets without it, and the shim has counted its 64 calls, no more and no fewer; and the host's routine is its own inverse.\<close>

theorem interposition_transparent:
  "demo_app (shim_encrypt real) 0 = (fst (demo_app (\<lambda>b s. (real b, s)) ()), 64) \<and> host_encrypt (host_encrypt bs) = bs"
  by (simp add: demo_app_def offload_shim demo_bufs_def host_encrypt_def keyed_involution)

text \<open>\<open>libtlsoffload.c\<close>: the TLS calls with the accelerator's latency around them, on a scratch buffer; \<open>real\<close> is OpenSSL's
  answer, and the list is what was called.\<close>

datatype tls_call = Real_read | Real_write | Accel_scratch

definition shim_SSL_read :: "bool \<Rightarrow> int \<Rightarrow> int \<times> tls_call list" where
  "shim_SSL_read accel real = (real, [Real_read] @ (if real > 0 \<and> accel then [Accel_scratch] else []))"

definition shim_SSL_write :: "bool \<Rightarrow> int \<Rightarrow> int \<Rightarrow> int \<times> tls_call list" where
  "shim_SSL_write accel n real = (real, (if n > 0 \<and> accel then [Accel_scratch] else []) @ [Real_write])"

end
