(* ===== verification/TlsHarness.thy ===== *)
theory TlsHarness
  imports Prelude
begin

text \<open>
  The two TLS harnesses of \<open>conflict-measurement\<close>: \<open>harness.c\<close>, whose connections are two ends in memory, and
  \<open>sess_socket_harness.c\<close>, whose clients resume sessions over sockets. OpenSSL and the kernel are a parameter: a function
  that gives the answer to a call, from all the calls before it. A thread's run is the list of its calls.
\<close>

section \<open>Calls\<close>

datatype endpoint = Client | Server

text \<open>The calls of a thread, with the handles and sizes they are given; a handle is what the call that made it returned.\<close>

datatype lib_call =
    SSL_new endpoint
  | SSL_set_connect_state int | SSL_set_accept_state int
  | BIO_new | BIO_up_ref int
  | SSL_set_bio int int int
  | SSL_do_handshake int | SSL_is_init_finished int | SSL_get_error int int
  | SSL_write int "u8 list" | SSL_read int nat
  | SSL_free int
  | Accept | Socket | Connect int | Nodelay int | Close int
  | SSL_set_fd int int | SSL_accept int | SSL_connect int | SSL_shutdown int
  | SSL_set_session int int | SSL_session_reused int | SSL_get1_session int | SSL_SESSION_free int

type_synonym trace = "(lib_call \<times> int) list"
type_synonym lib = "trace \<Rightarrow> lib_call \<Rightarrow> int"

definition call :: "lib \<Rightarrow> lib_call \<Rightarrow> trace \<Rightarrow> int \<times> trace" where
  "call E c l = (let a = E l c in (a, l @ [(c, a)]))"

text \<open>Calls whose answers are not used, one after the other.\<close>

definition calls :: "lib \<Rightarrow> lib_call list \<Rightarrow> trace \<Rightarrow> trace" where
  "calls E cs l = fold (\<lambda>c l. snd (call E c l)) cs l"

section \<open>The harness in memory\<close>

record tls_conn =
  cli :: int
  srv :: int

text \<open>\<open>None\<close> is \<open>die\<close>, which ends the process.\<close>

definition conn_new :: "lib \<Rightarrow> trace \<Rightarrow> tls_conn option \<times> trace" where
  "conn_new E l =
     (let (c, l) = call E (SSL_new Client) l; (s, l) = call E (SSL_new Server) l
      in if c = 0 \<or> s = 0 then (None, l)
         else (let l = calls E [SSL_set_connect_state c, SSL_set_accept_state s] l;
                   (cw, l) = call E BIO_new l; (sw, l) = call E BIO_new l
               in if cw = 0 \<or> sw = 0 then (None, l)
                  else (Some \<lparr>cli = c, srv = s\<rparr>,
                        calls E [BIO_up_ref cw, BIO_up_ref sw, SSL_set_bio c sw cw, SSL_set_bio s cw sw] l)))"

definition SSL_ERROR_SSL :: int where "SSL_ERROR_SSL = 1"

text \<open>\<open>n\<close> rounds are left; the second end is asked only when the first has finished.\<close>

fun handshake_loop :: "lib \<Rightarrow> nat \<Rightarrow> tls_conn \<Rightarrow> trace \<Rightarrow> unit option \<times> trace" where
  "handshake_loop E 0 c l = (None, l)"
| "handshake_loop E (Suc n) c l =
     (let (rc_c, l) = call E (SSL_do_handshake (cli c)) l; (rc_s, l) = call E (SSL_do_handshake (srv c)) l;
          (f_c, l) = call E (SSL_is_init_finished (cli c)) l;
          (f_s, l) = (if f_c \<noteq> 0 then call E (SSL_is_init_finished (srv c)) l else (0, l))
      in if f_c \<noteq> 0 \<and> f_s \<noteq> 0 then (Some (), l)
         else (let (e_c, l) = call E (SSL_get_error (cli c) rc_c) l
               in if e_c = SSL_ERROR_SSL then (None, l)
                  else (let (e_s, l) = call E (SSL_get_error (srv c) rc_s) l
                        in if e_s = SSL_ERROR_SSL then (None, l) else handshake_loop E n c l)))"

definition do_handshake :: "lib \<Rightarrow> tls_conn \<Rightarrow> trace \<Rightarrow> unit option \<times> trace" where
  "do_handshake E c l = handshake_loop E 64 c l"

text \<open>One exchange of records; with \<open>POSCONTROL\<close> the number of bytes read is added to the shared counter \<open>k\<close>.\<close>

definition do_exchange :: "bool \<Rightarrow> lib \<Rightarrow> tls_conn \<Rightarrow> int \<Rightarrow> trace \<Rightarrow> int option \<times> trace" where
  "do_exchange POSCONTROL E c k l =
     (let (r, l) = call E (SSL_write (cli c) (replicate 256 (of_char CHR ''q''))) l
      in if r \<le> 0 then (None, l)
         else (let (n, l) = call E (SSL_read (srv c) 512) l
               in if n \<le> 0 then (None, l)
                  else (let k = (if POSCONTROL then k + n else k);
                            (r, l) = call E (SSL_write (srv c) (replicate 256 (of_char CHR ''r''))) l
                        in if r \<le> 0 then (None, l)
                           else (let (r, l) = call E (SSL_read (cli c) 512) l
                                 in if r \<le> 0 then (None, l) else (Some k, l)))))"

definition conn_free :: "lib \<Rightarrow> tls_conn \<Rightarrow> trace \<Rightarrow> trace" where
  "conn_free E c l = calls E [SSL_free (cli c), SSL_free (srv c)] l"

text \<open>The bodies of the threads, with \<open>n\<close> iterations left.\<close>

fun worker_handshake :: "lib \<Rightarrow> nat \<Rightarrow> trace \<Rightarrow> unit option \<times> trace" where
  "worker_handshake E 0 l = (Some (), l)"
| "worker_handshake E (Suc n) l =
     (case conn_new E l of
        (None, l) \<Rightarrow> (None, l)
      | (Some c, l) \<Rightarrow> (case do_handshake E c l of
          (None, l) \<Rightarrow> (None, l)
        | (Some u, l) \<Rightarrow> worker_handshake E n (conn_free E c l)))"

fun worker_data :: "bool \<Rightarrow> lib \<Rightarrow> tls_conn \<Rightarrow> nat \<Rightarrow> int \<Rightarrow> trace \<Rightarrow> int option \<times> trace" where
  "worker_data POSCONTROL E c 0 k l = (Some k, l)"
| "worker_data POSCONTROL E c (Suc n) k l =
     (case do_exchange POSCONTROL E c k l of
        (None, l) \<Rightarrow> (None, l)
      | (Some k, l) \<Rightarrow> worker_data POSCONTROL E c n k l)"

text \<open>\<open>main\<close> makes the connections of the data modes before it starts their threads.\<close>

fun pre_connect :: "lib \<Rightarrow> nat \<Rightarrow> trace \<Rightarrow> tls_conn list option \<times> trace" where
  "pre_connect E 0 l = (Some [], l)"
| "pre_connect E (Suc n) l =
     (case conn_new E l of
        (None, l) \<Rightarrow> (None, l)
      | (Some c, l) \<Rightarrow> (case do_handshake E c l of
          (None, l) \<Rightarrow> (None, l)
        | (Some u, l) \<Rightarrow> (case pre_connect E n l of
            (None, l) \<Rightarrow> (None, l)
          | (Some cs, l) \<Rightarrow> (Some (c # cs), l))))"

text \<open>The command line: the mode, the threads and the iterations of each.\<close>

record harness_conf =
  is_hs12 :: bool
  is_handshake :: bool
  POSCONTROL :: bool
  N_THREADS :: int
  N_ITERS :: int
  prewarm :: int

definition harness_main :: "string list \<Rightarrow> harness_conf" where
  "harness_main argv =
     (let mode = (if 1 < length argv then argv ! 1 else ''data'')
      in \<lparr>is_hs12 = mode = ''handshake12'', is_handshake = mode = ''handshake'' \<or> mode = ''handshake12'',
          POSCONTROL = mode = ''poscontrol'',
          N_THREADS = (if 2 < length argv then atoi (argv ! 2) else 4),
          N_ITERS = (if 3 < length argv then atoi (argv ! 3) else 50),
          prewarm = (if 4 < length argv then atoi (argv ! 4) else 0)\<rparr>)"

text \<open>What \<open>main\<close> does before it starts the threads: three handshakes to fill the caches, and the connections of the data modes.\<close>

definition main_start :: "lib \<Rightarrow> harness_conf \<Rightarrow> trace \<Rightarrow> tls_conn list option \<times> trace" where
  "main_start E cf l =
     (case (if prewarm cf \<noteq> 0 then worker_handshake E 3 l else (Some (), l)) of
        (None, l) \<Rightarrow> (None, l)
      | (Some u, l) \<Rightarrow> if is_handshake cf then (Some [], l) else pre_connect E (nat (N_THREADS cf)) l)"

section \<open>The harness over sockets\<close>

text \<open>The command line: the servers, the clients, the run's milliseconds and whether clients resume.\<close>

record sess_conf =
  NSERV :: int
  NCLI :: int
  run_ms :: int
  do_resume :: bool

definition sess_main :: "string list \<Rightarrow> sess_conf" where
  "sess_main argv =
     \<lparr>NSERV = (if 1 < length argv then atoi (argv ! 1) else 8), NCLI = (if 2 < length argv then atoi (argv ! 2) else 8),
      run_ms = (if 3 < length argv then atoi (argv ! 3) else 2000),
      do_resume = (if 4 < length argv then atoi (argv ! 4) \<noteq> 0 else True)\<rparr>"

text \<open>One turn of the server's and the client's loop, which the flag \<open>stop\<close> ends.\<close>

definition server_turn :: "lib \<Rightarrow> nat \<Rightarrow> trace \<Rightarrow> nat \<times> trace" where
  "server_turn E g_accept l =
     (let (fd, l) = call E Accept l
      in if fd < 0 then (g_accept, l)
         else (let l = calls E [Nodelay fd] l; (s, l) = call E (SSL_new Server) l;
                   l = calls E [SSL_set_fd s fd] l; (r, l) = call E (SSL_accept s) l;
                   (g, l) = (if r = 1 then (g_accept + 1, calls E [SSL_read s 64, SSL_write s [111, 107]] l) else (g_accept, l))
               in (g, calls E [SSL_shutdown s, SSL_free s, Close fd] l)))"

text \<open>The client keeps the newest session, \<open>saved\<close>, which is 0 before the first.\<close>

definition client_turn :: "bool \<Rightarrow> lib \<Rightarrow> int \<times> nat \<Rightarrow> trace \<Rightarrow> (int \<times> nat) \<times> trace" where
  "client_turn resume E sg l =
     (case sg of (saved, g_resumed) \<Rightarrow>
       let (fd, l) = call E Socket l; (r, l) = call E (Connect fd) l
       in if r < 0 then ((saved, g_resumed), calls E [Close fd] l)
          else (let l = calls E [Nodelay fd] l; (c, l) = call E (SSL_new Client) l; l = calls E [SSL_set_fd c fd] l;
                    l = (if resume \<and> saved \<noteq> 0 then calls E [SSL_set_session c saved] l else l);
                    (r, l) = call E (SSL_connect c) l;
                    (sg, l) =
                      (if r = 1
                       then (let (u, l) = call E (SSL_session_reused c) l;
                                 g = (if u \<noteq> 0 then g_resumed + 1 else g_resumed);
                                 l = calls E [SSL_write c [104, 105], SSL_read c 64] l;
                                 (ns, l) = call E (SSL_get1_session c) l
                             in if ns \<noteq> 0 then ((ns, g), if saved \<noteq> 0 then calls E [SSL_SESSION_free saved] l else l)
                                else ((saved, g), l))
                       else ((saved, g_resumed), l))
                in (sg, calls E [SSL_shutdown c, SSL_free c, Close fd] l)))"

fun server_thread :: "lib \<Rightarrow> nat \<Rightarrow> nat \<Rightarrow> trace \<Rightarrow> nat \<times> trace" where
  "server_thread E 0 g l = (g, l)"
| "server_thread E (Suc n) g l = (case server_turn E g l of (g, l) \<Rightarrow> server_thread E n g l)"

fun client_thread :: "bool \<Rightarrow> lib \<Rightarrow> nat \<Rightarrow> int \<times> nat \<Rightarrow> trace \<Rightarrow> nat \<times> trace" where
  "client_thread resume E 0 sg l = (snd sg, if fst sg \<noteq> 0 then calls E [SSL_SESSION_free (fst sg)] l else l)"
| "client_thread resume E (Suc n) sg l =
     (case client_turn resume E sg l of (sg, l) \<Rightarrow> client_thread resume E n sg l)"

section \<open>What the calls own\<close>

text \<open>
  The ownership rules of OpenSSL's manual and of the kernel: the live ends with the buffers that each holds, the
  references to buffers and to sessions that the caller owns, and the open descriptors. \<open>SSL_set_bio\<close> hands one reference
  of each buffer over to the end, and \<open>SSL_free\<close> drops what the end holds.
\<close>

record ledger =
  ssls :: "(int \<times> int list) list"
  bio_refs :: "int \<Rightarrow> nat"
  sess_refs :: "int \<Rightarrow> nat"
  open_fds :: "int set"

definition live_ssl :: "ledger \<Rightarrow> int \<Rightarrow> bool" where
  "live_ssl h s = (s \<in> fst ` set (ssls h))"

definition live_bio :: "ledger \<Rightarrow> int \<Rightarrow> bool" where
  "live_bio h b = (0 < bio_refs h b \<or> b \<in> (\<Union>x\<in>set (ssls h). set (snd x)))"

fun legal :: "lib_call \<Rightarrow> ledger \<Rightarrow> bool" where
  "legal (SSL_new e) h = True"
| "legal (SSL_set_connect_state s) h = live_ssl h s"
| "legal (SSL_set_accept_state s) h = live_ssl h s"
| "legal BIO_new h = True"
| "legal (BIO_up_ref b) h = live_bio h b"
| "legal (SSL_set_bio s r w) h = (live_ssl h s \<and> r \<noteq> w \<and> 0 < bio_refs h r \<and> 0 < bio_refs h w)"
| "legal (SSL_do_handshake s) h = live_ssl h s"
| "legal (SSL_is_init_finished s) h = live_ssl h s"
| "legal (SSL_get_error s r) h = live_ssl h s"
| "legal (SSL_write s bs) h = live_ssl h s"
| "legal (SSL_read s n) h = live_ssl h s"
| "legal (SSL_free s) h = live_ssl h s"
| "legal Accept h = True"
| "legal Socket h = True"
| "legal (Connect f) h = True"
| "legal (Nodelay f) h = (f \<in> open_fds h)"
| "legal (Close f) h = (f < 0 \<or> f \<in> open_fds h)"
| "legal (SSL_set_fd s f) h = (live_ssl h s \<and> f \<in> open_fds h)"
| "legal (SSL_accept s) h = live_ssl h s"
| "legal (SSL_connect s) h = live_ssl h s"
| "legal (SSL_shutdown s) h = live_ssl h s"
| "legal (SSL_set_session s x) h = (live_ssl h s \<and> 0 < sess_refs h x)"
| "legal (SSL_session_reused s) h = live_ssl h s"
| "legal (SSL_get1_session s) h = live_ssl h s"
| "legal (SSL_SESSION_free x) h = (0 < sess_refs h x)"

fun acct :: "lib_call \<Rightarrow> int \<Rightarrow> ledger \<Rightarrow> ledger" where
  "acct (SSL_new e) a h = (if a = 0 then h else h\<lparr>ssls := (a, []) # ssls h\<rparr>)"
| "acct BIO_new a h = (if a = 0 then h else h\<lparr>bio_refs := (bio_refs h)(a := 1)\<rparr>)"
| "acct (BIO_up_ref b) a h = h\<lparr>bio_refs := (bio_refs h)(b := bio_refs h b + 1)\<rparr>"
| "acct (SSL_set_bio s r w) a h =
     h\<lparr>ssls := map (\<lambda>x. if fst x = s then (s, [r, w]) else x) (ssls h),
       bio_refs := (bio_refs h)(r := bio_refs h r - 1, w := bio_refs h w - 1)\<rparr>"
| "acct (SSL_free s) a h = h\<lparr>ssls := filter (\<lambda>x. fst x \<noteq> s) (ssls h)\<rparr>"
| "acct Accept a h = (if 0 \<le> a then h\<lparr>open_fds := insert a (open_fds h)\<rparr> else h)"
| "acct Socket a h = (if 0 \<le> a then h\<lparr>open_fds := insert a (open_fds h)\<rparr> else h)"
| "acct (Close f) a h = (if 0 \<le> f then h\<lparr>open_fds := open_fds h - {f}\<rparr> else h)"
| "acct (SSL_get1_session s) a h = (if a = 0 then h else h\<lparr>sess_refs := (sess_refs h)(a := sess_refs h a + 1)\<rparr>)"
| "acct (SSL_SESSION_free x) a h = h\<lparr>sess_refs := (sess_refs h)(x := sess_refs h x - 1)\<rparr>"
| "acct c a h = h"

text \<open>The ledger after a trace; \<open>None\<close> when a call was given a handle that it may not be given.\<close>

fun audit :: "trace \<Rightarrow> ledger \<Rightarrow> ledger option" where
  "audit [] h = Some h"
| "audit ((c, a) # l) h = (if legal c h then audit l (acct c a h) else None)"

text \<open>
  What the harnesses rely on: an object or a descriptor that a call makes is not one that is still live, and only an
  open descriptor connects.
\<close>

fun fresh :: "lib_call \<Rightarrow> int \<Rightarrow> ledger \<Rightarrow> bool" where
  "fresh (SSL_new e) a h = (a = 0 \<or> \<not> live_ssl h a)"
| "fresh BIO_new a h = (a = 0 \<or> \<not> live_bio h a)"
| "fresh Accept a h = (a < 0 \<or> a \<notin> open_fds h)"
| "fresh Socket a h = (a < 0 \<or> a \<notin> open_fds h)"
| "fresh (Connect f) a h = (a < 0 \<or> 0 \<le> f \<and> f \<in> open_fds h)"
| "fresh c a h = True"

definition sound_lib :: "lib \<Rightarrow> ledger \<Rightarrow> bool" where
  "sound_lib E h0 = (\<forall>l c h. audit l h0 = Some h \<longrightarrow> legal c h \<longrightarrow> fresh c (E l c) h)"

text \<open>\<open>sess_socket_harness.c\<close> does not look whether \<open>SSL_new\<close> failed; it needs one that never does.\<close>

definition no_null_ssl :: "lib \<Rightarrow> bool" where
  "no_null_ssl E = (\<forall>l e. E l (SSL_new e) \<noteq> 0)"

section \<open>The ownership discipline\<close>

lemma audit_snoc: "audit (l @ [(c, a)]) h0 = (case audit l h0 of None \<Rightarrow> None | Some h \<Rightarrow> if legal c h then Some (acct c a h) else None)"
  by (induction l h0 rule: audit.induct) auto

lemma audit_append: "audit (l @ m) h0 = (case audit l h0 of None \<Rightarrow> None | Some h \<Rightarrow> audit m h)"
  by (induction l h0 rule: audit.induct) auto

lemma call_audit:
  assumes "sound_lib E h0" "audit l h0 = Some h" "legal c h" "call E c l = (a, l')"
  shows "audit l' h0 = Some (acct c a h) \<and> fresh c a h"
  using assms by (auto simp: call_def Let_def audit_snoc sound_lib_def)

lemma calls_Nil [simp]: "calls E [] l = l"
  by (simp add: calls_def)

lemma calls_Cons: "calls E (c # cs) l = calls E cs (snd (call E c l))"
  by (simp add: calls_def)

text \<open>Calls whose answers are not handles: what they do to the ledger does not depend on the answers.\<close>

fun void :: "lib_call \<Rightarrow> bool" where
  "void (SSL_new e) = False"
| "void BIO_new = False"
| "void Accept = False"
| "void Socket = False"
| "void (SSL_get1_session s) = False"
| "void c = True"

fun legal_all :: "lib_call list \<Rightarrow> ledger \<Rightarrow> bool" where
  "legal_all [] h = True"
| "legal_all (c # cs) h = (void c \<and> legal c h \<and> legal_all cs (acct c 0 h))"

lemma void_acct: "void c \<Longrightarrow> acct c a h = acct c 0 h"
  by (cases c) auto

lemma calls_audit:
  assumes "audit l h0 = Some h" "legal_all cs h"
  shows "audit (calls E cs l) h0 = Some (fold (\<lambda>c. acct c 0) cs h)"
  using assms
proof (induction cs arbitrary: l h)
  case (Cons c cs)
  then have "audit (snd (call E c l)) h0 = Some (acct c 0 h)"
    using void_acct [of c "E l c" h] by (simp add: call_def Let_def audit_snoc)
  then show ?case using Cons.IH Cons.prems by (simp add: calls_Cons)
qed simp

lemma untouched_slots: "s \<notin> fst ` set xs \<Longrightarrow> map (\<lambda>x. if fst x = s then v else x) xs = xs"
  by (intro map_idI) auto

lemma untouched_ssls: "s \<notin> fst ` set xs \<Longrightarrow> filter (\<lambda>x. fst x \<noteq> s) xs = xs"
  by (auto intro!: filter_True)

lemma conn_new_audit:
  assumes E: "sound_lib E h0" and l: "audit l h0 = Some h" and eq: "conn_new E l = (r, l')"
  shows "\<exists>h'. audit l' h0 = Some h' \<and> (\<forall>s. live_ssl h s \<longrightarrow> live_ssl h' s) \<and>
     (\<forall>c. r = Some c \<longrightarrow> live_ssl h' (cli c) \<and> live_ssl h' (srv c) \<and>
        acct (SSL_free (srv c)) a (acct (SSL_free (cli c)) b h') = h \<and> cli c \<noteq> srv c)"
proof -
  obtain c l1 where c: "call E (SSL_new Client) l = (c, l1)" by fastforce
  obtain s l2 where s: "call E (SSL_new Server) l1 = (s, l2)" by fastforce
  have 1: "audit l1 h0 = Some (acct (SSL_new Client) c h)" "fresh (SSL_new Client) c h"
    using call_audit [OF E l _ c] by auto
  let ?h1 = "acct (SSL_new Client) c h"
  have 2: "audit l2 h0 = Some (acct (SSL_new Server) s ?h1)" "fresh (SSL_new Server) s ?h1"
    using call_audit [OF E 1(1) _ s] by auto
  show ?thesis
  proof (cases "c = 0 \<or> s = 0")
    case True
    then show ?thesis using eq c s 2(1) by (auto simp: conn_new_def live_ssl_def)
  next
    case False
    let ?h2 = "acct (SSL_new Server) s ?h1"
    have live: "live_ssl ?h2 c" "live_ssl ?h2 s" "c \<noteq> s"
      using False 2(2) by (auto simp: live_ssl_def)
    let ?l3 = "calls E [SSL_set_connect_state c, SSL_set_accept_state s] l2"
    have 3: "audit ?l3 h0 = Some ?h2"
      using calls_audit [OF 2(1), of "[SSL_set_connect_state c, SSL_set_accept_state s]"] live by simp
    obtain cw l4 where cw: "call E BIO_new ?l3 = (cw, l4)" by fastforce
    obtain sw l5 where sw: "call E BIO_new l4 = (sw, l5)" by fastforce
    have 4: "audit l4 h0 = Some (acct BIO_new cw ?h2)" "fresh BIO_new cw ?h2"
      using call_audit [OF E 3 _ cw] by auto
    have 5: "audit l5 h0 = Some (acct BIO_new sw (acct BIO_new cw ?h2))" "fresh BIO_new sw (acct BIO_new cw ?h2)"
      using call_audit [OF E 4(1) _ sw] by auto
    show ?thesis
    proof (cases "cw = 0 \<or> sw = 0")
      case True
      then show ?thesis using eq False c s cw sw 5(1) by (auto simp: conn_new_def Let_def live_ssl_def)
    next
      case F2: False
      let ?h5 = "acct BIO_new sw (acct BIO_new cw ?h2)"
      have ne: "cw \<noteq> sw" "bio_refs h cw = 0" "bio_refs h sw = 0"
        using 4(2) 5(2) False F2 by (auto simp: live_bio_def split: if_splits)
      let ?h6 = "acct (SSL_set_bio s cw sw) 0 (acct (SSL_set_bio c sw cw) 0 (acct (BIO_up_ref sw) 0 (acct (BIO_up_ref cw) 0 ?h5)))"
      let ?l6 = "calls E [BIO_up_ref cw, BIO_up_ref sw, SSL_set_bio c sw cw, SSL_set_bio s cw sw] l5"
      have 6: "audit ?l6 h0 = Some ?h6"
        using calls_audit [OF 5(1), of "[BIO_up_ref cw, BIO_up_ref sw, SSL_set_bio c sw cw, SSL_set_bio s cw sw]"]
          False F2 ne live(3) by (simp add: live_ssl_def live_bio_def)
      have r: "r = Some \<lparr>cli = c, srv = s\<rparr>" "l' = ?l6"
        using eq False F2 c s cw sw by (auto simp: conn_new_def Let_def)
      have old: "c \<notin> fst ` set (ssls h)" "s \<notin> fst ` set (ssls h)"
        using 1(2) 2(2) False live(3) by (auto simp: live_ssl_def)
      have "acct (SSL_free s) a (acct (SSL_free c) b ?h6) = h"
        using False F2 ne live(3) old by (simp add: untouched_slots untouched_ssls fun_upd_idem)
      then show ?thesis using 6 r False F2 live(3) by (auto simp: live_ssl_def)
    qed
  qed
qed

lemma live_after_free [simp]: "live_ssl (acct (SSL_free s) a h) t = (live_ssl h t \<and> t \<noteq> s)"
  by (auto simp: live_ssl_def)

lemma call_live:
  assumes "audit l h0 = Some h" "legal c h" "acct c 0 h = h" "void c"
  shows "\<exists>a l'. call E c l = (a, l') \<and> audit l' h0 = Some h"
  using assms void_acct [of c "E l c" h] by (simp add: call_def Let_def audit_snoc)

lemma handshake_audit:
  assumes "audit l h0 = Some h" "live_ssl h (cli c)" "live_ssl h (srv c)"
  shows "audit (snd (handshake_loop E n c l)) h0 = Some h"
  using assms(1)
proof (induction n arbitrary: l)
  case (Suc n)
  obtain rc l1 where 1: "call E (SSL_do_handshake (cli c)) l = (rc, l1)" "audit l1 h0 = Some h"
    using call_live [OF Suc.prems, of "SSL_do_handshake (cli c)" E] assms(2) by auto
  obtain rs l2 where 2: "call E (SSL_do_handshake (srv c)) l1 = (rs, l2)" "audit l2 h0 = Some h"
    using call_live [OF 1(2), of "SSL_do_handshake (srv c)" E] assms(3) by auto
  obtain fc l3 where 3: "call E (SSL_is_init_finished (cli c)) l2 = (fc, l3)" "audit l3 h0 = Some h"
    using call_live [OF 2(2), of "SSL_is_init_finished (cli c)" E] assms(2) by auto
  obtain fs l4 where 4: "(if fc \<noteq> 0 then call E (SSL_is_init_finished (srv c)) l3 else (0, l3)) = (fs, l4)" "audit l4 h0 = Some h"
    using call_live [OF 3(2), of "SSL_is_init_finished (srv c)" E] 3(2) assms(3) by (cases "fc = 0") auto
  obtain ec l5 where 5: "call E (SSL_get_error (cli c) rc) l4 = (ec, l5)" "audit l5 h0 = Some h"
    using call_live [OF 4(2), of "SSL_get_error (cli c) rc" E] assms(2) by auto
  obtain es l6 where 6: "call E (SSL_get_error (srv c) rs) l5 = (es, l6)" "audit l6 h0 = Some h"
    using call_live [OF 5(2), of "SSL_get_error (srv c) rs" E] assms(3) by auto
  show ?case using 1 2 3 4 5 6 Suc.IH [OF 6(2)] by (simp add: Let_def)
qed simp

lemma handshake_length: "length (snd (handshake_loop E n c l)) \<le> length l + 6 * n"
proof (induction n arbitrary: l)
  case (Suc n)
  show ?case by (auto simp: call_def Let_def intro!: order.trans [OF Suc.IH])
qed simp

lemma handshake_finished:
  "fst (handshake_loop E n c l) = Some () \<Longrightarrow>
     \<exists>l0 a b. snd (handshake_loop E n c l) = l0 @ [(SSL_is_init_finished (cli c), a), (SSL_is_init_finished (srv c), b)] \<and>
       a \<noteq> 0 \<and> b \<noteq> 0"
proof (induction n arbitrary: l)
  case (Suc n)
  have app: "\<exists>l0. x # y # u @ [p, q] = l0 @ [p, q]" "\<exists>l0. u @ [x, y, p, q] = l0 @ [p, q]"
    for x y p q :: "lib_call \<times> int" and u
    by (rule exI [of _ "x # y # u"], simp) (rule exI [of _ "u @ [x, y]"], simp)
  show ?case using Suc.prems Suc.IH
    by (simp add: call_def Let_def app split: if_splits)
qed simp

lemma worker_handshake_audit:
  assumes E: "sound_lib E h0" and l: "audit l h0 = Some h" and eq: "worker_handshake E n l = (r, l')"
  shows "\<exists>h'. audit l' h0 = Some h' \<and> (r = Some () \<longrightarrow> h' = h)"
  using l eq
proof (induction n arbitrary: l)
  case (Suc n)
  obtain rc l1 where c: "conn_new E l = (rc, l1)" by fastforce
  obtain h1 where h1: "audit l1 h0 = Some h1"
    "\<forall>c. rc = Some c \<longrightarrow> live_ssl h1 (cli c) \<and> live_ssl h1 (srv c) \<and>
        acct (SSL_free (srv c)) 0 (acct (SSL_free (cli c)) 0 h1) = h \<and> cli c \<noteq> srv c"
    using conn_new_audit [OF E Suc.prems(1) c] by blast
  show ?case
  proof (cases rc)
    case None
    then show ?thesis using Suc.prems(2) c h1 by auto
  next
    case (Some k)
    obtain rh l2 where hs: "do_handshake E k l1 = (rh, l2)" by fastforce
    have h2: "audit l2 h0 = Some h1"
      using handshake_audit [OF h1(1), of k E 64] h1(2) Some hs by (simp add: do_handshake_def)
    have "audit (conn_free E k l2) h0 = Some h"
      using calls_audit [OF h2, of "[SSL_free (cli k), SSL_free (srv k)]" E] h1(2) Some
      by (simp add: conn_free_def del: acct.simps)
    then show ?thesis using Suc c Some hs h2 by (cases rh) auto
  qed
qed simp

lemma exchange_audit:
  assumes "audit l h0 = Some h" "live_ssl h (cli c)" "live_ssl h (srv c)"
  shows "audit (snd (do_exchange P E c k l)) h0 = Some h"
proof -
  obtain a l1 where 1: "call E (SSL_write (cli c) (replicate 256 (of_char CHR ''q''))) l = (a, l1)" "audit l1 h0 = Some h"
    using call_live [OF assms(1), of "SSL_write (cli c) (replicate 256 (of_char CHR ''q''))" E] assms(2) by auto
  obtain b l2 where 2: "call E (SSL_read (srv c) 512) l1 = (b, l2)" "audit l2 h0 = Some h"
    using call_live [OF 1(2), of "SSL_read (srv c) 512" E] assms(3) by auto
  obtain d l3 where 3: "call E (SSL_write (srv c) (replicate 256 (of_char CHR ''r''))) l2 = (d, l3)" "audit l3 h0 = Some h"
    using call_live [OF 2(2), of "SSL_write (srv c) (replicate 256 (of_char CHR ''r''))" E] assms(3) by auto
  obtain e l4 where 4: "call E (SSL_read (cli c) 512) l3 = (e, l4)" "audit l4 h0 = Some h"
    using call_live [OF 3(2), of "SSL_read (cli c) 512" E] assms(2) by auto
  show ?thesis using 1 2 3 4 by (simp add: do_exchange_def Let_def)
qed

lemma worker_data_audit:
  assumes "audit l h0 = Some h" "live_ssl h (cli c)" "live_ssl h (srv c)"
  shows "audit (snd (worker_data P E c n k l)) h0 = Some h"
  using assms
proof (induction P E c n k l rule: worker_data.induct)
  case (2 P E c n k l)
  obtain r l1 where x: "do_exchange P E c k l = (r, l1)" by fastforce
  have "audit l1 h0 = Some h" using exchange_audit [OF 2(2-4), of P E k] x by simp
  then show ?case using 2 x by (cases r) auto
qed simp

lemma pre_connect_audit:
  assumes E: "sound_lib E h0" and l: "audit l h0 = Some h" and eq: "pre_connect E n l = (r, l')"
  shows "\<exists>h'. audit l' h0 = Some h' \<and> (\<forall>s. live_ssl h s \<longrightarrow> live_ssl h' s) \<and>
     (\<forall>cs. r = Some cs \<longrightarrow> length cs = n \<and> (\<forall>c\<in>set cs. live_ssl h' (cli c) \<and> live_ssl h' (srv c)))"
  using l eq
proof (induction n arbitrary: l h r l')
  case (Suc n)
  obtain rc l1 where c: "conn_new E l = (rc, l1)" by fastforce
  obtain h1 where h1: "audit l1 h0 = Some h1"
    "\<forall>c. rc = Some c \<longrightarrow> live_ssl h1 (cli c) \<and> live_ssl h1 (srv c) \<and>
        acct (SSL_free (srv c)) 0 (acct (SSL_free (cli c)) 0 h1) = h \<and> cli c \<noteq> srv c"
    "\<forall>s. live_ssl h s \<longrightarrow> live_ssl h1 s"
    using conn_new_audit [OF E Suc.prems(1) c] by blast
  show ?case
  proof (cases rc)
    case None
    then show ?thesis using Suc.prems(2) c h1 by auto
  next
    case (Some k)
    obtain rh l2 where hs: "do_handshake E k l1 = (rh, l2)" by fastforce
    have h2: "audit l2 h0 = Some h1"
      using handshake_audit [OF h1(1), of k E 64] h1(2) Some hs by (simp add: do_handshake_def)
    obtain rp l3 where p: "pre_connect E n l2 = (rp, l3)" by fastforce
    from Suc.IH [OF h2 p] obtain h3 where h3: "audit l3 h0 = Some h3" "\<forall>s. live_ssl h1 s \<longrightarrow> live_ssl h3 s"
      "\<forall>cs. rp = Some cs \<longrightarrow> length cs = n \<and> (\<forall>c\<in>set cs. live_ssl h3 (cli c) \<and> live_ssl h3 (srv c))" by blast
    show ?thesis
    proof (cases rh)
      case None
      then show ?thesis using Suc.prems(2) c Some hs h2 h1(3) by auto
    next
      case (Some u)
      have "r = map_option (Cons k) rp" "l' = l3"
        using Suc.prems(2) c \<open>rc = Some k\<close> hs p Some by (cases rp; simp)+
      moreover have "live_ssl h3 (cli k) \<and> live_ssl h3 (srv k)" "\<forall>s. live_ssl h s \<longrightarrow> live_ssl h3 s"
        using h1(2,3) h3(2) \<open>rc = Some k\<close> by blast+
      ultimately show ?thesis using h3(1,3) by auto
    qed
  qed
qed auto

subsection \<open>Sessions\<close>

text \<open>The client's own reference to the newest session.\<close>

definition own_session :: "int \<Rightarrow> ledger \<Rightarrow> ledger" where
  "own_session x h = (if x = 0 then h else h\<lparr>sess_refs := (sess_refs h)(x := sess_refs h x + 1)\<rparr>)"

lemma own_session_fields [simp]:
  "ssls (own_session x h) = ssls h" "open_fds (own_session x h) = open_fds h" "bio_refs (own_session x h) = bio_refs h"
  by (simp_all add: own_session_def)

lemma newest_session_kept:
  "ns \<noteq> 0 \<Longrightarrow> saved \<noteq> 0 \<Longrightarrow>
     acct (SSL_SESSION_free saved) a (acct (SSL_get1_session s) ns (own_session saved h)) = own_session ns h"
  by (auto simp: own_session_def fun_eq_iff intro!: ledger.equality)

lemma last_session_freed: "saved \<noteq> 0 \<Longrightarrow> acct (SSL_SESSION_free saved) a (own_session saved h) = h"
  by (simp add: own_session_def)

text \<open>Opening an end on a descriptor, and closing both: the ledger is what it was.\<close>

definition opened :: "int \<Rightarrow> int \<Rightarrow> ledger \<Rightarrow> ledger" where
  "opened s fd h = h\<lparr>ssls := (s, []) # ssls h, open_fds := insert fd (open_fds h)\<rparr>"

lemma opened_legal [simp]: "live_ssl (opened s fd h) s" "fd \<in> open_fds (opened s fd h)" "sess_refs (opened s fd h) = sess_refs h"
  by (simp_all add: opened_def live_ssl_def)

lemma opened_sessions:
  "acct (SSL_get1_session t) a (opened s fd h) = opened s fd (acct (SSL_get1_session t) a h)"
  "acct (SSL_SESSION_free x) a (opened s fd h) = opened s fd (acct (SSL_SESSION_free x) a h)"
  by (simp_all add: opened_def)

lemma closing_audit:
  assumes "audit l h0 = Some (opened s fd h)" "\<not> live_ssl h s" "fd \<notin> open_fds h" "0 \<le> fd"
  shows "audit (calls E [SSL_shutdown s, SSL_free s, Close fd] l) h0 = Some h"
  using calls_audit [OF assms(1), of "[SSL_shutdown s, SSL_free s, Close fd]" E] assms(2-4)
  by (simp add: opened_def live_ssl_def untouched_ssls)

lemma server_turn_audit:
  assumes E: "sound_lib E h0" "no_null_ssl E" and l: "audit l h0 = Some h"
  shows "audit (snd (server_turn E g l)) h0 = Some h"
proof -
  obtain fd l1 where a: "call E Accept l = (fd, l1)" by fastforce
  have 1: "audit l1 h0 = Some (acct Accept fd h)" "fresh Accept fd h"
    using call_audit [OF E(1) l _ a] by auto
  show ?thesis
  proof (cases "fd < 0")
    case True
    then show ?thesis using a 1 by (simp add: server_turn_def)
  next
    case False
    let ?h1 = "acct Accept fd h" and ?l2 = "calls E [Nodelay fd] l1"
    have 2: "audit ?l2 h0 = Some ?h1"
      using calls_audit [OF 1(1), of "[Nodelay fd]" E] False by simp
    obtain s l3 where s: "call E (SSL_new Server) ?l2 = (s, l3)" by fastforce
    have s0: "s \<noteq> 0" using E(2) s by (auto simp: no_null_ssl_def call_def Let_def)
    have 3: "audit l3 h0 = Some (opened s fd h)" "\<not> live_ssl h s" "fd \<notin> open_fds h"
      using call_audit [OF E(1) 2 _ s] s0 False 1(2) by (auto simp: opened_def live_ssl_def)
    let ?l4 = "calls E [SSL_set_fd s fd] l3"
    have 4: "audit ?l4 h0 = Some (opened s fd h)"
      using calls_audit [OF 3(1), of "[SSL_set_fd s fd]" E] by simp
    obtain r l5 where r: "call E (SSL_accept s) ?l4 = (r, l5)" "audit l5 h0 = Some (opened s fd h)"
      using call_live [OF 4, of "SSL_accept s" E] by auto
    have 6: "audit (if r = 1 then calls E [SSL_read s 64, SSL_write s [111, 107]] l5 else l5) h0 = Some (opened s fd h)"
      using calls_audit [OF r(2), of "[SSL_read s 64, SSL_write s [111, 107]]" E] r(2) by simp
    show ?thesis using closing_audit [OF 6 3(2,3), of E] False a s r by (simp add: server_turn_def Let_def split: if_splits)
  qed
qed

lemma client_turn_audit:
  assumes E: "sound_lib E h0" "no_null_ssl E" and l: "audit l h0 = Some (own_session saved h)"
    and eq: "client_turn resume E (saved, g) l = ((saved', g'), l')"
  shows "audit l' h0 = Some (own_session saved' h)"
proof -
  let ?h = "own_session saved h"
  obtain fd l1 where a: "call E Socket l = (fd, l1)" by fastforce
  have 1: "audit l1 h0 = Some (acct Socket fd ?h)" "fresh Socket fd ?h"
    using call_audit [OF E(1) l _ a] by auto
  obtain r' l2 where c: "call E (Connect fd) l1 = (r', l2)" by fastforce
  have 2: "audit l2 h0 = Some (acct Socket fd ?h)" "fresh (Connect fd) r' (acct Socket fd ?h)"
    using call_audit [OF E(1) 1(1) _ c] by auto
  show ?thesis
  proof (cases "r' < 0")
    case True
    have "audit (calls E [Close fd] l2) h0 = Some ?h"
      using calls_audit [OF 2(1), of "[Close fd]" E] 1(2) by (auto simp: own_session_def)
    then show ?thesis using True eq a c by (simp add: client_turn_def)
  next
    case False
    have fd: "\<not> fd < 0" "fd \<notin> open_fds h"
      using 1(2) 2(2) False by auto
    let ?h1 = "acct Socket fd ?h" and ?l3 = "calls E [Nodelay fd] l2"
    have 3: "audit ?l3 h0 = Some ?h1"
      using calls_audit [OF 2(1), of "[Nodelay fd]" E] fd by simp
    obtain s l4 where s: "call E (SSL_new Client) ?l3 = (s, l4)" by fastforce
    have s0: "s \<noteq> 0" using E(2) s by (auto simp: no_null_ssl_def call_def Let_def)
    have 4: "audit l4 h0 = Some (opened s fd ?h)" "\<not> live_ssl h s"
      using call_audit [OF E(1) 3 _ s] s0 fd by (auto simp: opened_def live_ssl_def)
    let ?l5 = "calls E [SSL_set_fd s fd] l4"
    have 5: "audit ?l5 h0 = Some (opened s fd ?h)"
      using calls_audit [OF 4(1), of "[SSL_set_fd s fd]" E] by simp
    let ?l6 = "if resume \<and> saved \<noteq> 0 then calls E [SSL_set_session s saved] ?l5 else ?l5"
    have 6: "audit ?l6 h0 = Some (opened s fd ?h)"
      using calls_audit [OF 5, of "[SSL_set_session s saved]" E] 5 by (auto simp: own_session_def)
    obtain r l7 where r: "call E (SSL_connect s) ?l6 = (r, l7)" "audit l7 h0 = Some (opened s fd ?h)"
      using call_live [OF 6, of "SSL_connect s" E] by auto
    obtain u l8 where u: "call E (SSL_session_reused s) l7 = (u, l8)" "audit l8 h0 = Some (opened s fd ?h)"
      using call_live [OF r(2), of "SSL_session_reused s" E] by auto
    let ?l9 = "calls E [SSL_write s [104, 105], SSL_read s 64] l8"
    have 9: "audit ?l9 h0 = Some (opened s fd ?h)"
      using calls_audit [OF u(2), of "[SSL_write s [104, 105], SSL_read s 64]" E] by simp
    obtain ns l10 where n: "call E (SSL_get1_session s) ?l9 = (ns, l10)" by fastforce
    have 10: "audit l10 h0 = Some (acct (SSL_get1_session s) ns (opened s fd ?h))"
      using call_audit [OF E(1) 9 _ n] by simp
    let ?l11 = "if saved \<noteq> 0 then calls E [SSL_SESSION_free saved] l10 else l10"
    have 11: "audit ?l11 h0 = Some (opened s fd (own_session ns h))" if "ns \<noteq> 0"
    proof (cases "saved = 0")
      case True
      then show ?thesis using 10 that by (simp add: opened_def own_session_def)
    next
      case False
      have "legal (SSL_SESSION_free saved) (acct (SSL_get1_session s) ns (opened s fd ?h))"
        using False by (simp add: own_session_def)
      then show ?thesis
        using calls_audit [OF 10, of "[SSL_SESSION_free saved]" E] False newest_session_kept [OF that False, of 0 s h]
        by (simp add: opened_sessions del: acct.simps legal.simps)
    qed
    have nz: "\<not> live_ssl ?h s" "fd \<notin> open_fds ?h" "0 \<le> fd"
      using 4(2) fd by (simp_all add: live_ssl_def)
    show ?thesis
    proof (cases "r = 1")
      case False
      then show ?thesis using eq \<open>\<not> r' < 0\<close> a c s r closing_audit [OF r(2) nz, of E]
        by (simp add: client_turn_def Let_def)
    next
      case True
      show ?thesis
      proof (cases "ns = 0")
        case T: True
        have "audit l10 h0 = Some (opened s fd ?h)" using 10 T by simp
        from closing_audit [OF this nz, of E] show ?thesis
          using eq True T \<open>\<not> r' < 0\<close> a c s r u n by (auto simp: client_turn_def Let_def)
      next
        case F: False
        have nz': "\<not> live_ssl (own_session ns h) s" "fd \<notin> open_fds (own_session ns h)"
          using nz by (simp_all add: live_ssl_def)
        from closing_audit [OF 11 [OF F] nz' nz(3), of E] show ?thesis
          using eq True F \<open>\<not> r' < 0\<close> a c s r u n by (auto simp: client_turn_def Let_def)
      qed
    qed
  qed
qed

lemma server_thread_audit:
  "sound_lib E h0 \<Longrightarrow> no_null_ssl E \<Longrightarrow> audit l h0 = Some h \<Longrightarrow> audit (snd (server_thread E n g l)) h0 = Some h"
proof (induction n arbitrary: g l)
  case (Suc n)
  then show ?case using server_turn_audit [OF Suc.prems, of g] by (simp add: case_prod_unfold)
qed simp

lemma client_thread_audit:
  "sound_lib E h0 \<Longrightarrow> no_null_ssl E \<Longrightarrow> audit l h0 = Some (own_session saved h) \<Longrightarrow>
     audit (snd (client_thread resume E n (saved, g) l)) h0 = Some h"
proof (induction n arbitrary: saved g l)
  case 0
  show ?case
    using calls_audit [OF 0(3), of "[SSL_SESSION_free saved]" E] 0(3) last_session_freed [of saved 0 h]
    by (cases "saved = 0") (simp_all add: own_session_def)
next
  case (Suc n)
  obtain saved' g' l' where t: "client_turn resume E (saved, g) l = ((saved', g'), l')"
    using prod.exhaust by metis
  show ?case using Suc.IH [OF Suc.prems(1,2) client_turn_audit [OF Suc.prems t]] t by simp
qed

text \<open>The two counters that the threads keep, against the answers of the library.\<close>

fun accepted :: "lib_call \<times> int \<Rightarrow> bool" where
  "accepted (SSL_accept s, a) = (a = 1)"
| "accepted x = False"

fun reused :: "lib_call \<times> int \<Rightarrow> bool" where
  "reused (SSL_session_reused s, a) = (a \<noteq> 0)"
| "reused x = False"

definition answers :: "(lib_call \<times> int \<Rightarrow> bool) \<Rightarrow> trace \<Rightarrow> nat" where
  "answers P l = length (filter P l)"

lemma answers_call: "answers P (snd (call E c l)) = answers P l + (if P (c, fst (call E c l)) then 1 else 0)"
  by (simp add: answers_def call_def Let_def)

lemma server_thread_counts:
  "fst (server_thread E n g l) + answers accepted l = g + answers accepted (snd (server_thread E n g l))"
proof (induction n arbitrary: g l)
  case (Suc n)
  have "fst (server_turn E g l) + answers accepted l = g + answers accepted (snd (server_turn E g l))"
    by (simp add: server_turn_def case_prod_unfold Let_def calls_Cons answers_call)
  then show ?case using Suc.IH [of "fst (server_turn E g l)" "snd (server_turn E g l)"]
    by (simp add: case_prod_unfold)
qed simp

lemma client_turn_counts:
  "snd (fst (client_turn resume E sg l)) + answers reused l = snd sg + answers reused (snd (client_turn resume E sg l))"
  by (simp add: client_turn_def case_prod_unfold Let_def calls_Cons answers_call)

lemma client_thread_counts:
  "fst (client_thread resume E n sg l) + answers reused l = snd sg + answers reused (snd (client_thread resume E n sg l))"
proof (induction n arbitrary: sg l)
  case 0
  show ?case by (simp add: calls_Cons answers_call)
next
  case (Suc n)
  show ?case using client_turn_counts [of resume E sg l] Suc.IH [of "fst (client_turn resume E sg l)" "snd (client_turn resume E sg l)"]
    by (simp add: case_prod_unfold)
qed

section \<open>A library\<close>

text \<open>The smallest library the harnesses run with: handles are never used twice, and every end finishes at once.\<close>

definition topmost :: "trace \<Rightarrow> int" where
  "topmost l = fold (\<lambda>x m. max m (snd x)) l 0"

fun plain_lib :: lib where
  "plain_lib l (SSL_new e) = topmost l + 1"
| "plain_lib l BIO_new = topmost l + 1"
| "plain_lib l Accept = topmost l + 1"
| "plain_lib l Socket = topmost l + 1"
| "plain_lib l (SSL_get1_session s) = topmost l + 1"
| "plain_lib l (Connect f) = (if l \<noteq> [] \<and> last l = (Socket, f) \<and> 0 \<le> f then 0 else -1)"
| "plain_lib l (SSL_write s bs) = int (length bs)"
| "plain_lib l (SSL_read s n) = int (min n 256)"
| "plain_lib l c = 1"

definition no_objects :: ledger where
  "no_objects = \<lparr>ssls = [], bio_refs = (\<lambda>_. 0), sess_refs = (\<lambda>_. 0), open_fds = {}\<rparr>"

lemma topmost_snoc [simp]: "topmost (l @ [x]) = max (topmost l) (snd x)"
  by (simp add: topmost_def)

lemma topmost_nonneg: "0 \<le> topmost l"
  by (induction l rule: rev_induct) (simp_all add: topmost_def)

lemma handles_below:
  assumes "audit l no_objects = Some h"
  shows "(\<forall>x\<in>set (ssls h). fst x \<le> topmost l \<and> (\<forall>b\<in>set (snd x). b \<le> topmost l)) \<and>
    (\<forall>b. 0 < bio_refs h b \<longrightarrow> b \<le> topmost l) \<and> (\<forall>f\<in>open_fds h. f \<le> topmost l)"
  using assms
proof (induction l arbitrary: h rule: rev_induct)
  case (snoc x l)
  obtain c a where x: "x = (c, a)" by (cases x)
  with snoc.prems obtain g where g: "audit l no_objects = Some g" "legal c g" "h = acct c a g"
    by (auto simp: audit_snoc split: option.splits if_splits)
  show ?case using snoc.IH [OF g(1)] g(2,3) x by (cases c) (force simp: live_bio_def le_max_iff_disj split: if_splits)+
qed (simp add: no_objects_def)

lemma plain_lib_sound: "sound_lib plain_lib no_objects"
  unfolding sound_lib_def
proof (intro allI impI)
  fix l c h assume a: "audit l no_objects = Some h"
  note b = handles_below [OF a]
  show "fresh c (plain_lib l c) h"
  proof (cases c)
    case (Connect f)
    have "f \<in> open_fds h" if "l \<noteq> []" "last l = (Socket, f)" "0 \<le> f"
    proof -
      have "l = butlast l @ [(Socket, f)]" using that by (metis append_butlast_last_id)
      then obtain g where "h = acct Socket f g" using a audit_snoc [of "butlast l" Socket f no_objects]
        by (auto split: option.splits)
      then show ?thesis using that by simp
    qed
    then show ?thesis using Connect by simp
  qed (use b in \<open>force simp: live_ssl_def live_bio_def\<close>)+
qed

section \<open>What the harnesses are for\<close>

lemma main_start_audit:
  assumes E: "sound_lib E h0" and l: "audit l h0 = Some h" and eq: "main_start E cf l = (Some cs, l')"
  shows "(if is_handshake cf then cs = [] else length cs = nat (N_THREADS cf)) \<and>
    (\<exists>h1. audit l' h0 = Some h1 \<and> (is_handshake cf \<longrightarrow> h1 = h) \<and> (\<forall>c\<in>set cs. live_ssl h1 (cli c) \<and> live_ssl h1 (srv c)))"
proof -
  obtain l1 where w: "(if prewarm cf \<noteq> 0 then worker_handshake E 3 l else (Some (), l)) = (Some (), l1)"
    using eq by (auto simp: main_start_def split: prod.splits option.splits)
  have 1: "audit l1 h0 = Some h"
    using w l worker_handshake_audit [OF E l, of 3 "Some ()" l1] by (auto split: if_splits)
  have r: "(if is_handshake cf then (Some [], l1) else pre_connect E (nat (N_THREADS cf)) l1) = (Some cs, l')"
    using eq w by (simp add: main_start_def)
  show ?thesis
  proof (cases "is_handshake cf")
    case True
    then show ?thesis using r 1 by auto
  next
    case False
    then show ?thesis using pre_connect_audit [OF E 1, of "nat (N_THREADS cf)" "Some cs" l'] r by auto
  qed
qed

lemma exchange_counter:
  assumes "\<forall>l s m. E l (SSL_read s m) \<le> int m" "do_exchange P E c k l = (Some k', l')"
  shows "(P \<longrightarrow> k + 1 \<le> k' \<and> k' \<le> k + 512) \<and> (\<not> P \<longrightarrow> k' = k)"
  using assms(2) assms(1)[rule_format, of _ "srv c" 512] by (auto simp: do_exchange_def call_def Let_def split: if_splits)

lemma worker_data_counter:
  assumes "\<forall>l s m. E l (SSL_read s m) \<le> int m" "worker_data P E c n k l = (Some k', l')"
  shows "(P \<longrightarrow> k + int n \<le> k' \<and> k' \<le> k + 512 * int n) \<and> (\<not> P \<longrightarrow> k' = k)"
  using assms(2)
proof (induction n arbitrary: k l)
  case (Suc n)
  obtain r l1 where x: "do_exchange P E c k l = (r, l1)" by fastforce
  with Suc.prems obtain k1 where r: "r = Some k1" by (cases r) auto
  show ?case using Suc.IH [of k1 l1] Suc.prems x r exchange_counter [OF assms(1), of P c k l k1 l1] by auto
qed simp

text \<open>C11:
  The calls of the in-memory harness are well typed: whatever OpenSSL answers, a handshake worker passes to every
  call only objects of the type that the call takes and that are still allocated, drops every reference exactly once,
  and owns at its end what it owned before. The connections that \<open>main\<close> makes for the data modes are all live, and
  a data worker makes only well-typed calls on them.\<close>

theorem memory_harness_owned:
  assumes "sound_lib E h0" "audit l h0 = Some h"
  shows "(\<exists>h'. audit (snd (worker_handshake E n l)) h0 = Some h' \<and> (fst (worker_handshake E n l) = Some () \<longrightarrow> h' = h)) \<and>
    (\<forall>cs l1. main_start E cf l = (Some cs, l1) \<longrightarrow> (if is_handshake cf then cs = [] else length cs = nat (N_THREADS cf)) \<and>
       (\<exists>h1. audit l1 h0 = Some h1 \<and> (is_handshake cf \<longrightarrow> h1 = h) \<and>
          (\<forall>c\<in>set cs. \<forall>P m k. audit (snd (worker_data P E c m k l1)) h0 = Some h1)))"
proof (intro conjI allI impI)
  show "\<exists>h'. audit (snd (worker_handshake E n l)) h0 = Some h' \<and> (fst (worker_handshake E n l) = Some () \<longrightarrow> h' = h)"
    by (rule worker_handshake_audit [OF assms, where r = "fst (worker_handshake E n l)"]) simp
next
  fix cs l1 assume p: "main_start E cf l = (Some cs, l1)"
  from main_start_audit [OF assms p]
  show "if is_handshake cf then cs = [] else length cs = nat (N_THREADS cf)" by auto
  from main_start_audit [OF assms p] obtain h1 where h1: "audit l1 h0 = Some h1" "is_handshake cf \<longrightarrow> h1 = h"
    "\<forall>c\<in>set cs. live_ssl h1 (cli c) \<and> live_ssl h1 (srv c)"
    by auto
  then show "\<exists>h1. audit l1 h0 = Some h1 \<and> (is_handshake cf \<longrightarrow> h1 = h) \<and>
      (\<forall>c\<in>set cs. \<forall>P m k. audit (snd (worker_data P E c m k l1)) h0 = Some h1)"
    using worker_data_audit by blast
qed

theorem memory_harness_owned_witness:
  "audit (snd (worker_handshake plain_lib 2 [])) no_objects = Some no_objects \<and>
   fst (worker_handshake plain_lib 2 []) = Some () \<and> length (snd (worker_handshake plain_lib 2 [])) = 32 \<and>
   (\<exists>cs l1. main_start plain_lib (harness_main [''harness'', ''data'', ''2'']) [] = (Some cs, l1) \<and> length cs = 2)"
proof -
  let ?cf = "harness_main [''harness'', ''data'', ''2'']"
  have cf: "\<not> is_handshake ?cf \<and> N_THREADS ?cf = 2" by code_simp
  note t = memory_harness_owned [OF plain_lib_sound, of "[]" no_objects 2 ?cf]
  have f: "fst (worker_handshake plain_lib 2 []) = Some ()" "length (snd (worker_handshake plain_lib 2 [])) = 32" by code_simp+
  have "fst (main_start plain_lib ?cf []) \<noteq> None" by code_simp
  then obtain cs l1 where p: "main_start plain_lib ?cf [] = (Some cs, l1)" by (cases "main_start plain_lib ?cf []") auto
  from t have "length cs = 2" using p cf by simp
  moreover have "audit (snd (worker_handshake plain_lib 2 [])) no_objects = Some no_objects" using t f(1) by simp
  ultimately show ?thesis using f p by blast
qed





end
