(* ===== verification/ZlibHarness.thy ===== *)
theory ZlibHarness
  imports Prelude
begin

text \<open>
  \<open>conflict-measurement/zlib_harness.c\<close>: threads that compress one source and add to shared statistics, with or without a lock. zlib
  is a parameter; the threads interleave at every access to the statistics.
\<close>

section \<open>The program\<close>

record zconf =
  N_THREADS :: int
  N_ITERS :: int
  MODE_DICT :: bool
  MODE_STATS :: bool
  MODE_LOCK :: bool

definition zlib_main :: "string list \<Rightarrow> zconf" where
  "zlib_main argv =
     (let mode = (if 1 < length argv then argv ! 1 else ''pure'')
      in \<lparr>N_THREADS = (if 2 < length argv then atoi (argv ! 2) else 8),
          N_ITERS = (if 3 < length argv then atoi (argv ! 3) else 2000),
          MODE_DICT = mode = ''shareddict'',
          MODE_STATS = mode = ''stats_nolock'' \<or> mode = ''stats_lock'',
          MODE_LOCK = mode = ''stats_lock''\<rparr>)"

definition DICT :: string where
  "DICT = ''the quick brown fox jumps over the lazy dog 0123456789''"

definition SRCLEN :: nat where "SRCLEN = 8192"

definition SRC :: string where
  "SRC = map (\<lambda>i. ''the quick brown fox 0123456789 '' ! (i mod 31)) [0..<SRCLEN]"

text \<open>
  What \<open>deflate\<close> gives for a dictionary and a source; \<open>None\<close> is a stream that does not end in the output buffer of \<open>cap\<close> bytes, on which
  \<open>handle\<close> ends the process. \<open>produced\<close> is the number of bytes it wrote.
\<close>

type_synonym deflater = "string option \<Rightarrow> string \<Rightarrow> nat \<Rightarrow> string option"

definition produced :: "deflater \<Rightarrow> zconf \<Rightarrow> nat \<Rightarrow> nat option" where
  "produced z cf cap = map_option length (z (if MODE_DICT cf then Some DICT else None) SRC cap)"

text \<open>The statistics \<open>in\<close>, \<open>out\<close> and \<open>count\<close> are the cells 0, 1 and 2; this is what one event adds to each.\<close>

definition added :: "nat \<Rightarrow> nat \<Rightarrow> nat" where
  "added out c = (if c = 0 then SRCLEN else if c = 1 then out else 1)"

text \<open>Where a thread is in \<open>handle\<close>; \<open>ziter\<close> is the \<open>i\<close> of its loop.\<close>

datatype zphase = Z_deflate | Z_lock | Z_load nat | Z_store nat nat | Z_unlock | Z_end

record zlibh =
  zphase :: "nat \<Rightarrow> zphase"
  ziter :: "nat \<Rightarrow> nat"
  stats :: "nat \<Rightarrow> nat"
  stats_mtx :: "nat option"

definition zlibh0 :: "zlibh" where
  "zlibh0 = \<lparr>zphase = (\<lambda>_. Z_deflate), ziter = (\<lambda>_. 0), stats = (\<lambda>_. 0), stats_mtx = None\<rparr>"

definition zgo :: "nat \<Rightarrow> zphase \<Rightarrow> zlibh \<Rightarrow> zlibh" where
  "zgo i p s = s\<lparr>zphase := (zphase s)(i := p)\<rparr>"

text \<open>The end of an event, and of the thread's loop behind its last.\<close>

definition next_event :: "zconf \<Rightarrow> nat \<Rightarrow> zlibh \<Rightarrow> zlibh" where
  "next_event cf i s =
     s\<lparr>ziter := (ziter s)(i := ziter s i + 1),
       zphase := (zphase s)(i := (if int (ziter s i + 1) < N_ITERS cf then Z_deflate else Z_end))\<rparr>"

definition zworker :: "zconf \<Rightarrow> nat \<Rightarrow> nat \<Rightarrow> zlibh \<Rightarrow> zlibh" where
  "zworker cf out i s =
     (case zphase s i of
        Z_deflate \<Rightarrow>
          if N_ITERS cf \<le> int (ziter s i) then zgo i Z_end s
          else if MODE_STATS cf then zgo i (if MODE_LOCK cf then Z_lock else Z_load 0) s else next_event cf i s
      | Z_lock \<Rightarrow> if stats_mtx s = None then zgo i (Z_load 0) (s\<lparr>stats_mtx := Some i\<rparr>) else s
      | Z_load c \<Rightarrow> zgo i (Z_store c (stats s c)) s
      | Z_store c v \<Rightarrow>
          (let s = s\<lparr>stats := (stats s)(c := v + added out c)\<rparr>
           in if c < 2 then zgo i (Z_load (c + 1)) s else if MODE_LOCK cf then zgo i Z_unlock s else next_event cf i s)
      | Z_unlock \<Rightarrow> next_event cf i (s\<lparr>stats_mtx := None\<rparr>)
      | Z_end \<Rightarrow> s)"

definition zlib_run :: "zconf \<Rightarrow> nat \<Rightarrow> nat list \<Rightarrow> zlibh" where
  "zlib_run cf out is = fold (zworker cf out) is zlibh0"

section \<open>Under the lock\<close>

definition zheld :: "zphase \<Rightarrow> bool" where
  "zheld p \<longleftrightarrow> (case p of Z_load c \<Rightarrow> True | Z_store c v \<Rightarrow> True | Z_unlock \<Rightarrow> True | _ \<Rightarrow> False)"

text \<open>Whether the event in progress has added to the cell \<open>c\<close>.\<close>

definition zpast :: "nat \<Rightarrow> zphase \<Rightarrow> bool" where
  "zpast c p \<longleftrightarrow> (case p of Z_load k \<Rightarrow> c < k | Z_store k v \<Rightarrow> c < k | Z_unlock \<Rightarrow> True | _ \<Rightarrow> False)"

definition zevents :: "nat \<Rightarrow> zlibh \<Rightarrow> nat" where
  "zevents n s = (\<Sum>i<n. ziter s i)"

definition zlocal :: "zconf \<Rightarrow> nat option \<Rightarrow> (nat \<Rightarrow> nat) \<Rightarrow> nat \<Rightarrow> zphase \<Rightarrow> nat \<Rightarrow> bool" where
  "zlocal cf m st i p k \<longleftrightarrow> zheld p = (m = Some i) \<and> int k \<le> max 0 (N_ITERS cf) \<and>
     (p = Z_end \<longrightarrow> int k = max 0 (N_ITERS cf)) \<and> (zheld p \<or> p = Z_lock \<longrightarrow> int k < N_ITERS cf) \<and>
     (case p of Z_load c \<Rightarrow> c < 3 | Z_store c v \<Rightarrow> c < 3 \<and> v = st c | _ \<Rightarrow> True)"

definition zcells :: "nat \<Rightarrow> nat \<Rightarrow> zlibh \<Rightarrow> bool" where
  "zcells out n s \<longleftrightarrow> (\<forall>c<3. stats s c = added out c * (zevents n s + (if \<exists>i. zpast c (zphase s i) then 1 else 0)))"

definition zinv :: "zconf \<Rightarrow> nat \<Rightarrow> nat \<Rightarrow> zlibh \<Rightarrow> bool" where
  "zinv cf out n s \<longleftrightarrow> (\<forall>i. zlocal cf (stats_mtx s) (stats s) i (zphase s i) (ziter s i)) \<and> zcells out n s"

lemma z_simps [simp]:
  "zheld (Z_load c)" "zheld (Z_store c v)" "zheld Z_unlock" "\<not> zheld Z_deflate" "\<not> zheld Z_lock" "\<not> zheld Z_end"
  "zpast c (Z_load k) = (c < k)" "zpast c (Z_store k v) = (c < k)" "zpast c Z_unlock" "\<not> zpast c Z_deflate" "\<not> zpast c Z_lock" "\<not> zpast c Z_end"
  by (simp_all add: zheld_def zpast_def)

lemma zpast_held: "zpast c p \<Longrightarrow> zheld p"
  by (cases p) simp_all

lemma zinv_D:
  assumes "zinv cf out n s"
  shows "zheld (zphase s i) = (stats_mtx s = Some i)" and "zlocal cf (stats_mtx s) (stats s) i (zphase s i) (ziter s i)"
    and "zcells out n s"
  using assms by (simp_all add: zinv_def zlocal_def)

text \<open>Only the holder of the lock is past a cell.\<close>

lemma zpast_only:
  assumes "zinv cf out n s" "zheld (zphase s i)"
  shows "(\<exists>j. zpast c (zphase s j)) = zpast c (zphase s i)" and "(\<exists>j. zpast c (((zphase s)(i := p)) j)) = zpast c p"
proof -
  have o: "zpast c (zphase s j) \<Longrightarrow> j = i" for j
    using zpast_held zinv_D(1) [OF assms(1)] assms(2) by (metis option.inject)
  then show "(\<exists>j. zpast c (zphase s j)) = zpast c (zphase s i)" by blast
  show "(\<exists>j. zpast c (((zphase s)(i := p)) j)) = zpast c p"
    using o by (metis fun_upd_apply)
qed

lemma zpast_none:
  assumes "zinv cf out n s" "stats_mtx s = None"
  shows "\<not> zpast c (zphase s j)"
  using assms zpast_held zinv_D(1) by (metis option.distinct(1))

text \<open>A step of thread \<open>i\<close>: what has to be shown of it.\<close>

lemma zlocal_other:
  assumes "zlocal cf m st j p k" "(m' = Some j) = (m = Some j)" "m = Some j \<longrightarrow> st' = st"
  shows "zlocal cf m' st' j p k"
  using assms by (cases p) (auto simp: zlocal_def)

lemma zinv_stepI:
  assumes inv: "zinv cf out n s" and f: "zphase s' = (zphase s)(i := p)" "ziter s' = (ziter s)(i := k)"
    and i: "zlocal cf (stats_mtx s') (stats s') i p k"
    and m: "\<And>j. j \<noteq> i \<Longrightarrow> (stats_mtx s' = Some j) = (stats_mtx s = Some j)"
    and st: "stats_mtx s = Some i \<or> stats s' = stats s" and cells: "zcells out n s'"
  shows "zinv cf out n s'"
  unfolding zinv_def f
proof (intro conjI allI)
  fix j
  show "zlocal cf (stats_mtx s') (stats s') j (((zphase s)(i := p)) j) (((ziter s)(i := k)) j)"
  proof (cases "j = i")
    case False
    have "zlocal cf (stats_mtx s) (stats s) j (zphase s j) (ziter s j)" using inv by (simp add: zinv_def)
    from zlocal_other [OF this m [OF False]] st False show ?thesis by auto
  qed (use i in simp)
qed (rule cells)

lemma zevents_next:
  fixes f :: "nat \<Rightarrow> nat"
  assumes "i < n"
  shows "(\<Sum>j<n. (f(i := f i + 1)) j) = (\<Sum>j<n. f j) + (1 :: nat)"
proof -
  have "(\<Sum>j<n. (f(i := f i + 1)) j) = (\<Sum>j<n. f j + (if j = i then 1 else 0))" by (intro sum.cong) auto
  also have "\<dots> = (\<Sum>j<n. f j) + (\<Sum>j<n. if j = i then 1 else 0)" by (rule sum.distrib)
  also have "(\<Sum>j<n. if j = i then 1 else 0) = (1 :: nat)" using assms by (subst sum.delta) auto
  finally show ?thesis .
qed

lemma zcells_go:
  assumes "\<And>c. zpast c p = zpast c (zphase s i)"
  shows "zcells out n (zgo i p s) = zcells out n s"
proof -
  have "zpast c (zphase (zgo i p s) j) = zpast c (zphase s j)" for c j using assms by (simp add: zgo_def)
  moreover have "stats (zgo i p s) = stats s" "zevents n (zgo i p s) = zevents n s" by (simp_all add: zgo_def zevents_def)
  ultimately show ?thesis by (simp only: zcells_def)
qed

lemma zcells_mtx [simp]: "zcells out n (s\<lparr>stats_mtx := m\<rparr>) = zcells out n s"
  by (simp add: zcells_def zevents_def)

lemma zgo_inv:
  assumes "zinv cf out n s" "zphase t = zphase s" "ziter t = ziter s" "zlocal cf (stats_mtx t) (stats t) i p (ziter s i)"
    and "\<And>j. j \<noteq> i \<Longrightarrow> (stats_mtx t = Some j) = (stats_mtx s = Some j)"
    and "stats_mtx s = Some i \<or> stats t = stats s" "zcells out n (zgo i p t)"
  shows "zinv cf out n (zgo i p t)"
  by (rule zinv_stepI [OF assms(1), where i = i and p = p and k = "ziter s i"]) (use assms in \<open>simp_all add: zgo_def\<close>)

lemma zworker_inv:
  assumes inv: "zinv cf out n s" and i: "i < n" and cf: "MODE_STATS cf" "MODE_LOCK cf"
  shows "zinv cf out n (zworker cf out i s)"
proof -
  have loc: "zlocal cf (stats_mtx s) (stats s) i (zphase s i) (ziter s i)" and cells: "zcells out n s"
    using inv by (simp_all add: zinv_def)
  show ?thesis
  proof (cases "zphase s i")
    case Z_deflate
    let ?p = "if N_ITERS cf \<le> int (ziter s i) then Z_end else Z_lock"
    have e: "zworker cf out i s = zgo i ?p s" using Z_deflate cf by (simp add: zworker_def)
    have "zcells out n (zgo i ?p s)" using cells zcells_go [of ?p s i] by (simp add: Z_deflate)
    moreover have "zlocal cf (stats_mtx s) (stats s) i ?p (ziter s i)" using loc by (auto simp: zlocal_def Z_deflate max_def)
    ultimately show ?thesis unfolding e by (intro zgo_inv [OF inv]) simp_all
  next
    case Z_lock
    show ?thesis
    proof (cases "stats_mtx s")
      case None
      let ?t = "s\<lparr>stats_mtx := Some i\<rparr>"
      have e: "zworker cf out i s = zgo i (Z_load 0) ?t" using Z_lock None by (simp add: zworker_def)
      have "zcells out n (zgo i (Z_load 0) ?t)"
        using cells zcells_go [of "Z_load 0" ?t i] by (simp add: Z_lock)
      moreover have "zlocal cf (stats_mtx ?t) (stats ?t) i (Z_load 0) (ziter s i)" using loc by (simp add: zlocal_def Z_lock)
      ultimately show ?thesis unfolding e using None by (intro zgo_inv [OF inv]) simp_all
    next
      case (Some j)
      then show ?thesis using inv Z_lock by (simp add: zworker_def)
    qed
  next
    case (Z_load c)
    have e: "zworker cf out i s = zgo i (Z_store c (stats s c)) s" using Z_load by (simp add: zworker_def)
    have "zcells out n (zgo i (Z_store c (stats s c)) s)"
      using cells zcells_go [of "Z_store c (stats s c)" s i] by (simp add: Z_load)
    moreover have "zlocal cf (stats_mtx s) (stats s) i (Z_store c (stats s c)) (ziter s i)" using loc by (simp add: zlocal_def Z_load)
    ultimately show ?thesis unfolding e by (intro zgo_inv [OF inv]) simp_all
  next
    case (Z_store c v)
    then have h: "zheld (zphase s i)" by simp
    have v: "v = stats s c" "c < 3" "stats_mtx s = Some i" using loc Z_store by (auto simp: zlocal_def)
    let ?p = "if c < 2 then Z_load (c + 1) else Z_unlock" and ?t = "s\<lparr>stats := (stats s)(c := v + added out c)\<rparr>"
    have e: "zworker cf out i s = zgo i ?p ?t" using Z_store cf by (simp add: zworker_def Let_def)
    have past: "(\<exists>j. zpast k (zphase (zgo i ?p ?t) j)) = (k < c \<or> k = c \<or> 2 \<le> c)" "(\<exists>j. zpast k (zphase s j)) = (k < c)" for k
      using zpast_only(2) [OF inv h, of k ?p] zpast_only(1) [OF inv h, of k] by (auto simp: zgo_def Z_store)
    have "zevents n (zgo i ?p ?t) = zevents n s" by (simp add: zgo_def zevents_def)
    then have "zcells out n (zgo i ?p ?t)"
      unfolding zcells_def past using cells v(1,2) unfolding zcells_def past by (auto simp: zgo_def)
    moreover have "zlocal cf (stats_mtx ?t) (stats ?t) i ?p (ziter s i)" using loc v by (simp add: zlocal_def Z_store)
    ultimately show ?thesis unfolding e using v(3) by (intro zgo_inv [OF inv]) simp_all
  next
    case Z_unlock
    then have h: "zheld (zphase s i)" by simp
    let ?p = "if int (ziter s i + 1) < N_ITERS cf then Z_deflate else Z_end"
    let ?t = "next_event cf i (s\<lparr>stats_mtx := None\<rparr>)"
    have e: "zworker cf out i s = ?t" using Z_unlock by (simp add: zworker_def)
    have mtx: "stats_mtx s = Some i" using loc by (simp add: zlocal_def Z_unlock)
    have past: "(\<exists>j. zpast k (zphase ?t j)) = False" "(\<exists>j. zpast k (zphase s j)) = True" for k
      using zpast_only(2) [OF inv h, of k ?p] zpast_only(1) [OF inv h, of k] by (simp_all add: next_event_def Z_unlock)
    have "zevents n ?t = zevents n s + 1" "stats ?t = stats s"
      using zevents_next [OF i, of "ziter s"] by (simp_all add: next_event_def zevents_def)
    then have "zcells out n ?t"
      using cells unfolding zcells_def past by simp
    moreover have "zlocal cf (stats_mtx ?t) (stats ?t) i ?p (ziter s i + 1)" using loc by (auto simp: zlocal_def Z_unlock next_event_def)
    ultimately show ?thesis unfolding e using mtx
      by (intro zinv_stepI [OF inv, where i = i and p = ?p and k = "ziter s i + 1"]) (simp_all add: next_event_def)
  next
    case Z_end
    then show ?thesis using inv by (simp add: zworker_def)
  qed
qed

lemma zinv_run:
  assumes "MODE_STATS cf" "MODE_LOCK cf" "\<forall>i\<in>set is. i < n"
  shows "zinv cf out n (zlib_run cf out is)"
proof -
  have "zinv cf out n s \<Longrightarrow> zinv cf out n (fold (zworker cf out) is s)" for s
    using assms(3) by (induction "is" arbitrary: s) (simp_all add: zworker_inv assms(1,2))
  moreover have "zinv cf out n zlibh0" by (simp add: zinv_def zlibh0_def zevents_def zlocal_def zcells_def)
  ultimately show ?thesis by (simp add: zlib_run_def)
qed

lemma zrun_outside:
  assumes "\<forall>i\<in>set is. i < n" "n \<le> j"
  shows "zphase (zlib_run cf out is) j = Z_deflate"
proof -
  have o: "j \<noteq> i \<Longrightarrow> zphase (zworker cf out i s) j = zphase s j" for i s
    by (simp add: zworker_def zgo_def next_event_def Let_def split: zphase.split)
  have "zphase (fold (zworker cf out) is s) j = zphase s j" for s
    using assms by (induction "is" arbitrary: s) (auto simp: o)
  then show ?thesis by (simp add: zlib_run_def zlibh0_def)
qed

text \<open>C37:
  In the mode with the lock the statistics are exact: in every interleaving of the threads each of the three fields is what the
  finished events add, apart from the one event that holds the lock, and when all threads have ended the fields are those of
  all the events that were asked for. Without the lock two threads can lose an update.\<close>

theorem locked_stats_exact:
  assumes "MODE_STATS cf" "MODE_LOCK cf" "\<forall>i\<in>set is. i < n" "s = zlib_run cf out is"
  shows "(stats_mtx s = None \<longrightarrow> (\<forall>c<3. stats s c = added out c * zevents n s)) \<and>
    ((\<forall>i<n. zphase s i = Z_end) \<longrightarrow> (\<forall>c<3. stats s c = added out c * (n * nat (N_ITERS cf))))"
proof -
  have inv: "zinv cf out n s" using zinv_run [OF assms(1-3)] assms(4) by simp
  have free: "stats s c = added out c * zevents n s" if "stats_mtx s = None" "c < 3" for c
    using zinv_D(3) [OF inv] zpast_none [OF inv that(1)] that(2) by (simp add: zcells_def)
  have ended: "stats_mtx s = None \<and> zevents n s = n * nat (N_ITERS cf)" if e: "\<forall>i<n. zphase s i = Z_end"
  proof
    show "stats_mtx s = None"
    proof (rule ccontr)
      assume "stats_mtx s \<noteq> None"
      then obtain j where "stats_mtx s = Some j" by auto
      then have "zheld (zphase s j)" using zinv_D(1) [OF inv] by simp
      moreover have "zphase s j = Z_deflate" if "n \<le> j" using zrun_outside [OF assms(3) that] assms(4) by simp
      ultimately show False using e by (cases "j < n") auto
    qed
    have "ziter s i = nat (N_ITERS cf)" if "i < n" for i
      using zinv_D(2) [OF inv, of i] e that by (auto simp: zlocal_def)
    then show "zevents n s = n * nat (N_ITERS cf)" by (simp add: zevents_def)
  qed
  then show ?thesis using free by auto
qed

definition two_threads :: "nat list" where
  "two_threads = [0, 1, 0, 1, 0, 0, 1, 0, 0, 0, 0, 0, 1, 0] @ replicate 7 1"

theorem locked_stats_exact_witness:
  "let s = zlib_run (zlib_main [''z'', ''stats_lock'', ''2'', ''1'']) 100 two_threads
   in zphase s 0 = Z_end \<and> zphase s 1 = Z_end \<and> stats s 0 = 16384 \<and> stats s 1 = 200 \<and> stats s 2 = 2"
proof -
  let ?cf = "zlib_main [''z'', ''stats_lock'', ''2'', ''1'']"
  let ?s = "zlib_run ?cf 100 two_threads"
  have cf: "MODE_STATS ?cf \<and> MODE_LOCK ?cf \<and> N_ITERS ?cf = 1" by code_simp
  have p: "zphase ?s 0 = Z_end" "zphase ?s 1 = Z_end" by code_simp+
  have "\<forall>i\<in>set two_threads. i < 2" by (simp add: two_threads_def)
  from locked_stats_exact [OF _ _ this refl, of ?cf 100] cf p
  have "\<forall>c<3. stats ?s c = added 100 c * (2 * 1)" by (auto simp: less_2_cases_iff)
  then have "stats ?s 0 = added 100 0 * 2" "stats ?s 1 = added 100 1 * 2" "stats ?s 2 = added 100 2 * 2" by auto
  then show ?thesis using p by (simp add: Let_def added_def SRCLEN_def)
qed

text \<open>Without the lock the same two events can leave the statistics of one.\<close>

lemma unlocked_stats_lost:
  "let s = zlib_run (zlib_main [''z'', ''stats_nolock'', ''2'', ''1'']) 100 (concat (replicate 7 [0, 1]))
   in zphase s 0 = Z_end \<and> zphase s 1 = Z_end \<and> stats s 2 = 1 \<and> stats s 1 = 100"
  by code_simp

end
