(* ===== verification/Spec2Isabelle.thy ===== *)
theory Spec2Isabelle
  imports Ring Fiber FiberArm Detector DetTest DetRedisInv Accel ThreadServers RedisAccel NgxAccel Tls TimeSpec
    RuntimeIO RuntimeLocks RuntimeLimits Spop AesEquiv GpuRuntime GpuHeavy ConflictDet TcoServer AccelCompare OpenLoop
    InferSkel Taxonomy TcoGpu GpuPlain BatchDemo Barrier Clients HostGlue TlsHarness ZlibHarness
begin

text \<open>
  Transparent offload: a blocking server is run, unchanged, on fibers of one carrier thread, and a fiber that waits for
  an accelerator or a descriptor gives the carrier to another. The development models the C sources under \<open>src/\<close>: the
  runtime, the accelerators behind it, the detector of the conflicts that the interleaving can cause, the servers and
  modules that use them, and the experiments that measure them. Paths below are relative to \<open>src/\<close>; a definition has
  the name of the function it translates, with a suffix where that name is taken.

  \<^bold>\<open>How the parts interact.\<close> \<open>transparent-runtime/libtransparent.c\<close> interposes the calls of a server. Its carrier takes
  fibers from an intake queue, polls descriptors, asks the accelerator which requests are done and switches to the
  fibers that can run (\<open>fw_fiber.c\<close>, \<open>fw_switch.S\<close>); each yield saves what the C library keeps per thread. The
  accelerator is any library with \<open>accel_submit\<close>, \<open>accel_done\<close> and \<open>accel_release\<close>. The detector (\<open>detector.c\<close>) is told
  of parks and checks writes to protected pages. Redis, HAProxy and nginx integrations reach the accelerators through
  worker threads instead, and the experiments under \<open>runtime/\<close> and \<open>conflict-measurement/\<close> carry small runtimes of
  their own.

  \<^bold>\<open>Shared theories.\<close> \<open>Prelude\<close> has the machine integers, C strings, buffers in memory and the collections of facts.
  \<open>Ring\<close> has the job ring that the integrations share and the contract \<open>fifo\<close> of a queue, interpreted on the ring.

  \<^bold>\<open>The runtime.\<close>
  \<^item> \<open>Fiber\<close> and \<open>FiberArm\<close>: the switch as lists of x86-64 and aarch64 instructions with an executable semantics, and the
    frame that \<open>fw_fiber_make\<close> lays out. A switch away and back is the identity on what the calling convention keeps; on
    aarch64 the vector registers are not kept.
  \<^item> \<open>Tls\<close>: \<open>tls_save\<close>, \<open>tls_restore\<close> and the experiment \<open>coop_err.c\<close>. \<open>TimeSpec\<close>: the deadlines of \<open>poll\<close> and of
    timed waits.
  \<^item> \<open>Runtime\<close>: the state of \<open>libtransparent.c\<close> (fibers, slots, registrations, locks, conditions, rings, flags) and a step
    for everything that can happen between two switches: a phase of the carrier's loop, an interposed call, a step of
    a real thread, the kernel. What the kernel and the application do is the input of a step, so a property of all runs
    is a property of all programs and schedules. An undefined access makes the step \<open>None\<close>.
  \<^item> \<open>RuntimeInv\<close>: the invariant and its preservation by every step. \<open>RuntimeSafe\<close>: no access to a freed fiber, a
    carrier that never blocks, and an \<open>errno\<close> of its own for every fiber. \<open>RuntimeIO\<close>: wake-ups by descriptors.
    \<open>RuntimeLocks\<close>: the handler lock, conditions and mutexes. \<open>RuntimeLimits\<close>: the tables at their bounds.

  \<^bold>\<open>Accelerators.\<close>
  \<^item> \<open>Accel\<close>: the device thread and table of \<open>libaccel.c\<close>, and \<open>libaccel_remote.c\<close>. AES and zlib are parameters. The
    contract of the three calls is a locale, interpreted on both.
  \<^item> \<open>AesGpu\<close>, \<open>AesEquiv\<close>: the block function and the kernel of \<open>gpu/aes_gpu.cu\<close>, proved equal to FIPS 197, written from
    the field arithmetic; a launch XORs each block with its own key stream in every order of the threads. \<open>GpuLib\<close>,
    \<open>GpuHeavy\<close>, \<open>GpuRuntime\<close>: \<open>libaccel_gpu.cu\<close>, \<open>libaccel_gpu_heavy.cu\<close> and \<open>runtime/gpu_runtime_verify.cu\<close> over
    streams of queued work, with the interleaving of host and device as input. \<open>GpuPlain\<close>: the earlier
    \<open>runtime/gpu_runtime.cu\<close>, a simulation of which by the verifying form carries the results over. \<open>BatchDemo\<close>:
    \<open>gpu/batch_demo.cu\<close>, whose fused kernel shifts the counters of all requests but the first.

  \<^bold>\<open>Conflicts.\<close>
  \<^item> \<open>Detector\<close>: the fault handler, versions and protection of \<open>detector.c\<close>; its count is exact. \<open>DetTest\<close>: the test program
    \<open>detector/detector_test.c\<close>, run in every order of its fibers.
  \<^item> \<open>DetRedis\<close>, \<open>DetRedisInv\<close>: the module \<open>apps/redis/detector_module.c\<close> with its gates, and the invariant that follows a
    job through queues, workers and the reply.
  \<^item> \<open>ConflictDet\<close>: speculation, serialization and locks of \<open>runtime/conflict_detector.c\<close>. \<open>InferSkel\<close>, \<open>Taxonomy\<close>:
    \<open>conflict-measurement/inference_skel.c\<close> and \<open>pattern_taxonomy.c\<close>. \<open>ZlibHarness\<close>: the statistics of \<open>zlib_harness.c\<close>,
    exact under the lock.
  \<^item> \<open>TlsHarness\<close>: \<open>harness.c\<close> and \<open>sess_socket_harness.c\<close> as the calls that a thread makes, with OpenSSL as the function
    that answers them. A ledger of what the calls own follows OpenSSL's manual; \<open>audit\<close> is undefined when a call is given what it
    may not be given, so that a defined audit which ends where it began is type safety without leaks.

  \<^bold>\<open>Servers and integrations.\<close>
  \<^item> \<open>TcoServer\<close>: \<open>runtime/tco_server.c\<close> against an abstract specification, the replies to the requests in what has
    arrived; its client, which checks them. \<open>TcoGpu\<close>: the server of \<open>runtime/tco_server_gpu.cu\<close>, which composes the loops
    of \<open>ThreadServers\<close> with the streams of \<open>GpuLib\<close>. \<open>AccelCompare\<close>, \<open>OpenLoop\<close>: the two latency experiments.
  \<^item> \<open>ThreadServers\<close>: \<open>conn_server.c\<close>, \<open>infer_server.c\<close>, \<open>hostile_server.c\<close> and \<open>remote_hsm.c\<close>; the contract
    \<open>reply_loop\<close> of their loops is interpreted on three of them. The signer is composed with the client in \<open>Accel\<close>.
    \<open>Clients\<close>: \<open>client.c\<close>, composed with the connection server, and \<open>echo_backend.c\<close>. \<open>Barrier\<close>: \<open>barrier_server.c\<close> with its
    rwlock, mutex and timed waits, composed with \<open>bclient.c\<close>.
  \<^item> \<open>Spop\<close>: \<open>apps/haproxy_accel/spoa_agent.c\<close>, its integers, frames and threads. \<open>RedisAccel\<close>: \<open>apps/redis/accel_module.c\<close>.
    \<open>NgxAccel\<close>: \<open>apps/ngx_accel/ngx_http_accel_module.c\<close>. \<open>HostGlue\<close>: the bindings for PostgreSQL, MariaDB, Apache, Node and
    Lua, the shim \<open>libtlsoffload.c\<close> and the demonstration under \<open>transparency/\<close>; the databases' batches are composed with
    \<open>Accel\<close>.

  \<^bold>\<open>What the lemmas show.\<close> Each component has an invariant with one lemma for each operation that keeps it, and theorems
  that follow from the invariant in every reachable state. Where the code has a contract with its surroundings, the
  theorem states it over what is observed (bytes written, replies sent, requests served). Progress is stated with a
  bound: a number of turns after which everything is answered, never only that what is returned is right. Where
  the code is wrong, a lemma exhibits a run: an overrun ring, a lost wake-up, a lost update, a use after free.

  \<^bold>\<open>Bounds and fuel.\<close> Constants are those of the code. Loops that wait for another thread are stepped by explicit lists
  of events and need no fuel; \<open>Accel.wait_done\<close> and \<open>ConflictDet.dispatcher\<close> recurse over the device's turns, and
  \<open>dispatcher_returns\<close> says how many are enough. The variable-length integers recurse with a measure. Counters that
  only grow are natural numbers where the code's 64-bit counter cannot wrap in practice.

  \<^bold>\<open>Assumed of other code.\<close> The calls of the kernel, CUDA, OpenSSL, zlib, Redis and nginx are parameters or inputs; a
  theorem that relies on one of them says so in a premise with a name: a sealing or signing function has a result of the
  right length, a new object is not one that is still live, OpenSSL's put function puts back what was taken, memory for a reply is found.

  \<^bold>\<open>Not modelled.\<close> The programs that print the session cache after a handshake (\<open>sesscheck.c\<close>, \<open>sesscheck2.c\<close>, \<open>dbg.c\<close>); the timing
  loops; the tables by which modules register with their hosts; \<open>redismodule.h\<close>, which is Redis's. Thread placement, priorities,
  sorting of samples and printing are left out everywhere. Memory is sequentially consistent: reorderings by the compiler or the
  processor are not modelled.
\<close>

end
